(* ===== verification/GlidePrelude.thy ===== *)
theory GlidePrelude
  imports Main "HOL-Library.Word"
begin

text \<open>
  Shared vocabulary of the development.  Bytes and the fixed-width integers of
  the Rust sources are machine words, fallible functions return a sum whose
  left side is the error, byte ranges are \<open>bslice\<close>, and \<open>to_le_bytes\<close> and
  \<open>from_le_bytes\<close> are the little-endian integer codecs of the Rust standard
  library.  The collection \<open>codec_simps\<close> holds the length and round-trip facts
  of those codecs; \<open>list_simps\<close> the facts on slices and option-valued maps.
\<close>

type_synonym byte = "8 word"
type_synonym bytes = "8 word list"
type_synonym u16 = "16 word"
type_synonym u32 = "32 word"
type_synonym u64 = "64 word"
type_synonym u128 = "128 word"

named_theorems codec_simps
named_theorems list_simps

section \<open>Results\<close>

definition is_ok :: "'e + 'a \<Rightarrow> bool" where
  "is_ok r = (case r of Inl _ \<Rightarrow> False | Inr _ \<Rightarrow> True)"

lemma is_ok_simps [simp]:
  "is_ok (Inr a)" "\<not> is_ok (Inl e)"
  by (simp_all add: is_ok_def)

definition sum_bind :: "'e + 'a \<Rightarrow> ('a \<Rightarrow> 'e + 'b) \<Rightarrow> 'e + 'b" where
  "sum_bind r f = (case r of Inl e \<Rightarrow> Inl e | Inr a \<Rightarrow> f a)"

lemma sum_bind_simps [simp]:
  "sum_bind (Inr a) f = f a" "sum_bind (Inl e) f = Inl e"
  by (simp_all add: sum_bind_def)

lemma sum_bind_eq_Inr [simp]:
  "sum_bind r f = Inr b \<longleftrightarrow> (\<exists>a. r = Inr a \<and> f a = Inr b)"
  by (cases r) simp_all

lemma sum_bind_eq_Inl:
  "sum_bind r f = Inl e \<longleftrightarrow> r = Inl e \<or> (\<exists>a. r = Inr a \<and> f a = Inl e)"
  by (cases r) simp_all

lemma sum_bind_cong [fundef_cong]:
  "\<lbrakk> r = r'; \<And>a. r' = Inr a \<Longrightarrow> f a = f' a \<rbrakk> \<Longrightarrow> sum_bind r f = sum_bind r' f'"
  by (cases r') simp_all

section \<open>Byte ranges\<close>

definition bslice :: "nat \<Rightarrow> nat \<Rightarrow> 'a list \<Rightarrow> 'a list" where
  "bslice a b xs = take (b - a) (drop a xs)"

lemma length_slice [list_simps]:
  "b \<le> length xs \<Longrightarrow> length (bslice a b xs) = b - a"
  by (simp add: bslice_def)

lemma slice_append_left [list_simps]:
  "b \<le> length xs \<Longrightarrow> bslice a b (xs @ ys) = bslice a b xs"
  by (simp add: bslice_def)

lemma slice_append_right [list_simps]:
  "length xs \<le> a \<Longrightarrow> bslice a b (xs @ ys) = bslice (a - length xs) (b - length xs) ys"
  by (cases "a \<le> b") (simp_all add: bslice_def)

lemma slice_all [list_simps]:
  "length xs \<le> b \<Longrightarrow> bslice 0 b xs = xs"
  by (simp add: bslice_def)

lemma slice_concat [list_simps]:
  "\<lbrakk> a \<le> b; b \<le> c \<rbrakk> \<Longrightarrow> bslice a b xs @ bslice b c xs = bslice a c xs"
proof -
  assume "a \<le> b" "b \<le> c"
  then have "c - a = (b - a) + (c - b)" "drop b xs = drop (b - a) (drop a xs)"
    by simp_all
  then show ?thesis
    by (simp only: bslice_def take_add)
qed

text \<open>Rust's slice indexing \<open>xs[a..b]\<close>: \<open>None\<close> is the out-of-range panic.\<close>

definition rust_slice :: "nat \<Rightarrow> nat \<Rightarrow> 'a list \<Rightarrow> 'a list option" where
  "rust_slice a b xs = (if a \<le> b \<and> b \<le> length xs then Some (bslice a b xs) else None)"

lemma rust_slice_ok [list_simps]:
  "\<lbrakk> a \<le> b; b \<le> length xs \<rbrakk> \<Longrightarrow> rust_slice a b xs = Some (bslice a b xs)"
  by (simp add: rust_slice_def)

section \<open>Little-endian integers\<close>

lemma numeral_power_8: "(256::nat) = 2 ^ 8"
  by simp

primrec le_enc :: "nat \<Rightarrow> nat \<Rightarrow> bytes" where
  "le_enc 0 n = []"
| "le_enc (Suc k) n = of_nat n # le_enc k (n div 256)"

primrec le_dec :: "bytes \<Rightarrow> nat" where
  "le_dec [] = 0"
| "le_dec (b # bs) = unat b + 256 * le_dec bs"

lemma length_le_enc [simp, codec_simps]: "length (le_enc k n) = k"
  by (induction k arbitrary: n) simp_all

lemma unat_of_nat_byte: "unat (of_nat n :: byte) = n mod 256"
  by (simp add: unat_of_nat)

lemma le_dec_enc [codec_simps]: "le_dec (le_enc k n) = n mod 256 ^ k"
proof (induction k arbitrary: n)
  case (Suc k)
  have "n mod 256 ^ Suc k = n mod 256 + 256 * (n div 256 mod 256 ^ k)"
    by (simp add: mod_mult2_eq)
  then show ?case
    by (simp add: Suc.IH unat_of_nat_byte)
qed simp

lemma le_dec_less: "le_dec bs < 256 ^ length bs"
proof (induction bs)
  case (Cons b bs)
  have "unat b < 256" using unsigned_less [of b, where ?'a = nat] by simp
  with Cons.IH show ?case by simp
qed simp

lemma le_enc_dec [codec_simps]: "length bs = k \<Longrightarrow> le_enc k (le_dec bs) = bs"
proof (induction bs arbitrary: k)
  case (Cons b bs)
  have "unat b < 256" using unsigned_less [of b, where ?'a = nat] by simp
  then have "(unat b + 256 * le_dec bs) div 256 = le_dec bs" by simp
  moreover have "of_nat (unat b + 256 * le_dec bs) = b"
    using \<open>unat b < 256\<close> by (simp only: word_unat_eq_iff unat_of_nat_byte) simp
  ultimately show ?case using Cons by auto
qed simp

definition to_le_bytes :: "'a::len word \<Rightarrow> bytes" where
  "to_le_bytes w = le_enc (LENGTH('a) div 8) (unat w)"

definition from_le_bytes :: "bytes \<Rightarrow> 'a::len word" where
  "from_le_bytes bs = of_nat (le_dec bs)"

lemma length_to_le_bytes [codec_simps]:
  "length (to_le_bytes (w :: 'a::len word)) = LENGTH('a) div 8"
  by (simp add: to_le_bytes_def)

lemma length_to_le_bytes_word [simp, codec_simps]:
  "length (to_le_bytes (w8 :: byte)) = 1"
  "length (to_le_bytes (w16 :: u16)) = 2"
  "length (to_le_bytes (w32 :: u32)) = 4"
  "length (to_le_bytes (w64 :: u64)) = 8"
  "length (to_le_bytes (w128 :: u128)) = 16"
  by (simp_all add: length_to_le_bytes)

lemma from_to_le_bytes:
  fixes w :: "'a::len word"
  assumes "8 dvd LENGTH('a)"
  shows "from_le_bytes (to_le_bytes w) = w"
proof -
  have "(256::nat) ^ (LENGTH('a) div 8) = 2 ^ LENGTH('a)"
    using assms by (metis (no_types) dvd_mult_div_cancel numeral_power_8 power_mult)
  moreover have "unat w < 2 ^ LENGTH('a)" by (rule unsigned_less)
  ultimately show ?thesis
    by (simp add: from_le_bytes_def to_le_bytes_def le_dec_enc)
qed

lemma from_to_le_bytes_word [simp, codec_simps]:
  "from_le_bytes (to_le_bytes (w8 :: byte)) = w8"
  "from_le_bytes (to_le_bytes (w16 :: u16)) = w16"
  "from_le_bytes (to_le_bytes (w32 :: u32)) = w32"
  "from_le_bytes (to_le_bytes (w64 :: u64)) = w64"
  "from_le_bytes (to_le_bytes (w128 :: u128)) = w128"
  by (simp_all add: from_to_le_bytes)

lemma to_from_le_bytes [codec_simps]:
  assumes "8 * length bs = LENGTH('a::len)"
  shows "to_le_bytes (from_le_bytes bs :: 'a word) = bs"
proof -
  have "LENGTH('a) div 8 = length bs" using assms by presburger
  moreover have "le_dec bs < 2 ^ LENGTH('a)"
    using le_dec_less [of bs] assms by (metis numeral_power_8 power_mult)
  ultimately show ?thesis
    by (simp add: from_le_bytes_def to_le_bytes_def unat_of_nat le_enc_dec)
qed

lemma to_le_bytes_inject [simp]:
  "to_le_bytes (a :: u64) = to_le_bytes b \<longleftrightarrow> a = b"
  by (metis from_to_le_bytes_word(4))

section \<open>Checked arithmetic\<close>

text \<open>\<open>checked_add\<close> of the unsigned integers, and the successor that stays in range.\<close>

definition checked_add :: "'a::len word \<Rightarrow> 'a word \<Rightarrow> 'a word option" where
  "checked_add a b = (if unat a + unat b < 2 ^ LENGTH('a) then Some (a + b) else None)"

lemma checked_add_unat:
  "checked_add a b = Some c \<Longrightarrow> unat c = unat a + unat b"
  by (auto simp: checked_add_def unat_word_ariths split: if_splits)

lemma word_less_Suc: "v \<noteq> - 1 \<Longrightarrow> v < v + (1 :: 'a::len word)"
proof -
  assume "v \<noteq> - 1"
  then have "1 + v \<noteq> 0" by (metis add_eq_0_iff)
  then have "unat (1 + v) = Suc (unat v)" by (rule unatSuc)
  then show ?thesis by (simp add: word_less_nat_alt add.commute)
qed

end
