(* ===== verification/BlockMap.thy ===== *)
theory BlockMap
  imports GlidePrelude
begin

unbundle bit_operations_syntax

text \<open>
  The sparse block state map of \<open>glidefs/src/block/block_map.rs\<close>: a page table
  whose pages pack four 2-bit block states into each byte.  A \<open>SparseStateMap\<close>
  is a record of the page directory (\<open>None\<close> is a null page pointer) and its
  counters.  Rust's indexing panic on \<open>directory[page_idx]\<close> is the value \<open>None\<close>.
  Each compare-and-swap is one atomic step; the retry loop around the byte-wide
  \<open>compare_exchange\<close> is modelled separately (\<open>cas_retry\<close>) with the interference
  of other threads as an explicit list of byte values.

  The locale \<open>block_state_store\<close> is the contract the write cache relies on.  The
  page table is shown to implement it: every operation is the operation of an
  array of block states.  The theory also holds the sequence counter and the
  codec dispatch on compressed blocks.
\<close>

section \<open>Block states\<close>

definition NOT_PRESENT :: byte where "NOT_PRESENT = 0"
definition CLEAN :: byte where "CLEAN = 1"
definition DIRTY :: byte where "DIRTY = 2"
definition SYNCING :: byte where "SYNCING = 3"

lemmas state_consts = NOT_PRESENT_def CLEAN_def DIRTY_def SYNCING_def

definition is_not_present :: "byte \<Rightarrow> bool" where "is_not_present s = (s = NOT_PRESENT)"
definition is_clean :: "byte \<Rightarrow> bool" where "is_clean s = (s = CLEAN)"
definition is_dirty :: "byte \<Rightarrow> bool" where "is_dirty s = (s = DIRTY)"
definition is_syncing :: "byte \<Rightarrow> bool" where "is_syncing s = (s = SYNCING)"
definition has_local_data :: "byte \<Rightarrow> bool" where
  "has_local_data s = (is_dirty s \<or> is_syncing s)"

definition valid_state :: "byte \<Rightarrow> bool" where
  "valid_state s = (s \<in> {NOT_PRESENT, CLEAN, DIRTY, SYNCING})"

datatype DirtyTransition = AlreadyDirty | FromCleanOrNotPresent | FromSyncing

section \<open>The page table\<close>

definition ENTRIES_PER_BYTE :: nat where "ENTRIES_PER_BYTE = 4"
definition STATE_PAGE_BYTES :: nat where "STATE_PAGE_BYTES = 4096"
definition STATE_PAGE_ENTRIES :: nat where
  "STATE_PAGE_ENTRIES = STATE_PAGE_BYTES * ENTRIES_PER_BYTE"
definition STATE_PAGE_BITS :: nat where "STATE_PAGE_BITS = 14"
definition STATE_PAGE_MASK :: nat where "STATE_PAGE_MASK = STATE_PAGE_ENTRIES - 1"

lemmas page_consts =
  ENTRIES_PER_BYTE_def STATE_PAGE_BYTES_def STATE_PAGE_ENTRIES_def STATE_PAGE_BITS_def
  STATE_PAGE_MASK_def

type_synonym StatePage = "byte list"

definition StatePage_new :: StatePage where
  "StatePage_new = replicate STATE_PAGE_BYTES 0"

record SparseStateMap =
  directory :: "StatePage option list"
  num_pages :: nat
  num_entries :: nat
  allocated_pages :: nat

definition div_ceil :: "nat \<Rightarrow> nat \<Rightarrow> nat" where
  "div_ceil a b = (a + b - 1) div b"

definition sm_new :: "nat \<Rightarrow> SparseStateMap" where
  "sm_new n =
     (let np = div_ceil n STATE_PAGE_ENTRIES
      in \<lparr> directory = replicate np None, num_pages = np, num_entries = n,
           allocated_pages = 0 \<rparr>)"

definition split_index :: "nat \<Rightarrow> nat \<times> nat \<times> nat" where
  "split_index idx =
     (let page_idx = drop_bit STATE_PAGE_BITS idx;
          entry_in_page = idx AND STATE_PAGE_MASK;
          byte_idx = entry_in_page div ENTRIES_PER_BYTE;
          shift = (idx mod ENTRIES_PER_BYTE) * 2
      in (page_idx, byte_idx, shift))"

text \<open>\<open>load_page\<close>: the outer \<open>None\<close> is the out-of-bounds panic, the inner one a null page.\<close>

definition load_page :: "SparseStateMap \<Rightarrow> nat \<Rightarrow> StatePage option option" where
  "load_page m p = (if p < length (directory m) then Some (directory m ! p) else None)"

definition allocate_page :: "SparseStateMap \<Rightarrow> nat \<Rightarrow> StatePage \<times> SparseStateMap" where
  "allocate_page m p =
     (case directory m ! p of
        None \<Rightarrow> (StatePage_new,
                 m\<lparr> directory := (directory m)[p := Some StatePage_new],
                    allocated_pages := allocated_pages m + 1 \<rparr>)
      | Some existing \<Rightarrow> (existing, m))"

definition ensure_page :: "SparseStateMap \<Rightarrow> nat \<Rightarrow> (StatePage \<times> SparseStateMap) option" where
  "ensure_page m p =
     (case load_page m p of
        None \<Rightarrow> None
      | Some (Some page) \<Rightarrow> Some (page, m)
      | Some None \<Rightarrow> Some (allocate_page m p))"

definition slot_get :: "byte \<Rightarrow> nat \<Rightarrow> byte" where
  "slot_get b shift = drop_bit shift b AND 3"

definition slot_set :: "byte \<Rightarrow> nat \<Rightarrow> byte \<Rightarrow> byte" where
  "slot_set b shift v = (b AND NOT (push_bit shift 3)) OR push_bit shift v"

definition store_byte :: "SparseStateMap \<Rightarrow> nat \<Rightarrow> nat \<Rightarrow> byte \<Rightarrow> SparseStateMap" where
  "store_byte m p i b =
     m\<lparr> directory := (directory m)[p := map_option (\<lambda>page. page[i := b]) (directory m ! p)] \<rparr>"

definition sm_get :: "SparseStateMap \<Rightarrow> nat \<Rightarrow> byte option" where
  "sm_get m idx =
     (let (page_idx, byte_idx, shift) = split_index idx
      in case load_page m page_idx of
           None \<Rightarrow> None
         | Some None \<Rightarrow> Some NOT_PRESENT
         | Some (Some page) \<Rightarrow> Some (slot_get (page ! byte_idx) shift))"

definition is_present :: "SparseStateMap \<Rightarrow> nat \<Rightarrow> bool option" where
  "is_present m idx = map_option (\<lambda>s. s \<noteq> NOT_PRESENT) (sm_get m idx)"

definition try_set_present :: "SparseStateMap \<Rightarrow> nat \<Rightarrow> (bool \<times> SparseStateMap) option" where
  "try_set_present m idx =
     (let (page_idx, byte_idx, shift) = split_index idx
      in case ensure_page m page_idx of
           None \<Rightarrow> None
         | Some (page, m') \<Rightarrow>
             (let old = page ! byte_idx
              in if slot_get old shift \<noteq> NOT_PRESENT then Some (False, m')
                 else Some (True, store_byte m' page_idx byte_idx (slot_set old shift CLEAN))))"

text \<open>
  The retry loop around \<open>compare_exchange\<close> on one byte.  The list holds what other
  threads do to that byte between the load and the \<open>compare_exchange\<close> of each
  attempt; the empty list is an attempt without interference.
\<close>

fun cas_byte_loop :: "(byte \<Rightarrow> byte) list \<Rightarrow> byte \<Rightarrow> nat \<Rightarrow> byte \<Rightarrow> byte \<Rightarrow> (byte + byte) \<times> byte" where
  "cas_byte_loop [] old shift expected new =
     (if slot_get old shift \<noteq> expected then (Inl (slot_get old shift), old)
      else (Inr expected, slot_set old shift new))"
| "cas_byte_loop (env # envs) old shift expected new =
     (if slot_get old shift \<noteq> expected then (Inl (slot_get old shift), old)
      else if env old = old then (Inr expected, slot_set old shift new)
      else cas_byte_loop envs (env old) shift expected new)"

definition sm_cas :: "SparseStateMap \<Rightarrow> nat \<Rightarrow> byte \<Rightarrow> byte
    \<Rightarrow> ((byte + byte) \<times> SparseStateMap) option" where
  "sm_cas m idx expected new =
     (let (page_idx, byte_idx, shift) = split_index idx;
          attempt = (\<lambda>page m'.
             case cas_byte_loop [] (page ! byte_idx) shift expected new of
               (Inl current, _) \<Rightarrow> Some (Inl current, m')
             | (Inr old, b) \<Rightarrow> Some (Inr old, store_byte m' page_idx byte_idx b))
      in case load_page m page_idx of
           None \<Rightarrow> None
         | Some (Some page) \<Rightarrow> attempt page m
         | Some None \<Rightarrow>
             if expected \<noteq> NOT_PRESENT then Some (Inl NOT_PRESENT, m)
             else if new = NOT_PRESENT then Some (Inr NOT_PRESENT, m)
             else (case ensure_page m page_idx of
                     None \<Rightarrow> None
                   | Some (page, m') \<Rightarrow> attempt page m'))"

definition page_states :: "SparseStateMap \<Rightarrow> nat \<Rightarrow> StatePage option \<Rightarrow> nat \<Rightarrow> (nat \<times> byte) list" where
  "page_states m page_idx page byte_idx =
     (let val = (case page of None \<Rightarrow> 0 | Some pg \<Rightarrow> pg ! byte_idx);
          base = page_idx * STATE_PAGE_ENTRIES + byte_idx * ENTRIES_PER_BYTE
      in if val = 0 then []
         else List.map_filter (\<lambda>slot. let idx = base + slot in
                if idx \<ge> num_entries m then None
                else Some (idx, slot_get val (slot * 2)))
              [0..<ENTRIES_PER_BYTE])"

definition iter_all :: "SparseStateMap \<Rightarrow> (nat \<times> byte) list" where
  "iter_all m =
     concat (map (\<lambda>page_idx. concat (map (page_states m page_idx (directory m ! page_idx))
                                     [0..<STATE_PAGE_BYTES]))
             [0..<num_pages m])"

definition iter_with_state :: "SparseStateMap \<Rightarrow> byte \<Rightarrow> nat list" where
  "iter_with_state m target = map fst (filter (\<lambda>(_, s). s = target) (iter_all m))"

definition iter_present :: "SparseStateMap \<Rightarrow> (nat \<times> byte) list" where
  "iter_present m = filter (\<lambda>(_, s). s \<noteq> NOT_PRESENT) (iter_all m)"

definition count_present :: "SparseStateMap \<Rightarrow> nat" where
  "count_present m = length (iter_present m)"

text \<open>
  The load and the compare-and-swap of \<open>transition_to_dirty\<close> are two atomic steps.
  The list holds what other threads do to the whole map between the two in each
  round of the loop; a failed compare-and-swap starts the next round.
\<close>

fun to_dirty_loop :: "('m \<Rightarrow> nat \<Rightarrow> byte option)
    \<Rightarrow> ('m \<Rightarrow> nat \<Rightarrow> byte \<Rightarrow> byte \<Rightarrow> ((byte + byte) \<times> 'm) option)
    \<Rightarrow> ('m \<Rightarrow> 'm) list \<Rightarrow> 'm \<Rightarrow> nat \<Rightarrow> (DirtyTransition \<times> 'm) option" where
  "to_dirty_loop get cas [] m idx =
     (case get m idx of
        None \<Rightarrow> None
      | Some current \<Rightarrow>
          if current = DIRTY then Some (AlreadyDirty, m)
          else if current = CLEAN \<or> current = NOT_PRESENT then
            (case cas m idx current DIRTY of
               Some (Inr _, m') \<Rightarrow> Some (FromCleanOrNotPresent, m')
             | _ \<Rightarrow> None)
          else if current = SYNCING then
            (case cas m idx SYNCING DIRTY of
               Some (Inr _, m') \<Rightarrow> Some (FromSyncing, m')
             | _ \<Rightarrow> None)
          else None)"
| "to_dirty_loop get cas (env # envs) m idx =
     (case get m idx of
        None \<Rightarrow> None
      | Some current \<Rightarrow>
          if current = DIRTY then Some (AlreadyDirty, m)
          else if current = CLEAN \<or> current = NOT_PRESENT then
            (case cas (env m) idx current DIRTY of
               Some (Inr _, m') \<Rightarrow> Some (FromCleanOrNotPresent, m')
             | Some (Inl _, m') \<Rightarrow> to_dirty_loop get cas envs m' idx
             | None \<Rightarrow> None)
          else if current = SYNCING then
            (case cas (env m) idx SYNCING DIRTY of
               Some (Inr _, m') \<Rightarrow> Some (FromSyncing, m')
             | Some (Inl _, m') \<Rightarrow> to_dirty_loop get cas envs m' idx
             | None \<Rightarrow> None)
          else None)"

definition transition_to_dirty :: "SparseStateMap \<Rightarrow> nat
    \<Rightarrow> (DirtyTransition \<times> SparseStateMap) option" where
  "transition_to_dirty m idx = to_dirty_loop sm_get sm_cas [] m idx"

definition transition_dirty_to_syncing :: "SparseStateMap \<Rightarrow> nat
    \<Rightarrow> (bool \<times> SparseStateMap) option" where
  "transition_dirty_to_syncing m idx =
     map_option (\<lambda>(r, m'). (is_ok r, m')) (sm_cas m idx DIRTY SYNCING)"

definition transition_syncing_to_not_present :: "SparseStateMap \<Rightarrow> nat
    \<Rightarrow> (bool \<times> SparseStateMap) option" where
  "transition_syncing_to_not_present m idx =
     map_option (\<lambda>(r, m'). (is_ok r, m')) (sm_cas m idx SYNCING NOT_PRESENT)"


section \<open>Two-bit slots\<close>

lemma split_index_eq:
  "split_index idx = (idx div 16384, idx mod 16384 div 4, 2 * (idx mod 4))"
proof -
  have "idx AND 16383 = take_bit 14 idx"
    by (simp add: take_bit_eq_mask mask_eq_exp_minus_1)
  then show ?thesis
    by (simp add: split_index_def page_consts drop_bit_eq_div take_bit_eq_mod)
qed

lemma bit_three [simp]:
  "bit (3::int) n \<longleftrightarrow> n < 2" "bit (3::nat) n \<longleftrightarrow> n < 2"
proof -
  have "(3::int) = mask 2" "(3::nat) = mask 2" by (simp_all add: mask_eq_exp_minus_1)
  then show "bit (3::int) n \<longleftrightarrow> n < 2" "bit (3::nat) n \<longleftrightarrow> n < 2"
    by (simp_all only: bit_mask_iff) (simp_all add: bit_simps)
qed

lemma valid_state_bit: "valid_state v \<Longrightarrow> bit v n \<Longrightarrow> n < 2"
proof -
  assume v: "valid_state v" and b: "bit v n"
  have "v AND 3 = v" using v by (auto simp: valid_state_def state_consts)
  then have "bit (v AND 3) n" using b by simp
  then show ?thesis by (simp add: bit_and_iff)
qed

lemma slot_get_set_same:
  assumes "valid_state v" "s \<le> 6"
  shows "slot_get (slot_set b s v) s = v"
proof (rule bit_word_eqI)
  fix n :: nat
  assume "n < LENGTH(8)"
  show "bit (slot_get (slot_set b s v) s) n = bit v n"
    using valid_state_bit [OF assms(1), of n] assms(2)
    by (auto simp: slot_get_def slot_set_def bit_and_iff bit_or_iff bit_not_iff
        bit_drop_bit_eq bit_push_bit_iff dest: bit_imp_le_length)
qed

lemma slot_get_set_other:
  assumes "valid_state v" "s + 2 \<le> t \<or> t + 2 \<le> s"
  shows "slot_get (slot_set b s v) t = slot_get b t"
proof (rule bit_word_eqI)
  fix n :: nat
  assume "n < LENGTH(8)"
  show "bit (slot_get (slot_set b s v) t) n = bit (slot_get b t) n"
    using valid_state_bit [OF assms(1), of "t + n - s"] assms(2)
    by (auto simp: slot_get_def slot_set_def bit_and_iff bit_or_iff bit_not_iff
        bit_drop_bit_eq bit_push_bit_iff dest: bit_imp_le_length)
qed

lemma slot_get_valid [simp, intro]: "valid_state (slot_get b s)"
proof -
  have "take_bit 2 (drop_bit s b) = drop_bit s b AND 3"
    by (simp add: take_bit_eq_mask mask_eq_exp_minus_1)
  moreover have "unat (take_bit 2 (drop_bit s b)) < 4"
    using take_bit_nat_less_exp [of 2 "unat (drop_bit s b)"]
    by (simp only: unsigned_take_bit_eq) simp
  ultimately have "unat (slot_get b s) \<in> {0, 1, 2, 3}"
    by (auto simp: slot_get_def)
  then show ?thesis
    by (auto simp: valid_state_def state_consts word_unat_eq_iff)
qed


section \<open>The contract of a block state store\<close>

text \<open>
  What the write cache relies on: the store is an array of block states, a read
  returns the entry, a compare-and-swap replaces exactly one entry when it holds
  the expected state and changes nothing otherwise.
\<close>

locale block_state_store =
  fixes inv :: "'m \<Rightarrow> bool"
    and abs :: "'m \<Rightarrow> byte list"
    and get :: "'m \<Rightarrow> nat \<Rightarrow> byte option"
    and cas :: "'m \<Rightarrow> nat \<Rightarrow> byte \<Rightarrow> byte \<Rightarrow> ((byte + byte) \<times> 'm) option"
  assumes get_abs: "\<lbrakk> inv m; i < length (abs m) \<rbrakk> \<Longrightarrow> get m i = Some (abs m ! i)"
    and abs_valid: "\<lbrakk> inv m; s \<in> set (abs m) \<rbrakk> \<Longrightarrow> valid_state s"
    and cas_ok: "\<lbrakk> inv m; i < length (abs m); valid_state v; abs m ! i = e \<rbrakk>
        \<Longrightarrow> \<exists>m'. cas m i e v = Some (Inr e, m') \<and> inv m' \<and> abs m' = (abs m)[i := v]"
    and cas_err: "\<lbrakk> inv m; i < length (abs m); valid_state v; abs m ! i \<noteq> e \<rbrakk>
        \<Longrightarrow> cas m i e v = Some (Inl (abs m ! i), m)"
begin

lemma cas_abs:
  assumes "inv m" "i < length (abs m)" "valid_state v"
  obtains m' where
    "cas m i e v = Some (if abs m ! i = e then Inr e else Inl (abs m ! i), m')"
    "inv m'" "abs m' = (if abs m ! i = e then (abs m)[i := v] else abs m)"
  using assms cas_ok cas_err by (cases "abs m ! i = e") (simp, blast, simp)

lemma state_cases:
  assumes "inv m" "i < length (abs m)"
  obtains "abs m ! i = NOT_PRESENT" | "abs m ! i = CLEAN"
    | "abs m ! i = DIRTY" | "abs m ! i = SYNCING"
  using abs_valid [OF assms(1) nth_mem [OF assms(2)]] by (auto simp: valid_state_def)

text \<open>Without interference the loop ends in its first round and writes one entry.\<close>

lemma to_dirty_alone:
  assumes "inv m" "i < length (abs m)"
  shows "\<exists>t m'. to_dirty_loop get cas [] m i = Some (t, m') \<and> inv m'
           \<and> abs m' = (abs m)[i := DIRTY]
           \<and> (t = AlreadyDirty \<longleftrightarrow> abs m ! i = DIRTY)
           \<and> (t = FromSyncing \<longleftrightarrow> abs m ! i = SYNCING)"
  using cas_ok [OF assms, of DIRTY "abs m ! i"] list_update_id [of "abs m" i]
  by (cases rule: state_cases [OF assms])
     (auto simp: get_abs [OF assms] assms valid_state_def state_consts)

text \<open>
  Under interference that keeps the store well formed and of the same size, the
  loop ends, and it behaves as one atomic step taken at some point \<open>k\<close> of the
  interference: the store it updates is the one the first \<open>k\<close> interferences left,
  the reported transition is the one from the state it had there, and no other
  entry is touched.
\<close>

lemma to_dirty_interference:
  assumes "inv m" "i < length (abs m)"
    and "\<And>env m. env \<in> set envs \<Longrightarrow> inv m \<Longrightarrow> inv (env m) \<and> length (abs (env m)) = length (abs m)"
  shows "\<exists>t m' k. to_dirty_loop get cas envs m i = Some (t, m') \<and> inv m'
           \<and> (let m0 = foldl (\<lambda>m env. env m) m (take k envs) in
           abs m' = (abs m0)[i := DIRTY]
           \<and> i < length (abs m0)
           \<and> (t = AlreadyDirty \<longleftrightarrow> abs m0 ! i = DIRTY)
           \<and> (t = FromSyncing \<longleftrightarrow> abs m0 ! i = SYNCING))"
  using assms
proof (induction envs arbitrary: m)
  case Nil
  then show ?case using to_dirty_alone [of m i] by (fastforce simp: Let_def)
next
  case (Cons env envs)
  have e: "inv (env m)" "length (abs (env m)) = length (abs m)" using Cons.prems by auto
  have len: "i < length (abs (env m))" using e Cons.prems by simp
  obtain t m' k where IH: "to_dirty_loop get cas envs (env m) i = Some (t, m')" "inv m'"
      "abs m' = (abs (foldl (\<lambda>m env. env m) (env m) (take k envs)))[i := DIRTY]"
      "i < length (abs (foldl (\<lambda>m env. env m) (env m) (take k envs)))"
      "t = AlreadyDirty \<longleftrightarrow> abs (foldl (\<lambda>m env. env m) (env m) (take k envs)) ! i = DIRTY"
      "t = FromSyncing \<longleftrightarrow> abs (foldl (\<lambda>m env. env m) (env m) (take k envs)) ! i = SYNCING"
    using Cons.IH [OF e(1) len] Cons.prems(3) by (auto simp: Let_def)
  have vd: "valid_state DIRTY" by (simp add: valid_state_def)
  show ?case
  proof (cases "abs m ! i = DIRTY")
    case True
    then have "(abs m)[i := DIRTY] = abs m" by (metis list_update_id)
    then show ?thesis
      using True Cons.prems(1,2) by (intro exI [of _ AlreadyDirty] exI [of _ m] exI [of _ 0])
        (simp add: get_abs state_consts)
  next
    case nd: False
    show ?thesis
    proof (cases "abs (env m) ! i = abs m ! i")
      case True
      obtain m1 where "cas (env m) i (abs m ! i) DIRTY = Some (Inr (abs m ! i), m1)" "inv m1"
        "abs m1 = (abs (env m))[i := DIRTY]"
        using cas_ok [OF e(1) len vd True] by blast
      then show ?thesis
        using nd True len Cons.prems(1,2)
        by (intro exI [of _ "if abs m ! i = SYNCING then FromSyncing else FromCleanOrNotPresent"]
            exI [of _ m1] exI [of _ 1], cases rule: state_cases [OF Cons.prems(1,2)])
           (auto simp: get_abs state_consts)
    next
      case False
      then have "cas (env m) i (abs m ! i) DIRTY = Some (Inl (abs (env m) ! i), env m)"
        by (rule cas_err [OF e(1) len vd])
      then have "to_dirty_loop get cas (env # envs) m i = to_dirty_loop get cas envs (env m) i"
        using nd Cons.prems(1,2)
        by (cases rule: state_cases [OF Cons.prems(1,2)]) (auto simp: get_abs state_consts)
      then show ?thesis
        using IH by (intro exI [of _ t] exI [of _ m'] exI [of _ "Suc k"]) simp
    qed
  qed
qed

end

section \<open>The page table implements the contract\<close>

definition sm_inv :: "SparseStateMap \<Rightarrow> bool" where
  "sm_inv m \<longleftrightarrow>
     length (directory m) = num_pages m
   \<and> num_pages m = div_ceil (num_entries m) STATE_PAGE_ENTRIES
   \<and> (\<forall>pg. Some pg \<in> set (directory m) \<longrightarrow> length pg = STATE_PAGE_BYTES)
   \<and> allocated_pages m = length (filter (\<lambda>p. p \<noteq> None) (directory m))"

definition dir_state :: "StatePage option list \<Rightarrow> nat \<Rightarrow> byte" where
  "dir_state dir i =
     (case dir ! (i div 16384) of
        None \<Rightarrow> NOT_PRESENT
      | Some pg \<Rightarrow> slot_get (pg ! (i mod 16384 div 4)) (2 * (i mod 4)))"

definition sm_abs :: "SparseStateMap \<Rightarrow> byte list" where
  "sm_abs m = map (dir_state (directory m)) [0..<num_entries m]"

lemma length_sm_abs [simp]: "length (sm_abs m) = num_entries m"
  by (simp add: sm_abs_def)

lemma page_in_range:
  assumes "sm_inv m" "i < num_entries m"
  shows "i div 16384 < length (directory m)"
proof -
  have "i div 16384 < (num_entries m + 16383) div 16384" using assms(2) by linarith
  then show ?thesis using assms(1) by (simp add: sm_inv_def div_ceil_def page_consts)
qed

lemma byte_in_range: "i mod 16384 div 4 < (4096::nat)"
  by (simp add: less_mult_imp_div_less)

lemma page_length:
  "\<lbrakk> sm_inv m; p < length (directory m); directory m ! p = Some pg \<rbrakk> \<Longrightarrow> length pg = 4096"
  by (metis STATE_PAGE_BYTES_def nth_mem sm_inv_def)

lemma sm_get_eq:
  "\<lbrakk> sm_inv m; i < num_entries m \<rbrakk> \<Longrightarrow> sm_get m i = Some (dir_state (directory m) i)"
  by (simp add: sm_get_def split_index_eq load_page_def page_in_range dir_state_def
      split: option.splits)

lemma dir_state_valid [simp]: "valid_state (dir_state dir i)"
  by (simp add: dir_state_def valid_state_def [of NOT_PRESENT] split: option.splits)

lemma dir_state_store:
  assumes "i div 16384 < length dir" "dir ! (i div 16384) = Some pg" "length pg = 4096"
    and "valid_state v" "b = i mod 16384 div 4"
  shows "dir_state (dir[i div 16384 := Some (pg[b := slot_set (pg ! b) (2 * (i mod 4)) v])]) j
       = (if j = i then v else dir_state dir j)"
proof (cases "j div 16384 = i div 16384 \<and> j mod 16384 div 4 = b")
  case True
  have "j = i \<longleftrightarrow> j mod 4 = i mod 4"
  proof -
    have "j mod 16384 mod 4 = j mod 4" "i mod 16384 mod 4 = i mod 4"
      by (simp_all add: mod_mod_cancel)
    then show ?thesis using True assms(5) by (metis div_mult_mod_eq)
  qed
  moreover have "j mod 4 \<noteq> i mod 4 \<Longrightarrow> 2 * (i mod 4) + 2 \<le> 2 * (j mod 4) \<or> 2 * (j mod 4) + 2 \<le> 2 * (i mod 4)"
    by linarith
  moreover have "2 * (i mod 4) \<le> 6" by presburger
  ultimately show ?thesis
    using True assms byte_in_range [of i]
    by (auto simp: dir_state_def slot_get_set_same slot_get_set_other)
next
  case False
  then show ?thesis
  proof (cases "j div 16384 = i div 16384")
    case True
    then have "j mod 16384 div 4 \<noteq> b" using False by simp
    then show ?thesis
      using True assms(1,2,5) by (cases "j = i") (simp_all add: dir_state_def)
  next
    case False
    then have "j \<noteq> i" by blast
    then show ?thesis using False by (simp add: dir_state_def)
  qed
qed

lemma dir_state_alloc:
  assumes "p < length dir" "dir ! p = None"
  shows "dir_state (dir[p := Some StatePage_new]) j = dir_state dir j"
  using assms byte_in_range [of j]
  by (auto simp: dir_state_def StatePage_new_def page_consts slot_get_def state_consts nth_list_update)

lemma sm_inv_store:
  assumes "sm_inv m" "p < length (directory m)" "directory m ! p = Some pg"
  shows "sm_inv (store_byte m p b v)"
proof -
  have "filter (\<lambda>p. p \<noteq> None) ((directory m)[p := Some pg']) =
        (filter (\<lambda>p. p \<noteq> None) (directory m))[length (filter (\<lambda>p. p \<noteq> None) (take p (directory m))) := Some pg']"
    for pg'
    using assms(2,3)
    by (subst (2) id_take_nth_drop [OF assms(2)], subst upd_conv_take_nth_drop [OF assms(2)])
       (simp add: list_update_append)
  then show ?thesis
    using assms page_length [OF assms]
    by (auto simp: sm_inv_def store_byte_def page_consts dest!: set_update_subset_insert [THEN subsetD])
qed

lemma sm_inv_alloc:
  assumes "sm_inv m" "p < length (directory m)" "directory m ! p = None"
  shows "sm_inv (snd (allocate_page m p))"
proof -
  have "length (filter (\<lambda>p. p \<noteq> None) ((directory m)[p := Some StatePage_new])) =
        length (filter (\<lambda>p. p \<noteq> None) (directory m)) + 1"
    using assms(2,3)
    by (subst (2) id_take_nth_drop [OF assms(2)], subst upd_conv_take_nth_drop [OF assms(2)]) simp
  then show ?thesis
    using assms
    by (auto simp: sm_inv_def allocate_page_def StatePage_new_def
        dest!: set_update_subset_insert [THEN subsetD])
qed


lemma sm_abs_store:
  assumes "sm_inv m" "i < num_entries m" "directory m ! (i div 16384) = Some pg" "valid_state v"
    and "b = i mod 16384 div 4"
  shows "sm_abs (store_byte m (i div 16384) b (slot_set (pg ! b) (2 * (i mod 4)) v)) = (sm_abs m)[i := v]"
  using dir_state_store [OF page_in_range [OF assms(1,2)] assms(3) _ assms(4,5)] assms
    page_length [OF assms(1) page_in_range [OF assms(1,2)] assms(3)]
  by (intro nth_equalityI) (auto simp: sm_abs_def store_byte_def nth_list_update)

lemma sm_abs_alloc:
  assumes "sm_inv m" "p < length (directory m)" "directory m ! p = None"
  shows "sm_abs (snd (allocate_page m p)) = sm_abs m"
  using dir_state_alloc [OF assms(2,3)] assms(3) by (simp add: sm_abs_def allocate_page_def)

lemma store_byte_num_entries [simp]: "num_entries (store_byte m p b v) = num_entries m"
  by (simp add: store_byte_def)

lemma allocate_page_num_entries [simp]: "num_entries (snd (allocate_page m p)) = num_entries m"
  by (simp add: allocate_page_def split: option.splits)

lemma ensure_page_alloc:
  assumes "sm_inv m" "i < num_entries m" "directory m ! (i div 16384) = None"
  obtains m' where "ensure_page m (i div 16384) = Some (StatePage_new, m')"
    "allocate_page m (i div 16384) = (StatePage_new, m')"
    "sm_inv m'" "num_entries m' = num_entries m" "sm_abs m' = sm_abs m"
    "directory m' ! (i div 16384) = Some StatePage_new"
proof -
  have r: "i div 16384 < length (directory m)" using page_in_range assms by blast
  show thesis
    using sm_inv_alloc [OF assms(1) r assms(3)] sm_abs_alloc [OF assms(1) r assms(3)] r assms(3)
    by (intro that [of "snd (allocate_page m (i div 16384))"])
       (auto simp: ensure_page_def load_page_def allocate_page_def)
qed

lemma sm_cas_ok:
  assumes "sm_inv m" "i < num_entries m" "valid_state v" "dir_state (directory m) i = e"
  shows "\<exists>m'. sm_cas m i e v = Some (Inr e, m') \<and> sm_inv m' \<and> sm_abs m' = (sm_abs m)[i := v]"
proof (cases "directory m ! (i div 16384)")
  case (Some pg)
  have r: "i div 16384 < length (directory m)" using page_in_range assms by blast
  have "slot_get (pg ! (i mod 16384 div 4)) (2 * (i mod 4)) = e"
    using Some assms(4) by (simp add: dir_state_def)
  then show ?thesis
    using Some r sm_abs_store [OF assms(1,2) Some assms(3) refl] sm_inv_store [OF assms(1) r Some]
    by (simp add: sm_cas_def split_index_eq load_page_def)
next
  case None
  have r: "i div 16384 < length (directory m)" using page_in_range assms by blast
  have e: "e = NOT_PRESENT" using None assms(4) by (simp add: dir_state_def)
  show ?thesis
  proof (cases "v = NOT_PRESENT")
    case True
    have "(sm_abs m)[i := v] = sm_abs m"
      using assms e True by (metis (no_types) add_0 diff_zero length_upt list_update_id nth_map
          nth_upt sm_abs_def)
    then show ?thesis
      using None r e True assms by (simp add: sm_cas_def split_index_eq load_page_def)
  next
    case False
    obtain m' where m': "ensure_page m (i div 16384) = Some (StatePage_new, m')"
      "sm_inv m'" "num_entries m' = num_entries m" "sm_abs m' = sm_abs m"
      "directory m' ! (i div 16384) = Some StatePage_new"
      using ensure_page_alloc [OF assms(1,2) None] by blast
    have i': "i < num_entries m'" using assms m' by simp
    have "slot_get (StatePage_new ! (i mod 16384 div 4)) (2 * (i mod 4)) = e"
      using byte_in_range [of i] e
      by (simp add: StatePage_new_def page_consts slot_get_def state_consts)
    then show ?thesis
      using None r e False m' sm_abs_store [OF m'(2) i' m'(5) assms(3) refl]
        sm_inv_store [OF m'(2) page_in_range [OF m'(2) i'] m'(5)]
      by (simp add: sm_cas_def split_index_eq load_page_def)
  qed
qed

lemma sm_cas_err:
  assumes "sm_inv m" "i < num_entries m" "dir_state (directory m) i \<noteq> e"
  shows "sm_cas m i e v = Some (Inl (dir_state (directory m) i), m)"
  using page_in_range [OF assms(1,2)] assms(3)
  by (auto simp: sm_cas_def split_index_eq load_page_def dir_state_def split: option.splits)

interpretation spm: block_state_store sm_inv sm_abs sm_get sm_cas
proof unfold_locales
  show "sm_get m i = Some (sm_abs m ! i)" if "sm_inv m" "i < length (sm_abs m)" for m i
    using that by (simp add: sm_get_eq sm_abs_def)
  show "valid_state s" if "sm_inv m" "s \<in> set (sm_abs m)" for m s
    using that by (auto simp: sm_abs_def)
  show "\<exists>m'. sm_cas m i e v = Some (Inr e, m') \<and> sm_inv m' \<and> sm_abs m' = (sm_abs m)[i := v]"
    if "sm_inv m" "i < length (sm_abs m)" "valid_state v" "sm_abs m ! i = e" for m i v e
    using that by (intro sm_cas_ok) (auto simp: sm_abs_def)
  show "sm_cas m i e v = Some (Inl (sm_abs m ! i), m)"
    if "sm_inv m" "i < length (sm_abs m)" "valid_state v" "sm_abs m ! i \<noteq> e" for m i v e
    using that sm_cas_err [of m i e v] by (simp add: sm_abs_def)
qed


section \<open>Enumeration\<close>

lemma concat_map_filter_upt:
  "a \<le> n \<Longrightarrow>
   concat (map (\<lambda>i. List.map_filter g [i * k..<i * k + k]) [a..<n]) = List.map_filter g [a * k..<n * k]"
proof (induction n)
  case (Suc n)
  show ?case
  proof (cases "a = Suc n")
    case False
    then have "a \<le> n" using Suc.prems by simp
    then have "[a * k..<Suc n * k] = [a * k..<n * k] @ [n * k..<n * k + k]"
      using upt_add_eq_append [of "a * k" "n * k" k] by (simp add: add.commute)
    moreover have "[a..<Suc n] = [a..<n] @ [n]" using \<open>a \<le> n\<close> by simp
    ultimately show ?thesis
      using Suc.IH [OF \<open>a \<le> n\<close>] by (simp add: List.map_filter_def del: upt.simps)
  qed (simp add: List.map_filter_def)
qed (simp add: List.map_filter_def)

lemma map_filter_prefix:
  assumes "n \<le> N"
  shows "List.map_filter (\<lambda>i. if n \<le> i then None else Some (f i)) [0..<N] = map f [0..<n]"
proof -
  have "filter (\<lambda>i. i < n) [0..<N] = [0..<n]"
    using assms
  proof (induction N)
    case (Suc N)
    then show ?case by (cases "n = Suc N") (auto intro!: filter_True)
  qed simp
  moreover have "(\<lambda>i. (if n \<le> i then None else Some (f i)) \<noteq> None) = (\<lambda>i. i < n)" by auto
  moreover have "map (the \<circ> (\<lambda>i. if n \<le> i then None else Some (f i))) [0..<n] = map f [0..<n]" by simp
  ultimately show ?thesis by (simp only: List.map_filter_def)
qed

lemma slot_get_zero [simp]: "slot_get 0 s = NOT_PRESENT"
  by (simp add: slot_get_def state_consts)

definition entry_at :: "SparseStateMap \<Rightarrow> nat \<Rightarrow> (nat \<times> byte) option" where
  "entry_at m i = (if num_entries m \<le> i then None else Some (i, dir_state (directory m) i))"

lemma page_states_entries:
  assumes "byte_idx < STATE_PAGE_BYTES"
  shows "filter (\<lambda>(_, s). s \<noteq> NOT_PRESENT) (page_states m p (directory m ! p) byte_idx) =
         filter (\<lambda>(_, s). s \<noteq> NOT_PRESENT)
           (List.map_filter (entry_at m)
              [(p * STATE_PAGE_BYTES + byte_idx) * 4..<(p * STATE_PAGE_BYTES + byte_idx) * 4 + 4])"
proof -
  let ?base = "(p * STATE_PAGE_BYTES + byte_idx) * 4"
  let ?val = "case directory m ! p of None \<Rightarrow> 0 | Some pg \<Rightarrow> pg ! byte_idx"
  have dm: "(?base + slot) div 16384 = p" "(?base + slot) mod 16384 div 4 = byte_idx"
    "(?base + slot) mod 4 = slot" if "slot < 4" for slot
  proof -
    have q: "?base + slot = (byte_idx * 4 + slot) + p * 16384" "byte_idx * 4 + slot < 16384"
      using that assms by (simp_all add: STATE_PAGE_BYTES_def)
    show "(?base + slot) div 16384 = p" "(?base + slot) mod 16384 div 4 = byte_idx"
      unfolding q(1) using that q(2) by simp_all
    have "?base + slot = slot + (p * STATE_PAGE_BYTES + byte_idx) * 4" by simp
    then show "(?base + slot) mod 4 = slot" using that by (simp only: mod_mult_self1 mod_less)
  qed
  define f where "f slot = (if num_entries m \<le> ?base + slot then None
      else Some (?base + slot, slot_get ?val (slot * 2)))" for slot
  have e: "entry_at m (?base + slot) = f slot" if "slot < 4" for slot
    unfolding f_def entry_at_def dir_state_def dm [OF that] by (cases "directory m ! p") (auto simp: mult.commute [of 2])
  have "[?base..<?base + 4] = [?base, ?base + 1, ?base + 2, ?base + 3]"
    by (simp add: upt_rec)
  moreover have "[0..<4] = [0, 1, 2, 3::nat]" by (simp add: upt_rec)
  ultimately have l: "List.map_filter (entry_at m) [?base..<?base + 4] = List.map_filter f [0..<4]"
    using e [of 0] e [of 1] e [of 2] e [of 3] by (simp add: List.map_filter_def)
  have b: "p * STATE_PAGE_ENTRIES + byte_idx * ENTRIES_PER_BYTE = ?base"
    by (simp add: page_consts)
  show ?thesis
  proof (cases "?val = 0")
    case True
    then have "page_states m p (directory m ! p) byte_idx = []"
      unfolding page_states_def Let_def by simp
    then show ?thesis
      unfolding l using True by (auto simp: f_def List.map_filter_def filter_empty_conv)
  next
    case False
    then have "page_states m p (directory m ! p) byte_idx = List.map_filter f [0..<4]"
      unfolding page_states_def Let_def b f_def by (simp add: ENTRIES_PER_BYTE_def)
    then show ?thesis unfolding l by simp
  qed
qed

lemma page_entries:
  "filter (\<lambda>(_, s). s \<noteq> NOT_PRESENT)
     (concat (map (page_states m p (directory m ! p)) [0..<STATE_PAGE_BYTES])) =
   filter (\<lambda>(_, s). s \<noteq> NOT_PRESENT)
     (List.map_filter (entry_at m)
        [p * (STATE_PAGE_BYTES * 4)..<p * (STATE_PAGE_BYTES * 4) + STATE_PAGE_BYTES * 4])"
proof -
  let ?P = "\<lambda>(_::nat, s). s \<noteq> NOT_PRESENT"
  have u: "[p * STATE_PAGE_BYTES..<p * STATE_PAGE_BYTES + STATE_PAGE_BYTES]
      = map (\<lambda>b. p * STATE_PAGE_BYTES + b) [0..<STATE_PAGE_BYTES]"
    by (simp only: map_add_upt add.commute)
  have "filter ?P (concat (map (page_states m p (directory m ! p)) [0..<STATE_PAGE_BYTES])) =
      filter ?P (concat (map (\<lambda>i. List.map_filter (entry_at m) [i * 4..<i * 4 + 4])
         [p * STATE_PAGE_BYTES..<p * STATE_PAGE_BYTES + STATE_PAGE_BYTES]))"
    unfolding u filter_concat map_map comp_def
    by (intro arg_cong [of _ _ concat] map_cong refl page_states_entries) simp
  then show ?thesis
    unfolding concat_map_filter_upt [OF le_add1] by (simp only: add_mult_distrib mult.assoc)
qed

lemma iter_present_eq:
  assumes "sm_inv m"
  shows "iter_present m = filter (\<lambda>(_, s). s \<noteq> NOT_PRESENT) (List.enumerate 0 (sm_abs m))"
proof -
  let ?P = "\<lambda>(_::nat, s). s \<noteq> NOT_PRESENT" and ?K = "STATE_PAGE_BYTES * 4"
  have np: "num_entries m \<le> num_pages m * ?K"
    using assms by (simp add: sm_inv_def div_ceil_def page_consts)
  have "iter_present m = filter ?P (concat (map (\<lambda>p. List.map_filter (entry_at m) [p * ?K..<p * ?K + ?K])
      [0..<num_pages m]))"
    unfolding iter_present_def iter_all_def filter_concat map_map comp_def
      page_entries [unfolded filter_concat map_map comp_def] ..
  also have "\<dots> = filter ?P (List.map_filter (entry_at m) [0..<num_pages m * ?K])"
    by (simp only: concat_map_filter_upt [OF le0] mult_0)
  also have "List.map_filter (entry_at m) [0..<num_pages m * ?K] =
      map (\<lambda>i. (i, dir_state (directory m) i)) [0..<num_entries m]"
    unfolding entry_at_def by (rule map_filter_prefix [OF np])
  also have "\<dots> = List.enumerate 0 (sm_abs m)"
    by (rule nth_equalityI) (simp_all add: sm_abs_def nth_enumerate_eq)
  finally show ?thesis .
qed

section \<open>Sequence numbers\<close>

definition seq_next :: "u64 \<Rightarrow> u64 \<times> u64" where
  "seq_next v = (if v = - 1 then (- 1, v) else (v + 1, v + 1))"

definition seq_current :: "u64 \<Rightarrow> u64" where
  "seq_current v = v"

definition advance_to :: "u64 \<Rightarrow> u64 \<Rightarrow> u64" where
  "advance_to v target = (if v < target then target else v)"

lemma seq_next_grows: "v \<noteq> - 1 \<Longrightarrow> v < snd (seq_next v)"
  by (simp add: seq_next_def word_less_Suc)

lemma seq_next_mono: "v \<le> snd (seq_next v)"
  using seq_next_grows [of v] by (cases "v = - 1") (auto simp: seq_next_def)

lemma advance_to_max: "advance_to v t = max v t"
  by (simp add: advance_to_def max_def not_less) (meson le_less_linear order.antisym order.strict_implies_order)

section \<open>Properties of the state map\<close>

lemma sm_inv_new [simp]: "sm_inv (sm_new n)"
  by (simp add: sm_inv_def sm_new_def Let_def filter_replicate)

lemma num_entries_new [simp]: "num_entries (sm_new n) = n"
  by (simp add: sm_new_def Let_def)

lemma num_entries_abs: "sm_abs m' = xs \<Longrightarrow> num_entries m' = length xs"
  by (metis length_sm_abs)

text \<open>
  C3: the packed page table refines an array of block states.  On a well-formed
  map and an index in range, a compare-and-swap never panics, keeps the map well
  formed, reports the state that was stored, and changes exactly the addressed
  entry, and only when it held the expected state.
\<close>

theorem statemap_cas_refines:
  assumes "sm_inv m" "i < num_entries m" "valid_state v"
  shows "\<exists>r m'. sm_cas m i e v = Some (r, m') \<and> sm_inv m'
           \<and> r = (if sm_abs m ! i = e then Inr e else Inl (sm_abs m ! i))
           \<and> sm_abs m' = (if sm_abs m ! i = e then (sm_abs m)[i := v] else sm_abs m)"
proof -
  have "i < length (sm_abs m)" using assms(2) by simp
  from spm.cas_abs [OF assms(1) this assms(3), of e] show ?thesis by blast
qed

theorem statemap_cas_refines_witness:
  "\<exists>r m'. sm_cas (sm_new 10) 3 NOT_PRESENT DIRTY = Some (r, m') \<and> sm_inv m'
     \<and> r = (if sm_abs (sm_new 10) ! 3 = NOT_PRESENT then Inr NOT_PRESENT else Inl (sm_abs (sm_new 10) ! 3))
     \<and> sm_abs m' = (if sm_abs (sm_new 10) ! 3 = NOT_PRESENT then (sm_abs (sm_new 10))[3 := DIRTY]
          else sm_abs (sm_new 10))"
  by (rule statemap_cas_refines) (simp_all add: valid_state_def)

text \<open>
  C16: the dirty transition is atomic under interference.  Whatever other threads do
  to the map between the load and the compare-and-swap of each round, marking a
  block dirty ends without a panic and acts as a single step: on the map left by
  some prefix of the interference it writes DIRTY to that entry alone, and the
  transition it reports (which drives the dirty and syncing counters) is the one
  from the state the entry had at that point.
\<close>

theorem to_dirty_linearizes:
  assumes "sm_inv m" "i < num_entries m"
    and "\<And>env m. env \<in> set envs \<Longrightarrow> sm_inv m \<Longrightarrow> sm_inv (env m) \<and> num_entries (env m) = num_entries m"
  shows "\<exists>t m' k. to_dirty_loop sm_get sm_cas envs m i = Some (t, m') \<and> sm_inv m'
           \<and> (let m0 = foldl (\<lambda>m env. env m) m (take k envs) in
           sm_abs m' = (sm_abs m0)[i := DIRTY]
           \<and> i < length (sm_abs m0)
           \<and> (t = AlreadyDirty \<longleftrightarrow> sm_abs m0 ! i = DIRTY)
           \<and> (t = FromSyncing \<longleftrightarrow> sm_abs m0 ! i = SYNCING))"
  by (rule spm.to_dirty_interference) (use assms in auto)

definition flip_five :: "SparseStateMap \<Rightarrow> SparseStateMap" where
  "flip_five m = (if num_entries m = 10 then snd (the (sm_cas m 5 NOT_PRESENT CLEAN)) else m)"

lemma flip_five_ok: "sm_inv m \<Longrightarrow> sm_inv (flip_five m) \<and> num_entries (flip_five m) = num_entries m"
proof (cases "num_entries m = 10")
  case True
  assume inv: "sm_inv m"
  have five: "5 < length (sm_abs m)" "valid_state CLEAN" using True by (simp_all add: valid_state_def)
  obtain m' where m': "sm_cas m 5 NOT_PRESENT CLEAN =
      Some (if sm_abs m ! 5 = NOT_PRESENT then Inr NOT_PRESENT else Inl (sm_abs m ! 5), m')" "sm_inv m'"
    "sm_abs m' = (if sm_abs m ! 5 = NOT_PRESENT then (sm_abs m)[5 := CLEAN] else sm_abs m)"
    using spm.cas_abs [OF inv five, of NOT_PRESENT] by blast
  then show ?thesis using True num_entries_abs [OF m'(3)] by (auto simp: flip_five_def)
qed (simp add: flip_five_def)

theorem to_dirty_linearizes_witness:
  "\<exists>t m' k. to_dirty_loop sm_get sm_cas [flip_five] (sm_new 10) 5 = Some (t, m') \<and> sm_inv m'
     \<and> (let m0 = foldl (\<lambda>m env. env m) (sm_new 10) (take k [flip_five]) in
     sm_abs m' = (sm_abs m0)[5 := DIRTY] \<and> 5 < length (sm_abs m0)
     \<and> (t = AlreadyDirty \<longleftrightarrow> sm_abs m0 ! 5 = DIRTY)
     \<and> (t = FromSyncing \<longleftrightarrow> sm_abs m0 ! 5 = SYNCING))"
  by (rule to_dirty_linearizes) (auto simp: flip_five_ok)

text \<open>
  the page scan reports exactly the present blocks, in index order.  The
  enumeration that skips empty pages and zero bytes equals the filtered array of
  states, and its length is the number of present blocks.
\<close>

theorem iter_present_complete:
  assumes "sm_inv m"
  shows "iter_present m = filter (\<lambda>(_, s). s \<noteq> NOT_PRESENT) (List.enumerate 0 (sm_abs m))
       \<and> count_present m = length (filter (\<lambda>s. s \<noteq> NOT_PRESENT) (sm_abs m))"
proof
  show e: "iter_present m = filter (\<lambda>(_, s). s \<noteq> NOT_PRESENT) (List.enumerate 0 (sm_abs m))"
    by (rule iter_present_eq [OF assms])
  have "filter (\<lambda>(_, s). s \<noteq> NOT_PRESENT) (List.enumerate k xs) =
        filter ((\<lambda>s. s \<noteq> NOT_PRESENT) \<circ> snd) (List.enumerate k xs)" for k :: nat and xs
    by (rule filter_cong) auto
  then show "count_present m = length (filter (\<lambda>s. s \<noteq> NOT_PRESENT) (sm_abs m))"
    unfolding count_present_def e by (metis length_map filter_map map_snd_enumerate)
qed

theorem iter_present_complete_witness:
  "iter_present (sm_new 10) = filter (\<lambda>(_, s). s \<noteq> NOT_PRESENT) (List.enumerate 0 (sm_abs (sm_new 10)))
   \<and> count_present (sm_new 10) = length (filter (\<lambda>s. s \<noteq> NOT_PRESENT) (sm_abs (sm_new 10)))"
  by (rule iter_present_complete) simp

text \<open>\<open>try_set_present\<close> is the compare-and-swap from NOT_PRESENT to CLEAN.\<close>

lemma try_set_present_eq:
  assumes "sm_inv m" "i < num_entries m"
  shows "\<exists>m'. try_set_present m i = Some (sm_abs m ! i = NOT_PRESENT, m') \<and> sm_inv m'
     \<and> sm_abs m' = (if sm_abs m ! i = NOT_PRESENT then (sm_abs m)[i := CLEAN] else sm_abs m)"
proof (cases "directory m ! (i div 16384)")
  case (Some pg)
  have r: "i div 16384 < length (directory m)" using page_in_range assms by blast
  have st: "sm_abs m ! i = slot_get (pg ! (i mod 16384 div 4)) (2 * (i mod 4))"
    using Some assms(2) by (simp add: sm_abs_def dir_state_def)
  have vc: "valid_state CLEAN" by (simp add: valid_state_def)
  show ?thesis
    using Some r st sm_abs_store [OF assms Some vc refl] sm_inv_store [OF assms(1) r Some] assms(1)
    by (simp add: try_set_present_def split_index_eq ensure_page_def load_page_def)
next
  case None
  obtain m' where m': "ensure_page m (i div 16384) = Some (StatePage_new, m')"
    "sm_inv m'" "num_entries m' = num_entries m" "sm_abs m' = sm_abs m"
    "directory m' ! (i div 16384) = Some StatePage_new"
    using ensure_page_alloc [OF assms None] by blast
  have i': "i < num_entries m'" using assms m' by simp
  have vc: "valid_state CLEAN" by (simp add: valid_state_def)
  have z: "StatePage_new ! (i mod 16384 div 4) = 0"
    using byte_in_range [of i] by (simp add: StatePage_new_def page_consts)
  have st: "sm_abs m ! i = NOT_PRESENT" using None assms(2) by (simp add: sm_abs_def dir_state_def)
  show ?thesis
    using m' z st sm_abs_store [OF m'(2) i' m'(5) vc refl]
      sm_inv_store [OF m'(2) page_in_range [OF m'(2) i'] m'(5)]
    by (simp add: try_set_present_def split_index_eq)
qed

section \<open>Codec dispatch\<close>

text \<open>
  The lz4 and zstd libraries are parameters: a record of the library calls the
  module makes.  \<open>codec_documented\<close> states what their documentation promises:
  the lz4 frame starts with the little-endian 32-bit uncompressed size, a zstd
  frame starts with the magic number of RFC 8878 and one-shot compression records
  the content size, and decompression inverts compression when the output buffer
  is large enough.
\<close>

record codec_lib =
  lz4_compress_prepend_size :: "bytes \<Rightarrow> bytes"
  lz4_decompress_size_prepended :: "bytes \<Rightarrow> bytes option"
  zstd_bulk_compress :: "bytes \<Rightarrow> int \<Rightarrow> bytes option"
  zstd_frame_content_size :: "bytes \<Rightarrow> u64 option option"
  zstd_decompress_to_buffer :: "bytes \<Rightarrow> nat \<Rightarrow> bytes option"
  try_reserve_exact :: "nat \<Rightarrow> bool"

datatype CompressError =
    Lz4_ExpectedAnotherByte
  | Lz4_OutputTooSmall nat nat
  | Lz4_Library
  | Zstd_OutOfMemory
  | Zstd_Library

definition ZSTD_MAGIC :: bytes where "ZSTD_MAGIC = [0x28, 0xB5, 0x2F, 0xFD]"
definition MAX_DECOMPRESSED_SIZE :: nat where "MAX_DECOMPRESSED_SIZE = 2 * 1024 * 1024"
definition COMPRESSION_LZ4 :: int where "COMPRESSION_LZ4 = 0"
definition COMPRESSION_RUNTIME_DEFAULT :: int where "COMPRESSION_RUNTIME_DEFAULT = 1"
definition COMPRESSION_BLESS :: int where "COMPRESSION_BLESS = 19"

definition lz4_decompress :: "codec_lib \<Rightarrow> bytes \<Rightarrow> CompressError + bytes" where
  "lz4_decompress L compressed =
     (if length compressed < 4 then Inl Lz4_ExpectedAnotherByte
      else let claimed_size = unat (from_le_bytes (take 4 compressed) :: u32)
        in if claimed_size > MAX_DECOMPRESSED_SIZE
           then Inl (Lz4_OutputTooSmall claimed_size MAX_DECOMPRESSED_SIZE)
           else (case lz4_decompress_size_prepended L compressed of
                   None \<Rightarrow> Inl Lz4_Library
                 | Some d \<Rightarrow> Inr d))"

definition zstd_decompress :: "codec_lib \<Rightarrow> bytes \<Rightarrow> nat \<Rightarrow> CompressError + bytes" where
  "zstd_decompress L compressed max_size =
     (let declared = (case zstd_frame_content_size L compressed of
                        Some (Some n) \<Rightarrow> (if unat n \<le> max_size then Some (unat n) else None)
                      | _ \<Rightarrow> None);
          capacity = (case declared of None \<Rightarrow> max_size | Some n \<Rightarrow> n)
      in if \<not> try_reserve_exact L capacity then Inl Zstd_OutOfMemory
         else (case zstd_decompress_to_buffer L compressed capacity of
                 None \<Rightarrow> Inl Zstd_Library
               | Some d \<Rightarrow> Inr d))"

definition compress_block :: "codec_lib \<Rightarrow> bytes \<Rightarrow> int \<Rightarrow> bytes option" where
  "compress_block L data level =
     (if level = COMPRESSION_LZ4 then Some (lz4_compress_prepend_size L data)
      else zstd_bulk_compress L data level)"

definition decompress_block :: "codec_lib \<Rightarrow> bytes \<Rightarrow> CompressError + bytes" where
  "decompress_block L compressed =
     (if length compressed \<ge> 4 \<and> take 4 compressed = ZSTD_MAGIC
      then zstd_decompress L compressed MAX_DECOMPRESSED_SIZE
      else lz4_decompress L compressed)"

definition codec_documented :: "codec_lib \<Rightarrow> bytes \<Rightarrow> bool" where
  "codec_documented L d \<longleftrightarrow>
     take 4 (lz4_compress_prepend_size L d) = to_le_bytes (of_nat (length d) :: u32)
   \<and> lz4_decompress_size_prepended L (lz4_compress_prepend_size L d) = Some d
   \<and> (\<forall>level c. zstd_bulk_compress L d level = Some c \<longrightarrow>
        length c \<ge> 4 \<and> take 4 c = ZSTD_MAGIC
      \<and> zstd_frame_content_size L c = Some (Some (of_nat (length d)))
      \<and> (\<forall>cap. length d \<le> cap \<longrightarrow> zstd_decompress_to_buffer L c cap = Some d))"

lemma lz4_prefix_not_zstd:
  assumes "n \<le> MAX_DECOMPRESSED_SIZE"
  shows "to_le_bytes (of_nat n :: u32) \<noteq> ZSTD_MAGIC"
proof
  assume "to_le_bytes (of_nat n :: u32) = ZSTD_MAGIC"
  then have "from_le_bytes (to_le_bytes (of_nat n :: u32)) = (from_le_bytes ZSTD_MAGIC :: u32)"
    by simp
  then have "(of_nat n :: u32) = from_le_bytes ZSTD_MAGIC" by simp
  moreover have "from_le_bytes ZSTD_MAGIC = (4247762216 :: u32)"
    by (simp add: from_le_bytes_def ZSTD_MAGIC_def)
  ultimately have "unat (of_nat n :: u32) = 4247762216" by simp
  moreover have "unat (of_nat n :: u32) = n"
    using assms by (simp add: unat_of_nat MAX_DECOMPRESSED_SIZE_def)
  ultimately show False using assms by (simp add: MAX_DECOMPRESSED_SIZE_def)
qed

text \<open>
  C23: decompression inverts compression for every codec choice.  A block of at
  most 2 MiB compressed by \<open>compress_block\<close> at any level is returned unchanged by
  \<open>decompress_block\<close>, which detects the codec from the frame alone.
\<close>

theorem compress_roundtrip:
  assumes "codec_documented L d" "length d \<le> MAX_DECOMPRESSED_SIZE"
    and "compress_block L d level = Some c" "try_reserve_exact L (length d)"
  shows "decompress_block L c = Inr d"
proof (cases "level = COMPRESSION_LZ4")
  case True
  then have c: "c = lz4_compress_prepend_size L d" using assms(3) by (simp add: compress_block_def)
  have t: "take 4 c = to_le_bytes (of_nat (length d) :: u32)"
    using assms(1) c by (simp add: codec_documented_def)
  then have "length c \<ge> 4" by (metis length_take length_to_le_bytes_word(3) min_def nle_le)
  moreover have "unat (of_nat (length d) :: u32) = length d"
    using assms(2) by (simp add: unat_of_nat MAX_DECOMPRESSED_SIZE_def)
  ultimately show ?thesis
    using t lz4_prefix_not_zstd [OF assms(2)] assms(1,2) c
    by (simp add: decompress_block_def lz4_decompress_def codec_documented_def)
next
  case False
  then have z: "zstd_bulk_compress L d level = Some c" using assms(3) by (simp add: compress_block_def)
  have "length c \<ge> 4" "take 4 c = ZSTD_MAGIC"
    "zstd_frame_content_size L c = Some (Some (of_nat (length d)))"
    "zstd_decompress_to_buffer L c (length d) = Some d"
    using assms(1) z by (auto simp: codec_documented_def)
  moreover have "unat (of_nat (length d) :: u64) = length d"
    using assms(2) by (simp add: unat_of_nat MAX_DECOMPRESSED_SIZE_def)
  ultimately show ?thesis
    using assms(2,4) by (simp add: decompress_block_def zstd_decompress_def)
qed

definition toy_codec :: codec_lib where
  "toy_codec =
     \<lparr> lz4_compress_prepend_size = (\<lambda>d. to_le_bytes (of_nat (length d) :: u32) @ d),
       lz4_decompress_size_prepended = (\<lambda>c. Some (drop 4 c)),
       zstd_bulk_compress = (\<lambda>d _. Some (ZSTD_MAGIC @ d)),
       zstd_frame_content_size = (\<lambda>c. Some (Some (of_nat (length c - 4)))),
       zstd_decompress_to_buffer = (\<lambda>c cap. if length c - 4 \<le> cap then Some (drop 4 c) else None),
       try_reserve_exact = (\<lambda>_. True) \<rparr>"

lemma toy_codec_documented: "codec_documented toy_codec d"
  by (simp add: codec_documented_def toy_codec_def ZSTD_MAGIC_def)

theorem compress_roundtrip_witness:
  "decompress_block toy_codec (ZSTD_MAGIC @ [7, 8, 9]) = Inr [7, 8, 9]"
  by (rule compress_roundtrip [where level = 1, OF toy_codec_documented])
     (simp_all add: MAX_DECOMPRESSED_SIZE_def compress_block_def COMPRESSION_LZ4_def toy_codec_def)

text \<open>Size bombs: whatever the frame claims, lz4 output above the cap is refused before decoding.\<close>

lemma lz4_bomb:
  assumes "4 \<le> length c" "unat (from_le_bytes (take 4 c) :: u32) > MAX_DECOMPRESSED_SIZE"
    "take 4 c \<noteq> ZSTD_MAGIC"
  shows "\<exists>n. decompress_block L c = Inl (Lz4_OutputTooSmall n MAX_DECOMPRESSED_SIZE)"
  using assms by (simp add: decompress_block_def lz4_decompress_def)

end
