(* ===== verification/Wal.thy ===== *)
theory Wal
  imports GlidePrelude "HOL-Library.Char_ord"
begin

text \<open>
  The write-ahead log of \<open>glidefs/src/block/wal.rs\<close>: the 20-byte record format,
  replay with its treatment of torn and corrupt records, the append and truncate
  operations on the log file, and the ownership decision of \<open>Wal::open\<close> on the
  sibling lockfile.  The CRC-32C of the crc crate is a parameter \<open>crc\<close> on the
  checksummed bytes; system calls return an explicit outcome.
\<close>

section \<open>Records\<close>

datatype io_error = UnexpectedEof | InvalidData | WouldBlock | OtherError

record WalEntry =
  block_index :: u64
  entry_sequence :: u64

definition serialize_entry :: "(bytes \<Rightarrow> u32) \<Rightarrow> bytes \<Rightarrow> u64 \<Rightarrow> u64 \<Rightarrow> bytes" where
  "serialize_entry crc buf bi sq =
     buf @ to_le_bytes bi @ to_le_bytes sq @ to_le_bytes (crc (to_le_bytes bi @ to_le_bytes sq))"

definition wal_record :: "(bytes \<Rightarrow> u32) \<Rightarrow> WalEntry \<Rightarrow> bytes" where
  "wal_record crc e = serialize_entry crc [] (block_index e) (entry_sequence e)"

text \<open>
  \<open>Read::read_exact\<close> on the rest of the log: a full read of \<open>n\<close> bytes, or the error.
\<close>

definition read_exact :: "nat \<Rightarrow> bytes \<Rightarrow> io_error + bytes \<times> bytes" where
  "read_exact n bs = (if length bs < n then Inl UnexpectedEof else Inr (take n bs, drop n bs))"

text \<open>The result of \<open>read_entry\<close> and the rest of the log behind the record.\<close>

definition read_entry :: "(bytes \<Rightarrow> u32) \<Rightarrow> bytes \<Rightarrow> (io_error + WalEntry option) \<times> bytes" where
  "read_entry crc bs =
     (case read_exact 8 bs of
        Inl e \<Rightarrow> (if e = UnexpectedEof then (Inr None, []) else (Inl e, []))
      | Inr (b1, r1) \<Rightarrow>
          (case read_exact 8 r1 of
             Inl e \<Rightarrow> (Inl e, [])
           | Inr (b2, r2) \<Rightarrow>
               (case read_exact 4 r2 of
                  Inl e \<Rightarrow> (Inl e, [])
                | Inr (b3, r3) \<Rightarrow>
                    (let stored_crc = (from_le_bytes b3 :: u32); computed_crc = crc (b1 @ b2)
                     in if stored_crc \<noteq> computed_crc then (Inl InvalidData, r3)
                        else (Inr (Some \<lparr> block_index = from_le_bytes b1,
                                           entry_sequence = from_le_bytes b2 \<rparr>), r3)))))"

lemma read_entry_shrinks:
  assumes "read_entry crc bs = (r, rest)" "r = Inr (Some e) \<or> r = Inl InvalidData"
  shows "length rest < length bs"
  using assms by (auto simp: read_entry_def read_exact_def Let_def split: if_splits)

function replay_loop :: "(bytes \<Rightarrow> u32) \<Rightarrow> u64 \<Rightarrow> bytes \<Rightarrow> WalEntry list" where
  "replay_loop crc min_sequence bs =
     (case read_entry crc bs of
        (Inr (Some e), rest) \<Rightarrow>
          (if entry_sequence e > min_sequence then e # replay_loop crc min_sequence rest
           else replay_loop crc min_sequence rest)
      | (Inr None, _) \<Rightarrow> []
      | (Inl err, rest) \<Rightarrow>
          (if err = InvalidData then replay_loop crc min_sequence rest else []))"
  by pat_completeness auto
termination
  by (relation "measure (\<lambda>(_, _, bs). length bs)") (auto dest: read_entry_shrinks [OF sym])

declare replay_loop.simps [simp del]

text \<open>\<open>replay\<close>: the log file is absent, unreadable, or has the given bytes.\<close>

datatype log_file = NotFound | OpenError | Contents bytes

definition replay :: "(bytes \<Rightarrow> u32) \<Rightarrow> log_file \<Rightarrow> u64 \<Rightarrow> io_error + WalEntry list" where
  "replay crc f min_sequence =
     (case f of NotFound \<Rightarrow> Inr [] | OpenError \<Rightarrow> Inl OtherError
      | Contents bs \<Rightarrow> Inr (replay_loop crc min_sequence bs))"

section \<open>Appending and truncating\<close>

text \<open>
  The log file as the bytes the kernel holds.  A \<open>write\<close> system call either fails or
  appends the first \<open>n\<close> bytes of the buffer; a \<open>ftruncate\<close> succeeds or not.
\<close>

datatype write_outcome = WriteFailed | Written nat

definition append_batch :: "write_outcome \<Rightarrow> bytes \<Rightarrow> bytes \<Rightarrow> (io_error + unit) \<times> bytes" where
  "append_batch sys buf log =
     (if buf = [] then (Inr (), log)
      else case sys of
             WriteFailed \<Rightarrow> (Inl OtherError, log)
           | Written n \<Rightarrow>
               (if n \<noteq> length buf then (Inl OtherError, log @ take n buf)
                else (Inr (), log @ buf)))"

definition truncate_log :: "bool \<Rightarrow> bytes \<Rightarrow> (io_error + unit) \<times> bytes" where
  "truncate_log sys_ok log = (if \<not> sys_ok then (Inl OtherError, log) else (Inr (), []))"

definition truncate_if :: "bool \<Rightarrow> bool \<Rightarrow> bytes \<Rightarrow> (io_error + bool) \<times> bytes" where
  "truncate_if sys_ok still_covered log =
     (if \<not> still_covered then (Inr False, log)
      else if \<not> sys_ok then (Inl OtherError, log)
      else (Inr True, []))"

definition exclusive_then_truncate :: "bool \<Rightarrow> (io_error + 'r) \<Rightarrow> bool \<Rightarrow> bytes
    \<Rightarrow> (io_error + 'r) \<times> bytes" where
  "exclusive_then_truncate sys_ok f still_ok log =
     (case f of
        Inl e \<Rightarrow> (Inl e, log)
      | Inr r \<Rightarrow>
          (if \<not> still_ok then (Inr r, log)
           else if \<not> sys_ok then (Inl OtherError, log)
           else (Inr r, [])))"

section \<open>Ownership of the log\<close>

text \<open>
  \<open>str::trim\<close> and \<open>parse::<u32>\<close> on the lockfile text: an optional plus sign and at
  least one decimal digit, with a value below \<open>2^32\<close>.
\<close>

definition ws :: "char \<Rightarrow> bool" where
  "ws c = (of_char c \<in> {9, 10, 11, 12, 13, 32 :: nat})"

definition trim :: "string \<Rightarrow> string" where
  "trim s = rev (dropWhile ws (rev (dropWhile ws s)))"

definition digit_value :: "char \<Rightarrow> nat option" where
  "digit_value c = (let n = of_char c :: nat in if 48 \<le> n \<and> n \<le> 57 then Some (n - 48) else None)"

fun parse_digits :: "nat \<Rightarrow> string \<Rightarrow> nat option" where
  "parse_digits acc [] = Some acc"
| "parse_digits acc (c # cs) =
     (case digit_value c of
        None \<Rightarrow> None
      | Some d \<Rightarrow> (let acc' = acc * 10 + d in if acc' < 2 ^ 32 then parse_digits acc' cs else None))"

definition parse_u32 :: "string \<Rightarrow> u32 option" where
  "parse_u32 s =
     (let ds = (case s of [] \<Rightarrow> [] | c # cs \<Rightarrow> if c = CHR ''+'' then cs else s)
      in if ds = [] then None else map_option of_nat (parse_digits 0 ds))"

text \<open>The text is \<open>None\<close> when seeking or reading fails.\<close>

definition read_pid_from_lockfile :: "string option \<Rightarrow> u32 option" where
  "read_pid_from_lockfile txt = (case txt of None \<Rightarrow> None | Some s \<Rightarrow> parse_u32 (trim s))"

fun decimal_digits :: "nat \<Rightarrow> string" where
  "decimal_digits n =
     (if n < 10 then [char_of (48 + n)] else decimal_digits (n div 10) @ [char_of (48 + n mod 10)])"

declare decimal_digits.simps [simp del]

definition pid_line :: "u32 \<Rightarrow> string" where
  "pid_line pid = decimal_digits (unat pid) @ [CHR 0x0A]"

record open_env =
  our_pid :: u32
  our_ppid :: u32
  process_alive :: "u32 \<Rightarrow> bool"
  wal_opens :: bool
  lockfile_opens :: bool
  flock_result :: "io_error option"
  pid_write_ok :: bool

text \<open>
  \<open>Wal::open\<close>: the error, or success with the text the lockfile holds afterwards and
  whether this open took the advisory lock.
\<close>

definition wal_open :: "open_env \<Rightarrow> string option \<Rightarrow> io_error + (string option \<times> bool)" where
  "wal_open env lock_text =
     (if \<not> wal_opens env then Inl OtherError
      else if \<not> lockfile_opens env then Inl OtherError
      else
        (let claim =
           (case flock_result env of
              Some e \<Rightarrow> Inl e
            | None \<Rightarrow> if pid_write_ok env then Inr (Some (pid_line (our_pid env)), True) else Inl OtherError)
         in case read_pid_from_lockfile lock_text of
              Some pid \<Rightarrow>
                (if pid = our_pid env then Inr (lock_text, False)
                 else if pid = our_ppid env \<and> process_alive env pid then Inr (lock_text, False)
                 else if process_alive env pid then Inl WouldBlock
                 else claim)
            | None \<Rightarrow> claim))"

section \<open>Replay returns what was logged\<close>

lemma length_wal_record [simp]: "length (wal_record crc e) = 20"
  by (simp add: wal_record_def serialize_entry_def)

lemma read_entry_record:
  "read_entry crc (wal_record crc e @ rest) = (Inr (Some e), rest)"
  by (simp add: read_entry_def read_exact_def wal_record_def serialize_entry_def)

lemma read_entry_corrupt:
  assumes "length bad = 20" "from_le_bytes (drop 16 bad) \<noteq> crc (take 16 bad)"
  shows "read_entry crc (bad @ rest) = (Inl InvalidData, rest)"
proof -
  have "take 8 bad @ take 8 (drop 8 bad) = take 16 bad"
    using take_add [of 8 8 bad] by simp
  moreover have "take 4 (drop 16 bad) = drop 16 bad" using assms(1) by simp
  ultimately show ?thesis
    using assms by (simp add: read_entry_def read_exact_def)
qed

lemma replay_loop_torn:
  "length tail < 20 \<Longrightarrow> replay_loop crc n tail = []"
  by (subst replay_loop.simps) (auto simp: read_entry_def read_exact_def)

lemma replay_loop_records:
  "replay_loop crc n (concat (map (wal_record crc) es) @ rest) =
   filter (\<lambda>e. entry_sequence e > n) es @ replay_loop crc n rest"
proof (induction es)
  case (Cons e es)
  show ?case
    by (subst replay_loop.simps) (simp add: read_entry_record Cons.IH)
qed simp

lemma replay_loop_corrupt:
  assumes "length bad = 20" "from_le_bytes (drop 16 bad) \<noteq> crc (take 16 bad)"
  shows "replay_loop crc n (bad @ rest) = replay_loop crc n rest"
  by (subst replay_loop.simps) (simp add: read_entry_corrupt [of bad crc, OF assms])

text \<open>
  C17: replay returns what was logged.  Whatever the checksum function, replaying a
  log made of serialized entries followed by any torn tail shorter than a record
  returns exactly the entries above the checkpoint sequence, in order.
\<close>

theorem replay_complete:
  assumes "length tail < 20"
  shows "replay crc (Contents (concat (map (wal_record crc) es) @ tail)) n =
         Inr (filter (\<lambda>e. entry_sequence e > n) es)"
  by (simp add: replay_def replay_loop_records replay_loop_torn [OF assms])

theorem replay_complete_witness:
  "replay (\<lambda>bs. of_nat (le_dec bs)) (Contents (concat (map (wal_record (\<lambda>bs. of_nat (le_dec bs)))
      [\<lparr> block_index = 3, entry_sequence = 1 \<rparr>, \<lparr> block_index = 9, entry_sequence = 2 \<rparr>]) @ [1, 2, 3])) 1 =
   Inr (filter (\<lambda>e. entry_sequence e > 1)
      [\<lparr> block_index = 3, entry_sequence = 1 \<rparr>, \<lparr> block_index = 9, entry_sequence = 2 \<rparr>])"
  by (rule replay_complete) simp

text \<open>
  a corrupt record hides nothing else.  A complete 20-byte record whose checksum
  does not match is dropped, and every entry logged before and after it is still
  returned.
\<close>

theorem replay_skips_corrupt:
  assumes "length bad = 20" "from_le_bytes (drop 16 bad) \<noteq> crc (take 16 bad)" "length tail < 20"
  shows "replay crc (Contents (concat (map (wal_record crc) es1) @ bad
            @ concat (map (wal_record crc) es2) @ tail)) n =
         Inr (filter (\<lambda>e. entry_sequence e > n) (es1 @ es2))"
  by (simp add: replay_def replay_loop_records replay_loop_corrupt [of bad crc, OF assms(1,2)]
      replay_loop_torn [OF assms(3)])

lemma zero_bytes: "replicate 4 (0 :: byte) = [0, 0, 0, 0]"
  by (simp add: numeral_eq_Suc)

theorem replay_skips_corrupt_witness:
  "replay (\<lambda>_. 7) (Contents (concat (map (wal_record (\<lambda>_. 7)) [\<lparr> block_index = 3, entry_sequence = 1 \<rparr>])
      @ replicate 20 0 @ concat (map (wal_record (\<lambda>_. 7)) [\<lparr> block_index = 4, entry_sequence = 2 \<rparr>]) @ [])) 0 =
   Inr (filter (\<lambda>e. entry_sequence e > 0)
      ([\<lparr> block_index = 3, entry_sequence = 1 \<rparr>] @ [\<lparr> block_index = 4, entry_sequence = 2 \<rparr>]))"
  by (rule replay_skips_corrupt) (simp_all add: from_le_bytes_def zero_bytes)

section \<open>Ownership is recorded and respected\<close>

lemma digit_value_char [simp]: "d < 10 \<Longrightarrow> digit_value (char_of (48 + d)) = Some d"
  by (simp add: digit_value_def Let_def)

lemma parse_digits_append:
  "parse_digits acc (xs @ ys) = Option.bind (parse_digits acc xs) (\<lambda>a. parse_digits a ys)"
  by (induction acc xs rule: parse_digits.induct) (auto simp: Let_def split: option.splits)

lemma parse_decimal_digits:
  "n < 2 ^ 32 \<Longrightarrow> parse_digits 0 (decimal_digits n) = Some n"
proof (induction n rule: decimal_digits.induct)
  case (1 n)
  show ?case
  proof (cases "n < 10")
    case True
    then show ?thesis by (simp add: decimal_digits.simps Let_def)
  next
    case False
    have "n div 10 < 2 ^ 32" using "1.prems" by simp
    then show ?thesis
      using 1 False by (subst decimal_digits.simps) (simp add: parse_digits_append Let_def)
  qed
qed

lemma decimal_digits_chars: "c \<in> set (decimal_digits n) \<Longrightarrow> 48 \<le> (of_char c :: nat) \<and> (of_char c :: nat) \<le> 57"
proof (induction n rule: decimal_digits.induct)
  case (1 n)
  have "set (decimal_digits n) =
      (if n < 10 then {char_of (48 + n)} else insert (char_of (48 + n mod 10)) (set (decimal_digits (n div 10))))"
    by (subst decimal_digits.simps) simp
  then show ?case
    using 1 by (auto split: if_splits)
qed

lemma decimal_digits_not_Nil [simp]: "decimal_digits n \<noteq> []"
  by (subst decimal_digits.simps) simp

lemma dropWhile_none: "\<forall>x\<in>set xs. \<not> P x \<Longrightarrow> dropWhile P xs = xs"
  by (cases xs) auto

lemma trim_pid_line: "trim (pid_line pid) = decimal_digits (unat pid)"
proof -
  have nws: "\<forall>c\<in>set (decimal_digits (unat pid)). \<not> ws c"
    using decimal_digits_chars by (fastforce simp: ws_def)
  have "dropWhile ws (pid_line pid) = pid_line pid"
    using nws by (cases "decimal_digits (unat pid)") (auto simp: pid_line_def)
  then show ?thesis
    using nws by (simp add: trim_def pid_line_def ws_def [of "CHR 0x0A"] dropWhile_none)
qed

lemma parse_u32_decimal: "parse_u32 (decimal_digits (unat (w :: u32))) = Some w"
proof -
  obtain c cs where d: "decimal_digits (unat w) = c # cs"
    by (meson decimal_digits_not_Nil list.exhaust)
  then have "c \<noteq> CHR ''+''" using decimal_digits_chars [of c "unat w"] by auto
  moreover have "unat w < 2 ^ 32" using unsigned_less [of w, where ?'a = nat] by simp
  ultimately show ?thesis
    using d parse_decimal_digits [of "unat w"] by (simp add: parse_u32_def Let_def del: parse_digits.simps)
qed

lemma read_pid_of_line: "read_pid_from_lockfile (Some (pid_line pid)) = Some pid"
  by (simp add: read_pid_from_lockfile_def trim_pid_line parse_u32_decimal)

text \<open>
  C22: one process owns a log.  When a process has opened the log and taken the lock,
  any other process that is not its child is refused with WouldBlock while the
  owner is alive; the owner itself, and its handoff successor, may reopen it.
\<close>

theorem wal_exclusive:
  assumes "wal_open env lt = Inr (lt', True)"
    and "wal_opens env2" "lockfile_opens env2"
    and "our_pid env2 \<noteq> our_pid env" "process_alive env2 (our_pid env)"
  shows "wal_open env2 lt' =
     (if our_ppid env2 = our_pid env then Inr (lt', False) else Inl WouldBlock)"
proof -
  have "lt' = Some (pid_line (our_pid env))"
    using assms(1) by (auto simp: wal_open_def Let_def split: if_splits option.splits)
  then show ?thesis
    using assms(2-) by (auto simp: wal_open_def read_pid_of_line)
qed

definition demo_env :: "u32 \<Rightarrow> u32 \<Rightarrow> open_env" where
  "demo_env pid ppid =
     \<lparr> our_pid = pid, our_ppid = ppid, process_alive = (\<lambda>p. p = 100), wal_opens = True,
       lockfile_opens = True, flock_result = None, pid_write_ok = True \<rparr>"

theorem wal_exclusive_witness:
  "wal_open (demo_env 200 1) (Some (pid_line 100)) =
     (if our_ppid (demo_env 200 1) = our_pid (demo_env 100 1) then Inr (Some (pid_line 100), False)
      else Inl WouldBlock)"
  by (rule wal_exclusive [where lt = None])
     (simp_all add: demo_env_def wal_open_def read_pid_from_lockfile_def)

end
