(* ===== verification/Pack.thy ===== *)
theory Pack
  imports GlidePrelude
begin

text \<open>
  The pack format GLPK v3 of \<open>glidefs/src/block/pack.rs\<close>: assembling a pack from
  compressed blocks, streaming it through the bounded multipart uploader, parsing
  the index footer from a suffix of the pack, extracting one block, and the
  content-derived pack identifier.  BLAKE3 is a parameter on the hashed bytes.
  A 16-byte hash is the 128-bit word of its little-endian bytes.
\<close>

type_synonym Blake3Hash = u128
type_synonym PackId = u64
type_synonym pack_block = "Blake3Hash \<times> u32 \<times> bytes"

definition PACK_MAGIC :: bytes where "PACK_MAGIC = [0x47, 0x4C, 0x50, 0x4B]"
definition PACK_VERSION :: u16 where "PACK_VERSION = 3"
definition DEFAULT_FLUSH_THRESHOLD :: nat where "DEFAULT_FLUSH_THRESHOLD = 1024"
definition PACK_HEADER_SIZE :: nat where "PACK_HEADER_SIZE = 16"
definition PACK_INDEX_ENTRY_SIZE :: nat where "PACK_INDEX_ENTRY_SIZE = 28"
definition TRAILER_MAGIC :: bytes where "TRAILER_MAGIC = [0x47, 0x4C, 0x49, 0x58]"
definition TRAILER_SIZE :: nat where "TRAILER_SIZE = 8"
definition PART_SIZE :: nat where "PART_SIZE = 8 * 1024 * 1024"

lemmas pack_consts = PACK_MAGIC_def TRAILER_MAGIC_def PACK_HEADER_SIZE_def
  PACK_INDEX_ENTRY_SIZE_def TRAILER_SIZE_def

section \<open>Pack identifiers\<close>

definition pack_id_input :: "pack_block list \<Rightarrow> bytes" where
  "pack_id_input blocks =
     concat (map (\<lambda>(hash, chunk_offset, compressed).
        to_le_bytes chunk_offset @ to_le_bytes hash
        @ to_le_bytes (of_nat (length compressed) :: u32) @ compressed) blocks)"

definition content_pack_id :: "(bytes \<Rightarrow> bytes) \<Rightarrow> pack_block list \<Rightarrow> PackId" where
  "content_pack_id blake3 blocks = from_le_bytes (take 8 (blake3 (pack_id_input blocks)))"

section \<open>Assembling a pack\<close>

record PackIndexEntry =
  hash :: Blake3Hash
  chunk_offset :: u32
  offset :: u32
  comp_length :: u32

record PackIndex =
  block_count :: u16
  pi_chunk_size :: u32
  entries :: "PackIndexEntry list"

datatype pack_error = InvalidInput | InvalidPackData | SuffixTooSmall | UploadFailed

definition block_key :: "pack_block \<Rightarrow> u32" where
  "block_key b = fst (snd b)"

definition count_u16 :: "'a list \<Rightarrow> u16 option" where
  "count_u16 xs = (if length xs < 2 ^ 16 then Some (of_nat (length xs)) else None)"

fun index_entries :: "u32 \<Rightarrow> pack_block list \<Rightarrow> pack_error + PackIndexEntry list" where
  "index_entries running_offset [] = Inr []"
| "index_entries running_offset ((h, co, compressed) # blocks) =
     (let cl = (of_nat (length compressed) :: u32)
      in case checked_add running_offset cl of
           None \<Rightarrow> Inl InvalidInput
         | Some next \<Rightarrow>
             (case index_entries next blocks of
                Inl e \<Rightarrow> Inl e
              | Inr es \<Rightarrow> Inr (\<lparr> hash = h, chunk_offset = co, offset = running_offset,
                                 comp_length = cl \<rparr> # es)))"

definition pack_header :: "u16 \<Rightarrow> u32 \<Rightarrow> bytes" where
  "pack_header count chunk_size =
     PACK_MAGIC @ to_le_bytes PACK_VERSION @ to_le_bytes count @ to_le_bytes chunk_size @ [0, 0, 0, 0]"

definition entry_bytes :: "PackIndexEntry \<Rightarrow> bytes" where
  "entry_bytes e =
     to_le_bytes (hash e) @ to_le_bytes (chunk_offset e) @ to_le_bytes (offset e)
     @ to_le_bytes (comp_length e)"

definition pack_trailer :: "u16 \<Rightarrow> bytes" where
  "pack_trailer count = to_le_bytes count @ [0, 0] @ TRAILER_MAGIC"

definition assemble_pack :: "pack_block list \<Rightarrow> u32 \<Rightarrow> pack_error + bytes \<times> PackIndexEntry list" where
  "assemble_pack blocks0 chunk_size =
     (let blocks = sort_key block_key blocks0
      in case count_u16 blocks of
           None \<Rightarrow> Inl InvalidInput
         | Some count \<Rightarrow>
             (case index_entries (of_nat PACK_HEADER_SIZE) blocks of
                Inl e \<Rightarrow> Inl e
              | Inr es \<Rightarrow>
                  Inr (pack_header count chunk_size
                       @ concat (map (\<lambda>(_, _, compressed). compressed) blocks)
                       @ concat (map entry_bytes es)
                       @ pack_trailer count, es)))"

section \<open>Streaming upload\<close>

text \<open>
  The uploader buffers bytes and issues a part whenever the buffer holds a full
  part.  Parts are numbered in the order they are issued; the store concatenates
  them in that order on completion.  \<open>part_ok\<close> says which part uploads succeed and
  \<open>joined\<close> which earlier parts are found finished when a part is issued.
\<close>

record upload_env =
  part_ok :: "nat \<Rightarrow> bool"
  joined :: "nat \<Rightarrow> nat list"
  complete_ok :: bool

record BoundedMultipart =
  buffer :: bytes
  part_size :: nat
  parts :: "bytes list"

definition new_with_part_size :: "nat \<Rightarrow> BoundedMultipart" where
  "new_with_part_size n = \<lparr> buffer = [], part_size = n, parts = [] \<rparr>"

definition spawn_part :: "upload_env \<Rightarrow> bytes \<Rightarrow> BoundedMultipart \<Rightarrow> pack_error + BoundedMultipart" where
  "spawn_part env data w =
     (if \<exists>i\<in>set (joined env (length (parts w))). \<not> part_ok env i then Inl UploadFailed
      else Inr (w\<lparr> parts := parts w @ [data] \<rparr>))"

text \<open>
  With a part size of zero the loop of \<open>flush_full_parts\<close> never ends; that is the
  outer \<open>None\<close>.
\<close>

function flush_full_parts :: "upload_env \<Rightarrow> BoundedMultipart \<Rightarrow> (pack_error + BoundedMultipart) option" where
  "flush_full_parts env w =
     (if part_size w = 0 then None
      else if length (buffer w) < part_size w then Some (Inr w)
      else (case spawn_part env (take (part_size w) (buffer w)) (w\<lparr> buffer := drop (part_size w) (buffer w) \<rparr>) of
              Inl e \<Rightarrow> Some (Inl e)
            | Inr w' \<Rightarrow> flush_full_parts env w'))"
  by pat_completeness auto
termination
  by (relation "measure (\<lambda>(_, w). length (buffer w))") (auto simp: spawn_part_def split: if_splits)

declare flush_full_parts.simps [simp del]

definition write_part :: "upload_env \<Rightarrow> bytes \<Rightarrow> BoundedMultipart \<Rightarrow> (pack_error + BoundedMultipart) option" where
  "write_part env data w = flush_full_parts env (w\<lparr> buffer := buffer w @ data \<rparr>)"

text \<open>
  \<open>finish\<close> returns the object the store holds afterwards or the error, and whether the
  multipart upload was aborted.
\<close>

definition finish :: "upload_env \<Rightarrow> BoundedMultipart \<Rightarrow> (pack_error + bytes) \<times> bool" where
  "finish env w =
     (case (if buffer w \<noteq> [] then spawn_part env (buffer w) (w\<lparr> buffer := [] \<rparr>) else Inr w) of
        Inl e \<Rightarrow> (Inl e, False)
      | Inr w' \<Rightarrow>
          (if \<exists>i<length (parts w'). \<not> part_ok env i then (Inl UploadFailed, True)
           else if \<not> complete_ok env then (Inl UploadFailed, False)
           else (Inr (concat (parts w')), False)))"

fun write_all :: "upload_env \<Rightarrow> bytes list \<Rightarrow> BoundedMultipart \<Rightarrow> (pack_error + BoundedMultipart) option" where
  "write_all env [] w = Some (Inr w)"
| "write_all env (d # ds) w =
     (case write_part env d w of
        None \<Rightarrow> None
      | Some (Inl e) \<Rightarrow> Some (Inl e)
      | Some (Inr w') \<Rightarrow> write_all env ds w')"

fun stream_blocks :: "upload_env \<Rightarrow> u32 \<Rightarrow> pack_block list \<Rightarrow> BoundedMultipart
    \<Rightarrow> (pack_error + PackIndexEntry list \<times> BoundedMultipart) option" where
  "stream_blocks env running_offset [] w = Some (Inr ([], w))"
| "stream_blocks env running_offset ((h, co, compressed) # blocks) w =
     (let cl = (of_nat (length compressed) :: u32)
      in case checked_add running_offset cl of
           None \<Rightarrow> Some (Inl InvalidInput)
         | Some next \<Rightarrow>
             (case write_part env compressed w of
                None \<Rightarrow> None
              | Some (Inl e) \<Rightarrow> Some (Inl e)
              | Some (Inr w') \<Rightarrow>
                  (case stream_blocks env next blocks w' of
                     None \<Rightarrow> None
                   | Some (Inl e) \<Rightarrow> Some (Inl e)
                   | Some (Inr (es, w'')) \<Rightarrow>
                       Some (Inr (\<lparr> hash = h, chunk_offset = co, offset = running_offset,
                                    comp_length = cl \<rparr> # es, w'')))))"

definition stream_pack_to_writer :: "upload_env \<Rightarrow> pack_block list \<Rightarrow> u32 \<Rightarrow> BoundedMultipart
    \<Rightarrow> (pack_error + PackIndexEntry list \<times> BoundedMultipart) option" where
  "stream_pack_to_writer env blocks0 chunk_size w =
     (let blocks = sort_key block_key blocks0
      in case count_u16 blocks of
           None \<Rightarrow> Some (Inl InvalidInput)
         | Some count \<Rightarrow>
             (case write_part env (pack_header count chunk_size) w of
                None \<Rightarrow> None
              | Some (Inl e) \<Rightarrow> Some (Inl e)
              | Some (Inr w1) \<Rightarrow>
                  (case stream_blocks env (of_nat PACK_HEADER_SIZE) blocks w1 of
                     None \<Rightarrow> None
                   | Some (Inl e) \<Rightarrow> Some (Inl e)
                   | Some (Inr (es, w2)) \<Rightarrow>
                       (case write_all env (map entry_bytes es @ [pack_trailer count]) w2 of
                          None \<Rightarrow> None
                        | Some (Inl e) \<Rightarrow> Some (Inl e)
                        | Some (Inr w3) \<Rightarrow> Some (Inr (es, w3))))))"

section \<open>Reading a pack\<close>

definition parse_entry :: "bytes \<Rightarrow> nat \<Rightarrow> PackIndexEntry option" where
  "parse_entry data base =
     (case (rust_slice base (base + 16) data, rust_slice (base + 16) (base + 20) data,
            rust_slice (base + 20) (base + 24) data, rust_slice (base + 24) (base + 28) data) of
        (Some h, Some co, Some off, Some cl) \<Rightarrow>
          Some \<lparr> hash = from_le_bytes h, chunk_offset = from_le_bytes co,
                 offset = from_le_bytes off, comp_length = from_le_bytes cl \<rparr>
      | _ \<Rightarrow> None)"

definition parse_pack_index :: "bytes \<Rightarrow> (pack_error + PackIndex) option" where
  "parse_pack_index data =
     (if length data < TRAILER_SIZE then Some (Inl InvalidPackData)
      else let trailer_start = length data - TRAILER_SIZE
        in case (rust_slice (trailer_start + 4) (trailer_start + 8) data,
                 rust_slice trailer_start (trailer_start + 2) data) of
             (Some magic, Some cnt) \<Rightarrow>
               (if magic \<noteq> TRAILER_MAGIC then Some (Inl InvalidPackData)
                else let count = (from_le_bytes cnt :: u16);
                         index_size = unat count * PACK_INDEX_ENTRY_SIZE;
                         required = index_size + TRAILER_SIZE
                  in if length data < required then Some (Inl SuffixTooSmall)
                     else let index_start = trailer_start - index_size;
                              chunk_size = (if length data \<ge> PACK_HEADER_SIZE \<and> take 4 data = PACK_MAGIC
                                            then from_le_bytes (bslice 8 12 data) else 0)
                       in map_option (\<lambda>es. Inr \<lparr> block_count = count, pi_chunk_size = chunk_size, entries = es \<rparr>)
                            (those (map (\<lambda>i. parse_entry data (index_start + i * PACK_INDEX_ENTRY_SIZE))
                                      [0..<unat count])))
           | _ \<Rightarrow> None)"

definition extract_block :: "bytes \<Rightarrow> u32 \<Rightarrow> u32 \<Rightarrow> bytes option" where
  "extract_block pack_data off cl =
     (let start = unat off; end' = start + unat cl
      in if end' > length pack_data then None else Some (bslice start end' pack_data))"

section \<open>The index describes the data\<close>

definition block_data :: "pack_block \<Rightarrow> bytes" where
  "block_data b = snd (snd b)"

definition short_blocks :: "pack_block list \<Rightarrow> bool" where
  "short_blocks blocks = (\<forall>b\<in>set blocks. length (block_data b) < 2 ^ 32)"

lemma index_entries_length:
  "index_entries off blocks = Inr es \<Longrightarrow> length es = length blocks"
  by (induction off blocks arbitrary: es rule: index_entries.induct)
     (auto simp: Let_def split: option.splits sum.splits)

lemma index_entries_nth:
  "\<lbrakk> index_entries off blocks = Inr es; short_blocks blocks; i < length blocks \<rbrakk> \<Longrightarrow>
   hash (es ! i) = fst (blocks ! i) \<and> chunk_offset (es ! i) = block_key (blocks ! i)
   \<and> unat (offset (es ! i)) = unat off + length (concat (map block_data (take i blocks)))
   \<and> unat (comp_length (es ! i)) = length (block_data (blocks ! i))"
proof (induction off blocks arbitrary: es i rule: index_entries.induct)
  case (2 off h co compressed blocks)
  obtain nxt es' where n: "checked_add off (of_nat (length compressed) :: u32) = Some nxt"
    "index_entries nxt blocks = Inr es'"
    "es = \<lparr> hash = h, chunk_offset = co, offset = off, comp_length = of_nat (length compressed) \<rparr> # es'"
    using "2.prems"(1) by (auto simp: Let_def split: option.splits sum.splits)
  have len: "unat (of_nat (length compressed) :: u32) = length compressed"
    using "2.prems"(2) by (simp add: short_blocks_def block_data_def unat_of_nat)
  have short: "short_blocks blocks" using "2.prems"(2) by (simp add: short_blocks_def)
  show ?case
  proof (cases i)
    case 0
    then show ?thesis using n len by (simp add: block_key_def block_data_def)
  next
    case (Suc k)
    then have "k < length blocks" using "2.prems"(3) by simp
    from "2.IH" [OF refl n(1) n(2) short this] show ?thesis
      using n Suc len checked_add_unat [OF n(1)] by (simp add: block_data_def)
  qed
qed simp

section \<open>Parsing the footer\<close>

lemma length_entry_bytes [simp]: "length (entry_bytes e) = 28"
  by (simp add: entry_bytes_def)

lemma length_entries_bytes [simp]: "length (concat (map entry_bytes es)) = 28 * length es"
  by (induction es) simp_all

lemma length_pack_trailer [simp]: "length (pack_trailer c) = 8"
  by (simp add: pack_trailer_def TRAILER_MAGIC_def)

lemma length_pack_header [simp]: "length (pack_header c cs) = 16"
  by (simp add: pack_header_def PACK_MAGIC_def)

lemma concat_map_nth:
  assumes "i < length xs"
  shows "concat (map f xs) = concat (map f (take i xs)) @ f (xs ! i) @ concat (map f (drop (Suc i) xs))"
  by (subst id_take_nth_drop [OF assms]) simp

lemma entry_region:
  assumes "i < length es" "a \<le> b" "b \<le> 28"
  shows "rust_slice (length pre + i * 28 + a) (length pre + i * 28 + b)
           (pre @ concat (map entry_bytes es) @ post) = Some (bslice a b (entry_bytes (es ! i)))"
proof -
  have "concat (map entry_bytes es) =
     concat (map entry_bytes (take i es)) @ entry_bytes (es ! i) @ concat (map entry_bytes (drop (Suc i) es))"
    by (rule concat_map_nth [OF assms(1)])
  moreover have "length (concat (map entry_bytes (take i es))) = i * 28"
    using assms(1) by simp
  ultimately show ?thesis
    using assms by (simp add: rust_slice_def slice_append_right slice_append_left)
qed

lemma parse_entry_nth:
  assumes "i < length es"
  shows "parse_entry (pre @ concat (map entry_bytes es) @ post) (length pre + i * 28) = Some (es ! i)"
  using entry_region [OF assms, of 0 16 pre post] entry_region [OF assms, of 16 20 pre post]
    entry_region [OF assms, of 20 24 pre post] entry_region [OF assms, of 24 28 pre post]
  by (simp add: parse_entry_def) (simp add: entry_bytes_def list_simps)

lemma those_map_nth:
  "(\<And>i. i < length es \<Longrightarrow> f i = Some (es ! i)) \<Longrightarrow> those (map f [0..<length es]) = Some es"
proof (induction es arbitrary: f)
  case (Cons e es)
  have u: "[0..<length (e # es)] = 0 # map Suc [0..<length es]"
    by (simp add: map_Suc_upt upt_conv_Cons del: upt_Suc)
  have "f 0 = Some e" using Cons.prems [of 0] by simp
  moreover have "those (map (f \<circ> Suc) [0..<length es]) = Some es"
    using Cons.prems [of "Suc _"] by (intro Cons.IH) simp
  ultimately show ?case unfolding u by simp
qed simp

lemma those_total: "(\<And>x. x \<in> set xs \<Longrightarrow> f x \<noteq> None) \<Longrightarrow> those (map f xs) \<noteq> None"
  by (induction xs) fastforce+

lemma parse_entry_total: "base + 28 \<le> length data \<Longrightarrow> parse_entry data base \<noteq> None"
  by (simp add: parse_entry_def rust_slice_def)

lemma parse_footer:
  assumes "unat count = length es"
  shows "\<exists>cs. parse_pack_index (pre @ concat (map entry_bytes es) @ pack_trailer count) =
     Some (Inr \<lparr> block_count = count, pi_chunk_size = cs, entries = es \<rparr>)"
proof -
  let ?d = "pre @ concat (map entry_bytes es) @ pack_trailer count"
  have len: "length ?d = length pre + 28 * length es + 8" by simp
  have t: "rust_slice (length ?d - 8 + a) (length ?d - 8 + b) ?d = Some (bslice a b (pack_trailer count))"
    if "a \<le> b" "b \<le> 8" for a b
    using that by (simp add: rust_slice_def slice_append_right)
  have m: "bslice 4 8 (pack_trailer count) = TRAILER_MAGIC"
    by (simp add: pack_trailer_def list_simps TRAILER_MAGIC_def) (simp add: bslice_def)
  have c: "bslice 0 2 (pack_trailer count) = to_le_bytes count"
    by (simp add: pack_trailer_def list_simps)
  have e: "those (map (\<lambda>i. parse_entry ?d (length pre + i * 28)) [0..<length es]) = Some es"
    by (rule those_map_nth) (rule parse_entry_nth)
  show ?thesis
    using t [of 4 8] t [of 0 2] e assms
    by (simp add: parse_pack_index_def pack_consts(3-5) m c Let_def)
qed


section \<open>Streaming writes the same bytes\<close>

definition written :: "BoundedMultipart \<Rightarrow> bytes" where
  "written w = concat (parts w) @ buffer w"

definition all_parts_ok :: "upload_env \<Rightarrow> bool" where
  "all_parts_ok env = (\<forall>i. part_ok env i)"

lemma flush_full_parts_written:
  "flush_full_parts env w = Some (Inr w') \<Longrightarrow> written w' = written w \<and> part_size w' = part_size w"
proof (induction env w rule: flush_full_parts.induct)
  case (1 env w)
  show ?case
  proof (cases "part_size w = 0 \<or> length (buffer w) < part_size w")
    case True
    then show ?thesis using "1.prems" by (subst (asm) flush_full_parts.simps) (auto split: if_splits)
  next
    case False
    obtain w1 where w1: "spawn_part env (take (part_size w) (buffer w))
        (w\<lparr> buffer := drop (part_size w) (buffer w) \<rparr>) = Inr w1" "flush_full_parts env w1 = Some (Inr w')"
      using "1.prems" False by (subst (asm) flush_full_parts.simps) (auto split: sum.splits)
    have "written w1 = written w \<and> part_size w1 = part_size w"
      using w1(1) by (auto simp: spawn_part_def written_def split: if_splits)
    then show ?thesis using "1.IH" [OF _ _ w1] False by simp
  qed
qed

lemma flush_full_parts_total:
  "\<lbrakk> all_parts_ok env; part_size w \<noteq> 0 \<rbrakk> \<Longrightarrow> \<exists>w'. flush_full_parts env w = Some (Inr w')"
proof (induction env w rule: flush_full_parts.induct)
  case (1 env w)
  show ?case
    by (subst flush_full_parts.simps)
       (use 1 in \<open>auto simp: spawn_part_def all_parts_ok_def\<close>)
qed

lemma write_part_written:
  "write_part env d w = Some (Inr w') \<Longrightarrow> written w' = written w @ d \<and> part_size w' = part_size w"
  using flush_full_parts_written [of env "w\<lparr> buffer := buffer w @ d \<rparr>" w']
  by (simp add: write_part_def written_def)

lemma write_part_total:
  "\<lbrakk> all_parts_ok env; part_size w \<noteq> 0 \<rbrakk> \<Longrightarrow> \<exists>w'. write_part env d w = Some (Inr w')"
  by (simp add: write_part_def flush_full_parts_total)

lemma write_all_written:
  "write_all env ds w = Some (Inr w') \<Longrightarrow> written w' = written w @ concat ds \<and> part_size w' = part_size w"
  by (induction env ds w rule: write_all.induct)
     (auto dest!: write_part_written split: option.splits sum.splits)

lemma write_all_total:
  "\<lbrakk> all_parts_ok env; part_size w \<noteq> 0 \<rbrakk> \<Longrightarrow> \<exists>w'. write_all env ds w = Some (Inr w')"
proof (induction ds arbitrary: w)
  case (Cons d ds)
  obtain w1 where "write_part env d w = Some (Inr w1)" using write_part_total Cons.prems by blast
  then show ?case using Cons write_part_written [of env d w w1] by simp
qed simp

lemma stream_blocks_written:
  "stream_blocks env off blocks w = Some (Inr (es, w')) \<Longrightarrow>
   index_entries off blocks = Inr es \<and> written w' = written w @ concat (map block_data blocks)
   \<and> part_size w' = part_size w"
proof (induction env off blocks w arbitrary: es rule: stream_blocks.induct)
  case (2 env off h co compressed blocks w)
  obtain nxt w1 es' where n: "checked_add off (of_nat (length compressed) :: u32) = Some nxt"
    "write_part env compressed w = Some (Inr w1)" "stream_blocks env nxt blocks w1 = Some (Inr (es', w'))"
    "es = \<lparr> hash = h, chunk_offset = co, offset = off, comp_length = of_nat (length compressed) \<rparr> # es'"
    using "2.prems" by (auto simp: Let_def split: option.splits sum.splits)
  show ?case
    using "2.IH" [OF refl n(1) n(2) refl n(3)] write_part_written [OF n(2)] n
    by (simp add: block_data_def)
qed simp

lemma stream_blocks_total:
  "\<lbrakk> all_parts_ok env; part_size w \<noteq> 0; index_entries off blocks = Inr es \<rbrakk> \<Longrightarrow>
   \<exists>w'. stream_blocks env off blocks w = Some (Inr (es, w'))"
proof (induction off blocks arbitrary: w es rule: index_entries.induct)
  case (2 off h co compressed blocks)
  obtain nxt es' where n: "checked_add off (of_nat (length compressed) :: u32) = Some nxt"
    "index_entries nxt blocks = Inr es'"
    "es = \<lparr> hash = h, chunk_offset = co, offset = off, comp_length = of_nat (length compressed) \<rparr> # es'"
    using "2.prems"(3) by (auto simp: Let_def split: option.splits sum.splits)
  obtain w1 where w1: "write_part env compressed w = Some (Inr w1)"
    using write_part_total "2.prems" by blast
  have "part_size w1 \<noteq> 0" using write_part_written [OF w1] "2.prems"(2) by simp
  from "2.IH" [OF refl n(1) "2.prems"(1) this n(2)] show ?case
    using n w1 by (auto simp: Let_def)
qed simp

lemma finish_object:
  "finish env w = (Inr obj, ab) \<Longrightarrow> obj = written w"
  by (auto simp: finish_def spawn_part_def written_def split: if_splits sum.splits)

lemma finish_total:
  "\<lbrakk> all_parts_ok env; complete_ok env \<rbrakk> \<Longrightarrow> finish env w = (Inr (written w), False)"
  by (auto simp: finish_def spawn_part_def written_def all_parts_ok_def)

lemma assemble_pack_cases:
  assumes "assemble_pack blocks cs = Inr (pack, es)"
  obtains count where "count_u16 (sort_key block_key blocks) = Some count"
    "index_entries (of_nat PACK_HEADER_SIZE) (sort_key block_key blocks) = Inr es"
    "pack = pack_header count cs @ concat (map block_data (sort_key block_key blocks))
       @ concat (map entry_bytes es) @ pack_trailer count"
proof -
  have "(\<lambda>(_, _, compressed). compressed) = (block_data :: pack_block \<Rightarrow> bytes)"
    by (auto simp: block_data_def)
  then show thesis
    using assms by (auto simp: assemble_pack_def Let_def split: option.splits sum.splits intro: that)
qed

lemma stream_pack_written:
  assumes "stream_pack_to_writer env blocks cs w = Some (Inr (es, w'))"
  shows "\<exists>pack. assemble_pack blocks cs = Inr (pack, es) \<and> written w' = written w @ pack"
proof -
  have d: "(\<lambda>(_, _, compressed). compressed) = (block_data :: pack_block \<Rightarrow> bytes)"
    by (auto simp: block_data_def)
  show ?thesis
    using assms
    by (auto simp: stream_pack_to_writer_def assemble_pack_def Let_def d
        dest!: write_part_written stream_blocks_written write_all_written
        split: option.splits sum.splits)
qed

lemma stream_pack_total:
  assumes "all_parts_ok env" "part_size w \<noteq> 0" "assemble_pack blocks cs = Inr (pack, es)"
  shows "\<exists>w'. stream_pack_to_writer env blocks cs w = Some (Inr (es, w'))"
proof -
  obtain count where c: "count_u16 (sort_key block_key blocks) = Some count"
    "index_entries (of_nat PACK_HEADER_SIZE) (sort_key block_key blocks) = Inr es"
    using assemble_pack_cases [OF assms(3)] by metis
  obtain w1 where w1: "write_part env (pack_header count cs) w = Some (Inr w1)"
    using write_part_total assms by blast
  have p1: "part_size w1 \<noteq> 0" using write_part_written [OF w1] assms(2) by simp
  obtain w2 where w2: "stream_blocks env (of_nat PACK_HEADER_SIZE) (sort_key block_key blocks) w1
      = Some (Inr (es, w2))"
    using stream_blocks_total [OF assms(1) p1 c(2)] by blast
  have p2: "part_size w2 \<noteq> 0" using stream_blocks_written [OF w2] p1 by simp
  obtain w3 where "write_all env (map entry_bytes es @ [pack_trailer count]) w2 = Some (Inr w3)"
    using write_all_total [OF assms(1) p2] by blast
  then show ?thesis using c w1 w2 by (simp add: stream_pack_to_writer_def)
qed


section \<open>Framing of the identifier input\<close>

lemma to_le_bytes_u32_not_Nil [simp]: "to_le_bytes (w :: u32) \<noteq> []"
  by (metis length_to_le_bytes_word(3) list.size(3) zero_neq_numeral)

lemma to_le_bytes_inj32: "to_le_bytes (a :: u32) = to_le_bytes b \<Longrightarrow> a = b"
  by (metis from_to_le_bytes_word(3))

lemma to_le_bytes_inj128: "to_le_bytes (a :: u128) = to_le_bytes b \<Longrightarrow> a = b"
  by (metis from_to_le_bytes_word(5))

lemma pack_id_input_Cons:
  "pack_id_input ((h, co, d) # bs) =
   to_le_bytes co @ to_le_bytes h @ to_le_bytes (of_nat (length d) :: u32) @ d @ pack_id_input bs"
  by (simp add: pack_id_input_def)

lemma pack_id_input_eq:
  "\<lbrakk> pack_id_input xs = pack_id_input ys; short_blocks xs; short_blocks ys \<rbrakk> \<Longrightarrow> xs = ys"
proof (induction xs arbitrary: ys)
  case Nil
  then show ?case by (cases ys) (auto simp: pack_id_input_Cons, simp add: pack_id_input_def)
next
  case (Cons x xs)
  obtain h co d where x: "x = (h, co, d)" by (cases x)
  have "ys \<noteq> []" using Cons.prems(1) x by (auto simp: pack_id_input_Cons) (simp add: pack_id_input_def)
  then obtain h' co' d' ys' where ys: "ys = (h', co', d') # ys'" by (metis list.exhaust prod_cases3)
  have eq: "to_le_bytes co = to_le_bytes co'" "to_le_bytes h = to_le_bytes h'"
    "to_le_bytes (of_nat (length d) :: u32) = to_le_bytes (of_nat (length d') :: u32)"
    "d @ pack_id_input xs = d' @ pack_id_input ys'"
    using Cons.prems(1) unfolding x ys pack_id_input_Cons by simp_all
  have l: "unat (of_nat (length d) :: u32) = length d" "unat (of_nat (length d') :: u32) = length d'"
    using Cons.prems(2,3) x ys by (simp_all add: short_blocks_def block_data_def unat_of_nat)
  have "length d = length d'"
    using arg_cong [OF to_le_bytes_inj32 [OF eq(3)], of unat] by (simp only: l)
  then have "d = d'" "pack_id_input xs = pack_id_input ys'" using eq(4) by simp_all
  moreover have "short_blocks xs" "short_blocks ys'"
    using Cons.prems(2,3) ys by (simp_all add: short_blocks_def)
  ultimately show ?case
    using Cons.IH [of ys'] to_le_bytes_inj32 [OF eq(1)] to_le_bytes_inj128 [OF eq(2)] x ys by simp
qed

section \<open>Properties\<close>

text \<open>
  the pack index is recovered from any suffix that holds the footer.  Reading
  the last bytes of an assembled pack, as long as they reach back to the index,
  parses to exactly the index entries the writer returned.
\<close>

theorem pack_index_roundtrip:
  assumes "assemble_pack blocks cs = Inr (pack, es)"
    and "k \<le> 16 + length (concat (map block_data (sort_key block_key blocks)))"
  shows "\<exists>pi. parse_pack_index (drop k pack) = Some (Inr pi) \<and> entries pi = es"
proof -
  obtain count where c: "count_u16 (sort_key block_key blocks) = Some count"
    "index_entries (of_nat PACK_HEADER_SIZE) (sort_key block_key blocks) = Inr es"
    "pack = pack_header count cs @ concat (map block_data (sort_key block_key blocks))
       @ concat (map entry_bytes es) @ pack_trailer count"
    using assemble_pack_cases [OF assms(1)] by metis
  have "unat count = length es"
    using c(1) index_entries_length [OF c(2)]
    by (auto simp: count_u16_def unat_of_nat split: if_splits)
  moreover have "drop k pack =
      drop k (pack_header count cs @ concat (map block_data (sort_key block_key blocks)))
      @ concat (map entry_bytes es) @ pack_trailer count"
    using assms(2) c(3) by simp
  ultimately show ?thesis
    using parse_footer [of count es "drop k (pack_header count cs @
        concat (map block_data (sort_key block_key blocks)))"] by auto
qed

definition demo_blocks :: "pack_block list" where
  "demo_blocks = [(7, 5, [1, 2, 3]), (9, 2, [4])]"

lemma demo_sorted: "sort_key block_key demo_blocks = [(9, 2, [4]), (7, 5, [1, 2, 3])]"
  by (simp add: demo_blocks_def block_key_def)

lemma demo_short: "short_blocks demo_blocks"
  by (simp add: short_blocks_def demo_blocks_def block_data_def)

lemma demo_length: "length demo_blocks = 2"
  by (simp add: demo_blocks_def)

lemma demo_assembled:
  "assemble_pack demo_blocks 131072 = Inr (fst (projr (assemble_pack demo_blocks 131072)),
     [\<lparr> hash = 9, chunk_offset = 2, offset = 16, comp_length = 1 \<rparr>,
      \<lparr> hash = 7, chunk_offset = 5, offset = 17, comp_length = 3 \<rparr>])"
  by (simp add: assemble_pack_def demo_sorted count_u16_def PACK_HEADER_SIZE_def checked_add_def)

theorem pack_index_roundtrip_witness:
  "\<exists>pi. parse_pack_index (drop 18 (fst (projr (assemble_pack demo_blocks 131072)))) = Some (Inr pi) \<and>
     entries pi = [\<lparr> hash = 9, chunk_offset = 2, offset = 16, comp_length = 1 \<rparr>,
                   \<lparr> hash = 7, chunk_offset = 5, offset = 17, comp_length = 3 \<rparr>]"
  by (rule pack_index_roundtrip [OF demo_assembled]) (simp add: demo_sorted block_data_def)

text \<open>
  every index entry locates its block.  In an assembled pack, extracting the
  range of the i-th entry yields the compressed bytes of the i-th block in chunk
  order, and the entry carries that block's hash and chunk offset.
\<close>

theorem pack_extract:
  assumes "assemble_pack blocks cs = Inr (pack, es)" "short_blocks blocks" "i < length blocks"
  shows "extract_block pack (offset (es ! i)) (comp_length (es ! i))
           = Some (block_data (sort_key block_key blocks ! i))
       \<and> hash (es ! i) = fst (sort_key block_key blocks ! i)
       \<and> chunk_offset (es ! i) = block_key (sort_key block_key blocks ! i)"
proof -
  let ?bs = "sort_key block_key blocks"
  obtain count where c: "index_entries (of_nat PACK_HEADER_SIZE) ?bs = Inr es"
    "pack = pack_header count cs @ concat (map block_data ?bs)
       @ concat (map entry_bytes es) @ pack_trailer count"
    using assemble_pack_cases [OF assms(1)] by metis
  have short: "short_blocks ?bs" and i: "i < length ?bs"
    using assms(2,3) by (auto simp: short_blocks_def)
  note e = index_entries_nth [OF c(1) short i]
  have "concat (map block_data ?bs) = concat (map block_data (take i ?bs)) @ block_data (?bs ! i)
      @ concat (map block_data (drop (Suc i) ?bs))"
    by (rule concat_map_nth [OF i])
  then show ?thesis
    using e c(2) by (simp add: extract_block_def PACK_HEADER_SIZE_def slice_append_right
        slice_append_left slice_all)
qed

theorem pack_extract_witness:
  "extract_block (fst (projr (assemble_pack demo_blocks 131072)))
      (offset ([\<lparr> hash = 9, chunk_offset = 2, offset = 16, comp_length = 1 \<rparr>,
        \<lparr> hash = 7, chunk_offset = 5, offset = 17, comp_length = 3 \<rparr>] ! 1))
      (comp_length ([\<lparr> hash = 9, chunk_offset = 2, offset = 16, comp_length = 1 \<rparr>,
        \<lparr> hash = 7, chunk_offset = 5, offset = 17, comp_length = 3 \<rparr>] ! 1)) = Some [1, 2, 3]"
  using pack_extract [OF demo_assembled demo_short, of 1] demo_length
  by (simp add: demo_sorted block_data_def)

text \<open>
  C13: the streamed upload stores the assembled pack.  For every part size and every
  pattern of part failures, if streaming and finishing succeed then the stored
  object and the returned entries are those of the in-memory assembler; and when
  every part upload succeeds the stream does succeed whenever the assembler does.
\<close>

theorem stream_equals_assemble:
  assumes "n \<noteq> 0"
  shows "(\<forall>env es w obj ab. stream_pack_to_writer env blocks cs (new_with_part_size n) = Some (Inr (es, w))
            \<and> finish env w = (Inr obj, ab) \<longrightarrow> assemble_pack blocks cs = Inr (obj, es))
       \<and> (\<forall>env pack es. all_parts_ok env \<and> complete_ok env \<and> assemble_pack blocks cs = Inr (pack, es) \<longrightarrow>
            (\<exists>w. stream_pack_to_writer env blocks cs (new_with_part_size n) = Some (Inr (es, w))
               \<and> finish env w = (Inr pack, False)))"
proof (intro conjI allI impI; elim conjE)
  fix env es w obj ab
  assume s: "stream_pack_to_writer env blocks cs (new_with_part_size n) = Some (Inr (es, w))"
    and f: "finish env w = (Inr obj, ab)"
  show "assemble_pack blocks cs = Inr (obj, es)"
    using stream_pack_written [OF s] finish_object [OF f] by (simp add: new_with_part_size_def written_def)
next
  fix env pack es
  assume ok: "all_parts_ok env" "complete_ok env" and a: "assemble_pack blocks cs = Inr (pack, es)"
  obtain w where w: "stream_pack_to_writer env blocks cs (new_with_part_size n) = Some (Inr (es, w))"
    using stream_pack_total [OF ok(1) _ a, of "new_with_part_size n"] assms
    by (auto simp: new_with_part_size_def)
  then show "\<exists>w. stream_pack_to_writer env blocks cs (new_with_part_size n) = Some (Inr (es, w))
               \<and> finish env w = (Inr pack, False)"
    using finish_total [OF ok, of w] stream_pack_written [OF w] a
    by (auto simp: new_with_part_size_def written_def)
qed

definition good_env :: upload_env where
  "good_env = \<lparr> part_ok = (\<lambda>_. True), joined = (\<lambda>_. []), complete_ok = True \<rparr>"

theorem stream_equals_assemble_witness:
  "\<exists>w. stream_pack_to_writer good_env demo_blocks 131072 (new_with_part_size 7)
        = Some (Inr ([\<lparr> hash = 9, chunk_offset = 2, offset = 16, comp_length = 1 \<rparr>,
             \<lparr> hash = 7, chunk_offset = 5, offset = 17, comp_length = 3 \<rparr>], w))
     \<and> finish good_env w = (Inr (fst (projr (assemble_pack demo_blocks 131072))), False)"
  by (rule stream_equals_assemble [of 7 demo_blocks 131072, THEN conjunct2, rule_format])
     (use demo_assembled in \<open>simp_all add: all_parts_ok_def good_env_def\<close>)

text \<open>
  the footer parser never panics.  On every byte string it returns an index or
  the InvalidData error; no slice it takes is out of range.
\<close>

theorem parse_pack_index_total: "parse_pack_index data \<noteq> None"
proof (cases "length data < 8")
  case False
  define ts where "ts = length data - 8"
  define count :: u16 where "count = from_le_bytes (bslice ts (ts + 2) data)"
  define pe where "pe i = parse_entry data (ts - unat count * 28 + i * 28)" for i
  have t: "rust_slice (ts + 4) (ts + 8) data = Some (bslice (ts + 4) (ts + 8) data)"
      "rust_slice ts (ts + 2) data = Some (bslice ts (ts + 2) data)"
    using False by (simp_all add: rust_slice_def ts_def)
  have "those (map pe [0..<unat count]) \<noteq> None" if "unat count * 28 + 8 \<le> length data"
  proof (rule those_total)
    fix i assume "i \<in> set [0..<unat count]"
    then have "i * 28 + 28 \<le> unat count * 28" by simp
    then have "ts - unat count * 28 + i * 28 + 28 \<le> length data"
      using that unfolding ts_def by linarith
    then show "pe i \<noteq> None" unfolding pe_def by (rule parse_entry_total)
  qed
  then show ?thesis
    using False
    unfolding parse_pack_index_def pack_consts(3-5) Let_def ts_def [symmetric] t option.case prod.case
      count_def [symmetric] pe_def [abs_def]
    by (auto simp del: One_nat_def)
qed (simp add: parse_pack_index_def pack_consts)

text \<open>
  the pack identifier covers everything stored.  The bytes hashed into a pack
  identifier determine the list of blocks, so two different block lists never feed
  the same input to BLAKE3.
\<close>

theorem pack_id_input_injective:
  assumes "short_blocks xs" "short_blocks ys"
  shows "pack_id_input xs = pack_id_input ys \<longleftrightarrow> xs = ys"
  using pack_id_input_eq [OF _ assms] by blast

theorem pack_id_input_injective_witness:
  "pack_id_input demo_blocks = pack_id_input [(7, 5, [1, 2, 3])] \<longleftrightarrow> demo_blocks = [(7, 5, [1, 2, 3])]"
  by (rule pack_id_input_injective [OF demo_short]) (simp add: short_blocks_def block_data_def)

text \<open>
  A part that failed before the last part is issued makes \<open>finish\<close> return the error
  through \<open>spawn_part\<close>, without aborting the multipart upload.
\<close>

lemma finish_error_without_abort:
  "finish \<lparr> part_ok = (\<lambda>i. i \<noteq> 0), joined = (\<lambda>i. [0..<i]), complete_ok = True \<rparr>
     \<lparr> buffer = [1], part_size = 4, parts = [[0, 0, 0, 0]] \<rparr> = (Inl UploadFailed, False)"
  by (simp add: finish_def spawn_part_def)

end
