(* ===== verification/OrdMap.thy ===== *)
theory OrdMap
  imports GlidePrelude
begin

text \<open>
  Ordered maps, as the sources use \<open>std::collections::BTreeMap\<close>: an association
  list with strictly ascending keys, so that iteration is in key order.  The locale
  \<open>keyed_store\<close> is the interface the manifest and the pack index code rely on
  (what a lookup returns after an insert or a removal, and that both keep the map
  well formed); the ordered list is shown to provide it.
\<close>

type_synonym ('k, 'v) btree = "('k \<times> 'v) list"

definition bt_wf :: "('k::linorder, 'v) btree \<Rightarrow> bool" where
  "bt_wf m = sorted_wrt (<) (map fst m)"

definition bt_get :: "('k::linorder, 'v) btree \<Rightarrow> 'k \<Rightarrow> 'v option" where
  "bt_get m k = map_of m k"

fun bt_insert :: "'k::linorder \<Rightarrow> 'v \<Rightarrow> ('k, 'v) btree \<Rightarrow> ('k, 'v) btree" where
  "bt_insert k v [] = [(k, v)]"
| "bt_insert k v ((k', v') # m) =
     (if k < k' then (k, v) # (k', v') # m
      else if k = k' then (k, v) # m
      else (k', v') # bt_insert k v m)"

definition bt_remove :: "'k::linorder \<Rightarrow> ('k, 'v) btree \<Rightarrow> ('k, 'v) btree" where
  "bt_remove k m = filter (\<lambda>(k', _). k' \<noteq> k) m"

locale keyed_store =
  fixes wf :: "'m \<Rightarrow> bool"
    and empty_store :: 'm
    and get :: "'m \<Rightarrow> 'k \<Rightarrow> 'v option"
    and ins :: "'k \<Rightarrow> 'v \<Rightarrow> 'm \<Rightarrow> 'm"
    and del :: "'k \<Rightarrow> 'm \<Rightarrow> 'm"
  assumes wf_empty: "wf empty_store"
    and get_empty: "get empty_store k = None"
    and wf_ins: "wf m \<Longrightarrow> wf (ins k v m)"
    and wf_del: "wf m \<Longrightarrow> wf (del k m)"
    and get_ins: "wf m \<Longrightarrow> get (ins k v m) = (get m)(k \<mapsto> v)"
    and get_del: "wf m \<Longrightarrow> get (del k m) = (get m)(k := None)"
begin

text \<open>Inserting a list of bindings from the left keeps the last one for each key.\<close>

lemma fold_ins:
  "wf m \<Longrightarrow> wf (fold (\<lambda>(k, v). ins k v) kvs m)
     \<and> get (fold (\<lambda>(k, v). ins k v) kvs m) = get m ++ map_of (rev kvs)"
proof (induction kvs arbitrary: m)
  case (Cons kv kvs)
  obtain k v where kv: "kv = (k, v)" by (cases kv)
  show ?case
    using Cons.IH [OF wf_ins [OF Cons.prems, of k v]] get_ins [OF Cons.prems, of k v]
    by (simp add: kv map_add_def fun_eq_iff split: option.splits)
qed simp

lemma fold_ins_empty: "get (fold (\<lambda>(k, v). ins k v) kvs empty_store) = map_of (rev kvs)"
  using fold_ins [OF wf_empty, of kvs] get_empty by (simp add: map_add_def fun_eq_iff split: option.splits)

end

lemma bt_insert_keys: "set (map fst (bt_insert k v m)) = insert k (set (map fst m))"
  by (induction k v m rule: bt_insert.induct) (simp_all add: insert_commute)

lemma bt_wf_insert: "bt_wf m \<Longrightarrow> bt_wf (bt_insert k v m)"
proof (induction m)
  case (Cons kv m)
  obtain k' v' where kv: "kv = (k', v')" by (cases kv)
  have "\<forall>x\<in>set (map fst (bt_insert k v m)). k' < x" if "k' < k"
    unfolding bt_insert_keys using Cons.prems that by (auto simp: kv bt_wf_def)
  with Cons show ?case by (fastforce simp: kv bt_wf_def)
qed (simp add: bt_wf_def)

lemma bt_get_insert: "bt_get (bt_insert k v m) = (bt_get m)(k \<mapsto> v)"
proof
  fix x
  show "bt_get (bt_insert k v m) x = ((bt_get m)(k \<mapsto> v)) x"
    by (induction m) (auto simp: bt_get_def)
qed

lemma bt_wf_remove: "bt_wf m \<Longrightarrow> bt_wf (bt_remove k m)"
  by (induction m) (auto simp: bt_wf_def bt_remove_def)

lemma bt_get_remove: "bt_get (bt_remove k m) = (bt_get m)(k := None)"
proof
  fix x
  show "bt_get (bt_remove k m) x = ((bt_get m)(k := None)) x"
    by (induction m) (auto simp: bt_get_def bt_remove_def)
qed

interpretation btm: keyed_store bt_wf "[]" bt_get bt_insert bt_remove
  by unfold_locales
     (simp_all add: bt_wf_insert bt_wf_remove bt_get_insert bt_get_remove, simp_all add: bt_wf_def bt_get_def)

lemma bt_insert_last:
  "\<forall>k'\<in>set (map fst m). k' < k \<Longrightarrow> bt_insert k v m = m @ [(k, v)]"
  by (induction m) auto

lemma bt_fold_insert_sorted:
  "bt_wf (m @ kvs) \<Longrightarrow> fold (\<lambda>(k, v). bt_insert k v) kvs m = m @ kvs"
proof (induction kvs arbitrary: m)
  case (Cons kv kvs)
  obtain k v where kv: "kv = (k, v)" by (cases kv)
  have "bt_insert k v m = m @ [(k, v)]"
    using Cons.prems by (intro bt_insert_last) (auto simp: bt_wf_def kv sorted_wrt_append)
  then show ?case using Cons.IH [of "m @ [(k, v)]"] Cons.prems by (simp add: kv)
qed simp

end
