(* ===== verification/VolumeManifest.thy ===== *)
theory VolumeManifest
  imports Pack OrdMap
begin

unbundle bit_operations_syntax

text \<open>
  The volume manifest of \<open>glidefs/src/block/volume_manifest.rs\<close>: the ordered map
  from chunk index to the pack list of the chunk (oldest first), the operations of
  flush and compaction on it, the block addressing, and the binary GLVM format in
  its six versions.  The CRC of the crc crate is a parameter.  Integer overflow and
  division by zero panic, as does a slice out of range; a panic is the error
  \<open>Panic\<close> of the deserializer and \<open>None\<close> elsewhere.
\<close>

definition GLVM_MAGIC :: bytes where "GLVM_MAGIC = [0x47, 0x4C, 0x56, 0x4D]"
definition VOLUME_MANIFEST_VERSION :: u16 where "VOLUME_MANIFEST_VERSION = 5"
definition VOLUME_MANIFEST_VERSION_PREFETCH :: u16 where "VOLUME_MANIFEST_VERSION_PREFETCH = 6"
definition VOLUME_MANIFEST_VERSION_GENERATION :: u16 where "VOLUME_MANIFEST_VERSION_GENERATION = 7"
definition VOLUME_MANIFEST_VERSION_PREFETCH_GENERATION :: u16 where
  "VOLUME_MANIFEST_VERSION_PREFETCH_GENERATION = 8"
definition VOLUME_MANIFEST_VERSION_COMPOSITE :: u16 where "VOLUME_MANIFEST_VERSION_COMPOSITE = 9"
definition VOLUME_MANIFEST_VERSION_PREFETCH_COMPOSITE :: u16 where
  "VOLUME_MANIFEST_VERSION_PREFETCH_COMPOSITE = 10"
definition DEFAULT_CHUNK_SIZE :: u64 where "DEFAULT_CHUNK_SIZE = 128 * 1024 * 1024"
definition GLVM_HEADER_SIZE :: nat where "GLVM_HEADER_SIZE = 32"
definition LIVE_UNKNOWN :: u32 where "LIVE_UNKNOWN = - 1"
definition FLAG_LIVE_COUNTS :: byte where "FLAG_LIVE_COUNTS = 1"

lemmas version_defs =
  VOLUME_MANIFEST_VERSION_def VOLUME_MANIFEST_VERSION_PREFETCH_def
  VOLUME_MANIFEST_VERSION_GENERATION_def VOLUME_MANIFEST_VERSION_PREFETCH_GENERATION_def
  VOLUME_MANIFEST_VERSION_COMPOSITE_def VOLUME_MANIFEST_VERSION_PREFETCH_COMPOSITE_def

record ChunkEntry =
  packs :: "PackId list"
  live_blocks :: "u32 option"

record VolumeManifest =
  vm_size :: u64
  chunk_size :: u64
  block_size :: u32
  chunks :: "(u32, ChunkEntry) btree"
  prefetch_len :: "u64 option"
  generation :: u64
  lease_revision :: u64

datatype VolumeManifestError =
    UnsupportedVersion nat
  | InvalidConfig
  | TooShort
  | BadMagic
  | CrcMismatch u32 u32
  | PackCountOverflow u32 nat
  | Panic

section \<open>Addressing\<close>

definition vm_new :: "u64 \<Rightarrow> u32 \<Rightarrow> VolumeManifest" where
  "vm_new sz bs =
     \<lparr> vm_size = sz, chunk_size = DEFAULT_CHUNK_SIZE, block_size = bs, chunks = [],
       prefetch_len = None, generation = 0, lease_revision = 0 \<rparr>"

definition blocks_per_chunk :: "VolumeManifest \<Rightarrow> u32 option" where
  "blocks_per_chunk m =
     (if block_size m = 0 then None
      else Some (of_nat (unat (chunk_size m) div unat (block_size m))))"

definition size_estimate :: "nat \<Rightarrow> VolumeManifest \<Rightarrow> nat" where
  "size_estimate header m = header + sum_list (map (\<lambda>(_, e). 48 + 24 + 8 * length (packs e)) (chunks m))"

definition num_chunks :: "VolumeManifest \<Rightarrow> u32 option" where
  "num_chunks m =
     (if chunk_size m = 0 then None
      else Some (of_nat ((unat (vm_size m) + unat (chunk_size m) - 1) div unat (chunk_size m))))"

definition chunk_idx_for_block :: "VolumeManifest \<Rightarrow> u64 \<Rightarrow> u32 option" where
  "chunk_idx_for_block m block_index =
     (let block_byte_offset = unat block_index * unat (block_size m)
      in if block_byte_offset \<ge> 2 ^ 64 \<or> chunk_size m = 0 then None
         else Some (of_nat (block_byte_offset div unat (chunk_size m))))"

definition block_offset_in_chunk :: "VolumeManifest \<Rightarrow> u64 \<Rightarrow> u32 option" where
  "block_offset_in_chunk m block_index =
     (case blocks_per_chunk m of
        None \<Rightarrow> None
      | Some bpc \<Rightarrow> if bpc = 0 then None else Some (of_nat (unat block_index mod unat bpc)))"

section \<open>Operations\<close>

definition chunk_pack_ids :: "VolumeManifest \<Rightarrow> u32 \<Rightarrow> PackId list option" where
  "chunk_pack_ids m chunk_idx = map_option packs (bt_get (chunks m) chunk_idx)"

definition all_pack_ids :: "VolumeManifest \<Rightarrow> (u32 \<times> PackId) list" where
  "all_pack_ids m = concat (map (\<lambda>(ci, e). map (\<lambda>p. (ci, p)) (packs e)) (chunks m))"

definition append_pack :: "u32 \<Rightarrow> PackId \<Rightarrow> u32 option \<Rightarrow> VolumeManifest \<Rightarrow> VolumeManifest" where
  "append_pack chunk_idx pack_id live m =
     (let entry = (case bt_get (chunks m) chunk_idx of
                     None \<Rightarrow> \<lparr> packs = [], live_blocks = Some 0 \<rparr> | Some e \<Rightarrow> e)
      in m\<lparr> chunks := bt_insert chunk_idx \<lparr> packs = packs entry @ [pack_id], live_blocks = live \<rparr> (chunks m) \<rparr>)"

definition set_live_blocks_if_unknown :: "u32 \<Rightarrow> PackId list \<Rightarrow> u32 \<Rightarrow> VolumeManifest \<Rightarrow> VolumeManifest" where
  "set_live_blocks_if_unknown chunk_idx ps live m =
     (case bt_get (chunks m) chunk_idx of
        None \<Rightarrow> m
      | Some e \<Rightarrow>
          if live_blocks e = None \<and> packs e = ps
          then m\<lparr> chunks := bt_insert chunk_idx (e\<lparr> live_blocks := Some live \<rparr>) (chunks m) \<rparr>
          else m)"

definition unknown_live_chunks :: "VolumeManifest \<Rightarrow> (u32 \<times> PackId list) list" where
  "unknown_live_chunks m =
     map (\<lambda>(ci, e). (ci, packs e)) (filter (\<lambda>(_, e). live_blocks e = None) (chunks m))"

text \<open>
  \<open>stored_bytes\<close>: the outer \<open>None\<close> is an overflow panic, the inner one an unknown count.
\<close>

fun sum_live :: "nat \<Rightarrow> (u32, ChunkEntry) btree \<Rightarrow> nat option option" where
  "sum_live blocks [] = Some (Some blocks)"
| "sum_live blocks ((_, e) # rest) =
     (case live_blocks e of
        None \<Rightarrow> Some None
      | Some n \<Rightarrow> if blocks + unat n < 2 ^ 64 then sum_live (blocks + unat n) rest else None)"

definition stored_bytes :: "VolumeManifest \<Rightarrow> u64 option option" where
  "stored_bytes m =
     (case sum_live 0 (chunks m) of
        None \<Rightarrow> None
      | Some None \<Rightarrow> Some None
      | Some (Some blocks) \<Rightarrow>
          if blocks * unat (block_size m) < 2 ^ 64
          then Some (Some (of_nat (blocks * unat (block_size m)))) else None)"

definition replace_packs_cas :: "u32 \<Rightarrow> PackId list \<Rightarrow> PackId list \<Rightarrow> VolumeManifest \<Rightarrow> bool \<times> VolumeManifest" where
  "replace_packs_cas chunk_idx old_packs new_packs m =
     (case bt_get (chunks m) chunk_idx of
        None \<Rightarrow> (False, m)
      | Some entry \<Rightarrow>
          if length (packs entry) < length old_packs
             \<or> take (length old_packs) (packs entry) \<noteq> old_packs then (False, m)
          else let tail = drop (length old_packs) (packs entry);
                   merged = new_packs @ tail
            in (True, if merged = [] then m\<lparr> chunks := bt_remove chunk_idx (chunks m) \<rparr>
                      else m\<lparr> chunks := bt_insert chunk_idx (entry\<lparr> packs := merged \<rparr>) (chunks m) \<rparr>))"

section \<open>The GLVM format\<close>

definition manifest_version :: "VolumeManifest \<Rightarrow> u16" where
  "manifest_version m =
     (let has_prefetch = (prefetch_len m \<noteq> None);
          has_lease_revision = (lease_revision m > 0);
          has_generation = (generation m > 0)
      in if has_lease_revision then
           (if has_prefetch then VOLUME_MANIFEST_VERSION_PREFETCH_COMPOSITE
            else VOLUME_MANIFEST_VERSION_COMPOSITE)
         else (case (has_prefetch, has_generation) of
             (False, False) \<Rightarrow> VOLUME_MANIFEST_VERSION
           | (True, False) \<Rightarrow> VOLUME_MANIFEST_VERSION_PREFETCH
           | (False, True) \<Rightarrow> VOLUME_MANIFEST_VERSION_GENERATION
           | (True, True) \<Rightarrow> VOLUME_MANIFEST_VERSION_PREFETCH_GENERATION))"

definition manifest_header :: "VolumeManifest \<Rightarrow> bytes" where
  "manifest_header m =
     GLVM_MAGIC @ to_le_bytes (manifest_version m)
     @ to_le_bytes (of_nat (length (chunks m)) :: u32)
     @ to_le_bytes (of_nat (unat (chunk_size m)) :: u32)
     @ to_le_bytes (block_size m) @ to_le_bytes (vm_size m)
     @ [FLAG_LIVE_COUNTS] @ [0, 0, 0, 0, 0]"

definition chunk_bytes :: "u32 \<times> ChunkEntry \<Rightarrow> bytes" where
  "chunk_bytes ce =
     to_le_bytes (fst ce) @ to_le_bytes (of_nat (length (packs (snd ce))) :: u16)
     @ concat (map to_le_bytes (packs (snd ce)))"

fun serialize_chunks :: "(u32, ChunkEntry) btree \<Rightarrow> VolumeManifestError + bytes" where
  "serialize_chunks [] = Inr []"
| "serialize_chunks ((ci, e) # rest) =
     (if length (packs e) > 65535 then Inl (PackCountOverflow ci (length (packs e)))
      else sum_bind (serialize_chunks rest) (\<lambda>bs. Inr (chunk_bytes (ci, e) @ bs)))"

definition prefetch_trailer :: "VolumeManifest \<Rightarrow> bytes" where
  "prefetch_trailer m = (case prefetch_len m of None \<Rightarrow> [] | Some len \<Rightarrow> to_le_bytes len)"

definition fence_trailer :: "VolumeManifest \<Rightarrow> bytes" where
  "fence_trailer m =
     (if lease_revision m > 0 then to_le_bytes (generation m) @ to_le_bytes (lease_revision m)
      else if generation m > 0 then to_le_bytes (generation m) else [])"

definition live_word :: "ChunkEntry \<Rightarrow> u32" where
  "live_word e = (case live_blocks e of None \<Rightarrow> LIVE_UNKNOWN | Some n \<Rightarrow> n)"

definition live_trailer :: "VolumeManifest \<Rightarrow> bytes" where
  "live_trailer m = concat (map (\<lambda>(_, e). to_le_bytes (live_word e)) (chunks m))"

definition serialize :: "(bytes \<Rightarrow> u32) \<Rightarrow> VolumeManifest \<Rightarrow> VolumeManifestError + bytes" where
  "serialize crc m =
     sum_bind (serialize_chunks (chunks m)) (\<lambda>entries.
       let buf = manifest_header m @ entries @ prefetch_trailer m @ fence_trailer m @ live_trailer m
       in Inr (buf @ to_le_bytes (crc buf)))"

definition read_le :: "bytes \<Rightarrow> nat \<Rightarrow> nat \<Rightarrow> VolumeManifestError + 'a::len word" where
  "read_le data a b = (case rust_slice a b data of None \<Rightarrow> Inl Panic | Some s \<Rightarrow> Inr (from_le_bytes s))"

fun read_packs :: "bytes \<Rightarrow> nat \<Rightarrow> nat \<Rightarrow> VolumeManifestError + PackId list \<times> nat" where
  "read_packs data 0 pos = Inr ([], pos)"
| "read_packs data (Suc n) pos =
     sum_bind (read_le data pos (pos + 8)) (\<lambda>pack_id.
     sum_bind (read_packs data n (pos + 8)) (\<lambda>(ps, pos'). Inr (pack_id # ps, pos')))"

fun read_chunks :: "bytes \<Rightarrow> nat \<Rightarrow> nat \<Rightarrow> nat \<Rightarrow> (u32, ChunkEntry) btree
    \<Rightarrow> VolumeManifestError + (u32, ChunkEntry) btree \<times> nat" where
  "read_chunks data crc_offset 0 pos cs = Inr (cs, pos)"
| "read_chunks data crc_offset (Suc n) pos cs =
     (if pos + 6 > crc_offset then Inl TooShort
      else sum_bind (read_le data pos (pos + 4)) (\<lambda>chunk_idx.
           sum_bind (read_le data (pos + 4) (pos + 6)) (\<lambda>pc.
           let pack_count = unat (pc :: u16); pos1 = pos + 6
           in if pos1 + pack_count * 8 > crc_offset then Inl TooShort
              else sum_bind (read_packs data pack_count pos1) (\<lambda>(ps, pos2).
                   read_chunks data crc_offset n pos2
                     (bt_insert chunk_idx \<lparr> packs = ps, live_blocks = None \<rparr> cs)))))"

fun read_live :: "bytes \<Rightarrow> nat \<Rightarrow> (u32, ChunkEntry) btree \<Rightarrow> VolumeManifestError + (u32, ChunkEntry) btree" where
  "read_live data pos [] = Inr []"
| "read_live data pos ((ci, e) # rest) =
     sum_bind (read_le data pos (pos + 4)) (\<lambda>n.
     sum_bind (read_live data (pos + 4) rest) (\<lambda>rest'.
       Inr ((ci, e\<lparr> live_blocks := (if n \<noteq> LIVE_UNKNOWN then Some n else None) \<rparr>) # rest')))"

definition known_version :: "u16 \<Rightarrow> bool" where
  "known_version v \<longleftrightarrow> v \<in> {VOLUME_MANIFEST_VERSION, VOLUME_MANIFEST_VERSION_PREFETCH,
     VOLUME_MANIFEST_VERSION_GENERATION, VOLUME_MANIFEST_VERSION_PREFETCH_GENERATION,
     VOLUME_MANIFEST_VERSION_COMPOSITE, VOLUME_MANIFEST_VERSION_PREFETCH_COMPOSITE}"

definition version_has_prefetch :: "u16 \<Rightarrow> bool" where
  "version_has_prefetch v \<longleftrightarrow> v \<in> {VOLUME_MANIFEST_VERSION_PREFETCH,
     VOLUME_MANIFEST_VERSION_PREFETCH_GENERATION, VOLUME_MANIFEST_VERSION_PREFETCH_COMPOSITE}"

definition version_has_generation :: "u16 \<Rightarrow> bool" where
  "version_has_generation v \<longleftrightarrow> v \<in> {VOLUME_MANIFEST_VERSION_GENERATION,
     VOLUME_MANIFEST_VERSION_PREFETCH_GENERATION}"

definition version_has_composite :: "u16 \<Rightarrow> bool" where
  "version_has_composite v \<longleftrightarrow> v \<in> {VOLUME_MANIFEST_VERSION_COMPOSITE,
     VOLUME_MANIFEST_VERSION_PREFETCH_COMPOSITE}"

definition read_prefetch :: "bytes \<Rightarrow> nat \<Rightarrow> u16 \<Rightarrow> nat \<Rightarrow> VolumeManifestError + u64 option \<times> nat" where
  "read_prefetch data crc_offset version pos =
     (if version_has_prefetch version then
        (if pos + 8 > crc_offset then Inl TooShort
         else sum_bind (read_le data pos (pos + 8)) (\<lambda>v. Inr (Some v, pos + 8)))
      else Inr (None, pos))"

definition read_fence :: "bytes \<Rightarrow> nat \<Rightarrow> u16 \<Rightarrow> nat \<Rightarrow> VolumeManifestError + (u64 \<times> u64) \<times> nat" where
  "read_fence data crc_offset version pos =
     (if version_has_composite version then
        (if pos + 16 > crc_offset then Inl TooShort
         else sum_bind (read_le data pos (pos + 8)) (\<lambda>g.
              sum_bind (read_le data (pos + 8) (pos + 16)) (\<lambda>l. Inr ((g, l), pos + 16))))
      else if version_has_generation version then
        (if pos + 8 > crc_offset then Inl TooShort
         else sum_bind (read_le data pos (pos + 8)) (\<lambda>g. Inr ((g, 0), pos + 8)))
      else Inr ((0, 0), pos))"

definition deserialize_body :: "bytes \<Rightarrow> nat \<Rightarrow> u16 \<Rightarrow> VolumeManifestError + VolumeManifest" where
  "deserialize_body data crc_offset version =
     sum_bind (read_le data 6 10) (\<lambda>cc.
     sum_bind (read_le data 10 14) (\<lambda>cs.
     sum_bind (read_le data 14 18) (\<lambda>bs.
     sum_bind (read_le data 18 26) (\<lambda>device_size.
     sum_bind (read_le data 26 27) (\<lambda>flags.
     let chunk_count = unat (cc :: u32); csize = (of_nat (unat (cs :: u32)) :: u64);
         has_live_counts = (flags AND FLAG_LIVE_COUNTS \<noteq> 0)
     in if bs = 0 \<or> csize = 0 then Inl InvalidConfig
        else sum_bind (read_chunks data crc_offset chunk_count GLVM_HEADER_SIZE []) (\<lambda>(chs, pos1).
             sum_bind (read_prefetch data crc_offset version pos1) (\<lambda>(prefetch, pos2).
             sum_bind (read_fence data crc_offset version pos2) (\<lambda>((g, l), pos3).
             sum_bind (if has_live_counts then
                         (if pos3 + chunk_count * 4 > crc_offset then Inl TooShort
                          else read_live data pos3 chs)
                       else Inr chs) (\<lambda>chs'.
               Inr \<lparr> vm_size = device_size, chunk_size = csize, block_size = bs, chunks = chs',
                     prefetch_len = prefetch, generation = g, lease_revision = l \<rparr>)))))))))"

definition deserialize :: "(bytes \<Rightarrow> u32) \<Rightarrow> bytes \<Rightarrow> VolumeManifestError + VolumeManifest" where
  "deserialize crc data =
     (if length data < GLVM_HEADER_SIZE + 4 then Inl TooShort
      else let crc_offset = length data - 4
        in sum_bind (read_le data crc_offset (length data)) (\<lambda>stored_crc.
           let computed_crc = crc (take crc_offset data)
           in if stored_crc \<noteq> computed_crc then Inl (CrcMismatch stored_crc computed_crc)
              else if take 4 data \<noteq> GLVM_MAGIC then Inl BadMagic
              else sum_bind (read_le data 4 6) (\<lambda>version.
                   if \<not> known_version version then Inl (UnsupportedVersion (unat version))
                   else deserialize_body data crc_offset version)))"

section \<open>Reading back what was written\<close>

lemma read_le_at:
  fixes w :: "'a::len word"
  assumes "8 dvd LENGTH('a)" "a = length pre" "b = a + LENGTH('a) div 8"
  shows "read_le (pre @ to_le_bytes w @ post) a b = Inr w"
  using assms by (simp add: read_le_def rust_slice_def list_simps length_to_le_bytes from_to_le_bytes)

lemma read_packs_at:
  "pos = length pre \<Longrightarrow>
   read_packs (pre @ concat (map to_le_bytes ps) @ post) (length ps) pos =
     Inr (ps, pos + length ps * 8)"
proof (induction ps arbitrary: pre pos)
  case (Cons p ps)
  have "read_le (pre @ to_le_bytes p @ concat (map to_le_bytes ps) @ post) pos (pos + 8) = Inr p"
    by (rule read_le_at) (use Cons.prems in simp_all)
  moreover have "read_packs ((pre @ to_le_bytes p) @ concat (map to_le_bytes ps) @ post) (length ps) (pos + 8)
      = Inr (ps, (pos + 8) + length ps * 8)"
    by (rule Cons.IH) (use Cons.prems in simp)
  ultimately show ?case by simp
qed simp

lemma length_packs_bytes [simp]: "length (concat (map to_le_bytes (ps :: u64 list))) = 8 * length ps"
  by (induction ps) simp_all

lemma length_chunk_bytes: "length (chunk_bytes (ci, e)) = 6 + 8 * length (packs e)"
  by (simp add: chunk_bytes_def)

definition forget_live :: "u32 \<times> ChunkEntry \<Rightarrow> u32 \<times> ChunkEntry" where
  "forget_live ce = (fst ce, (snd ce)\<lparr> live_blocks := None \<rparr>)"

lemma forget_live_pair: "forget_live (ci, e) = (ci, e\<lparr> live_blocks := None \<rparr>)"
  by (simp add: forget_live_def)

lemma read_chunks_at:
  assumes "\<forall>(ci, e)\<in>set cs. length (packs e) \<le> 65535"
    and "pos = length pre" "pos + length (concat (map chunk_bytes cs)) \<le> crc_offset"
  shows "read_chunks (pre @ concat (map chunk_bytes cs) @ post) crc_offset (length cs) pos m =
     Inr (fold (\<lambda>(k, v). bt_insert k v) (map forget_live cs) m, pos + length (concat (map chunk_bytes cs)))"
  using assms
proof (induction cs arbitrary: pre pos m)
  case (Cons c cs)
  obtain ci e where c: "c = (ci, e)" by (cases c)
  let ?rest = "concat (map chunk_bytes cs) @ post"
  let ?n = "of_nat (length (packs e)) :: u16"
  have n: "unat ?n = length (packs e)" using Cons.prems(1) c by (simp add: unat_of_nat)
  have d: "pre @ concat (map chunk_bytes (c # cs)) @ post =
     pre @ to_le_bytes ci @ (to_le_bytes ?n @ concat (map to_le_bytes (packs e)) @ ?rest)"
    by (simp add: c chunk_bytes_def)
  have r1: "read_le (pre @ concat (map chunk_bytes (c # cs)) @ post) pos (pos + 4) = Inr ci"
    unfolding d by (rule read_le_at) (use Cons.prems in simp_all)
  have r2: "read_le (pre @ concat (map chunk_bytes (c # cs)) @ post) (pos + 4) (pos + 6) = Inr ?n"
    unfolding d using Cons.prems(2)
      read_le_at [of "pos + 4" "pre @ to_le_bytes ci" "pos + 6" ?n "concat (map to_le_bytes (packs e)) @ ?rest"]
    by simp
  have r3: "read_packs (pre @ concat (map chunk_bytes (c # cs)) @ post) (length (packs e)) (pos + 6)
      = Inr (packs e, pos + 6 + length (packs e) * 8)"
    unfolding d using Cons.prems(2)
      read_packs_at [of "pos + 6" "pre @ to_le_bytes ci @ to_le_bytes ?n" "packs e" ?rest] by simp
  have IH: "read_chunks ((pre @ chunk_bytes c) @ concat (map chunk_bytes cs) @ post) crc_offset (length cs)
       (pos + length (chunk_bytes c)) m' =
     Inr (fold (\<lambda>(k, v). bt_insert k v) (map forget_live cs) m',
          pos + length (chunk_bytes c) + length (concat (map chunk_bytes cs)))" for m'
    by (rule Cons.IH) (use Cons.prems in simp_all)
  have f: "e\<lparr> live_blocks := None \<rparr> = \<lparr> packs = packs e, live_blocks = None \<rparr>" by simp
  show ?case
    using r1 r2 r3 IH Cons.prems(3) n
    by (simp add: c length_chunk_bytes forget_live_pair f algebra_simps)
qed simp

lemma read_live_at:
  assumes "\<forall>(ci, e)\<in>set cs. live_blocks e \<noteq> Some LIVE_UNKNOWN" "pos = length pre"
  shows "read_live (pre @ concat (map (\<lambda>(_, e). to_le_bytes (live_word e)) cs) @ post) pos (map forget_live cs)
     = Inr cs"
  using assms
proof (induction cs arbitrary: pre pos)
  case (Cons c cs)
  obtain ci e where c: "c = (ci, e)" by (cases c)
  let ?d = "pre @ concat (map (\<lambda>(_, e). to_le_bytes (live_word e)) (c # cs)) @ post"
  have r: "read_le ?d pos (pos + 4) = Inr (live_word e)"
    using read_le_at [of pos pre "pos + 4" "live_word e"] Cons.prems(2) by (simp add: c)
  have "read_live ((pre @ to_le_bytes (live_word e))
        @ concat (map (\<lambda>(_, e). to_le_bytes (live_word e)) cs) @ post) (pos + 4) (map forget_live cs) = Inr cs"
    by (rule Cons.IH) (use Cons.prems in auto)
  moreover have "e\<lparr> live_blocks := (if live_word e \<noteq> LIVE_UNKNOWN then Some (live_word e) else None) \<rparr> = e"
    using Cons.prems(1) c by (cases e) (auto simp: live_word_def split: option.splits)
  ultimately show ?case using r by (simp add: c forget_live_pair)
qed simp


lemma serialize_chunks_ok:
  "serialize_chunks cs = Inr bs \<longleftrightarrow>
   (\<forall>(ci, e)\<in>set cs. length (packs e) \<le> 65535) \<and> bs = concat (map chunk_bytes cs)"
  by (induction cs arbitrary: bs) (auto split: if_splits)

lemma to_le_bytes_byte: "to_le_bytes (b :: byte) = [b]"
  by (simp add: to_le_bytes_def)

lemma length_manifest_header [simp]: "length (manifest_header m) = 32"
  by (simp add: manifest_header_def GLVM_MAGIC_def)

lemma manifest_header_fields:
  "read_le (manifest_header m @ post) 4 6 = Inr (manifest_version m)"
  "read_le (manifest_header m @ post) 6 10 = Inr (of_nat (length (chunks m)) :: u32)"
  "read_le (manifest_header m @ post) 10 14 = Inr (of_nat (unat (chunk_size m)) :: u32)"
  "read_le (manifest_header m @ post) 14 18 = Inr (block_size m)"
  "read_le (manifest_header m @ post) 18 26 = Inr (vm_size m)"
  "read_le (manifest_header m @ post) 26 27 = Inr FLAG_LIVE_COUNTS"
  "take 4 (manifest_header m @ post) = GLVM_MAGIC"
proof -
  let ?v = "to_le_bytes (manifest_version m)" and ?cc = "to_le_bytes (of_nat (length (chunks m)) :: u32)"
    and ?cs = "to_le_bytes (of_nat (unat (chunk_size m)) :: u32)"
    and ?bs = "to_le_bytes (block_size m)" and ?sz = "to_le_bytes (vm_size m)"
  have l: "length GLVM_MAGIC = 4" by (simp add: GLVM_MAGIC_def)
  show "read_le (manifest_header m @ post) 4 6 = Inr (manifest_version m)"
    unfolding manifest_header_def append_assoc
    by (rule read_le_at [where pre = "GLVM_MAGIC", unfolded append_assoc]) (simp_all add: l)
  show "read_le (manifest_header m @ post) 6 10 = Inr (of_nat (length (chunks m)) :: u32)"
    unfolding manifest_header_def append_assoc
    by (rule read_le_at [where pre = "GLVM_MAGIC @ ?v", unfolded append_assoc]) (simp_all add: l)
  show "read_le (manifest_header m @ post) 10 14 = Inr (of_nat (unat (chunk_size m)) :: u32)"
    unfolding manifest_header_def append_assoc
    by (rule read_le_at [where pre = "GLVM_MAGIC @ ?v @ ?cc", unfolded append_assoc]) (simp_all add: l)
  show "read_le (manifest_header m @ post) 14 18 = Inr (block_size m)"
    unfolding manifest_header_def append_assoc
    by (rule read_le_at [where pre = "GLVM_MAGIC @ ?v @ ?cc @ ?cs", unfolded append_assoc]) (simp_all add: l)
  show "read_le (manifest_header m @ post) 18 26 = Inr (vm_size m)"
    unfolding manifest_header_def append_assoc
    by (rule read_le_at [where pre = "GLVM_MAGIC @ ?v @ ?cc @ ?cs @ ?bs", unfolded append_assoc]) (simp_all add: l)
  have "read_le (GLVM_MAGIC @ ?v @ ?cc @ ?cs @ ?bs @ ?sz @ to_le_bytes FLAG_LIVE_COUNTS @ [0, 0, 0, 0, 0] @ post) 26 27
      = Inr FLAG_LIVE_COUNTS"
    by (rule read_le_at [where pre = "GLVM_MAGIC @ ?v @ ?cc @ ?cs @ ?bs @ ?sz", unfolded append_assoc])
       (simp_all add: l)
  then show "read_le (manifest_header m @ post) 26 27 = Inr FLAG_LIVE_COUNTS"
    unfolding manifest_header_def append_assoc to_le_bytes_byte .
  show "take 4 (manifest_header m @ post) = GLVM_MAGIC" by (simp add: manifest_header_def l)
qed

lemma version_flags:
  "known_version (manifest_version m)"
  "version_has_prefetch (manifest_version m) \<longleftrightarrow> prefetch_len m \<noteq> None"
  "version_has_composite (manifest_version m) \<longleftrightarrow> lease_revision m > 0"
  "version_has_generation (manifest_version m) \<longleftrightarrow> \<not> lease_revision m > 0 \<and> generation m > 0"
  by (cases "prefetch_len m"; cases "lease_revision m > 0"; cases "generation m > 0";
      simp add: manifest_version_def known_version_def version_has_prefetch_def
        version_has_composite_def version_has_generation_def version_defs)+

lemma read_prefetch_at:
  assumes "pos = length pre" "pos + length (prefetch_trailer m) \<le> crc_offset"
  shows "read_prefetch (pre @ prefetch_trailer m @ post) crc_offset (manifest_version m) pos
     = Inr (prefetch_len m, pos + length (prefetch_trailer m))"
proof (cases "prefetch_len m")
  case (Some len)
  then show ?thesis
    using read_le_at [of pos pre "pos + 8" len post] assms
    by (simp add: read_prefetch_def version_flags prefetch_trailer_def)
qed (simp add: read_prefetch_def version_flags prefetch_trailer_def)

lemma read_fence_at:
  assumes "pos = length pre" "pos + length (fence_trailer m) \<le> crc_offset"
  shows "read_fence (pre @ fence_trailer m @ post) crc_offset (manifest_version m) pos
     = Inr ((generation m, lease_revision m), pos + length (fence_trailer m))"
proof (cases "lease_revision m > 0")
  case True
  then show ?thesis
    using read_le_at [of pos pre "pos + 8" "generation m" "to_le_bytes (lease_revision m) @ post"]
      read_le_at [of "pos + 8" "pre @ to_le_bytes (generation m)" "pos + 16" "lease_revision m" post] assms
    by (simp add: read_fence_def version_flags fence_trailer_def)
next
  case False
  then have "lease_revision m = 0" by (simp add: word_gt_0)
  then show ?thesis
    using read_le_at [of pos pre "pos + 8" "generation m" post] assms
    by (cases "generation m > 0")
       (simp_all add: read_fence_def version_flags fence_trailer_def word_gt_0)
qed

definition manifest_wf :: "VolumeManifest \<Rightarrow> bool" where
  "manifest_wf m \<longleftrightarrow>
     bt_wf (chunks m) \<and> length (chunks m) < 2 ^ 32
   \<and> chunk_size m \<noteq> 0 \<and> unat (chunk_size m) < 2 ^ 32 \<and> block_size m \<noteq> 0
   \<and> (\<forall>(ci, e)\<in>set (chunks m). live_blocks e \<noteq> Some LIVE_UNKNOWN)"

lemma forget_live_sorted: "bt_wf cs \<Longrightarrow> bt_wf (map forget_live cs)"
  by (simp add: bt_wf_def forget_live_def comp_def)

lemma length_live_bytes:
  "length (concat (map (\<lambda>(_, e). to_le_bytes (live_word e)) cs)) = 4 * length cs"
  by (induction cs) auto

lemma body_roundtrip:
  assumes wf: "manifest_wf m" and le: "\<forall>(ci, e)\<in>set (chunks m). length (packs e) \<le> 65535"
    and buf: "buf = manifest_header m @ concat (map chunk_bytes (chunks m))
                @ prefetch_trailer m @ fence_trailer m @ live_trailer m"
  shows "deserialize_body (buf @ crcb) (length buf) (manifest_version m) = Inr m"
proof -
  let ?h = "manifest_header m" and ?e = "concat (map chunk_bytes (chunks m))"
    and ?p = "prefetch_trailer m" and ?f = "fence_trailer m" and ?l = "live_trailer m"
  let ?d = "buf @ crcb"
  have cc: "unat (of_nat (length (chunks m)) :: u32) = length (chunks m)"
    and cs: "unat (of_nat (unat (chunk_size m)) :: u32) = unat (chunk_size m)"
    using wf unfolding manifest_wf_def unat_of_nat by simp_all
  have d: "?d = ?h @ (?e @ ?p @ ?f @ ?l @ crcb)" by (simp add: buf)
  note hdr = manifest_header_fields [of m "?e @ ?p @ ?f @ ?l @ crcb", folded d]
  have chunks: "read_chunks ?d (length buf) (length (chunks m)) 32 [] =
      Inr (map forget_live (chunks m), 32 + length ?e)"
    using read_chunks_at [OF le, of 32 ?h "length buf" "?p @ ?f @ ?l @ crcb" "[]"]
      bt_fold_insert_sorted [of "[]" "map forget_live (chunks m)"] forget_live_sorted wf
    by (simp add: buf manifest_wf_def)
  have pre: "read_prefetch ?d (length buf) (manifest_version m) (32 + length ?e)
      = Inr (prefetch_len m, 32 + length ?e + length ?p)"
    using read_prefetch_at [of "32 + length ?e" "?h @ ?e" m "length buf" "?f @ ?l @ crcb"] by (simp add: buf)
  have fence: "read_fence ?d (length buf) (manifest_version m) (32 + length ?e + length ?p)
      = Inr ((generation m, lease_revision m), 32 + length ?e + length ?p + length ?f)"
    using read_fence_at [of "32 + length ?e + length ?p" "?h @ ?e @ ?p" m "length buf" "?l @ crcb"]
    by (simp add: buf)
  have live: "read_live ?d (32 + length ?e + length ?p + length ?f) (map forget_live (chunks m)) = Inr (chunks m)"
    using read_live_at [of "chunks m" "32 + length ?e + length ?p + length ?f" "?h @ ?e @ ?p @ ?f" crcb] wf
    by (simp add: buf live_trailer_def manifest_wf_def)
  have fit: "\<not> 32 + length ?e + length ?p + length ?f + length (chunks m) * 4 > length buf"
    by (simp add: buf live_trailer_def length_live_bytes)
  have nz: "block_size m \<noteq> 0" "(of_nat (unat (chunk_size m)) :: u64) \<noteq> 0"
    using wf by (simp_all add: manifest_wf_def)
  have flag: "(FLAG_LIVE_COUNTS AND FLAG_LIVE_COUNTS) \<noteq> 0" by (simp add: FLAG_LIVE_COUNTS_def)
  show ?thesis
    unfolding deserialize_body_def hdr sum_bind_simps cc cs Let_def GLVM_HEADER_SIZE_def chunks
    using nz flag pre fence live fit by simp
qed

lemma serialize_cases:
  assumes "serialize crc m = Inr data"
  obtains buf where "\<forall>(ci, e)\<in>set (chunks m). length (packs e) \<le> 65535"
    "buf = manifest_header m @ concat (map chunk_bytes (chunks m))
                @ prefetch_trailer m @ fence_trailer m @ live_trailer m"
    "data = buf @ to_le_bytes (crc buf)"
  using assms by (auto simp: serialize_def Let_def serialize_chunks_ok)

lemma deserialize_serialize:
  assumes "manifest_wf m" "serialize crc m = Inr data"
  shows "deserialize crc data = Inr m"
proof -
  obtain buf where b: "\<forall>(ci, e)\<in>set (chunks m). length (packs e) \<le> 65535"
    "buf = manifest_header m @ concat (map chunk_bytes (chunks m))
                @ prefetch_trailer m @ fence_trailer m @ live_trailer m"
    "data = buf @ to_le_bytes (crc buf)"
    by (rule serialize_cases [OF assms(2)])
  have "read_le data (length data - 4) (length data) = Inr (crc buf)"
    using read_le_at [of "length buf" buf "length buf + 4" "crc buf" "[]"] b(3) by simp
  moreover have "read_le data 4 6 = Inr (manifest_version m)" "take 4 data = GLVM_MAGIC"
    using manifest_header_fields(1,7) [of m] b(2,3) by simp_all
  moreover have "length data \<ge> 36" using b(2,3) by simp
  ultimately show ?thesis
    using body_roundtrip [OF assms(1) b(1,2), of "to_le_bytes (crc buf)"] b(3) version_flags(1)
    by (simp add: deserialize_def GLVM_HEADER_SIZE_def)
qed


text \<open>
  C8: the manifest survives a round trip.  Whatever the checksum function, every
  well-formed manifest that serializes is read back unchanged, in each of the six
  format versions the serializer chooses from.
\<close>

theorem manifest_roundtrip:
  assumes "manifest_wf m" "serialize crc m = Inr data"
  shows "deserialize crc data = Inr m"
  using assms by (rule deserialize_serialize)

definition demo_manifest :: VolumeManifest where
  "demo_manifest =
     \<lparr> vm_size = 1073741824, chunk_size = DEFAULT_CHUNK_SIZE, block_size = 131072,
       chunks = [(0, \<lparr> packs = [11, 12], live_blocks = Some 3 \<rparr>), (7, \<lparr> packs = [13], live_blocks = None \<rparr>)],
       prefetch_len = Some 4096, generation = 2, lease_revision = 5 \<rparr>"

lemma demo_manifest_wf: "manifest_wf demo_manifest"
  by (simp add: manifest_wf_def demo_manifest_def bt_wf_def DEFAULT_CHUNK_SIZE_def LIVE_UNKNOWN_def)

lemma demo_serializes:
  "serialize crc demo_manifest = Inr (projr (serialize crc demo_manifest))"
proof -
  have "serialize_chunks (chunks demo_manifest) = Inr (concat (map chunk_bytes (chunks demo_manifest)))"
    by (simp add: serialize_chunks_ok demo_manifest_def)
  then show ?thesis by (simp add: serialize_def Let_def)
qed

theorem manifest_roundtrip_witness:
  "deserialize (\<lambda>bs. of_nat (length bs)) (projr (serialize (\<lambda>bs. of_nat (length bs)) demo_manifest))
     = Inr demo_manifest"
  by (rule manifest_roundtrip [OF demo_manifest_wf demo_serializes])

section \<open>The deserializer on arbitrary input\<close>

lemma read_le_in:
  "\<lbrakk> a \<le> b; b \<le> length data \<rbrakk> \<Longrightarrow> read_le data a b = Inr (from_le_bytes (bslice a b data))"
  by (simp add: read_le_def rust_slice_def)

lemma read_le_ok: "\<lbrakk> a \<le> b; b \<le> length data \<rbrakk> \<Longrightarrow> \<exists>w. read_le data a b = Inr w"
  by (simp add: read_le_in)

lemma read_packs_safe:
  "pos + n * 8 \<le> length data \<Longrightarrow> \<exists>ps. read_packs data n pos = Inr (ps, pos + n * 8)"
proof (induction n arbitrary: pos)
  case (Suc n)
  obtain w :: u64 where "read_le data pos (pos + 8) = Inr w" using read_le_ok [of pos "pos + 8" data] Suc.prems by auto
  moreover obtain ps where "read_packs data n (pos + 8) = Inr (ps, pos + 8 + n * 8)"
    using Suc.IH [of "pos + 8"] Suc.prems by auto
  ultimately show ?case by simp
qed simp

lemma length_bt_insert: "length (bt_insert k v m) \<le> Suc (length m)"
  by (induction k v m rule: bt_insert.induct) auto

lemma read_chunks_safe:
  assumes "crc_offset \<le> length data" "pos \<le> crc_offset"
  shows "read_chunks data crc_offset n pos m = Inl TooShort \<or>
     (\<exists>cs pos'. read_chunks data crc_offset n pos m = Inr (cs, pos') \<and> pos' \<le> crc_offset
        \<and> length cs \<le> length m + n)"
  using assms(2)
proof (induction n arbitrary: pos m)
  case (Suc n)
  show ?case
  proof (cases "pos + 6 > crc_offset")
    case False
    obtain ci :: u32 where ci: "read_le data pos (pos + 4) = Inr ci"
      using read_le_ok [of pos "pos + 4" data] False assms(1) by auto
    obtain pc :: u16 where pc: "read_le data (pos + 4) (pos + 6) = Inr pc"
      using read_le_ok [of "pos + 4" "pos + 6" data] False assms(1) by auto
    show ?thesis
    proof (cases "pos + 6 + unat pc * 8 > crc_offset")
      case fits: False
      obtain ps where ps: "read_packs data (unat pc) (pos + 6) = Inr (ps, pos + 6 + unat pc * 8)"
        using read_packs_safe [of "pos + 6" "unat pc" data] fits assms(1) by auto
      from Suc.IH [of "pos + 6 + unat pc * 8" "bt_insert ci \<lparr> packs = ps, live_blocks = None \<rparr> m"] fits
      show ?thesis
        using ci pc ps False length_bt_insert [of ci "\<lparr> packs = ps, live_blocks = None \<rparr>" m]
        by (auto intro: order_trans)
    qed (use ci pc False in simp)
  qed simp
qed simp

lemma read_live_safe:
  "pos + length cs * 4 \<le> length data \<Longrightarrow> \<exists>cs'. read_live data pos cs = Inr cs'"
proof (induction cs arbitrary: pos)
  case (Cons c cs)
  obtain ci e where c: "c = (ci, e)" by (cases c)
  obtain w :: u32 where "read_le data pos (pos + 4) = Inr w"
    using read_le_ok [of pos "pos + 4" data] Cons.prems by auto
  moreover obtain cs' where "read_live data (pos + 4) cs = Inr cs'"
    using Cons.IH [of "pos + 4"] Cons.prems by auto
  ultimately show ?case by (simp add: c)
qed simp

lemma read_prefetch_safe:
  assumes "crc_offset \<le> length data" "pos \<le> crc_offset"
  shows "read_prefetch data crc_offset v pos = Inl TooShort \<or>
     (\<exists>p pos'. read_prefetch data crc_offset v pos = Inr (p, pos') \<and> pos' \<le> crc_offset)"
  using assms read_le_ok [of pos "pos + 8" data, where ?'a = 64]
  by (auto simp: read_prefetch_def sum_bind_def split: sum.splits)

lemma read_fence_safe:
  assumes "crc_offset \<le> length data" "pos \<le> crc_offset"
  shows "read_fence data crc_offset v pos = Inl TooShort \<or>
     (\<exists>g l pos'. read_fence data crc_offset v pos = Inr ((g, l), pos') \<and> pos' \<le> crc_offset)"
  using assms read_le_ok [of pos "pos + 8" data, where ?'a = 64]
    read_le_ok [of "pos + 8" "pos + 16" data, where ?'a = 64]
  by (auto simp: read_fence_def sum_bind_def split: sum.splits)

lemma body_safe:
  assumes "crc_offset + 4 = length data" "32 \<le> crc_offset"
  shows "deserialize_body data crc_offset v \<noteq> Inl Panic"
proof -
  have c: "crc_offset \<le> length data" using assms by simp
  define n where "n = unat (from_le_bytes (bslice 6 10 data) :: u32)"
  have h: "read_le data 6 10 = Inr (from_le_bytes (bslice 6 10 data) :: u32)"
    "read_le data 10 14 = Inr (from_le_bytes (bslice 10 14 data) :: u32)"
    "read_le data 14 18 = Inr (from_le_bytes (bslice 14 18 data) :: u32)"
    "read_le data 18 26 = Inr (from_le_bytes (bslice 18 26 data) :: u64)"
    "read_le data 26 27 = Inr (from_le_bytes (bslice 26 27 data) :: byte)"
    using assms by (simp_all add: read_le_in)
  consider (short) "read_chunks data crc_offset n 32 [] = Inl TooShort"
    | (ok) cs pos where "read_chunks data crc_offset n 32 [] = Inr (cs, pos)" "pos \<le> crc_offset" "length cs \<le> n"
    using read_chunks_safe [OF c assms(2), of n "[]"] by auto
  then show ?thesis
  proof cases
    case short
    then show ?thesis
      unfolding deserialize_body_def h sum_bind_simps Let_def GLVM_HEADER_SIZE_def n_def [symmetric]
      by simp
  next
    case (ok cs pos)
    consider (short) "read_prefetch data crc_offset v pos = Inl TooShort"
      | (ok2) p pos2 where "read_prefetch data crc_offset v pos = Inr (p, pos2)" "pos2 \<le> crc_offset"
      using read_prefetch_safe [OF c ok(2)] by blast
    then show ?thesis
    proof cases
      case short
      then show ?thesis
        unfolding deserialize_body_def h sum_bind_simps Let_def GLVM_HEADER_SIZE_def n_def [symmetric]
        using ok by simp
    next
      case (ok2 p pos2)
      have live: "pos3 + n * 4 \<le> crc_offset \<Longrightarrow> read_live data pos3 cs \<noteq> Inl Panic" for pos3
        using read_live_safe [of pos3 cs data] ok(3) c by auto
      consider "read_fence data crc_offset v pos2 = Inl TooShort"
        | g l pos3 where "read_fence data crc_offset v pos2 = Inr ((g, l), pos3)"
        using read_fence_safe [OF c ok2(2), of v] by blast
      then show ?thesis
        unfolding deserialize_body_def h sum_bind_simps Let_def GLVM_HEADER_SIZE_def n_def [symmetric]
        by cases (use ok ok2 live in \<open>auto simp: sum_bind_eq_Inl not_less\<close>)
    qed
  qed
qed

text \<open>
  C21: corrupt manifests are rejected, never a crash.  On every byte string the
  deserializer returns a manifest or one of its documented errors; no slice it
  takes is out of range.
\<close>

theorem deserialize_never_panics: "deserialize crc data \<noteq> Inl Panic"
proof (cases "length data < 36")
  case False
  have s: "read_le data (length data - 4) (length data)
      = Inr (from_le_bytes (bslice (length data - 4) (length data) data) :: u32)"
    "read_le data 4 6 = Inr (from_le_bytes (bslice 4 6 data) :: u16)"
    using False by (simp_all add: read_le_in)
  show ?thesis
    using False body_safe [of "length data - 4" data]
    by (simp add: deserialize_def GLVM_HEADER_SIZE_def s Let_def)
qed (simp add: deserialize_def GLVM_HEADER_SIZE_def)


section \<open>Properties of the operations\<close>

lemma bt_get_append_pack:
  "bt_get (chunks (append_pack ci p live m)) =
   (bt_get (chunks m))(ci \<mapsto> \<lparr> packs = (case bt_get (chunks m) ci of None \<Rightarrow> [] | Some e \<Rightarrow> packs e) @ [p],
                             live_blocks = live \<rparr>)"
  by (simp add: append_pack_def Let_def bt_get_insert split: option.splits)

lemma chunk_pack_ids_append:
  "chunk_pack_ids (append_pack ci p live m) cj =
   (if cj = ci then Some ((case chunk_pack_ids m ci of None \<Rightarrow> [] | Some ps \<Rightarrow> ps) @ [p])
    else chunk_pack_ids m cj)"
  by (simp add: chunk_pack_ids_def bt_get_append_pack split: option.splits)

lemma manifest_wf_append:
  assumes "manifest_wf m" "live \<noteq> Some LIVE_UNKNOWN" "length (chunks m) + 1 < 2 ^ 32"
  shows "manifest_wf (append_pack ci p live m)"
proof -
  have s: "set (bt_insert k v cs) \<subseteq> insert (k, v) (set cs)" for k v and cs :: "(u32, ChunkEntry) btree"
    by (induction k v cs rule: bt_insert.induct) auto
  show ?thesis
    using assms length_bt_insert [of ci "\<lparr> packs = packs (case bt_get (chunks m) ci of
        None \<Rightarrow> \<lparr> packs = [], live_blocks = Some 0 \<rparr> | Some e \<Rightarrow> e) @ [p], live_blocks = live \<rparr>" "chunks m"]
    by (auto simp: manifest_wf_def append_pack_def Let_def bt_wf_insert dest!: s [THEN subsetD])
qed



text \<open>
  block addresses do not collide.  When the chunk size is a multiple of the
  block size, the pair of chunk index and offset in the chunk identifies the block:
  two block indices of the device with the same pair are equal.
\<close>

theorem block_address_injective:
  assumes "block_size m \<noteq> 0" "unat (block_size m) dvd unat (chunk_size m)"
    and "chunk_size m \<noteq> 0" "unat (chunk_size m) < 2 ^ 32"
    and "unat (vm_size m) \<le> 2 ^ 32 * unat (chunk_size m)"
    and "unat i * unat (block_size m) < unat (vm_size m)" "unat j * unat (block_size m) < unat (vm_size m)"
  shows "(chunk_idx_for_block m i, block_offset_in_chunk m i)
           = (chunk_idx_for_block m j, block_offset_in_chunk m j) \<longleftrightarrow> i = j"
proof (intro iffI)
  let ?bs = "unat (block_size m)" and ?cs = "unat (chunk_size m)"
  assume eq: "(chunk_idx_for_block m i, block_offset_in_chunk m i)
           = (chunk_idx_for_block m j, block_offset_in_chunk m j)"
  have bs: "?bs > 0" and cs: "?cs > 0" using assms(1,3) by (simp_all add: unat_gt_0)
  have sz: "unat (vm_size m) < 2 ^ 64" using unsigned_less [of "vm_size m", where ?'a = nat] by simp
  obtain q where q: "?cs = ?bs * q" using assms(2) by (auto simp: dvd_def)
  have "q > 0" using cs q by (cases q) auto
  have qlt: "q < 2 ^ 32"
    using assms(4) bs q by (metis le_less_trans mult_le_mono1 Suc_leI nat_mult_1 One_nat_def)
  have bpc: "blocks_per_chunk m = Some (of_nat q)" "unat (of_nat q :: u32) = q"
    using assms(1) bs q qlt by (simp_all add: blocks_per_chunk_def unat_of_nat)
  have bpc0: "(of_nat q :: u32) \<noteq> 0" using bpc(2) \<open>q > 0\<close> by (metis neq0_conv unat_0)
  have chunk: "unat x * ?bs div ?cs = unat x div q" for x :: u64
    using bs by (simp add: q mult.commute)
  have small: "unat x div q < 2 ^ 32" if "unat x * ?bs < unat (vm_size m)" for x :: u64
    using that cs assms(5) by (simp add: chunk [symmetric] div_less_iff_less_mult)
  have w: "of_nat a = (of_nat b :: u32) \<Longrightarrow> a < 2 ^ 32 \<Longrightarrow> b < 2 ^ 32 \<Longrightarrow> a = b" for a b :: nat
    by (drule arg_cong [of _ _ unat]) (simp add: unat_of_nat)
  have ci: "chunk_idx_for_block m x = Some (of_nat (unat x div q))"
    if "unat x * ?bs < unat (vm_size m)" for x
    using that sz assms(3) by (simp add: chunk_idx_for_block_def Let_def chunk)
  have "unat i div q = unat j div q"
    using eq small [OF assms(6)] small [OF assms(7)] by (intro w) (simp_all add: ci assms(6,7))
  moreover have "unat i mod q = unat j mod q"
  proof (rule w)
    show "of_nat (unat i mod q) = (of_nat (unat j mod q) :: u32)"
      using eq bpc0 by (simp add: block_offset_in_chunk_def bpc)
    show "unat i mod q < 2 ^ 32" "unat j mod q < 2 ^ 32"
      using qlt \<open>q > 0\<close> by (meson less_trans mod_less_divisor)+
  qed
  ultimately have "unat i = unat j" by (metis div_mult_mod_eq)
  then show "i = j" by (simp add: word_unat_eq_iff)
qed simp

theorem block_address_injective_witness:
  "(chunk_idx_for_block demo_manifest 1023, block_offset_in_chunk demo_manifest 1023)
     = (chunk_idx_for_block demo_manifest 2047, block_offset_in_chunk demo_manifest 2047)
   \<longleftrightarrow> (1023 :: u64) = 2047"
  by (rule block_address_injective) (simp_all add: demo_manifest_def DEFAULT_CHUNK_SIZE_def)

text \<open>
  With a block size that does not divide the chunk size the addresses of the first
  blocks of a chunk and of the blocks behind its last whole block coincide.
\<close>

lemma block_address_collision:
  "chunk_idx_for_block (demo_manifest\<lparr> chunk_size := 10, block_size := 4 \<rparr>) 2
     = chunk_idx_for_block (demo_manifest\<lparr> chunk_size := 10, block_size := 4 \<rparr>) 0
   \<and> block_offset_in_chunk (demo_manifest\<lparr> chunk_size := 10, block_size := 4 \<rparr>) 2
     = block_offset_in_chunk (demo_manifest\<lparr> chunk_size := 10, block_size := 4 \<rparr>) 0"
  by (simp add: chunk_idx_for_block_def block_offset_in_chunk_def blocks_per_chunk_def)

end
