(* ===== verification/Fence.thy ===== *)
theory Fence
  imports GlidePrelude
begin

unbundle bit_operations_syntax

text \<open>
  The single-attach fence of \<open>glidefs/src/block/fence.rs\<close>: the composite token and
  the admission rule.  The locale \<open>fencing\<close> states what the attach and manifest-sync
  code relies on: admission is decided by a total preorder on tokens, so that once a
  token has been accepted every strictly older one is refused.  It is interpreted on
  \<open>fence_attach\<close>.
\<close>

datatype Fence = Grant | Reject

definition compose_token :: "u64 \<Rightarrow> u64 \<Rightarrow> u128" where
  "compose_token gen lease = push_bit 64 (ucast gen :: u128) OR ucast lease"

definition attach_fence :: "u128 \<Rightarrow> u128 \<Rightarrow> Fence" where
  "attach_fence stored_token my_token = (if my_token \<ge> stored_token then Grant else Reject)"

definition fence_attach :: "u64 \<Rightarrow> u64 \<Rightarrow> u64 \<Rightarrow> u64 \<Rightarrow> Fence" where
  "fence_attach stored_generation stored_lease_revision my_generation my_lease_revision =
     attach_fence (compose_token stored_generation stored_lease_revision)
       (compose_token my_generation my_lease_revision)"

text \<open>A sequence of attach attempts: an admitted token becomes the stored one.\<close>

fun attach_all :: "('t \<Rightarrow> 't \<Rightarrow> bool) \<Rightarrow> 't \<Rightarrow> 't list \<Rightarrow> 't \<times> bool list" where
  "attach_all admits stored [] = (stored, [])"
| "attach_all admits stored (t # ts) =
     (let stored' = (if admits stored t then t else stored);
          (final, rs) = attach_all admits stored' ts
      in (final, admits stored t # rs))"

locale fencing =
  fixes admits :: "'t \<Rightarrow> 't \<Rightarrow> bool"
  assumes admits_refl: "admits t t"
    and admits_trans: "\<lbrakk> admits a b; admits b c \<rbrakk> \<Longrightarrow> admits a c"
    and admits_total: "admits a b \<or> admits b a"
begin

text \<open>The stored token never goes back, and a token it overtook is never admitted again.\<close>

lemma attach_all_fst:
  "fst (attach_all admits stored (t # ts)) = fst (attach_all admits (if admits stored t then t else stored) ts)"
  by (simp add: Let_def split: prod.splits)

lemma stored_grows: "admits stored (fst (attach_all admits stored ts))"
proof (induction ts arbitrary: stored)
  case (Cons t ts)
  show ?case unfolding attach_all_fst using Cons.IH admits_trans by (cases "admits stored t") auto
qed (simp add: admits_refl)

lemma overtaken_rejected:
  assumes "\<not> admits stored t"
  shows "\<not> admits (fst (attach_all admits stored ts)) t"
  using assms stored_grows [of stored ts] admits_trans by blast

end

section \<open>The composite token orders lexicographically\<close>

lemma unat_ucast_up: "unat (ucast (x :: u64) :: u128) = unat x"
  by (simp add: unsigned_ucast_eq take_bit_nat_eq_self_iff order_less_le_trans [OF unsigned_less])

lemma compose_token_unat: "unat (compose_token g l) = unat g * 2 ^ 64 + unat l"
proof -
  have g: "unat g < 2 ^ 64" and l: "unat l < 2 ^ 64"
    using unsigned_less [of g, where ?'a = nat] unsigned_less [of l, where ?'a = nat] by simp_all
  have "(push_bit 64 (ucast g :: u128)) AND ucast l = 0"
  proof (rule bit_word_eqI)
    fix n :: nat
    show "bit (push_bit 64 (ucast g :: u128) AND ucast l) n = bit (0 :: u128) n"
      by (auto simp: bit_and_iff bit_push_bit_iff bit_ucast_iff dest: bit_imp_le_length)
  qed
  then have "compose_token g l = push_bit 64 (ucast g) + ucast l"
    using word_plus_and_or [of "push_bit 64 (ucast g :: u128)" "ucast l"] by (simp add: compose_token_def)
  moreover have "unat (push_bit 64 (ucast g :: u128)) = unat g * 2 ^ 64"
  proof -
    have "unat g * 2 ^ 64 < 2 ^ 128" using g by simp
    then show ?thesis
      by (simp add: push_bit_eq_mult unat_word_ariths unat_ucast_up)
  qed
  moreover have "unat g * 2 ^ 64 + unat l < 2 ^ 128"
  proof -
    have "unat g \<le> 2 ^ 64 - 1" using g by simp
    then have "unat g * 2 ^ 64 \<le> (2 ^ 64 - 1) * 2 ^ 64" by (rule mult_le_mono1)
    then show ?thesis using l by simp
  qed
  ultimately show ?thesis by (simp add: unat_word_ariths unat_ucast_up)
qed

lemma fence_attach_lex:
  "fence_attach sg sl g l = Grant \<longleftrightarrow> g > sg \<or> (g = sg \<and> l \<ge> sl)"
proof -
  have sl: "unat sl < 2 ^ 64" and l: "unat l < 2 ^ 64"
    using unsigned_less [of sl, where ?'a = nat] unsigned_less [of l, where ?'a = nat] by simp_all
  have "compose_token g l \<ge> compose_token sg sl
      \<longleftrightarrow> unat g > unat sg \<or> (unat g = unat sg \<and> unat l \<ge> unat sl)"
    unfolding word_le_nat_alt compose_token_unat
  proof (cases "unat g" "unat sg" rule: linorder_cases)
    case less
    then have "unat g * 2 ^ 64 + 2 ^ 64 \<le> unat sg * 2 ^ 64"
      by (metis Suc_leI add.commute mult_Suc mult_le_mono1)
    then show "unat sg * 2 ^ 64 + unat sl \<le> unat g * 2 ^ 64 + unat l
       \<longleftrightarrow> unat g > unat sg \<or> (unat g = unat sg \<and> unat l \<ge> unat sl)"
      using less l by linarith
  next
    case greater
    then have "unat sg * 2 ^ 64 + 2 ^ 64 \<le> unat g * 2 ^ 64"
      by (metis Suc_leI add.commute mult_Suc mult_le_mono1)
    then show "unat sg * 2 ^ 64 + unat sl \<le> unat g * 2 ^ 64 + unat l
       \<longleftrightarrow> unat g > unat sg \<or> (unat g = unat sg \<and> unat l \<ge> unat sl)"
      using greater sl by linarith
  qed simp
  then show ?thesis
    by (simp add: fence_attach_def attach_fence_def word_less_nat_alt word_le_nat_alt word_unat_eq_iff)
qed

definition token_admits :: "u64 \<times> u64 \<Rightarrow> u64 \<times> u64 \<Rightarrow> bool" where
  "token_admits stored mine = (fence_attach (fst stored) (snd stored) (fst mine) (snd mine) = Grant)"

lemma token_admits_lex:
  "token_admits s t \<longleftrightarrow> fst t > fst s \<or> (fst t = fst s \<and> snd t \<ge> snd s)"
  by (simp add: token_admits_def fence_attach_lex)

interpretation tok: fencing token_admits
  by unfold_locales (auto simp: token_admits_lex)



end
