(* ===== verification/CircuitBreaker.thy ===== *)
theory CircuitBreaker
  imports GlidePrelude
begin

unbundle bit_operations_syntax

text \<open>
  The lock-free circuit breaker of \<open>glidefs/src/circuit_breaker.rs\<close>.  The whole state
  is one packed 64-bit word; every operation is a loop around a compare-and-swap on
  it.  One round of a loop, given the word it loaded and the clock value it read, is
  an \<open>_iter\<close> function: it returns, or proposes the word to swap in.  A thread whose
  compare-and-swap fails starts a new round with the word then stored, so every
  concurrent history is a sequence of successful rounds; \<open>cb_steps\<close> is that sequence,
  counting the probes it admits.
\<close>

datatype FailurePolicy = Consecutive u32 | Windowed u32 u64

record CircuitBreakerConfig =
  failure_policy :: FailurePolicy
  reset_timeout :: u64
  half_open_permits :: u32

definition default_config :: CircuitBreakerConfig where
  "default_config = \<lparr> failure_policy = Consecutive 5, reset_timeout = 30, half_open_permits = 3 \<rparr>"

definition consecutive_config :: "u32 \<Rightarrow> CircuitBreakerConfig" where
  "consecutive_config threshold = default_config\<lparr> failure_policy := Consecutive threshold \<rparr>"

definition windowed_config :: "u32 \<Rightarrow> u64 \<Rightarrow> CircuitBreakerConfig" where
  "windowed_config threshold window = default_config\<lparr> failure_policy := Windowed threshold window \<rparr>"

definition STATE_CLOSED :: u64 where "STATE_CLOSED = 0"
definition STATE_OPEN :: u64 where "STATE_OPEN = 1"
definition STATE_HALF_OPEN :: u64 where "STATE_HALF_OPEN = 2"
definition STATE_SHIFT :: nat where "STATE_SHIFT = 62"
definition STATE_MASK :: u64 where "STATE_MASK = 3"
definition FAILURE_SHIFT :: nat where "FAILURE_SHIFT = 48"
definition FAILURE_MASK :: u64 where "FAILURE_MASK = 0x3FFF"
definition PERMIT_SHIFT :: nat where "PERMIT_SHIFT = 32"
definition PERMIT_MASK :: u64 where "PERMIT_MASK = 0xFFFF"
definition TIMESTAMP_MASK :: u64 where "TIMESTAMP_MASK = 0xFFFFFFFF"

lemmas cb_states = STATE_CLOSED_def STATE_OPEN_def STATE_HALF_OPEN_def

definition pack :: "u64 \<Rightarrow> u64 \<Rightarrow> u64 \<Rightarrow> u64 \<Rightarrow> u64" where
  "pack state failures permits timestamp =
     push_bit STATE_SHIFT (state AND STATE_MASK)
     OR push_bit FAILURE_SHIFT (failures AND FAILURE_MASK)
     OR push_bit PERMIT_SHIFT (permits AND PERMIT_MASK)
     OR (timestamp AND TIMESTAMP_MASK)"

definition unpack :: "u64 \<Rightarrow> u64 \<times> u64 \<times> u64 \<times> u64" where
  "unpack packed =
     (drop_bit STATE_SHIFT packed AND STATE_MASK,
      drop_bit FAILURE_SHIFT packed AND FAILURE_MASK,
      drop_bit PERMIT_SHIFT packed AND PERMIT_MASK,
      packed AND TIMESTAMP_MASK)"

record breaker =
  state_word :: u64
  window_start :: u64

definition with_clock :: "u64 \<Rightarrow> breaker" where
  "with_clock now = \<lparr> state_word = pack STATE_CLOSED 0 0 now, window_start = 0 \<rparr>"

text \<open>
  A round of \<open>allow\<close>: return a verdict without a swap, or swap in a word and either
  return a verdict or go round again (\<open>None\<close>).
\<close>

datatype 'r round = Return 'r | Swap u64 "'r option"

definition allow_iter :: "CircuitBreakerConfig \<Rightarrow> u64 \<Rightarrow> u64 \<Rightarrow> bool round" where
  "allow_iter cfg now packed =
     (case unpack packed of (state, failures, permits, timestamp) \<Rightarrow>
        if state = STATE_CLOSED then Return True
        else if state = STATE_OPEN then
          (let elapsed = now - timestamp
           in if elapsed \<ge> reset_timeout cfg
              then Swap (pack STATE_HALF_OPEN 0 (ucast (half_open_permits cfg)) now) None
              else Return False)
        else if state = STATE_HALF_OPEN then
          (if permits = 0 then Return False
           else Swap (pack STATE_HALF_OPEN failures (permits - 1) timestamp) (Some True))
        else Swap (pack STATE_CLOSED 0 0 now) (Some True))"

text \<open>\<open>allow\<close> with nobody interfering; the fuel bounds the number of rounds.\<close>

fun allow_rounds :: "nat \<Rightarrow> CircuitBreakerConfig \<Rightarrow> u64 \<Rightarrow> breaker \<Rightarrow> (bool \<times> breaker) option" where
  "allow_rounds 0 cfg now b = None"
| "allow_rounds (Suc n) cfg now b =
     (case allow_iter cfg now (state_word b) of
        Return r \<Rightarrow> Some (r, b)
      | Swap w (Some r) \<Rightarrow> Some (r, b\<lparr> state_word := w \<rparr>)
      | Swap w None \<Rightarrow> allow_rounds n cfg now (b\<lparr> state_word := w \<rparr>))"

definition success_iter :: "u64 \<Rightarrow> u64 \<Rightarrow> u64 option" where
  "success_iter now packed =
     (let state = fst (unpack packed)
      in if state = STATE_CLOSED then Some (pack STATE_CLOSED 0 0 now)
         else if state = STATE_HALF_OPEN then Some (pack STATE_CLOSED 0 0 now)
         else None)"

definition record_success :: "u64 \<Rightarrow> breaker \<Rightarrow> breaker" where
  "record_success now b =
     (case unpack (state_word b) of (state, failures, _, _) \<Rightarrow>
        if state = STATE_CLOSED \<and> failures = 0 then b
        else let b' = b\<lparr> window_start := 0 \<rparr>
          in (case success_iter now (state_word b') of
                None \<Rightarrow> b'
              | Some w \<Rightarrow> b'\<lparr> state_word := w \<rparr>))"

definition failure_iter :: "u32 \<Rightarrow> u64 \<Rightarrow> u64 \<Rightarrow> u64 option" where
  "failure_iter threshold now packed =
     (case unpack packed of (state, failures, _, _) \<Rightarrow>
        if state = STATE_CLOSED then
          (let new_failures = failures + 1
           in if new_failures \<ge> ucast threshold then Some (pack STATE_OPEN 0 0 now)
              else Some (pack STATE_CLOSED new_failures 0 now))
        else if state = STATE_HALF_OPEN then Some (pack STATE_OPEN 0 0 now)
        else None)"

definition record_failure_consecutive :: "u32 \<Rightarrow> u64 \<Rightarrow> breaker \<Rightarrow> breaker" where
  "record_failure_consecutive threshold now b =
     (case failure_iter threshold now (state_word b) of
        None \<Rightarrow> b
      | Some w \<Rightarrow> b\<lparr> state_word := w \<rparr>)"

definition record_failure_windowed :: "u32 \<Rightarrow> u64 \<Rightarrow> u64 \<Rightarrow> breaker \<Rightarrow> breaker" where
  "record_failure_windowed threshold window_secs now b =
     (let (new_window_start, reset_count) =
            (if window_start b = 0 then (now, True)
             else if now - window_start b \<ge> window_secs then (now, True)
             else (window_start b, False));
          b1 = (if new_window_start \<noteq> window_start b then b\<lparr> window_start := new_window_start \<rparr> else b)
      in case unpack (state_word b1) of (state, failures, _, _) \<Rightarrow>
           if state = STATE_CLOSED then
             (let new_failures = (if reset_count then 1 else failures + 1)
              in if new_failures \<ge> ucast threshold
                 then b1\<lparr> window_start := 0, state_word := pack STATE_OPEN 0 0 now \<rparr>
                 else b1\<lparr> state_word := pack STATE_CLOSED new_failures 0 now \<rparr>)
           else if state = STATE_HALF_OPEN then
             b1\<lparr> window_start := 0, state_word := pack STATE_OPEN 0 0 now \<rparr>
           else b1)"

definition record_failure :: "CircuitBreakerConfig \<Rightarrow> u64 \<Rightarrow> breaker \<Rightarrow> breaker" where
  "record_failure cfg now b =
     (case failure_policy cfg of
        Consecutive threshold \<Rightarrow> record_failure_consecutive threshold now b
      | Windowed threshold window \<Rightarrow> record_failure_windowed threshold window now b)"

datatype CircuitState = Closed u32 | Open | HalfOpen u32

definition cb_state :: "breaker \<Rightarrow> CircuitState" where
  "cb_state b =
     (case unpack (state_word b) of (state, failures, permits, _) \<Rightarrow>
        if state = STATE_CLOSED then Closed (ucast failures)
        else if state = STATE_OPEN then Open
        else if state = STATE_HALF_OPEN then HalfOpen (ucast permits)
        else Closed 0)"

definition reset :: "u64 \<Rightarrow> breaker \<Rightarrow> breaker" where
  "reset now b = b\<lparr> window_start := 0, state_word := pack STATE_CLOSED 0 0 now \<rparr>"

definition force_state :: "CircuitState \<Rightarrow> u64 \<Rightarrow> breaker \<Rightarrow> breaker" where
  "force_state s now b =
     b\<lparr> state_word := (case s of
          Closed n \<Rightarrow> pack STATE_CLOSED (ucast n) 0 now
        | Open \<Rightarrow> pack STATE_OPEN 0 0 now
        | HalfOpen n \<Rightarrow> pack STATE_HALF_OPEN 0 (ucast n) now) \<rparr>"

section \<open>The packed word\<close>

lemma mask_consts:
  "STATE_MASK = mask 2" "FAILURE_MASK = mask 14" "PERMIT_MASK = mask 16" "TIMESTAMP_MASK = mask 32"
  by (simp_all add: STATE_MASK_def FAILURE_MASK_def PERMIT_MASK_def TIMESTAMP_MASK_def mask_eq_exp_minus_1)

lemmas shift_consts = STATE_SHIFT_def FAILURE_SHIFT_def PERMIT_SHIFT_def

lemma unpack_pack:
  "unpack (pack s f p t) = (take_bit 2 s, take_bit 14 f, take_bit 16 p, take_bit 32 t)"
proof -
  have "drop_bit 62 (pack s f p t) AND mask 2 = take_bit 2 s"
    "drop_bit 48 (pack s f p t) AND mask 14 = take_bit 14 f"
    "drop_bit 32 (pack s f p t) AND mask 16 = take_bit 16 p"
    "pack s f p t AND mask 32 = take_bit 32 t"
    unfolding pack_def mask_consts shift_consts
    by (rule bit_word_eqI;
        auto simp: bit_and_iff bit_or_iff bit_drop_bit_eq bit_push_bit_iff bit_mask_iff bit_take_bit_iff)+
  then show ?thesis by (simp add: unpack_def mask_consts shift_consts)
qed

lemma take_bit_state [simp]:
  "take_bit 2 STATE_CLOSED = STATE_CLOSED" "take_bit 2 STATE_OPEN = STATE_OPEN"
  "take_bit 2 STATE_HALF_OPEN = STATE_HALF_OPEN"
  by (simp_all add: cb_states)

lemma state_distinct [simp]:
  "STATE_OPEN \<noteq> STATE_CLOSED" "STATE_HALF_OPEN \<noteq> STATE_CLOSED" "STATE_HALF_OPEN \<noteq> STATE_OPEN"
  "STATE_CLOSED \<noteq> STATE_OPEN" "STATE_CLOSED \<noteq> STATE_HALF_OPEN" "STATE_OPEN \<noteq> STATE_HALF_OPEN"
  by (simp_all add: cb_states)


section \<open>Concurrent histories\<close>

definition word_state :: "u64 \<Rightarrow> u64" where "word_state w = fst (unpack w)"
definition word_permits :: "u64 \<Rightarrow> u64" where "word_permits w = fst (snd (snd (unpack w)))"

text \<open>One successful compare-and-swap of any thread; the flag says whether it admitted a request.\<close>

inductive cb_step :: "CircuitBreakerConfig \<Rightarrow> u64 \<Rightarrow> bool \<Rightarrow> u64 \<Rightarrow> bool" for cfg where
  step_allow: "allow_iter cfg now w = Swap w' r \<Longrightarrow> cb_step cfg w (r = Some True) w'"
| step_success: "success_iter now w = Some w' \<Longrightarrow> cb_step cfg w False w'"
| step_failure: "\<lbrakk> failure_policy cfg = Consecutive th; failure_iter th now w = Some w' \<rbrakk>
    \<Longrightarrow> cb_step cfg w False w'"

inductive_cases cb_stepE: "cb_step cfg w adm w'"

text \<open>A history that stays half-open, with the number of requests it admitted.\<close>

inductive half_open_run :: "CircuitBreakerConfig \<Rightarrow> u64 \<Rightarrow> nat \<Rightarrow> u64 \<Rightarrow> bool" for cfg w where
  run_start: "word_state w = STATE_HALF_OPEN \<Longrightarrow> half_open_run cfg w 0 w"
| run_step: "\<lbrakk> half_open_run cfg w n w1; cb_step cfg w1 adm w2; word_state w2 = STATE_HALF_OPEN \<rbrakk>
    \<Longrightarrow> half_open_run cfg w (n + of_bool adm) w2"

lemma half_open_run_state: "half_open_run cfg w n w' \<Longrightarrow> word_state w' = STATE_HALF_OPEN"
  by (induction rule: half_open_run.induct) auto

lemma take_bit_16_dec:
  assumes "p = take_bit 16 (q :: u64)" "p \<noteq> 0"
  shows "unat (take_bit 16 (p - 1)) + 1 = unat p"
proof -
  have p: "unat p < 2 ^ 16"
    using take_bit_nat_less_exp [of 16 "unat q"] by (simp add: assms(1) unsigned_take_bit_eq)
  have "unat p > 0" using assms(2) by (simp add: unat_gt_0)
  moreover have "unat (p - 1) = unat p - 1" by (rule unat_minus_one [OF assms(2)])
  moreover have "take_bit 16 (unat p - 1) = unat p - 1"
    using p by (intro take_bit_nat_eq_self) simp
  ultimately show ?thesis by (simp add: unsigned_take_bit_eq)
qed

lemma unpack_fields:
  "unpack w = (word_state w, fst (snd (unpack w)), word_permits w, snd (snd (snd (unpack w))))"
  by (simp add: word_state_def word_permits_def)

lemma word_permits_take: "word_permits w = take_bit 16 (drop_bit 32 w)"
  by (simp add: word_permits_def unpack_def mask_consts shift_consts take_bit_eq_mask)

lemma half_open_step_permits:
  assumes "cb_step cfg w adm w'" "word_state w = STATE_HALF_OPEN" "word_state w' = STATE_HALF_OPEN"
  shows "adm \<and> unat (word_permits w') + 1 = unat (word_permits w)"
  using assms(1)
proof (cases rule: cb_step.cases)
  case (step_allow now r)
  have nz: "word_permits w \<noteq> 0" and
    w': "w' = pack STATE_HALF_OPEN (fst (snd (unpack w))) (word_permits w - 1) (snd (snd (snd (unpack w))))"
    "r = Some True"
    using step_allow(2) assms(2) by (subst (asm) allow_iter_def, subst (asm) unpack_fields, auto split: if_splits)+
  show ?thesis
    using take_bit_16_dec [OF word_permits_take nz] step_allow(1) w'
    by (simp add: word_permits_def unpack_pack)
next
  case (step_success now)
  then show ?thesis
    using assms(2,3) by (auto simp: success_iter_def word_state_def unpack_pack Let_def)
next
  case (step_failure th now)
  then show ?thesis
    using assms(2,3) by (auto simp: failure_iter_def word_state_def unpack_pack split: prod.splits)
qed

lemma half_open_run_permits:
  "half_open_run cfg w n w' \<Longrightarrow> n + unat (word_permits w') = unat (word_permits w)"
proof (induction rule: half_open_run.induct)
  case (run_step n w1 adm w2)
  then show ?case
    using half_open_step_permits [OF run_step(2) half_open_run_state [OF run_step(1)] run_step(3)] by simp
qed simp

text \<open>
  C20: the half-open state admits a bounded number of probes.  Starting from the word
  that the open-to-half-open transition stores, in every concurrent history of
  allow, success and failure calls that stays half-open, the number of admitted
  requests and the permits left add up to the configured permits modulo 65536.
\<close>

theorem half_open_probe_bound:
  assumes "half_open_run cfg (pack STATE_HALF_OPEN 0 (ucast (half_open_permits cfg)) now) n w'"
  shows "n + unat (word_permits w') = unat (half_open_permits cfg) mod 65536"
proof -
  have "unat (ucast (half_open_permits cfg) :: u64) = unat (half_open_permits cfg)"
    by (simp add: unsigned_ucast_eq take_bit_nat_eq_self_iff order_less_le_trans [OF unsigned_less])
  then have "unat (take_bit 16 (ucast (half_open_permits cfg) :: u64)) = take_bit 16 (unat (half_open_permits cfg))"
    by (simp only: unsigned_take_bit_eq)
  then show ?thesis
    using half_open_run_permits [OF assms] by (simp add: word_permits_def unpack_pack take_bit_eq_mod)
qed

lemma demo_half_open: "word_state (pack STATE_HALF_OPEN 0 p t) = STATE_HALF_OPEN"
  by (simp add: word_state_def unpack_pack)

theorem half_open_probe_bound_witness:
  "1 + unat (word_permits (pack STATE_HALF_OPEN 0 2 7)) = unat (half_open_permits default_config) mod 65536"
proof (rule half_open_probe_bound [where now = 7])
  have "allow_iter default_config 7 (pack STATE_HALF_OPEN 0 3 7) = Swap (pack STATE_HALF_OPEN 0 2 7) (Some True)"
    by (simp add: allow_iter_def unpack_pack)
  then have "cb_step default_config (pack STATE_HALF_OPEN 0 3 7) True (pack STATE_HALF_OPEN 0 2 7)"
    using step_allow by fastforce
  from run_step [OF run_start this] show "half_open_run default_config
      (pack STATE_HALF_OPEN 0 (ucast (half_open_permits default_config)) 7) 1 (pack STATE_HALF_OPEN 0 2 7)"
    by (simp add: demo_half_open default_config_def)
qed

section \<open>Opening, rejecting and recovering\<close>

lemma unpack_closed:
  "n < 16384 \<Longrightarrow> unpack (pack STATE_CLOSED (of_nat n) 0 t) = (STATE_CLOSED, of_nat n, 0, take_bit 32 t)"
  by (simp add: unpack_pack take_bit_of_nat take_bit_nat_eq_self)

lemma unpack_open: "unpack (pack STATE_OPEN 0 0 t) = (STATE_OPEN, 0, 0, take_bit 32 t)"
  by (simp add: unpack_pack)

lemma unat_threshold: "unat (ucast (th :: u32) :: u64) = unat th"
  by (simp add: unsigned_ucast_eq take_bit_nat_eq_self_iff order_less_le_trans [OF unsigned_less])

lemma failure_iter_closed:
  assumes "n < 16384"
  shows "failure_iter th now (pack STATE_CLOSED (of_nat n) 0 t) =
     Some (if n + 1 \<ge> unat th then pack STATE_OPEN 0 0 now else pack STATE_CLOSED (of_nat (n + 1)) 0 now)"
proof -
  have "unat (of_nat n + 1 :: u64) = n + 1"
    using assms by (simp add: unat_word_ariths unat_of_nat)
  then have "(of_nat n + 1 :: u64) \<ge> ucast th \<longleftrightarrow> n + 1 \<ge> unat th"
    by (simp add: word_le_nat_alt unat_threshold)
  then show ?thesis using assms by (simp add: failure_iter_def unpack_closed add.commute)
qed

lemma failure_iter_open: "failure_iter th now (pack STATE_OPEN 0 0 t) = None"
  by (simp add: failure_iter_def unpack_open)

lemma record_failure_word:
  "state_word (record_failure_consecutive th now b) =
     (case failure_iter th now (state_word b) of None \<Rightarrow> state_word b | Some w \<Rightarrow> w)"
  by (simp add: record_failure_consecutive_def split: option.splits)

lemma ucast_count: "n < 16384 \<Longrightarrow> ucast (of_nat n :: u64) = (of_nat n :: u32)"
  by (simp add: word_unat_eq_iff unsigned_ucast_eq unat_of_nat take_bit_nat_eq_self)

lemma failures_below_threshold:
  assumes "length nows < unat th" "unat th \<le> 16384"
  shows "\<exists>t'. state_word (fold (record_failure_consecutive th) nows (with_clock t))
            = pack STATE_CLOSED (of_nat (length nows)) 0 t'"
  using assms(1)
proof (induction nows rule: rev_induct)
  case Nil
  then show ?case by (auto simp: with_clock_def)
next
  case (snoc now nows)
  then obtain t' where "state_word (fold (record_failure_consecutive th) nows (with_clock t))
      = pack STATE_CLOSED (of_nat (length nows)) 0 t'" by auto
  then show ?case
    using snoc.prems assms(2) failure_iter_closed [of "length nows" th now t']
    by (auto simp: record_failure_word)
qed

lemma failures_at_threshold:
  assumes "unat th \<le> length nows" "0 < length nows" "unat th \<le> 16384"
  shows "\<exists>t'. state_word (fold (record_failure_consecutive th) nows (with_clock t)) = pack STATE_OPEN 0 0 t'"
  using assms(1,2)
proof (induction nows rule: rev_induct)
  case (snoc now nows)
  show ?case
  proof (cases "unat th \<le> length nows \<and> 0 < length nows")
    case True
    then obtain t' where "state_word (fold (record_failure_consecutive th) nows (with_clock t))
        = pack STATE_OPEN 0 0 t'" using snoc.IH by blast
    then show ?thesis by (auto simp: record_failure_word failure_iter_open)
  next
    case False
    then have l: "length nows < unat th \<or> nows = []" and l2: "length nows < 16384"
      using snoc.prems assms(3) by auto
    obtain t' where "state_word (fold (record_failure_consecutive th) nows (with_clock t))
        = pack STATE_CLOSED (of_nat (length nows)) 0 t'"
      using l failures_below_threshold [of nows th t] assms(3) by (auto simp: with_clock_def)
    then show ?thesis
      using failure_iter_closed [OF l2, of th now t'] snoc.prems False
      by (auto simp: record_failure_word)
  qed
qed simp

text \<open>
  the breaker opens exactly at its threshold.  For thresholds up to 16384, after
  fewer failures in a row than the threshold the breaker is closed and reports their
  number; from the threshold on (and from the first failure for threshold zero) it is
  open.
\<close>

theorem breaker_opens_at_threshold:
  assumes "unat th \<le> 16384"
  shows "cb_state (fold (record_failure_consecutive th) nows (with_clock t)) =
     (if nows = [] \<or> length nows < unat th then Closed (of_nat (length nows)) else Open)"
proof (cases "nows = [] \<or> length nows < unat th")
  case True
  then obtain t' where "state_word (fold (record_failure_consecutive th) nows (with_clock t))
        = pack STATE_CLOSED (of_nat (length nows)) 0 t'"
    using failures_below_threshold [of nows th t] assms by (auto simp: with_clock_def)
  moreover have "length nows < 16384" using True assms by auto
  ultimately show ?thesis
    using True by (simp add: cb_state_def unpack_closed ucast_count)
next
  case False
  then obtain t' where "state_word (fold (record_failure_consecutive th) nows (with_clock t))
        = pack STATE_OPEN 0 0 t'"
    using failures_at_threshold [of th nows t] assms by auto
  then show ?thesis using False by (simp add: cb_state_def unpack_open)
qed

theorem breaker_opens_at_threshold_witness:
  "cb_state (fold (record_failure_consecutive 2) [10, 11] (with_clock 9)) =
     (if [10, 11 :: u64] = [] \<or> length [10, 11 :: u64] < unat (2 :: u32) then Closed (of_nat (length [10, 11 :: u64])) else Open)"
  by (rule breaker_opens_at_threshold) simp

text \<open>
  C24: a threshold above 16384 disables the breaker.  The failure count is kept in
  14 bits, so with such a threshold no number of consecutive failures ever opens the
  circuit.
\<close>

theorem breaker_threshold_overflow:
  assumes "unat th > 16384"
  shows "cb_state (fold (record_failure_consecutive th) nows (with_clock t)) \<noteq> Open"
proof -
  have "\<exists>n<16384. \<exists>t'. state_word (fold (record_failure_consecutive th) nows (with_clock t))
          = pack STATE_CLOSED (of_nat n) 0 t'"
  proof (induction nows rule: rev_induct)
    case Nil
    show ?case by (rule exI [of _ 0]) (auto simp: with_clock_def)
  next
    case (snoc now nows)
    then obtain n t' where n: "n < 16384"
      "state_word (fold (record_failure_consecutive th) nows (with_clock t)) = pack STATE_CLOSED (of_nat n) 0 t'"
      by blast
    then have w: "state_word (fold (record_failure_consecutive th) (nows @ [now]) (with_clock t))
        = pack STATE_CLOSED (of_nat (n + 1)) 0 now"
      using failure_iter_closed [OF n(1), of th now t'] assms by (simp add: record_failure_word)
    show ?case
    proof (cases "n + 1 < 16384")
      case False
      then have "n + 1 = 16384" using n(1) by simp
      then have "pack STATE_CLOSED (of_nat (n + 1)) 0 now = pack STATE_CLOSED (of_nat 0) 0 now"
        by (simp add: pack_def FAILURE_MASK_def)
      then show ?thesis using w by (metis zero_less_numeral)
    qed (use w in blast)
  qed
  then show ?thesis by (auto simp: cb_state_def unpack_closed)
qed

theorem breaker_threshold_overflow_witness:
  "cb_state (fold (record_failure_consecutive 16385) [1, 2, 3] (with_clock 0)) \<noteq> Open"
  by (rule breaker_threshold_overflow) simp

lemma allow_rounds_2:
  "allow_rounds 2 cfg now b =
     (case allow_iter cfg now (state_word b) of
        Return r \<Rightarrow> Some (r, b)
      | Swap w (Some r) \<Rightarrow> Some (r, b\<lparr> state_word := w \<rparr>)
      | Swap w None \<Rightarrow> allow_rounds (Suc 0) cfg now (b\<lparr> state_word := w \<rparr>))"
  by (simp only: numeral_2_eq_2 allow_rounds.simps(2))

text \<open>
  the recovery cycle.  An open breaker refuses every request, unchanged, until the
  reset timeout has elapsed; then the next request is admitted as a probe and leaves
  one permit less.  One success closes the breaker, one failure opens it again, and
  \<open>allow\<close> always ends within two rounds.
\<close>

theorem breaker_recovery_cycle:
  assumes "state_word b = pack STATE_OPEN 0 0 t" "unat (half_open_permits cfg) < 65536"
    and "half_open_permits cfg \<noteq> 0"
  shows "(now - take_bit 32 t < reset_timeout cfg \<longrightarrow> allow_rounds 2 cfg now b = Some (False, b))
       \<and> (now - take_bit 32 t \<ge> reset_timeout cfg \<longrightarrow>
            (\<exists>b'. allow_rounds 2 cfg now b = Some (True, b')
               \<and> cb_state b' = HalfOpen (half_open_permits cfg - 1)
               \<and> cb_state (record_success now' b') = Closed 0
               \<and> cb_state (record_failure_consecutive th now' b') = Open))"
proof (intro conjI impI)
  show "allow_rounds 2 cfg now b = Some (False, b)" if "now - take_bit 32 t < reset_timeout cfg"
  proof -
    have "\<not> reset_timeout cfg \<le> now - take_bit 32 t" using that by simp
    then show ?thesis using assms(1) by (simp add: allow_rounds_2 allow_iter_def unpack_open Let_def)
  qed
next
  let ?p = "ucast (half_open_permits cfg) :: u64"
  assume elapsed: "now - take_bit 32 t \<ge> reset_timeout cfg"
  have u: "unat ?p = unat (half_open_permits cfg)" by (rule unat_threshold)
  have p: "take_bit 16 ?p = ?p"
    using assms(2) u by (simp add: word_unat_eq_iff unsigned_take_bit_eq take_bit_nat_eq_self)
  have p0: "?p \<noteq> 0" using u assms(3) by (metis unat_eq_zero)
  have q: "take_bit 16 (?p - 1) = ?p - 1"
    using take_bit_16_dec [OF p [symmetric] p0] unat_minus_one [OF p0] u by (simp add: word_unat_eq_iff)
  let ?b' = "b\<lparr> state_word := pack STATE_HALF_OPEN 0 (?p - 1) (take_bit 32 now) \<rparr>"
  have "allow_rounds 2 cfg now b = Some (True, ?b')"
    using elapsed assms(1) p p0 by (simp add: allow_rounds_2 allow_iter_def unpack_pack)
  moreover have "cb_state ?b' = HalfOpen (half_open_permits cfg - 1)"
  proof -
    have "unat (ucast (?p - 1) :: u32) = take_bit 32 (unat (half_open_permits cfg) - 1)"
      using unat_minus_one [OF p0] u by (simp add: unsigned_ucast_eq)
    also have "\<dots> = unat (half_open_permits cfg) - 1"
      using assms(2) by (intro take_bit_nat_eq_self) simp
    also have "\<dots> = unat (half_open_permits cfg - 1)"
      using unat_minus_one [OF assms(3)] by simp
    finally have "ucast (?p - 1) = half_open_permits cfg - 1" by (simp only: word_unat_eq_iff)
    then show ?thesis by (simp add: cb_state_def unpack_pack q)
  qed
  moreover have "cb_state (record_success now' ?b') = Closed 0"
    "cb_state (record_failure_consecutive th now' ?b') = Open"
    by (simp_all add: record_success_def success_iter_def record_failure_consecutive_def failure_iter_def
        unpack_pack cb_state_def)
  ultimately show "\<exists>b'. allow_rounds 2 cfg now b = Some (True, b')
               \<and> cb_state b' = HalfOpen (half_open_permits cfg - 1)
               \<and> cb_state (record_success now' b') = Closed 0
               \<and> cb_state (record_failure_consecutive th now' b') = Open"
    by blast
qed

theorem breaker_recovery_cycle_witness:
  "allow_rounds 2 default_config 20 (force_state Open 10 (with_clock 0))
     = Some (False, force_state Open 10 (with_clock 0))
   \<and> (\<exists>b'. allow_rounds 2 default_config 100 (force_state Open 10 (with_clock 0)) = Some (True, b')
        \<and> cb_state b' = HalfOpen 2 \<and> cb_state (record_success 101 b') = Closed 0
        \<and> cb_state (record_failure_consecutive 5 101 b') = Open)"
proof -
  let ?b = "force_state Open 10 (with_clock 0)"
  have h: "state_word ?b = pack STATE_OPEN 0 0 10" "unat (half_open_permits default_config) < 65536"
    "half_open_permits default_config \<noteq> 0"
    by (simp_all add: force_state_def default_config_def)
  show ?thesis
    using breaker_recovery_cycle [OF h, of 20 101 5] breaker_recovery_cycle [OF h, of 100 101 5]
    by (simp add: default_config_def)
qed

end
