(* ===== verification/PackIndexCache.thy ===== *)
theory PackIndexCache
  imports Pack OrdMap
begin

text \<open>
  The pack index cache of \<open>glidefs/src/block/pack_index_cache.rs\<close>: the extent encoding
  of its SSD tier, the lookup of a block in a cached index, the merged view of a
  chunk's packs and the live-block count derived from it.  The cache engine itself
  (foyer) is a parameter \<open>get\<close> from pack identifiers to the cached entries.
  Overflow of an offset addition panics, as the release profile of the crate has
  overflow checks on.
\<close>

section \<open>Lookup\<close>

text \<open>\<open>binary_search_by_key\<close> on the half-open range from \<open>lo\<close> to \<open>hi\<close>.\<close>

function bsearch :: "PackIndexEntry list \<Rightarrow> u32 \<Rightarrow> nat \<Rightarrow> nat \<Rightarrow> nat option" where
  "bsearch es key lo hi =
     (if hi \<le> lo then None
      else let mid = lo + (hi - lo) div 2
        in if chunk_offset (es ! mid) = key then Some mid
           else if chunk_offset (es ! mid) < key then bsearch es key (mid + 1) hi
           else bsearch es key lo mid)"
  by pat_completeness auto
termination
  by (relation "measure (\<lambda>(_, _, lo, hi). hi - lo)") (auto simp: Let_def)

declare bsearch.simps [simp del]

definition lookup_block :: "(PackId \<Rightarrow> PackIndexEntry list option) \<Rightarrow> PackId \<Rightarrow> u32
    \<Rightarrow> (Blake3Hash \<times> u32 \<times> u32) option" where
  "lookup_block get pack_id co =
     (case get pack_id of
        None \<Rightarrow> None
      | Some es \<Rightarrow> map_option (\<lambda>i. (hash (es ! i), offset (es ! i), comp_length (es ! i)))
                     (bsearch es co 0 (length es)))"

definition known_hashes :: "(PackId \<Rightarrow> PackIndexEntry list option) \<Rightarrow> PackId list \<Rightarrow> Blake3Hash set" where
  "known_hashes get pack_ids =
     (\<Union>p\<in>set pack_ids. case get p of None \<Rightarrow> {} | Some es \<Rightarrow> hash ` set es)"

section \<open>The merged view of a chunk\<close>

type_synonym ExistingBlocks = "(u32, Blake3Hash \<times> u32) btree"

definition insert_entries :: "PackIndexEntry list \<Rightarrow> ExistingBlocks \<Rightarrow> ExistingBlocks" where
  "insert_entries es m = fold (\<lambda>e. bt_insert (chunk_offset e) (hash e, comp_length e)) es m"

fun existing_loop :: "(PackId \<Rightarrow> PackIndexEntry list option) \<Rightarrow> PackId list \<Rightarrow> ExistingBlocks
    \<Rightarrow> ExistingBlocks option" where
  "existing_loop get [] m = Some m"
| "existing_loop get (p # ps) m =
     (case get p of None \<Rightarrow> None | Some es \<Rightarrow> existing_loop get ps (insert_entries es m))"

definition existing_blocks :: "(PackId \<Rightarrow> PackIndexEntry list option) \<Rightarrow> PackId list \<Rightarrow> ExistingBlocks option" where
  "existing_blocks get pack_ids = existing_loop get pack_ids []"

definition is_live :: "Blake3Hash \<times> u32 \<Rightarrow> bool" where
  "is_live e = (snd e > 0)"

definition live_blocks_after :: "ExistingBlocks \<Rightarrow> (u32 \<times> bool) list \<Rightarrow> u32" where
  "live_blocks_after existing new =
     (let live0 = int (length (filter (\<lambda>(_, e). is_live e) existing));
          live = fold (\<lambda>(co, now_live) live.
             let was_live = (case bt_get existing co of None \<Rightarrow> False | Some e \<Rightarrow> is_live e)
             in live + (of_bool now_live - of_bool was_live)) new live0
      in word_of_int live)"

section \<open>Extent encoding\<close>

text \<open>The length of the extent that starts at \<open>start\<close>; \<open>None\<close> is the overflow panic.\<close>

fun extent_length :: "u32 \<Rightarrow> nat \<Rightarrow> PackIndexEntry list \<Rightarrow> nat option" where
  "extent_length start k [] = Some k"
| "extent_length start k (e # es) =
     (case checked_add start (of_nat k) of
        None \<Rightarrow> None
      | Some t \<Rightarrow> if chunk_offset e = t \<and> k < 65535 then extent_length start (k + 1) es else Some k)"

definition extent_entry :: "PackIndexEntry \<Rightarrow> bytes" where
  "extent_entry e = to_le_bytes (hash e) @ to_le_bytes (comp_length e)"

lemma extent_length_ge: "extent_length start k es = Some n \<Longrightarrow> k \<le> n \<and> n \<le> k + length es"
  by (induction start k es arbitrary: n rule: extent_length.induct)
     (auto split: option.splits if_splits)

function extent_encode :: "PackIndexEntry list \<Rightarrow> bytes option" where
  "extent_encode [] = Some []"
| "extent_encode (e # es) =
     (case extent_length (chunk_offset e) 1 es of
        None \<Rightarrow> None
      | Some n \<Rightarrow>
          map_option (\<lambda>rest. to_le_bytes (chunk_offset e) @ to_le_bytes (of_nat n :: u16)
                             @ concat (map extent_entry (take n (e # es))) @ rest)
            (extent_encode (drop n (e # es))))"
  by pat_completeness auto
termination
  by (relation "measure length") (auto dest: extent_length_ge)

datatype decode_error = DecodePanic | DecodeInvalid

fun read_extent :: "u32 \<Rightarrow> nat \<Rightarrow> nat \<Rightarrow> u32 \<Rightarrow> bytes
    \<Rightarrow> decode_error + PackIndexEntry list \<times> u32 \<times> bytes" where
  "read_extent start j 0 pack_offset data = Inr ([], pack_offset, data)"
| "read_extent start j (Suc n) pack_offset data =
     (if length data < 20 then Inl DecodeInvalid
      else let h = from_le_bytes (bslice 0 16 data); cl = from_le_bytes (bslice 16 20 data)
        in (case checked_add start (of_nat j) of
              None \<Rightarrow> Inl DecodePanic
            | Some co \<Rightarrow>
                (case checked_add pack_offset cl of
                   None \<Rightarrow> Inl DecodePanic
                 | Some next \<Rightarrow>
                     sum_bind (read_extent start (j + 1) n next (drop 20 data)) (\<lambda>(es, off, rest).
                       Inr (\<lparr> hash = h, chunk_offset = co, offset = pack_offset, comp_length = cl \<rparr> # es,
                            off, rest)))))"

lemma read_extent_shrinks: "read_extent s j n off d = Inr (es, off', rest) \<Longrightarrow> length rest \<le> length d"
  by (induction s j n off d arbitrary: es rule: read_extent.induct)
     (fastforce simp: Let_def split: if_splits option.splits)+

function extent_loop :: "u32 \<Rightarrow> bytes \<Rightarrow> decode_error + PackIndexEntry list" where
  "extent_loop pack_offset data =
     (if length data < 6 then (if data = [] then Inr [] else Inl DecodeInvalid)
      else sum_bind (read_extent (from_le_bytes (bslice 0 4 data)) 0
                       (unat (from_le_bytes (bslice 4 6 data) :: u16)) pack_offset (drop 6 data))
             (\<lambda>(es, off, rest). sum_bind (extent_loop off rest) (\<lambda>es'. Inr (es @ es'))))"
  by pat_completeness auto
termination
  by (relation "measure (\<lambda>(_, data). length data)") (auto dest!: read_extent_shrinks)

declare extent_loop.simps [simp del]

definition extent_decode :: "bytes \<Rightarrow> decode_error + PackIndexEntry list" where
  "extent_decode data = extent_loop (of_nat PACK_HEADER_SIZE) data"

section \<open>Searching a sorted index\<close>

definition index_sorted :: "PackIndexEntry list \<Rightarrow> bool" where
  "index_sorted es = sorted_wrt (<) (map chunk_offset es)"

definition pack_find :: "PackIndexEntry list \<Rightarrow> u32 \<Rightarrow> PackIndexEntry option" where
  "pack_find es co = List.find (\<lambda>e. chunk_offset e = co) es"

lemma index_sorted_nth:
  "\<lbrakk> index_sorted es; i < j; j < length es \<rbrakk> \<Longrightarrow> chunk_offset (es ! i) < chunk_offset (es ! j)"
  by (simp add: index_sorted_def sorted_wrt_iff_nth_less)

lemma bsearch_Some:
  "bsearch es key lo hi = Some i \<Longrightarrow> lo \<le> i \<and> i < hi \<and> chunk_offset (es ! i) = key"
proof (induction es key lo hi rule: bsearch.induct)
  case (1 es key lo hi)
  then show ?case
    by (subst (asm) (3) bsearch.simps) (fastforce simp: Let_def split: if_splits)
qed

lemma bsearch_None:
  "\<lbrakk> bsearch es key lo hi = None; index_sorted es; hi \<le> length es; lo \<le> i; i < hi \<rbrakk>
   \<Longrightarrow> chunk_offset (es ! i) \<noteq> key"
proof (induction es key lo hi rule: bsearch.induct)
  case (1 es key lo hi)
  let ?mid = "lo + (hi - lo) div 2"
  have mid: "?mid < hi" using "1.prems" by simp
  have ne: "chunk_offset (es ! ?mid) \<noteq> key"
    using "1.prems"(1,4,5) by (subst (asm) bsearch.simps) (auto simp: Let_def split: if_splits)
  show ?case
  proof (cases "chunk_offset (es ! ?mid) < key")
    case True
    then have rec: "bsearch es key (?mid + 1) hi = None"
      using "1.prems"(1,4,5) ne by (subst (asm) bsearch.simps) (auto simp: Let_def split: if_splits)
    show ?thesis
    proof (cases "i \<le> ?mid")
      case le: True
      then have "chunk_offset (es ! i) \<le> chunk_offset (es ! ?mid)"
        using index_sorted_nth [OF "1.prems"(2), of i ?mid] mid "1.prems"(3)
        by (cases "i = ?mid") auto
      then show ?thesis using True by auto
    next
      case False
      then show ?thesis using "1.IH"(1) [OF _ refl ne True rec] "1.prems" by simp
    qed
  next
    case False
    then have rec: "bsearch es key lo ?mid = None"
      using "1.prems"(1,4,5) ne by (subst (asm) bsearch.simps) (auto simp: Let_def split: if_splits)
    show ?thesis
    proof (cases "?mid \<le> i")
      case le: True
      then have "chunk_offset (es ! ?mid) \<le> chunk_offset (es ! i)"
        using index_sorted_nth [OF "1.prems"(2), of ?mid i] "1.prems"(3,5)
        by (cases "i = ?mid") auto
      then show ?thesis using False ne by auto
    next
      case lt: False
      then show ?thesis using "1.IH"(2) [OF _ refl ne False rec] "1.prems" mid by simp
    qed
  qed
qed

lemma bsearch_find:
  assumes "index_sorted es"
  shows "map_option (\<lambda>i. es ! i) (bsearch es co 0 (length es)) = pack_find es co"
proof (cases "bsearch es co 0 (length es)")
  case None
  then have "\<forall>i<length es. chunk_offset (es ! i) \<noteq> co"
    using bsearch_None [OF None assms] by simp
  then have "\<forall>e\<in>set es. chunk_offset e \<noteq> co" by (metis in_set_conv_nth)
  then have "pack_find es co = None" by (simp add: pack_find_def find_None_iff)
  then show ?thesis using None by simp
next
  case (Some i)
  have i: "i < length es" "chunk_offset (es ! i) = co" using bsearch_Some [OF Some] by auto
  have "\<forall>j<i. chunk_offset (es ! j) \<noteq> co"
    using index_sorted_nth [OF assms] i by (metis order_less_irrefl)
  then have "pack_find es co = Some (es ! i)"
    using i by (auto simp: pack_find_def find_Some_iff)
  then show ?thesis using Some by simp
qed

section \<open>Newest wins\<close>

fun newest_first :: "(PackId \<Rightarrow> PackIndexEntry list) \<Rightarrow> PackId list \<Rightarrow> u32 \<Rightarrow> (PackId \<times> PackIndexEntry) option" where
  "newest_first idx [] co = None"
| "newest_first idx (p # ps) co =
     (case pack_find (idx p) co of Some e \<Rightarrow> Some (p, e) | None \<Rightarrow> newest_first idx ps co)"

text \<open>The newest entry for an offset in a chunk's pack list (oldest first).\<close>

definition newest :: "(PackId \<Rightarrow> PackIndexEntry list) \<Rightarrow> PackId list \<Rightarrow> u32 \<Rightarrow> (PackId \<times> PackIndexEntry) option" where
  "newest idx ps co = newest_first idx (rev ps) co"

lemma newest_first_append:
  "newest_first idx (ps @ qs) co =
     (case newest_first idx ps co of Some r \<Rightarrow> Some r | None \<Rightarrow> newest_first idx qs co)"
  by (induction ps) (auto split: option.splits)

lemma newest_snoc:
  "newest idx (ps @ [p]) co =
     (case pack_find (idx p) co of Some e \<Rightarrow> Some (p, e) | None \<Rightarrow> newest idx ps co)"
  by (simp add: newest_def split: option.splits)

lemma newest_Nil [simp]: "newest idx [] co = None"
  by (simp add: newest_def)

definition offsets_distinct :: "PackIndexEntry list \<Rightarrow> bool" where
  "offsets_distinct es = distinct (map chunk_offset es)"

definition view_pair :: "PackIndexEntry \<Rightarrow> Blake3Hash \<times> u32" where
  "view_pair e = (hash e, comp_length e)"

lemma insert_entries_fold:
  "insert_entries es m = fold (\<lambda>(k, v). bt_insert k v) (map (\<lambda>e. (chunk_offset e, view_pair e)) es) m"
  by (induction es arbitrary: m) (simp_all add: insert_entries_def view_pair_def)

lemma map_of_find:
  "map_of (map (\<lambda>e. (chunk_offset e, view_pair e)) es) co = map_option view_pair (pack_find es co)"
  by (induction es) (auto simp: pack_find_def)

lemma map_of_rev_distinct: "distinct (map fst xs) \<Longrightarrow> map_of (rev xs) = map_of xs"
  by (metis distinct_rev map_of_inject_set rev_map set_rev)

lemma bt_get_insert_entries:
  assumes "bt_wf m" "offsets_distinct es"
  shows "bt_wf (insert_entries es m)"
    and "bt_get (insert_entries es m) co =
      (case pack_find es co of Some e \<Rightarrow> Some (view_pair e) | None \<Rightarrow> bt_get m co)"
proof -
  have d: "distinct (map fst (map (\<lambda>e. (chunk_offset e, view_pair e)) es))"
    using assms(2) by (simp add: offsets_distinct_def comp_def)
  show "bt_wf (insert_entries es m)"
    using btm.fold_ins [OF assms(1)] by (simp add: insert_entries_fold)
  show "bt_get (insert_entries es m) co =
      (case pack_find es co of Some e \<Rightarrow> Some (view_pair e) | None \<Rightarrow> bt_get m co)"
    using btm.fold_ins [OF assms(1), of "map (\<lambda>e. (chunk_offset e, view_pair e)) es"]
      map_of_rev_distinct [OF d]
    by (simp add: insert_entries_fold rev_map [symmetric] map_add_def map_of_find split: option.splits)
qed

lemma existing_loop_newest:
  assumes "\<forall>p\<in>set ps. get p = Some (idx p) \<and> offsets_distinct (idx p)" "bt_wf m"
  shows "\<exists>m'. existing_loop get ps m = Some m' \<and> bt_wf m' \<and>
     (\<forall>co. bt_get m' co = (case newest idx ps co of
         Some (p, e) \<Rightarrow> Some (view_pair e) | None \<Rightarrow> bt_get m co))"
  using assms
proof (induction ps arbitrary: m)
  case (Cons p ps)
  have p: "get p = Some (idx p)" "offsets_distinct (idx p)" using Cons.prems(1) by auto
  note ins = bt_get_insert_entries [OF Cons.prems(2) p(2)]
  obtain m' where m': "existing_loop get ps (insert_entries (idx p) m) = Some m'" "bt_wf m'"
     "\<forall>co. bt_get m' co = (case newest idx ps co of
         Some (p, e) \<Rightarrow> Some (view_pair e) | None \<Rightarrow> bt_get (insert_entries (idx p) m) co)"
    using Cons.IH [OF _ ins(1)] Cons.prems(1) by auto
  have n: "newest idx (p # ps) co = (case newest idx ps co of Some r \<Rightarrow> Some r
      | None \<Rightarrow> map_option (\<lambda>e. (p, e)) (pack_find (idx p) co))" for co
    by (simp add: newest_def newest_first_append split: option.splits)
  show ?case
    using m' p(1) ins(2) by (auto simp: n split: option.splits)
qed simp


section \<open>Live blocks\<close>

definition live_count :: "ExistingBlocks \<Rightarrow> int" where
  "live_count m = int (length (filter (\<lambda>(_, e). is_live e) m))"

lemma live_count_insert:
  assumes "bt_wf m"
  shows "live_count (bt_insert k v m) =
     live_count m + of_bool (is_live v)
       - of_bool (case bt_get m k of None \<Rightarrow> False | Some e \<Rightarrow> is_live e)"
  using assms
proof (induction k v m rule: bt_insert.induct)
  case (2 k v k' v' m)
  have "k < k' \<Longrightarrow> map_of m k = None"
    using "2.prems" by (auto simp: bt_wf_def map_of_eq_None_iff)
  moreover have "k = k' \<or> k < k' \<or> bt_wf m" using "2.prems" by (simp add: bt_wf_def)
  ultimately show ?case
    using "2.IH" "2.prems" by (auto simp: live_count_def bt_get_def bt_wf_def split: option.splits)
qed (simp add: live_count_def bt_get_def)

lemma live_fold:
  assumes "bt_wf m" "offsets_distinct es"
    and "\<forall>e\<in>set es. bt_get m (chunk_offset e) = bt_get existing (chunk_offset e)"
  shows "fold (\<lambda>(co, now_live) live. live + (of_bool now_live
        - of_bool (case bt_get existing co of None \<Rightarrow> False | Some e \<Rightarrow> is_live e)))
       (map (\<lambda>e. (chunk_offset e, comp_length e > 0)) es) (live_count m)
     = live_count (insert_entries es m)"
  using assms
proof (induction es arbitrary: m)
  case (Cons e es)
  let ?m = "bt_insert (chunk_offset e) (view_pair e) m"
  have "live_count ?m = live_count m + (of_bool (comp_length e > 0)
      - of_bool (case bt_get existing (chunk_offset e) of None \<Rightarrow> False | Some e \<Rightarrow> is_live e))"
    using live_count_insert [OF Cons.prems(1), of "chunk_offset e" "view_pair e"] Cons.prems(3)
    by (simp add: is_live_def view_pair_def)
  moreover have "fold (\<lambda>(co, now_live) live. live + (of_bool now_live
        - of_bool (case bt_get existing co of None \<Rightarrow> False | Some e \<Rightarrow> is_live e)))
       (map (\<lambda>e. (chunk_offset e, comp_length e > 0)) es) (live_count ?m) = live_count (insert_entries es ?m)"
  proof (rule Cons.IH)
    show "bt_wf ?m" by (rule bt_wf_insert [OF Cons.prems(1)])
    show "offsets_distinct es" using Cons.prems(2) by (simp add: offsets_distinct_def)
    show "\<forall>x\<in>set es. bt_get ?m (chunk_offset x) = bt_get existing (chunk_offset x)"
      using Cons.prems(2,3) by (auto simp: bt_get_insert offsets_distinct_def) (metis image_eqI)
  qed
  ultimately show ?case by (simp add: insert_entries_def view_pair_def)
qed (simp add: insert_entries_def)

text \<open>
  the billed live-block count is the count of the merged view.  For a well-formed
  view of the existing packs and a new pack with distinct offsets, the incremental
  count equals the number of live blocks of the view with the new pack applied on top
  (overwrites, zeroing and un-zeroing included).
\<close>

theorem live_blocks_after_correct:
  assumes "bt_wf existing" "offsets_distinct es"
  shows "live_blocks_after existing (map (\<lambda>e. (chunk_offset e, comp_length e > 0)) es) =
     of_nat (length (filter (\<lambda>(_, e). is_live e) (insert_entries es existing)))"
  using live_fold [OF assms, of existing]
  by (simp add: live_blocks_after_def Let_def live_count_def)

definition demo_view :: ExistingBlocks where
  "demo_view = [(1, (10, 5)), (4, (11, 0))]"

definition demo_entries :: "PackIndexEntry list" where
  "demo_entries = [\<lparr> hash = 12, chunk_offset = 1, offset = 16, comp_length = 0 \<rparr>,
                   \<lparr> hash = 13, chunk_offset = 4, offset = 16, comp_length = 7 \<rparr>,
                   \<lparr> hash = 14, chunk_offset = 5, offset = 23, comp_length = 9 \<rparr>]"

theorem live_blocks_after_correct_witness:
  "live_blocks_after demo_view (map (\<lambda>e. (chunk_offset e, comp_length e > 0)) demo_entries) =
     of_nat (length (filter (\<lambda>(_, e). is_live e) (insert_entries demo_entries demo_view)))"
  by (rule live_blocks_after_correct)
     (simp_all add: demo_view_def demo_entries_def bt_wf_def offsets_distinct_def)

text \<open>
  C18: the merged view is the newest-first search.  When every pack index of the chunk
  is cached, the map built oldest to newest by overwriting gives, at every offset, the
  entry a newest-first search finds; when one is missing no view is produced.
\<close>

theorem existing_blocks_newest:
  assumes "\<forall>p\<in>set ps. offsets_distinct (idx p)"
  shows "((\<forall>p\<in>set ps. get p = Some (idx p)) \<longrightarrow>
           (\<exists>m. existing_blocks get ps = Some m \<and> bt_wf m
              \<and> (\<forall>co. bt_get m co = map_option (\<lambda>(_, e). (hash e, comp_length e)) (newest idx ps co))))
       \<and> ((\<exists>p\<in>set ps. get p = None) \<longrightarrow> existing_blocks get ps = None)"
proof (intro conjI impI)
  assume g: "\<forall>p\<in>set ps. get p = Some (idx p)"
  obtain m where "existing_loop get ps [] = Some m" "bt_wf m"
    "\<forall>co. bt_get m co = (case newest idx ps co of
       Some (p, e) \<Rightarrow> Some (view_pair e) | None \<Rightarrow> bt_get [] co)"
    using existing_loop_newest [of ps get idx "[]"] g assms by (auto simp: bt_wf_def)
  then show "\<exists>m. existing_blocks get ps = Some m \<and> bt_wf m
            \<and> (\<forall>co. bt_get m co = map_option (\<lambda>(_, e). (hash e, comp_length e)) (newest idx ps co))"
    by (auto simp: existing_blocks_def bt_get_def view_pair_def split: option.splits)
next
  have "(\<exists>p\<in>set ps. get p = None) \<Longrightarrow> existing_loop get ps m = None" for m
    by (induction ps arbitrary: m) (auto split: option.splits)
  then show "(\<exists>p\<in>set ps. get p = None) \<Longrightarrow> existing_blocks get ps = None"
    by (simp add: existing_blocks_def)
qed

definition demo_index :: "PackId \<Rightarrow> PackIndexEntry list" where
  "demo_index p = (if p = 1 then demo_entries else [\<lparr> hash = 99, chunk_offset = 4, offset = 16, comp_length = 3 \<rparr>])"

theorem existing_blocks_newest_witness:
  "\<exists>m. existing_blocks (\<lambda>p. Some (demo_index p)) [1, 2] = Some m \<and> bt_wf m
     \<and> (\<forall>co. bt_get m co = map_option (\<lambda>(_, e). (hash e, comp_length e)) (newest demo_index [1, 2] co))"
  using existing_blocks_newest [of "[1, 2]" demo_index "\<lambda>p. Some (demo_index p)"]
  by (simp add: demo_index_def demo_entries_def offsets_distinct_def)

text \<open>
  binary search finds the indexed block.  On an index sorted by chunk offset,
  \<open>lookup_block\<close> returns the coordinates of the entry for the offset if there is one
  and nothing otherwise.
\<close>

theorem lookup_block_correct:
  assumes "get p = Some es" "index_sorted es"
  shows "lookup_block get p co =
     map_option (\<lambda>e. (hash e, offset e, comp_length e)) (pack_find es co)"
  using bsearch_find [OF assms(2), of co] assms(1)
  by (simp add: lookup_block_def) (metis (no_types, lifting) comp_apply option.map_comp option.map_cong0)

theorem lookup_block_correct_witness:
  "lookup_block (\<lambda>_. Some demo_entries) 3 4 =
     map_option (\<lambda>e. (hash e, offset e, comp_length e)) (pack_find demo_entries 4)"
  by (rule lookup_block_correct) (simp_all add: demo_entries_def index_sorted_def)


section \<open>The extent encoding loses nothing\<close>

text \<open>Entries whose data offsets are cumulative, as every written pack index has them.\<close>

fun offsets_from :: "u32 \<Rightarrow> PackIndexEntry list \<Rightarrow> bool" where
  "offsets_from off [] = True"
| "offsets_from off (e # es) =
     (offset e = off \<and> (case checked_add off (comp_length e) of None \<Rightarrow> False | Some off' \<Rightarrow> offsets_from off' es))"

fun end_offset :: "u32 \<Rightarrow> PackIndexEntry list \<Rightarrow> u32" where
  "end_offset off [] = off"
| "end_offset off (e # es) = end_offset (off + comp_length e) es"

lemma checked_add_Some: "checked_add a b = Some c \<Longrightarrow> c = a + b"
  by (simp add: checked_add_def split: if_splits)

lemma offsets_from_append:
  "offsets_from off (xs @ ys) \<longleftrightarrow> offsets_from off xs \<and> offsets_from (end_offset off xs) ys"
  by (induction xs arbitrary: off) (auto split: option.splits dest!: checked_add_Some)

lemma index_entries_offsets: "index_entries off blocks = Inr es \<Longrightarrow> offsets_from off es"
  by (induction off blocks arbitrary: es rule: index_entries.induct)
     (auto simp: Let_def split: option.splits sum.splits)

lemma length_extent_entry [simp]: "length (extent_entry e) = 20"
  by (simp add: extent_entry_def)

lemma extent_entry_fields:
  "bslice 0 16 (extent_entry e @ rest) = to_le_bytes (hash e)"
  "bslice 16 20 (extent_entry e @ rest) = to_le_bytes (comp_length e)"
  by (simp_all add: extent_entry_def bslice_def)

lemma read_extent_entries:
  assumes "offsets_from off es"
    and "\<forall>i<length es. checked_add start (of_nat (j + i)) = Some (chunk_offset (es ! i))"
  shows "read_extent start j (length es) off (concat (map extent_entry es) @ rest) =
     Inr (es, end_offset off es, rest)"
  using assms
proof (induction es arbitrary: off j)
  case (Cons e es)
  obtain off' where off': "checked_add off (comp_length e) = Some off'" "offset e = off" "offsets_from off' es"
    using Cons.prems(1) by (auto split: option.splits)
  have co: "checked_add start (of_nat j) = Some (chunk_offset e)" using Cons.prems(2) by fastforce
  have "read_extent start (j + 1) (length es) off' (concat (map extent_entry es) @ rest)
      = Inr (es, end_offset off' es, rest)"
    using Cons.prems(2) by (intro Cons.IH off') fastforce
  moreover have "\<lparr> hash = hash e, chunk_offset = chunk_offset e, offset = off, comp_length = comp_length e \<rparr> = e"
    using off'(2) by simp
  ultimately show ?case
    using off' co checked_add_Some [OF off'(1)] by (simp add: extent_entry_fields Let_def)
qed simp

lemma extent_length_offsets:
  "\<lbrakk> extent_length start k es = Some n; 1 \<le> k; k \<le> 65535 \<rbrakk> \<Longrightarrow>
   n \<le> 65535 \<and> (\<forall>i<n - k. checked_add start (of_nat (k + i)) = Some (chunk_offset (es ! i)))"
proof (induction start k es arbitrary: n rule: extent_length.induct)
  case (2 start k e es)
  obtain t where t: "checked_add start (of_nat k) = Some t"
    using "2.prems"(1) by (auto split: option.splits)
  show ?case
  proof (cases "chunk_offset e = t \<and> k < 65535")
    case True
    then have r: "extent_length start (k + 1) es = Some n" using "2.prems"(1) t by simp
    have IH: "n \<le> 65535" "\<forall>i<n - (k + 1). checked_add start (of_nat (k + 1 + i)) = Some (chunk_offset (es ! i))"
      using "2.IH" [OF t True r] True by simp_all
    show ?thesis
    proof (intro conjI allI impI)
      fix i assume "i < n - k"
      then show "checked_add start (of_nat (k + i)) = Some (chunk_offset ((e # es) ! i))"
        using IH(2) t True by (cases i) auto
    qed (rule IH(1))
  qed (use "2.prems" t in auto)
qed simp

lemma extent_encode_decode:
  "\<lbrakk> extent_encode es = Some d; offsets_from off es \<rbrakk> \<Longrightarrow> extent_loop off d = Inr es"
proof (induction es arbitrary: d off rule: extent_encode.induct)
  case 1
  then show ?case by (simp add: extent_loop.simps)
next
  case (2 e es)
  obtain n rest where n: "extent_length (chunk_offset e) 1 es = Some n"
    "extent_encode (drop n (e # es)) = Some rest"
    "d = to_le_bytes (chunk_offset e) @ to_le_bytes (of_nat n :: u16)
         @ concat (map extent_entry (take n (e # es))) @ rest"
    using "2.prems"(1) by (auto split: option.splits)
  have ln: "1 \<le> n" "n \<le> length (e # es)" using extent_length_ge [OF n(1)] by simp_all
  have off: "offsets_from off (take n (e # es))" "offsets_from (end_offset off (take n (e # es))) (drop n (e # es))"
    using "2.prems"(2) offsets_from_append [of off "take n (e # es)" "drop n (e # es)"] by simp_all
  have co: "checked_add (chunk_offset e) (of_nat (0 + i)) = Some (chunk_offset (take n (e # es) ! i))" if "i < n" for i
  proof (cases i)
    case 0
    then show ?thesis
      using ln unsigned_less [of "chunk_offset e", where ?'a = nat]
      by (cases n) (simp_all add: checked_add_def)
  next
    case (Suc k)
    then show ?thesis using extent_length_offsets [OF n(1)] that by simp
  qed
  have n16: "unat (of_nat n :: u16) = n" using extent_length_offsets [OF n(1)] by (simp add: unat_of_nat)
  have "read_extent (chunk_offset e) 0 n off (concat (map extent_entry (take n (e # es))) @ rest)
      = Inr (take n (e # es), end_offset off (take n (e # es)), rest)"
    using read_extent_entries [OF off(1), of "chunk_offset e" 0 rest] co ln by simp
  moreover have "bslice 0 4 d = to_le_bytes (chunk_offset e)" "bslice 4 6 d = to_le_bytes (of_nat n :: u16)"
    "drop 6 d = concat (map extent_entry (take n (e # es))) @ rest" "\<not> length d < 6"
    by (simp_all add: n(3) bslice_def)
  moreover have "extent_loop (end_offset off (take n (e # es))) rest = Inr (drop n (e # es))"
    by (rule "2.IH" [OF n(1) n(2) off(2)])
  ultimately show ?case
    by (subst extent_loop.simps) (simp add: n16)
qed

lemma extent_length_total:
  "\<lbrakk> unat start + k + length es < 2 ^ 32 \<rbrakk> \<Longrightarrow> \<exists>n. extent_length start k es = Some n"
proof (induction start k es rule: extent_length.induct)
  case (2 start k e es)
  have "checked_add start (of_nat k) \<noteq> None"
    using "2.prems" by (simp add: checked_add_def unat_of_nat)
  then show ?case using "2.IH" "2.prems" by auto
qed simp

lemma extent_encode_total:
  "\<forall>e\<in>set es. unat (chunk_offset e) + length es < 2 ^ 32 \<Longrightarrow> \<exists>d. extent_encode es = Some d"
proof (induction es rule: extent_encode.induct)
  case (2 e es)
  obtain n where n: "extent_length (chunk_offset e) 1 es = Some n"
    using extent_length_total [of "chunk_offset e" 1 es] "2.prems" by auto
  have "\<exists>d. extent_encode (drop n (e # es)) = Some d"
  proof (rule "2.IH" [OF n])
    show "\<forall>x\<in>set (drop n (e # es)). unat (chunk_offset x) + length (drop n (e # es)) < 2 ^ 32"
      using "2.prems" set_drop_subset [of n "e # es"] by fastforce
  qed
  then show ?case using n by auto
qed simp

text \<open>
  the SSD tier of the index cache is lossless.  The index of any pack the
  assembler produced, with chunk offsets that leave room below \<open>2^32\<close>, encodes into
  extents without a panic and decodes to the same entries, although the byte offsets
  are not stored.
\<close>

theorem extent_roundtrip:
  assumes "assemble_pack blocks cs = Inr (pack, es)"
    and "\<forall>e\<in>set es. unat (chunk_offset e) + length es < 2 ^ 32"
  shows "\<exists>d. extent_encode es = Some d \<and> extent_decode d = Inr es"
proof -
  have "index_entries (of_nat PACK_HEADER_SIZE) (sort_key block_key blocks) = Inr es"
    using assemble_pack_cases [OF assms(1)] by metis
  then have "offsets_from (of_nat PACK_HEADER_SIZE) es" by (rule index_entries_offsets)
  then show ?thesis
    using extent_encode_total [OF assms(2)] extent_encode_decode by (auto simp: extent_decode_def)
qed

theorem extent_roundtrip_witness:
  "\<exists>d. extent_encode [\<lparr> hash = 9, chunk_offset = 2, offset = 16, comp_length = 1 \<rparr>,
                      \<lparr> hash = 7, chunk_offset = 5, offset = 17, comp_length = 3 \<rparr>] = Some d
     \<and> extent_decode d = Inr [\<lparr> hash = 9, chunk_offset = 2, offset = 16, comp_length = 1 \<rparr>,
                      \<lparr> hash = 7, chunk_offset = 5, offset = 17, comp_length = 3 \<rparr>]"
  by (rule extent_roundtrip [OF demo_assembled]) simp

end
