(* ===== verification/SyncFile.thy ===== *)
theory SyncFile
  imports Wal
begin

unbundle bit_operations_syntax

text \<open>
  Positional file access of \<open>glidefs/src/block/write_cache/inner.rs\<close> (module
  \<open>sync_file\<close>) and the zero-block scans.  A file is its bytes.  The outcome of a
  system call is a parameter: a read at an offset may fail, a write may stop after
  some bytes with an error.
\<close>

section \<open>Positional reads and writes\<close>

record io_env =
  read_fails :: "nat \<Rightarrow> bool"
  write_stops :: "nat \<Rightarrow> nat option"
  wal_write :: "bytes \<Rightarrow> write_outcome"
  sync_fails :: bool

definition io_ok :: io_env where
  "io_ok = \<lparr> read_fails = \<lambda>_. False, write_stops = \<lambda>_. None,
     wal_write = \<lambda>buf. Written (length buf), sync_fails = False \<rparr>"

definition io_works :: "io_env \<Rightarrow> bool" where
  "io_works io \<longleftrightarrow> read_fails io = (\<lambda>_. False) \<and> write_stops io = (\<lambda>_. None)
     \<and> wal_write io = (\<lambda>buf. Written (length buf)) \<and> \<not> sync_fails io"

lemma io_works_ok [simp]: "io_works io_ok"
  by (simp add: io_works_def io_ok_def)

lemma io_works_simps [simp]:
  assumes "io_works io"
  shows "read_fails io n = False" "write_stops io n = None" "wal_write io b = Written (length b)"
    "sync_fails io = False"
  using assms by (simp_all add: io_works_def)

definition sf_open :: "bytes option \<Rightarrow> nat \<Rightarrow> bytes" where
  "sf_open existing dev =
     (case existing of
        None \<Rightarrow> replicate dev 0
      | Some f \<Rightarrow> if length f < dev then f @ replicate (dev - length f) 0 else f)"

definition read_exact_at :: "io_env \<Rightarrow> bytes \<Rightarrow> nat \<Rightarrow> nat \<Rightarrow> io_error + bytes" where
  "read_exact_at io f n off =
     (if read_fails io off then Inl OtherError
      else if length f < off + n then Inl UnexpectedEof
      else Inr (bslice off (off + n) f))"

definition overwrite :: "bytes \<Rightarrow> nat \<Rightarrow> bytes \<Rightarrow> bytes" where
  "overwrite f off data =
     take off (f @ replicate (off - length f) 0) @ data @ drop (off + length data) f"

definition write_all_at :: "io_env \<Rightarrow> bytes \<Rightarrow> bytes \<Rightarrow> nat \<Rightarrow> (io_error + unit) \<times> bytes" where
  "write_all_at io f data off =
     (case write_stops io off of
        None \<Rightarrow> (Inr (), overwrite f off data)
      | Some k \<Rightarrow> (Inl OtherError, overwrite f off (take k data)))"

lemma length_overwrite [simp]:
  "off + length d \<le> length f \<Longrightarrow> length (overwrite f off d) = length f"
  by (simp add: overwrite_def)

lemma nth_overwrite:
  "\<lbrakk> off + length d \<le> length f; i < length f \<rbrakk>
    \<Longrightarrow> overwrite f off d ! i = (if off \<le> i \<and> i < off + length d then d ! (i - off) else f ! i)"
  by (auto simp: overwrite_def nth_append)

lemma nth_bslice: "\<lbrakk> b \<le> length xs; i < b - a \<rbrakk> \<Longrightarrow> bslice a b xs ! i = xs ! (a + i)"
  by (simp add: bslice_def)

lemma bslice_overwrite_inside:
  assumes "off + length d \<le> length f" "off \<le> a" "b \<le> off + length d"
  shows "bslice a b (overwrite f off d) = bslice (a - off) (b - off) d"
  using assms
  by (intro nth_equalityI) (auto simp: length_slice nth_bslice nth_overwrite)

lemma bslice_overwrite_outside:
  assumes "off + length d \<le> length f" "b \<le> length f" "b \<le> off \<or> off + length d \<le> a"
  shows "bslice a b (overwrite f off d) = bslice a b f"
  using assms
  by (intro nth_equalityI) (auto simp: length_slice nth_bslice nth_overwrite)

lemma bslice_eqI:
  assumes "b \<le> length f" "length g = length f" "\<And>i. a \<le> i \<Longrightarrow> i < b \<Longrightarrow> f ! i = g ! i"
  shows "bslice a b f = bslice a b g"
  using assms by (intro nth_equalityI) (auto simp: length_slice nth_bslice)

section \<open>Zero blocks\<close>

definition all_zero :: "bytes \<Rightarrow> bool" where
  "all_zero bs = list_all (\<lambda>b. b = 0) bs"

text \<open>The byte loop at the end of the vector scans.\<close>

fun scalar_scan :: "bytes \<Rightarrow> bool" where
  "scalar_scan [] = True"
| "scalar_scan (b # bs) = (if b \<noteq> 0 then False else scalar_scan bs)"

text \<open>\<open>_mm256_testz_si256(chunk, chunk)\<close> is non-zero exactly when no byte of the chunk has a bit set.\<close>

definition testz :: "bytes \<Rightarrow> bool" where
  "testz chunk = (fold (\<lambda>b acc. acc OR b) chunk 0 = 0)"

function is_zero_block_avx2 :: "bytes \<Rightarrow> bool" where
  "is_zero_block_avx2 data =
     (if length data < 32 then scalar_scan data
      else if \<not> testz (take 32 data) then False
      else is_zero_block_avx2 (drop 32 data))"
  by pat_completeness auto
termination by (relation "measure length") auto

text \<open>\<open>vorrq_u8\<close> is the byte-wise or, \<open>vmaxvq_u8\<close> the largest byte.\<close>

definition vorrq :: "bytes \<Rightarrow> bytes \<Rightarrow> bytes" where
  "vorrq a b = map2 (OR) a b"

definition vmaxvq :: "bytes \<Rightarrow> byte" where
  "vmaxvq v = fold max v 0"

function is_zero_block_neon :: "bytes \<Rightarrow> bool" where
  "is_zero_block_neon data =
     (if 32 \<le> length data then
        (if vmaxvq (vorrq (take 16 data) (take 16 (drop 16 data))) \<noteq> 0 then False
         else is_zero_block_neon (drop 32 data))
      else if 16 \<le> length data then
        (if vmaxvq (take 16 data) \<noteq> 0 then False else scalar_scan (drop 16 data))
      else scalar_scan data)"
  by pat_completeness auto
termination by (relation "measure length") auto

text \<open>
  \<open>align_to::<u64>\<close> splits off a prefix whose length depends on the address, then
  whole words, then the rest.
\<close>

fun words_of :: "bytes \<Rightarrow> u64 list" where
  "words_of (b0 # b1 # b2 # b3 # b4 # b5 # b6 # b7 # rest) =
     from_le_bytes [b0, b1, b2, b3, b4, b5, b6, b7] # words_of rest"
| "words_of _ = []"

definition is_zero_block_u64 :: "nat \<Rightarrow> bytes \<Rightarrow> bool" where
  "is_zero_block_u64 misalign data =
     (let prefix = take misalign data; rest = drop misalign data;
          middle = take (8 * (length rest div 8)) rest; suffix = drop (8 * (length rest div 8)) rest
      in if list_ex (\<lambda>b. b \<noteq> 0) prefix then False
         else if list_ex (\<lambda>w. w \<noteq> 0) (words_of middle) then False
         else list_all (\<lambda>b. b = 0) suffix)"

declare is_zero_block_avx2.simps [simp del] is_zero_block_neon.simps [simp del]

datatype target_arch = X86_64 bool | Aarch64 | OtherArch

definition is_zero_block :: "target_arch \<Rightarrow> nat \<Rightarrow> bytes \<Rightarrow> bool" where
  "is_zero_block arch misalign data =
     (case arch of
        X86_64 avx2 \<Rightarrow> if avx2 then is_zero_block_avx2 data else is_zero_block_u64 misalign data
      | Aarch64 \<Rightarrow> is_zero_block_neon data
      | OtherArch \<Rightarrow> is_zero_block_u64 misalign data)"


lemma scalar_scan_eq: "scalar_scan bs = all_zero bs"
  by (induction bs) (simp_all add: all_zero_def)

lemma fold_or_zero: "fold (\<lambda>b acc. acc OR b) bs a = (0::byte) \<longleftrightarrow> a = 0 \<and> all_zero bs"
  by (induction bs arbitrary: a) (auto simp: all_zero_def or_eq_0_iff)

lemma testz_eq: "testz bs = all_zero bs"
  by (simp add: testz_def fold_or_zero)

lemma max_zero_iff: "max a b = (0::byte) \<longleftrightarrow> a = 0 \<and> b = 0"
  by (auto simp: max_def)

lemma fold_max_zero: "fold max bs a = (0::byte) \<longleftrightarrow> a = 0 \<and> all_zero bs"
  by (induction bs arbitrary: a) (simp_all add: all_zero_def max_zero_iff conj_commute conj_left_commute)

lemma vmaxvq_eq: "vmaxvq bs = 0 \<longleftrightarrow> all_zero bs"
  by (simp add: vmaxvq_def fold_max_zero)

lemma vorrq_zero:
  "length a = length b \<Longrightarrow> all_zero (vorrq a b) \<longleftrightarrow> all_zero a \<and> all_zero b"
  by (induction a b rule: list_induct2) (auto simp: vorrq_def all_zero_def or_eq_0_iff)

lemma all_zero_append [simp]: "all_zero (a @ b) \<longleftrightarrow> all_zero a \<and> all_zero b"
  by (simp add: all_zero_def)

lemma all_zero_split: "all_zero bs \<longleftrightarrow> all_zero (take n bs) \<and> all_zero (drop n bs)"
  using all_zero_append [of "take n bs" "drop n bs"] by simp

lemma avx2_eq: "is_zero_block_avx2 bs = all_zero bs"
proof (induction bs rule: is_zero_block_avx2.induct)
  case (1 data)
  show ?case
  proof (cases "length data < 32")
    case True
    then show ?thesis by (subst is_zero_block_avx2.simps) (simp add: scalar_scan_eq)
  next
    case False
    then show ?thesis
      using 1 all_zero_split [of data 32]
      by (subst is_zero_block_avx2.simps) (simp add: testz_eq)
  qed
qed

lemma neon_eq: "is_zero_block_neon bs = all_zero bs"
proof (induction bs rule: is_zero_block_neon.induct)
  case (1 data)
  have half: "all_zero (take 32 data) \<longleftrightarrow> all_zero (take 16 data) \<and> all_zero (take 16 (drop 16 data))"
    using all_zero_split [of "take 32 data" 16] by (simp add: drop_take min_def)
  let ?v = "vmaxvq (vorrq (take 16 data) (take 16 (drop 16 data)))"
  show ?case
  proof (cases "32 \<le> length data")
    case True
    then have v: "?v = 0 \<longleftrightarrow> all_zero (take 32 data)"
      by (simp add: vmaxvq_eq vorrq_zero half)
    show ?thesis
    proof (cases "?v = 0")
      case z: True
      then show ?thesis
        using True 1 v all_zero_split [of data 32] by (subst is_zero_block_neon.simps) simp
    next
      case False
      then show ?thesis
        using True v all_zero_split [of data 32] by (subst is_zero_block_neon.simps) simp
    qed
  next
    case short: False
    show ?thesis
    proof (cases "16 \<le> length data")
      case True
      then show ?thesis
        using short all_zero_split [of data 16]
        by (subst is_zero_block_neon.simps) (simp add: vmaxvq_eq scalar_scan_eq)
    next
      case False
      then show ?thesis by (subst is_zero_block_neon.simps) (simp add: scalar_scan_eq)
    qed
  qed
qed

lemma le_dec_zero: "le_dec bs = 0 \<longleftrightarrow> all_zero bs"
  by (induction bs) (auto simp: all_zero_def unat_eq_zero)

lemma from_le_zero:
  assumes "length bs = 8"
  shows "(from_le_bytes bs :: u64) = 0 \<longleftrightarrow> all_zero bs"
proof -
  have "le_dec bs < 2 ^ 64" using le_dec_less [of bs] assms by simp
  then have "unat (of_nat (le_dec bs) :: u64) = le_dec bs"
    by (simp add: unat_of_nat)
  then show ?thesis
    by (metis from_le_bytes_def le_dec_zero unat_eq_zero)
qed

lemma words_of_zero:
  "8 dvd length bs \<Longrightarrow> \<not> list_ex (\<lambda>w. w \<noteq> 0) (words_of bs) \<longleftrightarrow> all_zero bs"
proof (induction bs rule: words_of.induct)
  case (1 b0 b1 b2 b3 b4 b5 b6 b7 rest)
  have "8 dvd length rest" using "1.prems" by (simp add: dvd_eq_mod_eq_0)
  then show ?case
    using 1 from_le_zero [of "[b0, b1, b2, b3, b4, b5, b6, b7]"] by (auto simp: all_zero_def)
qed (auto simp: all_zero_def dest!: dvd_imp_le)

lemma u64_eq: "is_zero_block_u64 k bs = all_zero bs"
proof -
  let ?r = "drop k bs" and ?m = "take (8 * (length (drop k bs) div 8)) (drop k bs)"
  have "length ?m = 8 * (length ?r div 8)" by simp
  then have "8 dvd length ?m" by (metis dvd_triv_left)
  then have m: "\<not> list_ex (\<lambda>w. w \<noteq> 0) (words_of ?m) \<longleftrightarrow> all_zero ?m" by (rule words_of_zero)
  have "\<not> list_ex (\<lambda>b. b \<noteq> 0) (take k bs) \<longleftrightarrow> all_zero (take k bs)"
    by (simp add: all_zero_def list_ex_iff list_all_iff)
  then show ?thesis
    using m all_zero_split [of bs k] all_zero_split [of ?r "8 * (length ?r div 8)"]
    by (auto simp: is_zero_block_u64_def Let_def all_zero_def)
qed

text \<open>
  All three zero-block scans, the 32-byte vector loops of both architectures with
  their tails and the word scan at any alignment, decide whether every byte is zero.
\<close>

theorem is_zero_block_correct: "is_zero_block arch misalign data = (\<forall>i < length data. data ! i = 0)"
  by (cases arch)
     (auto simp: is_zero_block_def avx2_eq neon_eq u64_eq all_zero_def list_all_length)

theorem is_zero_block_correct_witness:
  "is_zero_block Aarch64 0 [0, 0, 0] \<and> \<not> is_zero_block (X86_64 True) 0 [0, 1]"
  using is_zero_block_correct [of Aarch64 0 "[0, 0, 0]"] is_zero_block_correct [of "X86_64 True" 0 "[0, 1]"]
  by (auto simp: less_Suc_eq nth_Cons split: nat.splits)

end
