(* ===== verification/PageCrc.thy ===== *)
theory PageCrc
  imports SyncFile OrdMap BlockMap
begin

text \<open>
  The write-time page checksums of \<open>glidefs/src/block/write_cache/inner.rs\<close>: for each
  block an array with one CRC-32C per 4 KiB page, recorded from the guest's buffer,
  where 0 says that the page has no baseline.  The checksum function is the
  parameter \<open>crc\<close>; \<open>bs\<close> is the block size and \<open>ppb\<close> the number of pages per block.
  \<open>None\<close> is a panic of an index or of an arithmetic underflow.
\<close>

type_synonym page_map = "(u32, u32 list) btree"

definition PAGE_SIZE :: nat where "PAGE_SIZE = 4096"

text \<open>The range \<open>start_block..=end_block\<close> of the blocks a non-empty byte range touches.\<close>

definition touched :: "nat \<Rightarrow> nat \<Rightarrow> nat \<Rightarrow> nat list" where
  "touched bs off fin = [off div bs..<(fin - 1) div bs + 1]"

definition crc_entry :: "page_map \<Rightarrow> nat \<Rightarrow> nat \<Rightarrow> u32 list" where
  "crc_entry m ppb block = (case bt_get m (of_nat block) of Some e \<Rightarrow> e | None \<Rightarrow> replicate ppb 0)"

definition update_page :: "(nat \<Rightarrow> u32) \<Rightarrow> nat \<Rightarrow> nat \<Rightarrow> nat \<Rightarrow> nat \<Rightarrow> u32 list \<Rightarrow> u32 list" where
  "update_page page_crc off fin block_start page entry =
     (let page_start = block_start + page * PAGE_SIZE; page_end = page_start + PAGE_SIZE
      in if off \<le> page_start \<and> page_end \<le> fin then entry[page := page_crc page_start]
         else if page_start < fin \<and> off < page_end then entry[page := 0]
         else entry)"

definition update_pages :: "(nat \<Rightarrow> u32) \<Rightarrow> nat \<Rightarrow> nat \<Rightarrow> nat \<Rightarrow> nat \<Rightarrow> u32 list \<Rightarrow> u32 list" where
  "update_pages page_crc off fin ppb block_start entry =
     fold (update_page page_crc off fin block_start) [0..<ppb] entry"

definition update_blocks :: "(nat \<Rightarrow> u32) \<Rightarrow> nat \<Rightarrow> nat \<Rightarrow> nat \<Rightarrow> nat \<Rightarrow> nat list \<Rightarrow> page_map \<Rightarrow> page_map" where
  "update_blocks page_crc off fin bs ppb blocks m =
     fold (\<lambda>block m. bt_insert (of_nat block)
             (update_pages page_crc off fin ppb (block * bs) (crc_entry m ppb block)) m) blocks m"

definition capture_page_crcs :: "(bytes \<Rightarrow> u32) \<Rightarrow> nat \<Rightarrow> nat \<Rightarrow> nat \<Rightarrow> bytes \<Rightarrow> page_map \<Rightarrow> page_map option" where
  "capture_page_crcs crc bs ppb off data m =
     (let fin = off + length data
      in if bs = 0 \<or> fin = 0 then None
         else let start_block = off div bs; end_block = (fin - 1) div bs
           in if start_block = end_block \<and> off mod PAGE_SIZE = 0 \<and> length data = PAGE_SIZE then
                (let page = (off mod bs) div PAGE_SIZE; entry = crc_entry m ppb start_block
                 in if page < length entry
                    then Some (bt_insert (of_nat start_block) (entry[page := crc data]) m)
                    else None)
              else Some (update_blocks (\<lambda>ps. crc (bslice (ps - off) (ps - off + PAGE_SIZE) data))
                           off fin bs ppb (touched bs off fin) m))"

fun clear_pages :: "nat list \<Rightarrow> u32 list \<Rightarrow> u32 list option" where
  "clear_pages [] entry = Some entry"
| "clear_pages (p # ps) entry =
     (if p < length entry then clear_pages ps (entry[p := 0]) else None)"

fun invalidate_blocks :: "nat \<Rightarrow> nat \<Rightarrow> nat \<Rightarrow> nat list \<Rightarrow> page_map \<Rightarrow> page_map option" where
  "invalidate_blocks bs off fin [] m = Some m"
| "invalidate_blocks bs off fin (block # blocks) m =
     (case bt_get m (of_nat block) of
        None \<Rightarrow> invalidate_blocks bs off fin blocks m
      | Some entry \<Rightarrow>
          (let block_start = block * bs;
               first = (off - block_start) div PAGE_SIZE;
               last = div_ceil (min fin (block_start + bs) - block_start) PAGE_SIZE
           in case clear_pages [first..<last] entry of
                None \<Rightarrow> None
              | Some entry' \<Rightarrow> invalidate_blocks bs off fin blocks (bt_insert (of_nat block) entry' m)))"

definition invalidate_page_crcs :: "nat \<Rightarrow> nat \<Rightarrow> nat \<Rightarrow> page_map \<Rightarrow> page_map option" where
  "invalidate_page_crcs bs off len m =
     (if len = 0 \<or> m = [] then Some m
      else if bs = 0 then None
      else invalidate_blocks bs off (off + len) (touched bs off (off + len)) m)"

definition capture_zero_page_crcs :: "(bytes \<Rightarrow> u32) \<Rightarrow> nat \<Rightarrow> nat \<Rightarrow> nat \<Rightarrow> nat \<Rightarrow> page_map \<Rightarrow> page_map option" where
  "capture_zero_page_crcs crc bs ppb off len m =
     (let fin = off + len
      in if bs = 0 \<or> fin = 0 then None
         else Some (update_blocks (\<lambda>_. crc (replicate PAGE_SIZE 0)) off fin bs ppb
                      (touched bs off fin) m))"

definition drain_page_crcs :: "page_map \<Rightarrow> (nat \<times> u32 list) list \<times> page_map" where
  "drain_page_crcs m = (map (\<lambda>(k, e). (unat k, e)) m, [])"

section \<open>What the updates do to an entry\<close>

lemma length_update_page [simp]: "length (update_page g off fin b p e) = length e"
  by (simp add: update_page_def Let_def)

lemma length_update_pages [simp]: "length (update_pages g off fin n b e) = length e"
  unfolding update_pages_def by (induction n) simp_all

lemma nth_update_pages:
  assumes "n \<le> length e" "p < length e"
  shows "update_pages g off fin n b e ! p =
     (let ps = b + p * PAGE_SIZE in
      if n \<le> p then e ! p
      else if off \<le> ps \<and> ps + PAGE_SIZE \<le> fin then g ps
      else if ps < fin \<and> off < ps + PAGE_SIZE then 0 else e ! p)"
  using assms
proof (induction n)
  case 0
  then show ?case by (simp add: update_pages_def Let_def)
next
  case (Suc n)
  have "update_pages g off fin (Suc n) b e = update_page g off fin b n (update_pages g off fin n b e)"
    by (simp add: update_pages_def)
  then show ?case
    using Suc length_update_pages [of g off fin n b e]
    by (auto simp: update_page_def Let_def nth_list_update)
qed

lemma clear_pages_upt:
  assumes "b \<le> length e"
  shows "clear_pages [a..<b] e = Some (map (\<lambda>p. if a \<le> p \<and> p < b then 0 else e ! p) [0..<length e])"
  using assms
proof (induction "b - a" arbitrary: a e)
  case 0
  then show ?case by (auto intro!: nth_equalityI)
next
  case (Suc k)
  then have ab: "a < b" by simp
  have "clear_pages [Suc a..<b] (e[a := 0])
      = Some (map (\<lambda>p. if Suc a \<le> p \<and> p < b then 0 else e[a := 0] ! p) [0..<length (e[a := 0])])"
    using Suc by (intro Suc.hyps(1)) auto
  then show ?case
    using ab Suc.prems by (auto simp: upt_conv_Cons nth_list_update intro!: nth_equalityI)
qed


section \<open>Baselines are sound\<close>

text \<open>Every recorded checksum is the one of the bytes the file holds for that page.\<close>

definition entry_sound :: "(bytes \<Rightarrow> u32) \<Rightarrow> nat \<Rightarrow> nat \<Rightarrow> bytes \<Rightarrow> nat \<Rightarrow> u32 list \<Rightarrow> bool" where
  "entry_sound crc bs ppb f b e \<longleftrightarrow> length e = ppb \<and>
     (\<forall>p<ppb. e ! p \<noteq> 0 \<longrightarrow>
        (let ps = b * bs + p * PAGE_SIZE
         in ps + PAGE_SIZE \<le> length f \<and> e ! p = crc (bslice ps (ps + PAGE_SIZE) f)))"

definition crc_sound :: "(bytes \<Rightarrow> u32) \<Rightarrow> nat \<Rightarrow> nat \<Rightarrow> nat \<Rightarrow> bytes \<Rightarrow> page_map \<Rightarrow> bool" where
  "crc_sound crc bs ppb nb f m \<longleftrightarrow> bt_wf m \<and>
     (\<forall>b<nb. \<forall>e. bt_get m (of_nat b) = Some e \<longrightarrow> entry_sound crc bs ppb f b e)"

lemma crc_sound_empty [simp]: "crc_sound crc bs ppb nb f []"
  by (simp add: crc_sound_def btm.wf_empty btm.get_empty)

lemma crc_entry_sound:
  "\<lbrakk> crc_sound crc bs ppb nb f m; b < nb \<rbrakk> \<Longrightarrow> entry_sound crc bs ppb f b (crc_entry m ppb b)"
  by (auto simp: crc_sound_def crc_entry_def entry_sound_def split: option.splits)

lemma of_nat_key_inject:
  assumes "a < nb" "b < nb" "nb \<le> 2 ^ 32" "(of_nat a :: u32) = of_nat b"
  shows "a = b"
proof -
  have "unat (of_nat a :: u32) = unat (of_nat b :: u32)" using assms(4) by simp
  then show ?thesis using assms(1-3) by (simp add: unat_of_nat)
qed

lemma crc_entry_insert_other:
  "\<lbrakk> bt_wf m; a < nb; b < nb; nb \<le> 2 ^ 32; a \<noteq> b \<rbrakk>
    \<Longrightarrow> crc_entry (bt_insert (of_nat a) v m) ppb b = crc_entry m ppb b"
  using of_nat_key_inject [of a nb b] by (auto simp: crc_entry_def btm.get_ins)

lemma get_update_blocks:
  assumes "bt_wf m" "distinct blocks" "\<forall>b\<in>set blocks. b < nb" "nb \<le> 2 ^ 32"
  shows "bt_wf (update_blocks g off fin bs ppb blocks m) \<and>
    (\<forall>b<nb. bt_get (update_blocks g off fin bs ppb blocks m) (of_nat b) =
       (if b \<in> set blocks then Some (update_pages g off fin ppb (b * bs) (crc_entry m ppb b))
        else bt_get m (of_nat b)))"
  using assms
proof (induction blocks arbitrary: m)
  case Nil
  then show ?case by (simp add: update_blocks_def)
next
  case (Cons a blocks)
  define m' where "m' = bt_insert (of_nat a) (update_pages g off fin ppb (a * bs) (crc_entry m ppb a)) m"
  have wf: "bt_wf m'" using Cons.prems(1) by (simp add: m'_def btm.wf_ins)
  have "update_blocks g off fin bs ppb (a # blocks) m = update_blocks g off fin bs ppb blocks m'"
    by (simp add: update_blocks_def m'_def)
  moreover have "bt_get m' (of_nat b) = (if b = a then Some (update_pages g off fin ppb (a * bs) (crc_entry m ppb a))
      else bt_get m (of_nat b))" if "b < nb" for b
    using of_nat_key_inject [OF that _ Cons.prems(4), of a] Cons.prems(1,3)
    by (auto simp: m'_def btm.get_ins)
  moreover have "crc_entry m' ppb b = crc_entry m ppb b" if "b \<in> set blocks" for b
    unfolding m'_def using that Cons.prems by (intro crc_entry_insert_other [of _ _ nb]) auto
  ultimately show ?case using Cons.IH [OF wf] Cons.prems by auto
qed

text \<open>
  A page update is sound for the new file when the new checksum of a covered page is
  the one of its new bytes and the file changed only inside the written range.
\<close>

lemma update_pages_sound:
  assumes "entry_sound crc bs ppb f b e" "length f' = length f" "fin \<le> length f"
    and "\<And>i. i < length f \<Longrightarrow> i < off \<or> fin \<le> i \<Longrightarrow> f' ! i = f ! i"
    and "\<And>ps. off \<le> ps \<Longrightarrow> ps + PAGE_SIZE \<le> fin \<Longrightarrow> g ps = crc (bslice ps (ps + PAGE_SIZE) f')"
  shows "entry_sound crc bs ppb f' b (update_pages g off fin ppb (b * bs) e)"
proof -
  have len: "length e = ppb" using assms(1) by (simp add: entry_sound_def)
  have "ps + PAGE_SIZE \<le> length f' \<and> update_pages g off fin ppb (b * bs) e ! p = crc (bslice ps (ps + PAGE_SIZE) f')"
    if p: "p < ppb" and ps: "ps = b * bs + p * PAGE_SIZE"
      and nz: "update_pages g off fin ppb (b * bs) e ! p \<noteq> 0" for p ps
  proof (cases "off \<le> ps \<and> ps + PAGE_SIZE \<le> fin")
    case True
    then show ?thesis
      using assms(2,3,5) p len by (simp add: nth_update_pages Let_def ps)
  next
    case False
    then have out: "\<not> (ps < fin \<and> off < ps + PAGE_SIZE)"
      using nz p len by (auto simp: nth_update_pages Let_def ps)
    then have eq: "update_pages g off fin ppb (b * bs) e ! p = e ! p"
      using False p len by (auto simp: nth_update_pages Let_def ps)
    have old: "ps + PAGE_SIZE \<le> length f" "e ! p = crc (bslice ps (ps + PAGE_SIZE) f)"
      using assms(1) p nz by (auto simp: entry_sound_def Let_def eq ps)
    have "bslice ps (ps + PAGE_SIZE) f = bslice ps (ps + PAGE_SIZE) f'"
    proof (rule bslice_eqI [OF old(1) assms(2)])
      fix i
      assume "ps \<le> i" "i < ps + PAGE_SIZE"
      then show "f ! i = f' ! i" using out old(1) by (intro assms(4) [symmetric]) auto
    qed
    then show ?thesis using eq old assms(2) by simp
  qed
  then show ?thesis using len by (auto simp: entry_sound_def Let_def)
qed

lemma untouched_block_sound:
  assumes "entry_sound crc bs ppb f b e" "length f' = length f"
    and "\<And>i. i < length f \<Longrightarrow> b * bs \<le> i \<Longrightarrow> i < b * bs + ppb * PAGE_SIZE \<Longrightarrow> f' ! i = f ! i"
  shows "entry_sound crc bs ppb f' b e"
proof -
  have "bslice ps (ps + PAGE_SIZE) f = bslice ps (ps + PAGE_SIZE) f'"
    if "p < ppb" "ps = b * bs + p * PAGE_SIZE" "ps + PAGE_SIZE \<le> length f" for p ps
  proof (rule bslice_eqI [OF that(3) assms(2)])
    fix i
    assume "ps \<le> i" "i < ps + PAGE_SIZE"
    moreover have "p * PAGE_SIZE + PAGE_SIZE \<le> ppb * PAGE_SIZE"
      using that(1) by (metis Suc_leI add.commute mult_Suc mult_le_mono1)
    ultimately show "f ! i = f' ! i"
      using that by (intro assms(3) [symmetric]) auto
  qed
  then show ?thesis using assms(1,2) by (auto simp: entry_sound_def Let_def)
qed


lemma touched_distinct [simp]: "distinct (touched bs off fin)"
  by (simp add: touched_def del: upt_Suc)

lemma set_touched: "set (touched bs off fin) = {off div bs..(fin - 1) div bs}"
  by (auto simp: touched_def simp del: upt_Suc)

lemma block_ranges:
  fixes b off fin bs :: nat
  assumes "0 < bs" "off < fin" "b \<notin> set (touched bs off fin)" "b * bs \<le> i" "i < b * bs + bs"
  shows "i < off \<or> fin \<le> i"
proof -
  have "b < off div bs \<or> (fin - 1) div bs < b" using assms(3) by (auto simp: set_touched)
  then show ?thesis
  proof
    assume "b < off div bs"
    then have "Suc b \<le> off div bs" by simp
    then have "Suc b * bs \<le> off" by (meson div_times_less_eq_dividend mult_le_mono1 order.trans)
    then show ?thesis using assms(5) by simp
  next
    assume "(fin - 1) div bs < b"
    then have "fin - 1 < b * bs" using assms(1) by (simp add: div_less_iff_less_mult)
    then show ?thesis using assms(2,4) by linarith
  qed
qed

lemma last_block_less:
  fixes fin bs nb :: nat
  assumes "0 < bs" "0 < fin" "fin \<le> nb * bs" "b \<le> (fin - 1) div bs"
  shows "b < nb"
proof -
  have "fin - 1 < nb * bs" using assms by simp
  then have "(fin - 1) div bs < nb" using assms(1) by (simp add: div_less_iff_less_mult)
  then show ?thesis using assms(4) by simp
qed

lemma update_blocks_sound:
  assumes snd: "crc_sound crc bs ppb nb f m"
    and geo: "0 < bs" "ppb * PAGE_SIZE = bs" "length f \<le> nb * bs" "nb \<le> 2 ^ 32"
    and rng: "off < fin" "fin \<le> length f"
    and f': "length f' = length f" "\<And>i. i < length f \<Longrightarrow> i < off \<or> fin \<le> i \<Longrightarrow> f' ! i = f ! i"
    and g: "\<And>ps. off \<le> ps \<Longrightarrow> ps + PAGE_SIZE \<le> fin \<Longrightarrow> g ps = crc (bslice ps (ps + PAGE_SIZE) f')"
  shows "crc_sound crc bs ppb nb f' (update_blocks g off fin bs ppb (touched bs off fin) m)"
proof -
  let ?bl = "touched bs off fin"
  have wf: "bt_wf m" using snd by (simp add: crc_sound_def)
  have bl: "\<forall>b\<in>set ?bl. b < nb" using last_block_less [OF geo(1), of fin nb] rng geo(3) by (auto simp: set_touched)
  note get = get_update_blocks [OF wf touched_distinct bl geo(4), of g off fin bs ppb]
  have "entry_sound crc bs ppb f' b e"
    if "b < nb" "bt_get (update_blocks g off fin bs ppb ?bl m) (of_nat b) = Some e" for b e
  proof (cases "b \<in> set ?bl")
    case True
    then have "e = update_pages g off fin ppb (b * bs) (crc_entry m ppb b)" using get that by simp
    then show ?thesis
      using update_pages_sound [OF crc_entry_sound [OF snd that(1)] f'(1) rng(2) f'(2) g] by simp
  next
    case False
    then have "entry_sound crc bs ppb f b e" using get that snd by (simp add: crc_sound_def)
    then show ?thesis
      by (rule untouched_block_sound [OF _ f'(1)])
         (use block_ranges [OF geo(1) rng(1) False] geo(2) f'(2) in auto)
  qed
  then show ?thesis using get by (auto simp: crc_sound_def)
qed

text \<open>
  The page-aligned fast path does what the general path does.
\<close>

lemma fast_path_eq:
  assumes len: "length e = ppb" and bs: "ppb * PAGE_SIZE = bs" "0 < bs"
    and al: "off mod PAGE_SIZE = 0"
  shows "(off mod bs) div PAGE_SIZE < ppb \<and>
    update_pages g off (off + PAGE_SIZE) ppb (off div bs * bs) e = e[(off mod bs) div PAGE_SIZE := g off]"
proof -
  define p where "p = (off mod bs) div PAGE_SIZE"
  define b where "b = off div bs * bs"
  have P: "0 < PAGE_SIZE" by (simp add: PAGE_SIZE_def)
  have "off mod bs mod PAGE_SIZE = 0"
    using al by (simp add: mod_mod_cancel bs(1) [symmetric])
  then have "p * PAGE_SIZE = off mod bs"
    unfolding p_def by (simp add: minus_mod_eq_div_mult [symmetric])
  then have off: "b + p * PAGE_SIZE = off" unfolding b_def by simp
  have "off mod bs < ppb * PAGE_SIZE" using bs by simp
  then have plt: "p < ppb" unfolding p_def using P by (simp add: div_less_iff_less_mult)
  have "update_pages g off (off + PAGE_SIZE) ppb b e ! q = e[p := g off] ! q" if q: "q < ppb" for q
  proof -
    consider "q < p" | "q = p" | "p < q" by linarith
    then show ?thesis
    proof cases
      case 1
      then have "Suc q * PAGE_SIZE \<le> p * PAGE_SIZE" by (intro mult_le_mono1) simp
      then have "b + q * PAGE_SIZE + PAGE_SIZE \<le> off" using off by simp
      then show ?thesis using 1 q len P by (simp add: nth_update_pages Let_def)
    next
      case 2
      then show ?thesis using q len off by (simp add: nth_update_pages Let_def)
    next
      case 3
      then have "Suc p * PAGE_SIZE \<le> q * PAGE_SIZE" by (intro mult_le_mono1) simp
      then have "off + PAGE_SIZE \<le> b + q * PAGE_SIZE" using off by simp
      then show ?thesis using 3 q len P by (simp add: nth_update_pages Let_def)
    qed
  qed
  then show ?thesis using plt len by (auto simp: p_def b_def intro!: nth_equalityI)
qed

lemma capture_page_crcs_eq:
  assumes "crc_sound crc bs ppb nb f m" "0 < bs" "ppb * PAGE_SIZE = bs" "length f \<le> nb * bs"
    and "data \<noteq> []" "off + length data \<le> length f"
  shows "capture_page_crcs crc bs ppb off data m =
    Some (update_blocks (\<lambda>ps. crc (bslice (ps - off) (ps - off + PAGE_SIZE) data))
      off (off + length data) bs ppb (touched bs off (off + length data)) m)"
proof (cases "off div bs = (off + length data - 1) div bs \<and> off mod PAGE_SIZE = 0 \<and> length data = PAGE_SIZE")
  case True
  have fin: "0 < off + length data" using assms(5) by simp
  have "off div bs < nb"
    by (rule last_block_less [OF assms(2) fin]) (use assms(4,6) True in auto)
  then have len: "length (crc_entry m ppb (off div bs)) = ppb"
    using crc_entry_sound [OF assms(1)] by (simp add: entry_sound_def)
  have t: "touched bs off (off + PAGE_SIZE) = [off div bs]"
    using True by (simp add: touched_def)
  have "bslice 0 PAGE_SIZE data = data" using True by (simp add: slice_all)
  then show ?thesis
    using True fast_path_eq [OF len assms(3,2), of off "\<lambda>ps. crc (bslice (ps - off) (ps - off + PAGE_SIZE) data)"]
      fin assms(2) len
    by (auto simp: capture_page_crcs_def Let_def update_blocks_def t)
next
  case False
  then show ?thesis using assms(2,5) by (auto simp: capture_page_crcs_def Let_def)
qed


lemma get_invalidate_blocks:
  assumes "bt_wf m" "distinct blocks" "\<forall>b\<in>set blocks. b < nb" "nb \<le> 2 ^ 32"
    and "ppb * PAGE_SIZE = bs" "\<forall>b<nb. \<forall>e. bt_get m (of_nat b) = Some e \<longrightarrow> length e = ppb"
  shows "\<exists>m'. invalidate_blocks bs off fin blocks m = Some m' \<and> bt_wf m' \<and>
    (\<forall>b<nb. bt_get m' (of_nat b) =
       (if b \<in> set blocks then map_option (\<lambda>e. map (\<lambda>p.
            if (off - b * bs) div PAGE_SIZE \<le> p \<and> p < div_ceil (min fin (b * bs + bs) - b * bs) PAGE_SIZE
            then 0 else e ! p) [0..<length e]) (bt_get m (of_nat b))
        else bt_get m (of_nat b)))"
  using assms(1-3,6)
proof (induction blocks arbitrary: m)
  case Nil
  then show ?case by simp
next
  case (Cons a blocks)
  have a: "a < nb" using Cons.prems(3) by simp
  show ?case
  proof (cases "bt_get m (of_nat a)")
    case None
    then show ?thesis using Cons.IH [OF Cons.prems(1)] Cons.prems(2-4) by auto
  next
    case (Some e)
    have le: "length e = ppb" using Cons.prems(4) a Some by blast
    define cut where "cut = div_ceil (min fin (a * bs + bs) - a * bs) PAGE_SIZE"
    define e' where "e' = map (\<lambda>p. if (off - a * bs) div PAGE_SIZE \<le> p \<and> p < cut then 0 else e ! p) [0..<length e]"
    define m' where "m' = bt_insert (of_nat a) e' m"
    have "min fin (a * bs + bs) - a * bs + PAGE_SIZE - 1 \<le> ppb * PAGE_SIZE + PAGE_SIZE - 1"
      using assms(5) by simp
    then have "cut \<le> (ppb * PAGE_SIZE + PAGE_SIZE - 1) div PAGE_SIZE"
      unfolding cut_def div_ceil_def by (rule div_le_mono)
    also have "\<dots> = ppb" by (simp add: PAGE_SIZE_def)
    finally have "clear_pages [(off - a * bs) div PAGE_SIZE..<cut] e = Some e'"
      using le by (simp add: clear_pages_upt e'_def)
    then have step: "invalidate_blocks bs off fin (a # blocks) m = invalidate_blocks bs off fin blocks m'"
      using Some by (simp add: Let_def cut_def m'_def)
    have wf: "bt_wf m'" using Cons.prems(1) by (simp add: m'_def btm.wf_ins)
    have get: "bt_get m' (of_nat b) = (if b = a then Some e' else bt_get m (of_nat b))" if "b < nb" for b
      using of_nat_key_inject [OF that a assms(4)] Cons.prems(1) by (auto simp: m'_def btm.get_ins)
    have "\<forall>b<nb. \<forall>e. bt_get m' (of_nat b) = Some e \<longrightarrow> length e = ppb"
      using Cons.prems(4) get le by (auto simp: e'_def)
    then obtain m2 where "invalidate_blocks bs off fin blocks m' = Some m2" "bt_wf m2"
      "\<forall>b<nb. bt_get m2 (of_nat b) =
       (if b \<in> set blocks then map_option (\<lambda>e. map (\<lambda>p.
            if (off - b * bs) div PAGE_SIZE \<le> p \<and> p < div_ceil (min fin (b * bs + bs) - b * bs) PAGE_SIZE
            then 0 else e ! p) [0..<length e]) (bt_get m' (of_nat b))
        else bt_get m' (of_nat b))"
      using Cons.IH [OF wf] Cons.prems(2,3) by auto
    then show ?thesis
      using step get Cons.prems(2) Some
      by (intro exI [of _ m2]) (auto simp: e'_def cut_def)
  qed
qed

lemma cleared_entry_sound:
  assumes e: "entry_sound crc bs ppb f b e" and bs: "ppb * PAGE_SIZE = bs" and len: "length f' = length f"
    and f': "\<And>i. i < length f \<Longrightarrow> i < off \<or> fin \<le> i \<Longrightarrow> f' ! i = f ! i"
  shows "entry_sound crc bs ppb f' b (map (\<lambda>p.
     if (off - b * bs) div PAGE_SIZE \<le> p \<and> p < div_ceil (min fin (b * bs + bs) - b * bs) PAGE_SIZE
     then 0 else e ! p) [0..<length e])"
proof -
  have el: "length e = ppb" using e by (simp add: entry_sound_def)
  have P: "0 < PAGE_SIZE" by (simp add: PAGE_SIZE_def)
  have "bslice ps (ps + PAGE_SIZE) f = bslice ps (ps + PAGE_SIZE) f'"
    if p: "p < ppb" and ps: "ps = b * bs + p * PAGE_SIZE" and inf: "ps + PAGE_SIZE \<le> length f"
      and out: "p < (off - b * bs) div PAGE_SIZE \<or> div_ceil (min fin (b * bs + bs) - b * bs) PAGE_SIZE \<le> p" for p ps
  proof (rule bslice_eqI [OF inf len])
    fix i
    assume i: "ps \<le> i" "i < ps + PAGE_SIZE"
    from out have "ps + PAGE_SIZE \<le> off \<or> fin \<le> ps"
    proof
      assume "p < (off - b * bs) div PAGE_SIZE"
      then have "Suc p * PAGE_SIZE \<le> off - b * bs"
        by (metis Suc_leI div_times_less_eq_dividend mult_le_mono1 order.trans)
      moreover have "0 < Suc p * PAGE_SIZE" using P by simp
      ultimately have "b * bs + Suc p * PAGE_SIZE \<le> off" by linarith
      then show ?thesis using ps by simp
    next
      assume c: "div_ceil (min fin (b * bs + bs) - b * bs) PAGE_SIZE \<le> p"
      define n where "n = min fin (b * bs + bs) - b * bs"
      have "(n + PAGE_SIZE - 1) div PAGE_SIZE < Suc p" using c by (simp add: div_ceil_def n_def)
      then have "n + PAGE_SIZE - 1 < Suc p * PAGE_SIZE" using P by (simp only: div_less_iff_less_mult)
      then have "n \<le> p * PAGE_SIZE" by simp
      moreover have "p * PAGE_SIZE < bs" using p P bs by (metis mult_less_mono1)
      ultimately have "fin \<le> b * bs + p * PAGE_SIZE" unfolding n_def by (cases "fin \<le> b * bs + bs") auto
      then show ?thesis using ps by simp
    qed
    then show "f ! i = f' ! i" using i inf by (intro f' [symmetric]) auto
  qed
  then show ?thesis
    using e el len by (auto simp: entry_sound_def Let_def not_le not_less)
qed


lemma invalidate_page_crcs_sound:
  assumes snd: "crc_sound crc bs ppb nb f m"
    and geo: "0 < bs" "ppb * PAGE_SIZE = bs" "length f \<le> nb * bs" "nb \<le> 2 ^ 32"
    and rng: "0 < len" "off + len \<le> length f"
    and f': "length f' = length f" "\<And>i. i < length f \<Longrightarrow> i < off \<or> off + len \<le> i \<Longrightarrow> f' ! i = f ! i"
  shows "\<exists>m'. invalidate_page_crcs bs off len m = Some m' \<and> crc_sound crc bs ppb nb f' m'"
proof (cases "m = []")
  case True
  then show ?thesis by (simp add: invalidate_page_crcs_def)
next
  case False
  let ?bl = "touched bs off (off + len)"
  have wf: "bt_wf m" using snd by (simp add: crc_sound_def)
  have bl: "\<forall>b\<in>set ?bl. b < nb"
    using last_block_less [OF geo(1), of "off + len" nb] rng geo(3) by (auto simp: set_touched)
  have ln: "\<forall>b<nb. \<forall>e. bt_get m (of_nat b) = Some e \<longrightarrow> length e = ppb"
    using snd by (auto simp: crc_sound_def entry_sound_def)
  obtain m' where m': "invalidate_blocks bs off (off + len) ?bl m = Some m'" "bt_wf m'"
    "\<forall>b<nb. bt_get m' (of_nat b) =
       (if b \<in> set ?bl then map_option (\<lambda>e. map (\<lambda>p.
            if (off - b * bs) div PAGE_SIZE \<le> p \<and> p < div_ceil (min (off + len) (b * bs + bs) - b * bs) PAGE_SIZE
            then 0 else e ! p) [0..<length e]) (bt_get m (of_nat b))
        else bt_get m (of_nat b))"
    using get_invalidate_blocks [OF wf touched_distinct bl geo(4,2) ln] by blast
  have "entry_sound crc bs ppb f' b e" if b: "b < nb" "bt_get m' (of_nat b) = Some e" for b e
  proof (cases "b \<in> set ?bl")
    case True
    then obtain e0 where e0: "bt_get m (of_nat b) = Some e0" "e = map (\<lambda>p.
        if (off - b * bs) div PAGE_SIZE \<le> p \<and> p < div_ceil (min (off + len) (b * bs + bs) - b * bs) PAGE_SIZE
        then 0 else e0 ! p) [0..<length e0]"
      using b m'(3) by auto
    then show ?thesis
      using cleared_entry_sound [of crc bs ppb f b e0 f' off "off + len"] snd b(1) geo(2) f'
      by (simp add: crc_sound_def)
  next
    case False
    then have "entry_sound crc bs ppb f b e" using b m'(3) snd by (simp add: crc_sound_def)
    then show ?thesis
      by (rule untouched_block_sound [OF _ f'(1)])
         (use block_ranges [OF geo(1) _ False] rng geo(2) f'(2) in auto)
  qed
  then have "crc_sound crc bs ppb nb f' m'" using m'(2) by (simp add: crc_sound_def)
  then show ?thesis using m'(1) False rng(1) geo(1) by (simp add: invalidate_page_crcs_def)
qed

lemma overwrite_elsewhere:
  "\<lbrakk> off + length d \<le> length f; i < length f; i < off \<or> off + length d \<le> i \<rbrakk> \<Longrightarrow> overwrite f off d ! i = f ! i"
  by (auto simp: nth_overwrite)

lemma capture_page_crcs_sound:
  assumes snd: "crc_sound crc bs ppb nb f m"
    and geo: "0 < bs" "ppb * PAGE_SIZE = bs" "length f \<le> nb * bs" "nb \<le> 2 ^ 32"
    and rng: "data \<noteq> []" "off + length data \<le> length f"
  shows "\<exists>m'. capture_page_crcs crc bs ppb off data m = Some m'
     \<and> crc_sound crc bs ppb nb (overwrite f off data) m'"
proof -
  let ?fin = "off + length data"
  have sub: "bslice ps (ps + PAGE_SIZE) (overwrite f off data) = bslice (ps - off) (ps - off + PAGE_SIZE) data"
    if "off \<le> ps" "ps + PAGE_SIZE \<le> ?fin" for ps
    using that rng(2) bslice_overwrite_inside [of off data f ps "ps + PAGE_SIZE"] by simp
  have "crc_sound crc bs ppb nb (overwrite f off data)
      (update_blocks (\<lambda>ps. crc (bslice (ps - off) (ps - off + PAGE_SIZE) data)) off ?fin bs ppb (touched bs off ?fin) m)"
    by (rule update_blocks_sound [OF snd geo _ rng(2)])
       (use rng overwrite_elsewhere [OF rng(2)] sub in auto)
  then show ?thesis using capture_page_crcs_eq [OF snd geo(1-3) rng] by simp
qed

lemma capture_zero_page_crcs_sound:
  assumes snd: "crc_sound crc bs ppb nb f m"
    and geo: "0 < bs" "ppb * PAGE_SIZE = bs" "length f \<le> nb * bs" "nb \<le> 2 ^ 32"
    and rng: "0 < len" "off + len \<le> length f"
  shows "\<exists>m'. capture_zero_page_crcs crc bs ppb off len m = Some m'
     \<and> crc_sound crc bs ppb nb (overwrite f off (replicate len 0)) m'"
proof -
  let ?fin = "off + len" and ?z = "replicate len (0::byte)"
  have rz: "off + length ?z \<le> length f" using rng(2) by simp
  have zero: "bslice ps (ps + PAGE_SIZE) (overwrite f off ?z) = replicate PAGE_SIZE 0"
    if "off \<le> ps" "ps + PAGE_SIZE \<le> ?fin" for ps
    using that rng(2) bslice_overwrite_inside [of off ?z f ps "ps + PAGE_SIZE"] by (simp add: bslice_def)
  have "crc_sound crc bs ppb nb (overwrite f off ?z)
      (update_blocks (\<lambda>_. crc (replicate PAGE_SIZE 0)) off ?fin bs ppb (touched bs off ?fin) m)"
    by (rule update_blocks_sound [OF snd geo _ rng(2)])
       (use rng overwrite_elsewhere [OF rz] zero in auto)
  then show ?thesis using geo(1) rng(1) by (simp add: capture_zero_page_crcs_def Let_def)
qed

text \<open>
  C25: Whatever part of a block device is written, every page checksum that survives or
  is recorded is the checksum of the bytes now in the file: after a guest write the
  recorded ones (fast path and general path), after zeroing the constant one, and
  after a zero-copy write, whose bytes are unknown, only those of untouched pages.
\<close>

theorem page_crcs_sound:
  assumes snd: "crc_sound crc bs ppb nb f m"
    and geo: "0 < bs" "ppb * PAGE_SIZE = bs" "length f \<le> nb * bs" "nb \<le> 2 ^ 32"
    and rng: "data \<noteq> []" "off + length data \<le> length f"
  shows "(\<exists>m'. capture_page_crcs crc bs ppb off data m = Some m'
              \<and> crc_sound crc bs ppb nb (overwrite f off data) m')
       \<and> (\<exists>m'. capture_zero_page_crcs crc bs ppb off (length data) m = Some m'
              \<and> crc_sound crc bs ppb nb (overwrite f off (replicate (length data) 0)) m')
       \<and> (\<exists>m'. invalidate_page_crcs bs off (length data) m = Some m'
              \<and> crc_sound crc bs ppb nb (overwrite f off data) m')"
proof -
  have "\<exists>m'. invalidate_page_crcs bs off (length data) m = Some m'
      \<and> crc_sound crc bs ppb nb (overwrite f off data) m'"
    by (rule invalidate_page_crcs_sound [OF snd geo _ rng(2)])
       (use rng overwrite_elsewhere [OF rng(2)] in auto)
  then show ?thesis
    using capture_page_crcs_sound [OF snd geo rng] capture_zero_page_crcs_sound [OF snd geo _ rng(2)] rng(1)
    by simp
qed

theorem page_crcs_sound_witness:
  "(\<exists>m'. capture_page_crcs (\<lambda>bs. of_nat (length bs)) 4096 1 0 [7] [] = Some m'
      \<and> crc_sound (\<lambda>bs. of_nat (length bs)) 4096 1 2 (overwrite (replicate 8192 0) 0 [7]) m')"
  using page_crcs_sound [of "\<lambda>bs. of_nat (length bs)" 4096 1 2 "replicate 8192 0" "[]" "[7]" 0]
  by (simp add: PAGE_SIZE_def)

end
