(* ===== verification/PromoteClaim.thy ===== *)
theory PromoteClaim
  imports OrdMap
begin

text \<open>
  The per-block claims of \<open>glidefs/src/block/write_cache/inner.rs\<close>
  (\<open>PromoteClaimBitmap\<close>): at most one task at a time copies or materializes a block,
  and a claim is identified by a token so that a holder whose claim was invalidated
  or taken over cannot commit any more.  Every operation runs under the mutex of the
  claim map, so an interleaving of tasks is a sequence of operations.
\<close>

type_synonym ClaimToken = u64

record ClaimSlot =
  slot_token :: ClaimToken
  slot_valid :: bool
  materializing :: bool

record PromoteClaimBitmap =
  in_flight :: "(nat, ClaimSlot) btree"
  next_token :: u64

definition pc_new :: PromoteClaimBitmap where
  "pc_new = \<lparr> in_flight = [], next_token = 1 \<rparr>"

definition claim :: "PromoteClaimBitmap \<Rightarrow> nat \<Rightarrow> bool \<Rightarrow> ClaimToken option \<times> PromoteClaimBitmap" where
  "claim pc idx mat =
     (let tok = next_token pc; pc = pc\<lparr> next_token := next_token pc + 1 \<rparr>
      in if bt_get (in_flight pc) idx \<noteq> None then (None, pc)
         else (Some tok, pc\<lparr> in_flight := bt_insert idx
                 \<lparr> slot_token = tok, slot_valid = True, materializing = mat \<rparr> (in_flight pc) \<rparr>))"

definition try_claim_promote :: "PromoteClaimBitmap \<Rightarrow> nat \<Rightarrow> ClaimToken option \<times> PromoteClaimBitmap" where
  "try_claim_promote pc idx = claim pc idx False"

definition try_claim_token :: "PromoteClaimBitmap \<Rightarrow> nat \<Rightarrow> ClaimToken option \<times> PromoteClaimBitmap" where
  "try_claim_token pc idx = claim pc idx True"

definition try_claim :: "PromoteClaimBitmap \<Rightarrow> nat \<Rightarrow> bool \<times> PromoteClaimBitmap" where
  "try_claim pc idx = (case claim pc idx False of (r, pc') \<Rightarrow> (r \<noteq> None, pc'))"

text \<open>\<open>if_valid\<close> runs its closure under the mutex of the map; \<open>None\<close> says that it did not run.\<close>

definition if_valid :: "PromoteClaimBitmap \<Rightarrow> nat \<Rightarrow> ClaimToken \<Rightarrow> (unit \<Rightarrow> 'r) \<Rightarrow> 'r option" where
  "if_valid pc idx tok f =
     (case bt_get (in_flight pc) idx of
        Some slot \<Rightarrow> if slot_valid slot \<and> slot_token slot = tok then Some (f ()) else None
      | None \<Rightarrow> None)"

definition is_valid :: "PromoteClaimBitmap \<Rightarrow> nat \<Rightarrow> ClaimToken \<Rightarrow> bool" where
  "is_valid pc idx tok = (if_valid pc idx tok (\<lambda>_. ()) \<noteq> None)"

definition invalidate :: "PromoteClaimBitmap \<Rightarrow> nat \<Rightarrow> PromoteClaimBitmap" where
  "invalidate pc idx =
     (case bt_get (in_flight pc) idx of
        None \<Rightarrow> pc
      | Some slot \<Rightarrow> pc\<lparr> in_flight := bt_insert idx (slot\<lparr> slot_valid := False \<rparr>) (in_flight pc) \<rparr>)"

definition is_claimed :: "PromoteClaimBitmap \<Rightarrow> nat \<Rightarrow> bool" where
  "is_claimed pc idx = (bt_get (in_flight pc) idx \<noteq> None)"

text \<open>
  \<open>wait_for_release\<close> parks on the condition variable.  Each element of the list is
  one wake-up: whether the deadline has passed, and the claim map seen then.
  \<open>None\<close> is a caller that is still parked.
\<close>

fun wait_for_release :: "(bool \<times> PromoteClaimBitmap) list \<Rightarrow> nat \<Rightarrow> bool option" where
  "wait_for_release [] idx = None"
| "wait_for_release ((expired, pc) # wakes) idx =
     (if \<not> is_claimed pc idx then Some True
      else if expired then Some False
      else wait_for_release wakes idx)"

definition release :: "PromoteClaimBitmap \<Rightarrow> nat \<Rightarrow> PromoteClaimBitmap" where
  "release pc idx = pc\<lparr> in_flight := bt_remove idx (in_flight pc) \<rparr>"

definition release_token :: "PromoteClaimBitmap \<Rightarrow> nat \<Rightarrow> ClaimToken \<Rightarrow> PromoteClaimBitmap" where
  "release_token pc idx tok =
     (case bt_get (in_flight pc) idx of
        Some slot \<Rightarrow> if slot_token slot = tok
                     then pc\<lparr> in_flight := bt_remove idx (in_flight pc) \<rparr> else pc
      | None \<Rightarrow> pc)"

definition steal_from_materializer :: "PromoteClaimBitmap \<Rightarrow> nat \<Rightarrow> ClaimToken option \<times> PromoteClaimBitmap" where
  "steal_from_materializer pc idx =
     (case bt_get (in_flight pc) idx of
        Some slot \<Rightarrow>
          if \<not> materializing slot then (None, pc)
          else (Some (next_token pc),
                pc\<lparr> next_token := next_token pc + 1,
                   in_flight := bt_insert idx
                     \<lparr> slot_token = next_token pc, slot_valid = True, materializing = False \<rparr>
                     (in_flight pc) \<rparr>)
      | None \<Rightarrow> (None, pc))"


section \<open>Sequences of operations\<close>

datatype claim_op =
    Claim nat bool
  | Invalidate nat
  | Release nat
  | ReleaseToken nat ClaimToken
  | Steal nat

fun claim_step :: "claim_op \<Rightarrow> PromoteClaimBitmap \<Rightarrow> PromoteClaimBitmap" where
  "claim_step (Claim idx mat) pc = snd (claim pc idx mat)"
| "claim_step (Invalidate idx) pc = invalidate pc idx"
| "claim_step (Release idx) pc = release pc idx"
| "claim_step (ReleaseToken idx tok) pc = release_token pc idx tok"
| "claim_step (Steal idx) pc = snd (steal_from_materializer pc idx)"

definition claim_run :: "claim_op list \<Rightarrow> PromoteClaimBitmap \<Rightarrow> PromoteClaimBitmap" where
  "claim_run ops pc = fold claim_step ops pc"

text \<open>Well formed: an ordered map whose tokens have all been handed out.\<close>

definition claims_wf :: "PromoteClaimBitmap \<Rightarrow> bool" where
  "claims_wf pc \<longleftrightarrow> bt_wf (in_flight pc)
     \<and> (\<forall>idx slot. bt_get (in_flight pc) idx = Some slot \<longrightarrow> slot_token slot < next_token pc)"

lemma claims_wf_new: "claims_wf pc_new"
  by (simp add: claims_wf_def pc_new_def btm.wf_empty btm.get_empty)

lemma tokens_left: "unat (n::u64) + Suc k < 2 ^ 64 \<Longrightarrow> n \<noteq> - 1"
proof
  assume "unat n + Suc k < 2 ^ 64" and n: "n = - 1"
  moreover have "unat (- 1 :: u64) = 2 ^ 64 - 1" by (simp add: unsigned_minus_1_eq_mask mask_eq_exp_minus_1)
  ultimately show False by simp
qed

lemma next_token_no_wrap: "n \<noteq> - 1 \<Longrightarrow> n < (n::u64) + 1"
  using word_less_Suc [of n] by simp

lemma less_bump: "t < n \<Longrightarrow> n \<noteq> - 1 \<Longrightarrow> t < (n::u64) + 1"
  using next_token_no_wrap order.strict_trans by blast

lemma claim_step_wf:
  assumes "claims_wf pc" "next_token pc \<noteq> - 1"
  shows "claims_wf (claim_step op pc)"
  using assms less_bump next_token_no_wrap [of "next_token pc"]
  by (cases op)
     (auto simp: claims_wf_def claim_def invalidate_def release_def release_token_def
        steal_from_materializer_def Let_def btm.wf_ins btm.wf_del btm.get_ins btm.get_del
        split: option.splits if_splits)

lemma claim_step_token:
  "next_token (claim_step op pc) = next_token pc \<or> next_token (claim_step op pc) = next_token pc + 1"
  by (cases op)
     (auto simp: claim_def invalidate_def release_def release_token_def
        steal_from_materializer_def Let_def split: option.splits)

text \<open>No operation makes a handed-out token valid again.\<close>

lemma claim_step_stale:
  assumes "claims_wf pc" "tok < next_token pc" "\<not> is_valid pc idx tok"
  shows "\<not> is_valid (claim_step op pc) idx tok"
  using assms
  by (cases op)
     (auto simp: claims_wf_def is_valid_def if_valid_def claim_def invalidate_def release_def
        release_token_def steal_from_materializer_def Let_def btm.get_ins btm.get_del
        split: option.splits if_splits)


text \<open>
  Along a sequence too short to exhaust the 64-bit tokens, a claim that is no longer
  valid stays so.
\<close>

lemma claim_run_stale:
  assumes "claims_wf pc" "tok < next_token pc" "\<not> is_valid pc idx tok"
    and "unat (next_token pc) + length ops < 2 ^ 64"
  shows "\<not> is_valid (claim_run ops pc) idx tok \<and> claims_wf (claim_run ops pc)"
  using assms
proof (induction ops arbitrary: pc)
  case (Cons op ops)
  have nw: "next_token pc \<noteq> - 1"
    using Cons.prems(4) tokens_left [of "next_token pc" "length ops"] by simp
  have le: "unat (next_token (claim_step op pc)) \<le> Suc (unat (next_token pc))"
    using claim_step_token [of op pc] Cons.prems(4) nw by (auto simp: unat_word_ariths)
  have lt: "tok < next_token (claim_step op pc)"
    using claim_step_token [of op pc] less_bump [OF Cons.prems(2) nw] Cons.prems(2) by auto
  show ?case
    using Cons.IH [OF claim_step_wf [OF Cons.prems(1) nw] lt claim_step_stale [OF Cons.prems(1-3)]]
      le Cons.prems(4) by (simp add: claim_run_def)
qed (simp add: claim_run_def)


section \<open>How long a claim is valid\<close>

fun kills :: "nat \<Rightarrow> ClaimToken \<Rightarrow> bool \<Rightarrow> claim_op \<Rightarrow> bool" where
  "kills idx tok mat (Claim _ _) = False"
| "kills idx tok mat (Invalidate i) = (i = idx)"
| "kills idx tok mat (Release i) = (i = idx)"
| "kills idx tok mat (ReleaseToken i t) = (i = idx \<and> t = tok)"
| "kills idx tok mat (Steal i) = (i = idx \<and> mat)"

definition held :: "nat \<Rightarrow> ClaimToken \<Rightarrow> bool \<Rightarrow> PromoteClaimBitmap \<Rightarrow> bool" where
  "held idx tok mat pc \<longleftrightarrow>
     bt_get (in_flight pc) idx = Some \<lparr> slot_token = tok, slot_valid = True, materializing = mat \<rparr>"

lemma held_valid: "held idx tok mat pc \<Longrightarrow> is_valid pc idx tok"
  by (simp add: held_def is_valid_def if_valid_def)

lemma held_lt: "\<lbrakk> claims_wf pc; held idx tok mat pc \<rbrakk> \<Longrightarrow> tok < next_token pc"
  by (force simp: claims_wf_def held_def)

lemma held_step:
  assumes "claims_wf pc" "held idx tok mat pc"
  shows "if kills idx tok mat op then \<not> is_valid (claim_step op pc) idx tok
         else held idx tok mat (claim_step op pc)"
  using assms held_lt [OF assms]
  by (cases op)
     (auto simp: claims_wf_def held_def is_valid_def if_valid_def claim_def invalidate_def release_def
        release_token_def steal_from_materializer_def Let_def btm.get_ins btm.get_del
        split: option.splits if_splits)

lemma held_run:
  assumes "claims_wf pc" "held idx tok mat pc" "unat (next_token pc) + length ops < 2 ^ 64"
  shows "is_valid (claim_run ops pc) idx tok \<longleftrightarrow> \<not> list_ex (kills idx tok mat) ops"
  using assms
proof (induction ops arbitrary: pc)
  case Nil
  then show ?case by (simp add: claim_run_def held_valid)
next
  case (Cons op ops)
  let ?pc = "claim_step op pc"
  have nw: "next_token pc \<noteq> - 1" using Cons.prems(3) tokens_left [of "next_token pc" "length ops"] by simp
  have wf: "claims_wf ?pc" by (rule claim_step_wf [OF Cons.prems(1) nw])
  have le: "unat (next_token ?pc) + length ops < 2 ^ 64"
    using claim_step_token [of op pc] Cons.prems(3) by (auto simp: unat_word_ariths)
  have lt: "tok < next_token ?pc"
    using claim_step_token [of op pc] held_lt [OF Cons.prems(1,2)] less_bump [OF _ nw] by auto
  show ?case
  proof (cases "kills idx tok mat op")
    case True
    then have "\<not> is_valid ?pc idx tok" using held_step [OF Cons.prems(1,2), of op] by simp
    then show ?thesis using claim_run_stale [OF wf lt _ le] True by (simp add: claim_run_def)
  next
    case False
    then show ?thesis
      using held_step [OF Cons.prems(1,2), of op] Cons.IH [OF wf _ le] by (simp add: claim_run_def)
  qed
qed

lemma claim_holds:
  assumes "claims_wf pc" "next_token pc \<noteq> - 1" "claim pc idx mat = (Some tok, pc')"
  shows "claims_wf pc' \<and> held idx tok mat pc' \<and> next_token pc' = next_token pc + 1"
proof -
  have "pc' = claim_step (Claim idx mat) pc" using assms(3) by simp
  then have "claims_wf pc'" using claim_step_wf [OF assms(1,2)] by blast
  then show ?thesis
    using assms(3)
    by (auto simp: claim_def held_def Let_def btm.get_ins assms(1) [unfolded claims_wf_def]
        split: if_splits)
qed

text \<open>
  C26: A task that wins the claim of a block can commit under it, after any sequence
  of claim operations of other tasks, exactly as long as nobody invalidated the
  block's claim, released it, or took it over from a materialization; afterwards its
  commit never runs again, whoever claims the block later.  The sequence has to be
  shorter than the number of 64-bit tokens that are left.
\<close>

theorem claim_commits_iff_undisturbed:
  assumes "claims_wf pc" "claim pc idx mat = (Some tok, pc')"
    and "unat (next_token pc) + length ops + 1 < 2 ^ 64"
  shows "if_valid (claim_run ops pc') idx tok commit
           = (if list_ex (kills idx tok mat) ops then None else Some (commit ()))"
proof -
  have nw: "next_token pc \<noteq> - 1" using assms(3) tokens_left [of "next_token pc" "length ops"] by simp
  have "unat (next_token pc') + length ops < 2 ^ 64"
    using claim_holds [OF assms(1) nw assms(2)] assms(3) nw by (auto simp: unat_word_ariths)
  then have "is_valid (claim_run ops pc') idx tok \<longleftrightarrow> \<not> list_ex (kills idx tok mat) ops"
    using claim_holds [OF assms(1) nw assms(2)] held_run by blast
  then show ?thesis by (auto simp: is_valid_def if_valid_def split: option.splits if_splits)
qed

theorem claim_commits_iff_undisturbed_witness:
  "if_valid (claim_run [Invalidate 7, ReleaseToken 7 1, Claim 7 False] (snd (claim pc_new 7 True))) 7 1
      (\<lambda>_. 0 :: nat) = None
   \<and> if_valid (claim_run [Claim 7 True, Invalidate 8, Claim 8 True] (snd (claim pc_new 7 True))) 7 1
      (\<lambda>_. 0 :: nat) = Some 0"
proof -
  have c: "claim pc_new 7 True = (Some 1, snd (claim pc_new 7 True))"
    by (simp add: claim_def pc_new_def bt_get_def)
  show ?thesis
    using claim_commits_iff_undisturbed [OF claims_wf_new c, where commit = "\<lambda>_. 0 :: nat",
        of "[Invalidate 7, ReleaseToken 7 1, Claim 7 False]"]
      claim_commits_iff_undisturbed [OF claims_wf_new c, where commit = "\<lambda>_. 0 :: nat",
        of "[Claim 7 True, Invalidate 8, Claim 8 True]"]
    by (simp add: pc_new_def)
qed

end
