(* ===== verification/StoreError.thy ===== *)
theory StoreError
  imports GlidePrelude
begin

text \<open>
  The errors of the object store and of the typed store above it
  (\<open>glidefs/src/block/content_store.rs\<close>).  The errors of the \<open>object_store\<close> crate that
  the code tells apart are constructors; \<open>OsOther\<close> is any other one.
\<close>

datatype os_error = OsNotFound | OsAlreadyExists | OsPrecondition | OsNotModified | OsNotSupported | OsOther

datatype ContentStoreError = ObjectStoreError os_error | PreconditionFailed | CircuitOpen | SemaphoreClosed

definition from_os_error :: "os_error \<Rightarrow> ContentStoreError" where
  "from_os_error e = (if e = OsPrecondition then PreconditionFailed else ObjectStoreError e)"

definition is_connectivity_error :: "os_error \<Rightarrow> bool" where
  "is_connectivity_error e \<longleftrightarrow> e \<notin> {OsNotFound, OsAlreadyExists, OsPrecondition, OsNotModified, OsNotSupported}"

end
