(* ===== verification/CacheInner.thy ===== *)
theory CacheInner
  imports PageCrc PromoteClaim VolumeManifest StoreError
begin

text \<open>
  The shared state of the write cache, \<open>CacheInner\<close> of
  \<open>glidefs/src/block/write_cache/inner.rs\<close>, with its configuration and errors
  (\<open>config.rs\<close>, \<open>error.rs\<close>): the active and the flushing data file, the block state
  map with its dirty and syncing counters, the promote claims, the page checksums,
  the sequence counter and the log.  Byte offsets and block numbers are natural
  numbers, with the 64-bit overflow checks of the code written out.  An outer
  \<open>None\<close> is a panic; \<open>Panicked\<close> is a panic inside an operation that returns a result.
\<close>

section \<open>Configuration and errors\<close>

datatype CacheError =
    Io io_error
  | InvalidMetadata
  | OffsetOutOfBounds nat nat
  | ContentStore ContentStoreError
  | HashMismatch Blake3Hash Blake3Hash
  | DecompressFailed
  | FlushSkippedBlocks nat
  | BlockEvicted
  | ManifestFailed VolumeManifestError
  | Locked
  | Fenced u64 u64
  | Panicked

definition is_manifest_conflict :: "CacheError \<Rightarrow> bool" where
  "is_manifest_conflict e =
     (case e of ContentStore s \<Rightarrow> s = PreconditionFailed | Fenced _ _ \<Rightarrow> True | _ \<Rightarrow> False)"

record WriteCacheConfig =
  device_size :: nat
  cfg_block_size :: nat
  wal_sync :: bool

definition cfg_num_blocks :: "WriteCacheConfig \<Rightarrow> nat" where
  "cfg_num_blocks cfg = div_ceil (device_size cfg) (cfg_block_size cfg)"

definition validate :: "WriteCacheConfig \<Rightarrow> CacheError + unit" where
  "validate cfg =
     (if cfg_block_size cfg = 0 then Inl InvalidMetadata
      else if device_size cfg = 0 then Inl InvalidMetadata
      else Inr ())"

datatype HandoffPhase = Idle | Warming | Freezing | Cutover

definition phase_from_u8 :: "byte \<Rightarrow> HandoffPhase" where
  "phase_from_u8 v = (if v = 1 then Warming else if v = 2 then Freezing else if v = 3 then Cutover else Idle)"

definition phase_is_active :: "HandoffPhase \<Rightarrow> bool" where
  "phase_is_active p = (p \<noteq> Idle)"

record CacheInner =
  config :: WriteCacheConfig
  data_file :: bytes
  flushing_file :: "bytes option"
  flushing_disk :: "bytes option"
  flushing_active :: bool
  state_map :: SparseStateMap
  promote_claim :: PromoteClaimBitmap
  num_blocks :: nat
  dirty_block_count :: u64
  syncing_block_count :: u64
  sequence :: u64
  wal :: bytes
  metadata_file :: "bytes option"
  handoff_phase :: byte
  manifest_etag :: "string option"
  current_generation :: u64
  current_lease_revision :: u64
  fenced :: bool
  page_crcs :: page_map
  pages_per_block :: nat
  rotation_seq :: u64
  ckpt_skips :: u32
  zero_block_hash :: Blake3Hash
  compression_level :: int
  readahead_window_bytes :: nat

abbreviation bsize :: "CacheInner \<Rightarrow> nat" where "bsize c \<equiv> cfg_block_size (config c)"
abbreviation dsize :: "CacheInner \<Rightarrow> nat" where "dsize c \<equiv> device_size (config c)"

text \<open>The bytes of a block that lie inside the device.\<close>

definition valid_bytes :: "CacheInner \<Rightarrow> nat \<Rightarrow> nat" where
  "valid_bytes c block = min (bsize c) (dsize c - block * bsize c)"

section \<open>Block states and counters\<close>

definition ci_is_present :: "CacheInner \<Rightarrow> nat \<Rightarrow> bool option" where
  "ci_is_present c idx = (if num_blocks c \<le> idx then Some False else is_present (state_map c) idx)"

definition sm_set_present :: "SparseStateMap \<Rightarrow> nat \<Rightarrow> SparseStateMap option" where
  "sm_set_present m idx = map_option snd (try_set_present m idx)"

text \<open>
  \<open>set_present\<close> is two steps for the other threads: the check and the invalidation of a
  claim, then the compare-and-swap.  The flag says whether the second step is due.
\<close>

definition set_present_check :: "CacheInner \<Rightarrow> nat \<Rightarrow> (bool \<times> CacheInner) option" where
  "set_present_check c idx =
     (if num_blocks c \<le> idx then Some (False, c)
      else case is_present (state_map c) idx of
             None \<Rightarrow> None
           | Some present \<Rightarrow>
               if present then Some (False, c)
               else Some (True, c\<lparr> promote_claim := invalidate (promote_claim c) idx \<rparr>))"

definition set_present_flip :: "CacheInner \<Rightarrow> nat \<Rightarrow> CacheInner option" where
  "set_present_flip c idx = map_option (\<lambda>m. c\<lparr> state_map := m \<rparr>) (sm_set_present (state_map c) idx)"

definition set_present :: "CacheInner \<Rightarrow> nat \<Rightarrow> CacheInner option" where
  "set_present c idx =
     (case set_present_check c idx of
        None \<Rightarrow> None
      | Some (due, c) \<Rightarrow> if due then set_present_flip c idx else Some c)"

definition ci_try_set_present :: "CacheInner \<Rightarrow> nat \<Rightarrow> (bool \<times> CacheInner) option" where
  "ci_try_set_present c idx =
     (if num_blocks c \<le> idx then Some (False, c)
      else map_option (\<lambda>(won, m). (won, c\<lparr> state_map := m \<rparr>)) (try_set_present (state_map c) idx))"

definition ci_transition_to_dirty :: "CacheInner \<Rightarrow> nat \<Rightarrow> (bool \<times> CacheInner) option" where
  "ci_transition_to_dirty c idx =
     (case transition_to_dirty (state_map c) idx of
        None \<Rightarrow> None
      | Some (AlreadyDirty, m) \<Rightarrow> Some (False, c\<lparr> state_map := m \<rparr>)
      | Some (FromCleanOrNotPresent, m) \<Rightarrow>
          Some (True, c\<lparr> state_map := m, dirty_block_count := dirty_block_count c + 1 \<rparr>)
      | Some (FromSyncing, m) \<Rightarrow>
          Some (True, c\<lparr> state_map := m, syncing_block_count := syncing_block_count c - 1,
                        dirty_block_count := dirty_block_count c + 1 \<rparr>))"

definition ci_transition_dirty_to_syncing :: "CacheInner \<Rightarrow> nat \<Rightarrow> (bool \<times> CacheInner) option" where
  "ci_transition_dirty_to_syncing c idx =
     (case transition_dirty_to_syncing (state_map c) idx of
        None \<Rightarrow> None
      | Some (True, m) \<Rightarrow>
          Some (True, c\<lparr> state_map := m, dirty_block_count := dirty_block_count c - 1,
                        syncing_block_count := syncing_block_count c + 1 \<rparr>)
      | Some (False, m) \<Rightarrow> Some (False, c\<lparr> state_map := m \<rparr>))"

definition ci_transition_syncing_to_not_present :: "CacheInner \<Rightarrow> nat \<Rightarrow> (bool \<times> CacheInner) option" where
  "ci_transition_syncing_to_not_present c idx =
     (case transition_syncing_to_not_present (state_map c) idx of
        None \<Rightarrow> None
      | Some (True, m) \<Rightarrow>
          Some (True, c\<lparr> state_map := m, syncing_block_count := syncing_block_count c - 1 \<rparr>)
      | Some (False, m) \<Rightarrow> Some (False, c\<lparr> state_map := m \<rparr>))"

definition has_any_syncing :: "CacheInner \<Rightarrow> bool" where
  "has_any_syncing c = list_ex (\<lambda>i. sm_get (state_map c) i = Some SYNCING) [0..<num_blocks c]"

section \<open>Claims on blocks\<close>

definition try_claim_block :: "CacheInner \<Rightarrow> nat \<Rightarrow> (bool \<times> CacheInner) option" where
  "try_claim_block c idx =
     (case try_claim_promote (promote_claim c) idx of
        (None, pc) \<Rightarrow> Some (False, c\<lparr> promote_claim := pc \<rparr>)
      | (Some tok, pc) \<Rightarrow>
          map_option (\<lambda>(won, c). (won, c\<lparr> promote_claim := release_token (promote_claim c) idx tok \<rparr>))
            (ci_try_set_present (c\<lparr> promote_claim := pc \<rparr>) idx))"

definition unclaim_block :: "CacheInner \<Rightarrow> nat \<Rightarrow> (bool \<times> CacheInner) option" where
  "unclaim_block c idx =
     map_option (\<lambda>(r, m). (is_ok r, c\<lparr> state_map := m \<rparr>)) (sm_cas (state_map c) idx CLEAN NOT_PRESENT)"

definition claim_block_for_materialization :: "CacheInner \<Rightarrow> nat \<Rightarrow> (ClaimToken option \<times> CacheInner) option" where
  "claim_block_for_materialization c idx =
     (case try_claim_token (promote_claim c) idx of
        (None, pc) \<Rightarrow> Some (None, c\<lparr> promote_claim := pc \<rparr>)
      | (Some tok, pc) \<Rightarrow>
          map_option (\<lambda>(won, c).
              if won then (Some tok, c)
              else (None, c\<lparr> promote_claim := release_token (promote_claim c) idx tok \<rparr>))
            (ci_try_set_present (c\<lparr> promote_claim := pc \<rparr>) idx))"

text \<open>\<open>MaterializationClaim::unclaim\<close>: the compare-and-swap runs only under a valid token.\<close>

definition mc_unclaim :: "CacheInner \<Rightarrow> nat \<Rightarrow> ClaimToken \<Rightarrow> (bool \<times> CacheInner) option" where
  "mc_unclaim c idx tok =
     (case if_valid (promote_claim c) idx tok (\<lambda>_. unclaim_block c idx) of
        None \<Rightarrow> Some (False, c)
      | Some r \<Rightarrow> r)"

definition mc_drop :: "CacheInner \<Rightarrow> nat \<Rightarrow> ClaimToken \<Rightarrow> CacheInner" where
  "mc_drop c idx tok = c\<lparr> promote_claim := release_token (promote_claim c) idx tok \<rparr>"

section \<open>Promotion\<close>

text \<open>
  \<open>promote_syncing_blocks\<close> for one block.  A round of its loop reads the state, takes
  the claim, re-reads the state and copies the block.  What other tasks do between
  the first read and the claim, or while this one is parked on the claim, is the
  function of the round; the flag says whether the deadline has passed by then.  No
  round left means that nobody interferes; a caller that would be parked then is
  \<open>None\<close>.
\<close>

definition promote_copy :: "io_env \<Rightarrow> bytes \<Rightarrow> bool \<Rightarrow> CacheInner \<Rightarrow> nat \<Rightarrow> byte
    \<Rightarrow> ((CacheError + unit) \<times> CacheInner) option" where
  "promote_copy io ff require_promotion c idx st =
     (let off = idx * bsize c in
      case read_exact_at io ff (valid_bytes c idx) off of
        Inl e \<Rightarrow> Some (Inl (Io e), c)
      | Inr buf \<Rightarrow>
          (if st = NOT_PRESENT \<and> list_all (\<lambda>b. b = 0) buf then
             (if require_promotion then Some (Inl BlockEvicted, c) else Some (Inr (), c))
           else case write_all_at io (data_file c) buf off of
                  (Inl e, f) \<Rightarrow> Some (Inl (Io e), c\<lparr> data_file := f \<rparr>)
                | (Inr _, f) \<Rightarrow>
                    (let c = c\<lparr> data_file := f \<rparr> in
                     if st = SYNCING then
                       map_option (\<lambda>(r, m). (Inr (),
                           if is_ok r then c\<lparr> state_map := m,
                                syncing_block_count := syncing_block_count c - 1,
                                dirty_block_count := dirty_block_count c + 1 \<rparr>
                           else c\<lparr> state_map := m \<rparr>))
                         (sm_cas (state_map c) idx SYNCING DIRTY)
                     else
                       map_option (\<lambda>(r, m). (Inr (),
                           if is_ok r then c\<lparr> state_map := m,
                                dirty_block_count := dirty_block_count c + 1 \<rparr>
                           else c\<lparr> state_map := m \<rparr>))
                         (sm_cas (state_map c) idx NOT_PRESENT DIRTY))))"

definition promote_claimed :: "io_env \<Rightarrow> bytes \<Rightarrow> bool \<Rightarrow> CacheInner \<Rightarrow> nat \<Rightarrow> byte \<Rightarrow> ClaimToken
    \<Rightarrow> ((CacheError + unit) \<times> CacheInner) option" where
  "promote_claimed io ff require_promotion c idx st tok =
     map_option (\<lambda>(r, c). (r, c\<lparr> promote_claim := release_token (promote_claim c) idx tok \<rparr>))
       (promote_copy io ff require_promotion c idx st)"

fun promote_block :: "io_env \<Rightarrow> bytes \<Rightarrow> bool \<Rightarrow> (bool \<times> (CacheInner \<Rightarrow> CacheInner)) list
    \<Rightarrow> CacheInner \<Rightarrow> nat \<Rightarrow> ((CacheError + unit) \<times> CacheInner) option" where
  "promote_block io ff require_promotion rounds c idx =
     (case sm_get (state_map c) idx of
        None \<Rightarrow> None
      | Some st \<Rightarrow>
          if st = CLEAN then
            (if require_promotion \<and> is_claimed (promote_claim c) idx then Some (Inl BlockEvicted, c)
             else Some (Inr (), c))
          else if st \<noteq> SYNCING \<and> st \<noteq> NOT_PRESENT then Some (Inr (), c)
          else
            (let expired = (rounds \<noteq> [] \<and> fst (hd rounds));
                 c = (if rounds = [] then c else snd (hd rounds) c);
                 (claimed, pc) =
                   (case try_claim_promote (promote_claim c) idx of
                      (Some tok, pc) \<Rightarrow> (Some tok, pc)
                    | (None, pc) \<Rightarrow>
                        if st = SYNCING then steal_from_materializer pc idx else (None, pc));
                 c = c\<lparr> promote_claim := pc \<rparr>
             in case claimed of
                  None \<Rightarrow>
                    (if expired \<and> is_claimed pc idx \<and> require_promotion then Some (Inl BlockEvicted, c)
                     else case rounds of
                            [] \<Rightarrow> None
                          | _ # rounds' \<Rightarrow> promote_block io ff require_promotion rounds' c idx)
                | Some tok \<Rightarrow>
                    (if sm_get (state_map c) idx \<noteq> Some st then
                       (let c = c\<lparr> promote_claim := release_token (promote_claim c) idx tok \<rparr>
                        in case rounds of
                             [] \<Rightarrow> None
                           | _ # rounds' \<Rightarrow> promote_block io ff require_promotion rounds' c idx)
                     else promote_claimed io ff require_promotion c idx st tok)))"

declare promote_block.simps [simp del]


fun promote_blocks :: "io_env \<Rightarrow> bytes \<Rightarrow> bool \<Rightarrow> (nat \<Rightarrow> (bool \<times> (CacheInner \<Rightarrow> CacheInner)) list)
    \<Rightarrow> nat list \<Rightarrow> CacheInner \<Rightarrow> ((CacheError + unit) \<times> CacheInner) option" where
  "promote_blocks io ff require_promotion sched [] c = Some (Inr (), c)"
| "promote_blocks io ff require_promotion sched (idx # blocks) c =
     (if num_blocks c \<le> idx \<or> valid_bytes c idx = 0
      then promote_blocks io ff require_promotion sched blocks c
      else case promote_block io ff require_promotion (sched idx) c idx of
             None \<Rightarrow> None
           | Some (Inl e, c') \<Rightarrow> Some (Inl e, c')
           | Some (Inr _, c') \<Rightarrow> promote_blocks io ff require_promotion sched blocks c')"

fun check_promoted :: "nat list \<Rightarrow> CacheInner \<Rightarrow> (CacheError + unit) option" where
  "check_promoted [] c = Some (Inr ())"
| "check_promoted (idx # blocks) c =
     (if num_blocks c \<le> idx then check_promoted blocks c
      else case sm_get (state_map c) idx of
             None \<Rightarrow> None
           | Some st \<Rightarrow>
               if st = SYNCING \<or> st = NOT_PRESENT then Some (Inl BlockEvicted)
               else if st = CLEAN \<and> is_claimed (promote_claim c) idx then Some (Inl BlockEvicted)
               else check_promoted blocks c)"

definition promote_syncing_blocks :: "io_env \<Rightarrow> (nat \<Rightarrow> (bool \<times> (CacheInner \<Rightarrow> CacheInner)) list)
    \<Rightarrow> nat list \<Rightarrow> bool \<Rightarrow> CacheInner \<Rightarrow> ((CacheError + unit) \<times> CacheInner) option" where
  "promote_syncing_blocks io sched blocks require_promotion c =
     (case flushing_file c of
        Some ff \<Rightarrow> promote_blocks io ff require_promotion sched blocks c
      | None \<Rightarrow>
          if require_promotion then map_option (\<lambda>r. (r, c)) (check_promoted blocks c)
          else Some (Inr (), c))"

section \<open>Well-formed caches\<close>

definition states :: "CacheInner \<Rightarrow> byte list" where
  "states c = sm_abs (state_map c)"

definition geometry_ok :: "CacheInner \<Rightarrow> bool" where
  "geometry_ok c \<longleftrightarrow> 0 < bsize c \<and> 0 < dsize c \<and> num_blocks c = cfg_num_blocks (config c)
     \<and> num_blocks c \<le> 2 ^ 32 \<and> dsize c < 2 ^ 64 \<and> pages_per_block c * PAGE_SIZE = bsize c"

definition counters_ok :: "CacheInner \<Rightarrow> bool" where
  "counters_ok c \<longleftrightarrow> dirty_block_count c = of_nat (count_list (states c) DIRTY)
     \<and> syncing_block_count c = of_nat (count_list (states c) SYNCING)"

definition ci_wf :: "CacheInner \<Rightarrow> bool" where
  "ci_wf c \<longleftrightarrow> geometry_ok c \<and> sm_inv (state_map c) \<and> num_entries (state_map c) = num_blocks c
     \<and> length (data_file c) = dsize c \<and> (\<forall>ff. flushing_file c = Some ff \<longrightarrow> length ff = dsize c)
     \<and> counters_ok c"

text \<open>What the state operations may change besides the states.\<close>

definition same_rest :: "CacheInner \<Rightarrow> CacheInner \<Rightarrow> bool" where
  "same_rest c c' \<longleftrightarrow> c' = c\<lparr> state_map := state_map c', dirty_block_count := dirty_block_count c',
     syncing_block_count := syncing_block_count c', promote_claim := promote_claim c' \<rparr>"

lemma same_rest_refl [simp]: "same_rest c c"
  by (simp add: same_rest_def)

lemma same_rest_trans [trans]: "\<lbrakk> same_rest a b; same_rest b c \<rbrakk> \<Longrightarrow> same_rest a c"
  unfolding same_rest_def by (cases a, cases b, cases c) simp

lemma same_rest_simps:
  assumes "same_rest c c'"
  shows "config c' = config c" "data_file c' = data_file c" "flushing_file c' = flushing_file c"
    "num_blocks c' = num_blocks c" "page_crcs c' = page_crcs c" "pages_per_block c' = pages_per_block c"
    "sequence c' = sequence c" "wal c' = wal c" "fenced c' = fenced c"
    "flushing_active c' = flushing_active c" "rotation_seq c' = rotation_seq c"
    "flushing_disk c' = flushing_disk c" "metadata_file c' = metadata_file c"
    "geometry_ok c' = geometry_ok c" "valid_bytes c' = valid_bytes c"
    "zero_block_hash c' = zero_block_hash c" "compression_level c' = compression_level c"
  using assms unfolding same_rest_def
  by (cases c, cases c', simp add: geometry_ok_def valid_bytes_def fun_eq_iff)+

lemma length_states: "ci_wf c \<Longrightarrow> length (states c) = num_blocks c"
  by (simp add: ci_wf_def states_def)

lemma ci_get: "\<lbrakk> ci_wf c; i < num_blocks c \<rbrakk> \<Longrightarrow> sm_get (state_map c) i = Some (states c ! i)"
  unfolding states_def by (rule spm.get_abs) (auto simp: ci_wf_def)

lemma ci_state_cases:
  assumes "ci_wf c" "i < num_blocks c"
  obtains "states c ! i = NOT_PRESENT" | "states c ! i = CLEAN"
    | "states c ! i = DIRTY" | "states c ! i = SYNCING"
  using spm.state_cases [of "state_map c" i] assms by (auto simp: ci_wf_def states_def)

lemma count_list_update:
  "i < length xs \<Longrightarrow> count_list (xs[i := v]) s + of_bool (xs ! i = s) = count_list xs s + of_bool (v = s)"
proof (induction xs arbitrary: i)
  case (Cons x xs)
  show ?case using Cons.IH [of "i - 1"] Cons.prems by (cases i) simp_all
qed simp

lemma block_state_distinct [simp]:
  "NOT_PRESENT \<noteq> CLEAN" "CLEAN \<noteq> NOT_PRESENT" "NOT_PRESENT \<noteq> DIRTY" "DIRTY \<noteq> NOT_PRESENT"
  "NOT_PRESENT \<noteq> SYNCING" "SYNCING \<noteq> NOT_PRESENT" "CLEAN \<noteq> DIRTY" "DIRTY \<noteq> CLEAN"
  "CLEAN \<noteq> SYNCING" "SYNCING \<noteq> CLEAN" "DIRTY \<noteq> SYNCING" "SYNCING \<noteq> DIRTY"
  by (simp_all add: state_consts)

lemma valid_states [simp]: "valid_state NOT_PRESENT" "valid_state CLEAN" "valid_state DIRTY" "valid_state SYNCING"
  by (simp_all add: valid_state_def)

text \<open>Writing one entry moves the counters with it.\<close>

lemma count_move:
  assumes "i < length xs" "xs ! i \<noteq> v"
  shows "(of_nat (count_list (xs[i := v]) v) :: u64) = of_nat (count_list xs v) + 1"
    "(of_nat (count_list (xs[i := v]) (xs ! i)) :: u64) = of_nat (count_list xs (xs ! i)) - 1"
    "s \<noteq> v \<Longrightarrow> s \<noteq> xs ! i \<Longrightarrow> count_list (xs[i := v]) s = count_list xs s"
proof -
  show "(of_nat (count_list (xs[i := v]) v) :: u64) = of_nat (count_list xs v) + 1"
    using count_list_update [OF assms(1), of v v] assms(2) by (simp add: add.commute)
  have "count_list xs (xs ! i) = count_list (xs[i := v]) (xs ! i) + 1"
    using count_list_update [OF assms(1), of v "xs ! i"] assms(2) by simp
  then show "(of_nat (count_list (xs[i := v]) (xs ! i)) :: u64) = of_nat (count_list xs (xs ! i)) - 1"
    by simp
  show "count_list (xs[i := v]) s = count_list xs s" if "s \<noteq> v" "s \<noteq> xs ! i"
    using count_list_update [OF assms(1), of v s] that by simp
qed


lemma ci_wf_move:
  assumes "ci_wf c" "i < num_blocks c" "states c ! i \<noteq> v" "same_rest c c'"
    and "sm_inv (state_map c')" "states c' = (states c)[i := v]"
    and "dirty_block_count c' = dirty_block_count c + of_bool (v = DIRTY) - of_bool (states c ! i = DIRTY)"
    and "syncing_block_count c' = syncing_block_count c + of_bool (v = SYNCING) - of_bool (states c ! i = SYNCING)"
  shows "ci_wf c'"
proof -
  have i: "i < length (states c)" using assms(1,2) by (simp add: length_states)
  have n: "num_entries (state_map c') = num_blocks c"
    using assms(6) length_states [OF assms(1)] by (metis length_list_update length_sm_abs states_def)
  have "of_nat (count_list ((states c)[i := v]) t)
      = of_nat (count_list (states c) t) + of_bool (v = t) - (of_bool (states c ! i = t) :: u64)" for t
    using count_move [OF i assms(3)] assms(3) by (cases "v = t"; cases "states c ! i = t") auto
  then have "counters_ok c'" using assms(1,6-8) by (simp add: ci_wf_def counters_ok_def)
  then show ?thesis
    using assms(1,4,5) n by (simp add: ci_wf_def same_rest_simps [OF assms(4)])
qed

lemma ci_wf_same_states:
  assumes "ci_wf c" "same_rest c c'" "sm_inv (state_map c')" "states c' = states c"
    and "dirty_block_count c' = dirty_block_count c" "syncing_block_count c' = syncing_block_count c"
  shows "ci_wf c'"
  using assms length_states [OF assms(1)] length_sm_abs [of "state_map c'"]
  by (simp add: ci_wf_def counters_ok_def same_rest_simps [OF assms(2)] states_def)

lemma ci_cas:
  assumes "ci_wf c" "i < num_blocks c" "valid_state v"
  shows "\<exists>m. sm_cas (state_map c) i e v
        = Some (if states c ! i = e then Inr e else Inl (states c ! i), m)
    \<and> sm_inv m \<and> sm_abs m = (if states c ! i = e then (states c)[i := v] else states c)"
proof -
  have "sm_inv (state_map c)" "i < length (sm_abs (state_map c))" using assms by (auto simp: ci_wf_def)
  then obtain m where "sm_cas (state_map c) i e v
        = Some (if sm_abs (state_map c) ! i = e then Inr e else Inl (sm_abs (state_map c) ! i), m)"
    "sm_inv m" "sm_abs m = (if sm_abs (state_map c) ! i = e then (sm_abs (state_map c))[i := v] else sm_abs (state_map c))"
    using assms(3) by (rule spm.cas_abs)
  then show ?thesis unfolding states_def by blast
qed

lemma ci_transition_to_dirty_ok:
  assumes "ci_wf c" "i < num_blocks c"
  shows "\<exists>c'. ci_transition_to_dirty c i = Some (states c ! i \<noteq> DIRTY, c') \<and> ci_wf c'
     \<and> states c' = (states c)[i := DIRTY] \<and> same_rest c c' \<and> promote_claim c' = promote_claim c"
proof -
  have "sm_inv (state_map c)" "i < length (sm_abs (state_map c))" using assms by (auto simp: ci_wf_def)
  then obtain t m where m: "transition_to_dirty (state_map c) i = Some (t, m)" "sm_inv m"
    "sm_abs m = (states c)[i := DIRTY]"
    "t = AlreadyDirty \<longleftrightarrow> states c ! i = DIRTY" "t = FromSyncing \<longleftrightarrow> states c ! i = SYNCING"
    using spm.to_dirty_alone unfolding transition_to_dirty_def states_def by blast
  show ?thesis
  proof (cases "states c ! i = DIRTY")
    case True
    define c' where "c' = c\<lparr> state_map := m \<rparr>"
    have abs: "states c' = states c" using m(3) True list_update_id [of "states c" i] by (simp add: c'_def states_def)
    have "same_rest c c'" by (simp add: c'_def same_rest_def)
    moreover have "ci_wf c'"
      by (rule ci_wf_same_states [OF assms(1) \<open>same_rest c c'\<close> _ abs]) (simp_all add: c'_def m)
    moreover have "states c' = (states c)[i := DIRTY]" using m(3) by (simp add: c'_def states_def)
    ultimately show ?thesis using True m by (simp add: ci_transition_to_dirty_def c'_def)
  next
    case False
    define c' where "c' = c\<lparr> state_map := m, dirty_block_count := dirty_block_count c + 1,
      syncing_block_count := syncing_block_count c - of_bool (states c ! i = SYNCING) \<rparr>"
    have abs: "states c' = (states c)[i := DIRTY]" using m(3) by (simp add: c'_def states_def)
    have r: "same_rest c c'" by (simp add: c'_def same_rest_def)
    have wf: "ci_wf c'"
      by (rule ci_wf_move [OF assms False r _ abs]) (simp_all add: c'_def m False)
    have "ci_transition_to_dirty c i = Some (True, c')"
      using False m by (cases t) (auto simp: ci_transition_to_dirty_def c'_def)
    then show ?thesis using False abs r wf by (simp add: c'_def)
  qed
qed


text \<open>
  The effect of a compare-and-swap together with its counter updates; \<open>moved\<close> is the
  cache a successful one leaves.
\<close>

definition moved :: "CacheInner \<Rightarrow> nat \<Rightarrow> byte \<Rightarrow> SparseStateMap \<Rightarrow> CacheInner" where
  "moved c i v m = c\<lparr> state_map := m,
     dirty_block_count := dirty_block_count c + of_bool (v = DIRTY) - of_bool (states c ! i = DIRTY),
     syncing_block_count := syncing_block_count c + of_bool (v = SYNCING) - of_bool (states c ! i = SYNCING) \<rparr>"

lemma moved_ok:
  assumes "ci_wf c" "i < num_blocks c" "states c ! i \<noteq> v" "sm_inv m" "sm_abs m = (states c)[i := v]"
  shows "ci_wf (moved c i v m)" "states (moved c i v m) = (states c)[i := v]"
    "same_rest c (moved c i v m)" "promote_claim (moved c i v m) = promote_claim c"
proof -
  show abs: "states (moved c i v m) = (states c)[i := v]"
    using assms(5) by (simp add: moved_def states_def)
  show r: "same_rest c (moved c i v m)" by (simp add: moved_def same_rest_def)
  show "ci_wf (moved c i v m)"
    by (rule ci_wf_move [OF assms(1-3) r _ abs]) (simp_all add: moved_def assms(4))
  show "promote_claim (moved c i v m) = promote_claim c" by (simp add: moved_def)
qed

lemma unmoved_ok:
  assumes "ci_wf c" "sm_inv m" "sm_abs m = states c"
  shows "ci_wf (c\<lparr> state_map := m \<rparr>)" "states (c\<lparr> state_map := m \<rparr>) = states c"
    "same_rest c (c\<lparr> state_map := m \<rparr>)"
proof -
  show abs: "states (c\<lparr> state_map := m \<rparr>) = states c" using assms(3) by (simp add: states_def)
  show r: "same_rest c (c\<lparr> state_map := m \<rparr>)" by (simp add: same_rest_def)
  show "ci_wf (c\<lparr> state_map := m \<rparr>)"
    by (rule ci_wf_same_states [OF assms(1) r _ abs]) (simp_all add: assms(2))
qed

lemma ci_transition_dirty_to_syncing_ok:
  assumes "ci_wf c" "i < num_blocks c"
  shows "\<exists>c'. ci_transition_dirty_to_syncing c i = Some (states c ! i = DIRTY, c') \<and> ci_wf c'
     \<and> states c' = (if states c ! i = DIRTY then (states c)[i := SYNCING] else states c)
     \<and> same_rest c c' \<and> promote_claim c' = promote_claim c"
proof -
  obtain m where m: "sm_cas (state_map c) i DIRTY SYNCING
        = Some (if states c ! i = DIRTY then Inr DIRTY else Inl (states c ! i), m)"
    "sm_inv m" "sm_abs m = (if states c ! i = DIRTY then (states c)[i := SYNCING] else states c)"
    using ci_cas [OF assms, of SYNCING DIRTY] by auto
  show ?thesis
  proof (cases "states c ! i = DIRTY")
    case True
    then show ?thesis
      using m moved_ok [OF assms, of SYNCING m]
      by (simp add: ci_transition_dirty_to_syncing_def transition_dirty_to_syncing_def moved_def)
  next
    case False
    then show ?thesis
      using m unmoved_ok [OF assms(1), of m]
      by (simp add: ci_transition_dirty_to_syncing_def transition_dirty_to_syncing_def)
  qed
qed

lemma ci_transition_syncing_to_not_present_ok:
  assumes "ci_wf c" "i < num_blocks c"
  shows "\<exists>c'. ci_transition_syncing_to_not_present c i = Some (states c ! i = SYNCING, c') \<and> ci_wf c'
     \<and> states c' = (if states c ! i = SYNCING then (states c)[i := NOT_PRESENT] else states c)
     \<and> same_rest c c' \<and> promote_claim c' = promote_claim c"
proof -
  obtain m where m: "sm_cas (state_map c) i SYNCING NOT_PRESENT
        = Some (if states c ! i = SYNCING then Inr SYNCING else Inl (states c ! i), m)"
    "sm_inv m" "sm_abs m = (if states c ! i = SYNCING then (states c)[i := NOT_PRESENT] else states c)"
    using ci_cas [OF assms, of NOT_PRESENT SYNCING] by auto
  show ?thesis
  proof (cases "states c ! i = SYNCING")
    case True
    then show ?thesis
      using m moved_ok [OF assms, of NOT_PRESENT m]
      by (simp add: ci_transition_syncing_to_not_present_def transition_syncing_to_not_present_def moved_def)
  next
    case False
    then show ?thesis
      using m unmoved_ok [OF assms(1), of m]
      by (simp add: ci_transition_syncing_to_not_present_def transition_syncing_to_not_present_def)
  qed
qed

lemma ci_wf_claim [simp]: "ci_wf (c\<lparr> promote_claim := pc \<rparr>) = ci_wf c"
  by (simp add: ci_wf_def counters_ok_def geometry_ok_def states_def)

lemma states_claim [simp]: "states (c\<lparr> promote_claim := pc \<rparr>) = states c"
  by (simp add: states_def)

lemma same_rest_claim [simp]: "same_rest c (c'\<lparr> promote_claim := pc \<rparr>) = same_rest c c'"
  by (cases c, cases c') (simp add: same_rest_def)

lemma ci_try_set_present_ok:
  assumes "ci_wf c" "i < num_blocks c"
  shows "\<exists>c'. ci_try_set_present c i = Some (states c ! i = NOT_PRESENT, c') \<and> ci_wf c'
     \<and> states c' = (if states c ! i = NOT_PRESENT then (states c)[i := CLEAN] else states c)
     \<and> same_rest c c' \<and> promote_claim c' = promote_claim c"
proof -
  have "sm_inv (state_map c)" "i < num_entries (state_map c)" using assms by (auto simp: ci_wf_def)
  then obtain m where m: "try_set_present (state_map c) i = Some (states c ! i = NOT_PRESENT, m)" "sm_inv m"
    "sm_abs m = (if states c ! i = NOT_PRESENT then (states c)[i := CLEAN] else states c)"
    using try_set_present_eq unfolding states_def by blast
  show ?thesis
  proof (cases "states c ! i = NOT_PRESENT")
    case True
    then show ?thesis
      using m moved_ok [OF assms, of CLEAN m] assms(2)
      by (simp add: ci_try_set_present_def moved_def)
  next
    case False
    then show ?thesis
      using m unmoved_ok [OF assms(1), of m] assms(2) by (simp add: ci_try_set_present_def)
  qed
qed

lemma set_present_ok:
  assumes "ci_wf c" "i < num_blocks c"
  shows "\<exists>c'. set_present c i = Some c' \<and> ci_wf c'
     \<and> states c' = (if states c ! i = NOT_PRESENT then (states c)[i := CLEAN] else states c)
     \<and> same_rest c c'
     \<and> promote_claim c' = (if states c ! i = NOT_PRESENT then invalidate (promote_claim c) i
                           else promote_claim c)"
proof (cases "states c ! i = NOT_PRESENT")
  case True
  obtain c' where c': "ci_try_set_present c i = Some (True, c')" "ci_wf c'" "states c' = (states c)[i := CLEAN]"
    "same_rest c c'" "promote_claim c' = promote_claim c"
    using ci_try_set_present_ok [OF assms] True by auto
  have "set_present c i = Some (c'\<lparr> promote_claim := invalidate (promote_claim c) i \<rparr>)"
    using c'(1) True assms(2) ci_get [OF assms]
    by (auto simp: set_present_def set_present_check_def set_present_flip_def is_present_def
        sm_set_present_def ci_try_set_present_def)
  then show ?thesis using c' True by simp
next
  case False
  then show ?thesis
    using assms ci_get [OF assms] by (simp add: set_present_def set_present_check_def is_present_def)
qed


section \<open>Promotion without interference\<close>

definition blk :: "CacheInner \<Rightarrow> bytes \<Rightarrow> nat \<Rightarrow> bytes" where
  "blk c f i = bslice (i * bsize c) (i * bsize c + valid_bytes c i) f"

text \<open>What promotion may change besides the states and the claims: the active file.\<close>

definition same_but_data :: "CacheInner \<Rightarrow> CacheInner \<Rightarrow> bool" where
  "same_but_data c c' \<longleftrightarrow> same_rest (c\<lparr> data_file := data_file c' \<rparr>) c'"

lemma same_rest_but_data: "same_rest c c' \<Longrightarrow> same_but_data c c'"
  unfolding same_but_data_def same_rest_def by (cases c, cases c') simp

lemma same_but_data_refl [simp]: "same_but_data c c"
  by (simp add: same_but_data_def)

lemma same_but_data_trans [trans]: "\<lbrakk> same_but_data a b; same_but_data b c \<rbrakk> \<Longrightarrow> same_but_data a c"
  unfolding same_but_data_def same_rest_def by (cases a, cases b, cases c) simp

lemma same_but_data_simps:
  assumes "same_but_data c c'"
  shows "config c' = config c" "flushing_file c' = flushing_file c"
    "num_blocks c' = num_blocks c" "page_crcs c' = page_crcs c" "pages_per_block c' = pages_per_block c"
    "sequence c' = sequence c" "wal c' = wal c" "fenced c' = fenced c"
    "flushing_active c' = flushing_active c" "rotation_seq c' = rotation_seq c"
    "flushing_disk c' = flushing_disk c" "metadata_file c' = metadata_file c"
    "geometry_ok c' = geometry_ok c" "valid_bytes c' = valid_bytes c" "blk c' = blk c"
  using assms unfolding same_but_data_def same_rest_def
  by (cases c, cases c', simp add: geometry_ok_def valid_bytes_def blk_def fun_eq_iff)+

lemma ci_wf_data [simp]:
  "length f = length (data_file c) \<Longrightarrow> ci_wf (c\<lparr> data_file := f \<rparr>) = ci_wf c"
  by (simp add: ci_wf_def counters_ok_def geometry_ok_def states_def)

lemma states_data [simp]: "states (c\<lparr> data_file := f \<rparr>) = states c"
  by (simp add: states_def)

lemma block_start_less:
  assumes "geometry_ok c" "i < num_blocks c"
  shows "i * bsize c < dsize c"
proof -
  have "Suc i \<le> (dsize c + bsize c - 1) div bsize c"
    using assms by (simp add: geometry_ok_def cfg_num_blocks_def div_ceil_def)
  then have "Suc i * bsize c \<le> dsize c + bsize c - 1"
    by (meson div_times_less_eq_dividend mult_le_mono1 order.trans)
  moreover have "0 < bsize c" "0 < dsize c" using assms(1) by (auto simp: geometry_ok_def)
  ultimately show ?thesis unfolding mult_Suc by linarith
qed

lemma device_covered: "geometry_ok c \<Longrightarrow> dsize c \<le> num_blocks c * bsize c"
proof -
  assume g: "geometry_ok c"
  let ?n = "dsize c + bsize c - 1"
  have "?n < Suc (?n div bsize c) * bsize c" using g by (simp add: geometry_ok_def dividend_less_div_times)
  then show ?thesis using g by (simp add: geometry_ok_def cfg_num_blocks_def div_ceil_def)
qed

lemma valid_bytes_bounds:
  assumes "geometry_ok c" "i < num_blocks c"
  shows "0 < valid_bytes c i" "i * bsize c + valid_bytes c i \<le> dsize c" "valid_bytes c i \<le> bsize c"
  using block_start_less [OF assms] assms(1) by (auto simp: valid_bytes_def geometry_ok_def)

lemma length_blk:
  assumes "geometry_ok c" "i < num_blocks c" "length f = dsize c"
  shows "length (blk c f i) = valid_bytes c i"
  using valid_bytes_bounds [OF assms(1,2)] assms(3) by (simp add: blk_def length_slice)

text \<open>The byte at a device offset belongs to the block of that offset.\<close>

lemma in_block_iff:
  assumes "geometry_ok c" "k < dsize c"
  shows "i * bsize c \<le> k \<and> k < i * bsize c + valid_bytes c i \<longleftrightarrow> k div bsize c = i"
proof -
  have bs: "0 < bsize c" using assms(1) by (simp add: geometry_ok_def)
  have "k div bsize c = i \<longleftrightarrow> i * bsize c \<le> k \<and> k < i * bsize c + bsize c"
    using bs by (metis add.commute div_nat_eqI dividend_less_div_times div_times_less_eq_dividend mult.commute mult_Suc)
  then show ?thesis using assms(2) by (auto simp: valid_bytes_def min_def)
qed

lemma nth_blk:
  assumes "geometry_ok c" "k < dsize c" "length f = dsize c"
  shows "blk c f (k div bsize c) ! (k - k div bsize c * bsize c) = f ! k"
proof -
  define i where "i = k div bsize c"
  have r: "i * bsize c \<le> k \<and> k < i * bsize c + valid_bytes c i"
    using in_block_iff [OF assms(1,2), of i] by (simp add: i_def)
  have "i < num_blocks c"
  proof (rule ccontr)
    assume "\<not> ?thesis"
    then have "num_blocks c * bsize c \<le> i * bsize c" by simp
    then show False using device_covered [OF assms(1)] r assms(2) by linarith
  qed
  then have "i * bsize c + valid_bytes c i \<le> dsize c" by (rule valid_bytes_bounds [OF assms(1)])
  then have "blk c f i ! (k - i * bsize c) = f ! k"
    unfolding blk_def using r assms(3) by (subst nth_bslice) auto
  then show ?thesis by (simp add: i_def)
qed

lemma nth_overwrite_blk:
  assumes "geometry_ok c" "k < dsize c" "length f = dsize c" "length g = dsize c" "i < num_blocks c"
  shows "overwrite g (i * bsize c) (blk c f i) ! k = (if k div bsize c = i then f ! k else g ! k)"
proof -
  have "length (blk c f i) = valid_bytes c i" by (rule length_blk [OF assms(1,5,3)])
  moreover have "i * bsize c + valid_bytes c i \<le> dsize c" by (rule valid_bytes_bounds [OF assms(1,5)])
  ultimately show ?thesis
    using in_block_iff [OF assms(1,2), of i] nth_blk [OF assms(1-3)] assms(2,4)
    by (simp add: nth_overwrite) blast
qed

definition promotable :: "CacheInner \<Rightarrow> bytes \<Rightarrow> nat \<Rightarrow> bool" where
  "promotable c ff i \<longleftrightarrow> states c ! i = SYNCING \<or> states c ! i = NOT_PRESENT \<and> \<not> all_zero (blk c ff i)"

lemma is_claimed_claim_release:
  "claim pc i mat = (Some tok, pc') \<Longrightarrow> is_claimed (release_token pc' i tok) j = is_claimed pc j"
  by (auto simp: claim_def is_claimed_def release_token_def Let_def bt_get_insert bt_get_remove
      split: if_splits)

lemma promote_copy_ok:
  assumes wf: "ci_wf c" and i: "i < num_blocks c" and ff: "length ff = dsize c" and io: "io_works io"
    and st: "states c ! i = SYNCING \<or> states c ! i = NOT_PRESENT"
  shows "\<exists>c'. promote_copy io ff req c i (states c ! i)
       = Some (if req \<and> \<not> promotable c ff i then Inl BlockEvicted else Inr (), c') \<and> ci_wf c'
     \<and> same_but_data c c' \<and> promote_claim c' = promote_claim c
     \<and> states c' = (if promotable c ff i then (states c)[i := DIRTY] else states c)
     \<and> data_file c' = (if promotable c ff i then overwrite (data_file c) (i * bsize c) (blk c ff i) else data_file c)"
proof -
  have g: "geometry_ok c" and df: "length (data_file c) = dsize c" using wf by (auto simp: ci_wf_def)
  note vb = valid_bytes_bounds [OF g i]
  have rd: "read_exact_at io ff (valid_bytes c i) (i * bsize c) = Inr (blk c ff i)"
    using vb(2) ff io by (simp add: read_exact_at_def blk_def)
  show ?thesis
  proof (cases "promotable c ff i")
    case True
    let ?f = "overwrite (data_file c) (i * bsize c) (blk c ff i)"
    let ?d = "c\<lparr> data_file := ?f \<rparr>"
    have lf: "length ?f = length (data_file c)"
      using length_blk [OF g i ff] vb(2) df by simp
    then have wd: "ci_wf ?d" using wf by simp
    have id: "i < num_blocks ?d" using i by simp
    obtain m where m: "sm_cas (state_map ?d) i (states ?d ! i) DIRTY = Some (Inr (states ?d ! i), m)"
      "sm_inv m" "sm_abs m = (states ?d)[i := DIRTY]"
      using ci_cas [OF wd id, of DIRTY "states ?d ! i"] by auto
    have nd: "states ?d ! i \<noteq> DIRTY" using st by auto
    note mv = moved_ok [OF wd id nd m(2,3)]
    have nz: "\<not> (states c ! i = NOT_PRESENT \<and> list_all (\<lambda>b. b = 0) (blk c ff i))"
      using True st by (auto simp: promotable_def all_zero_def)
    have wr: "write_all_at io (data_file c) (blk c ff i) (i * bsize c) = (Inr (), ?f)"
      using io by (simp add: write_all_at_def)
    have "promote_copy io ff req c i (states c ! i) = Some (Inr (), moved ?d i DIRTY m)"
    proof (cases "states c ! i = SYNCING")
      case True
      then show ?thesis using m(1) by (simp add: promote_copy_def rd wr Let_def moved_def)
    next
      case False
      then have "states c ! i = NOT_PRESENT" using st by simp
      then show ?thesis using m(1) nz by (simp add: promote_copy_def rd wr Let_def moved_def)
    qed
    moreover have "same_but_data c (moved ?d i DIRTY m)"
      using mv(3) by (simp add: same_but_data_def moved_def)
    ultimately show ?thesis using True mv by (simp add: moved_def)
  next
    case False
    then have "states c ! i = NOT_PRESENT" "list_all (\<lambda>b. b = 0) (blk c ff i)"
      using st by (auto simp: promotable_def all_zero_def)
    then show ?thesis using False wf by (simp add: promote_copy_def rd)
  qed
qed

lemma promote_block_seq:
  assumes wf: "ci_wf c" and i: "i < num_blocks c" and ff: "length ff = dsize c" and io: "io_works io"
    and free: "\<not> is_claimed (promote_claim c) i"
  shows "\<exists>c'. promote_block io ff req [] c i
       = Some (if req \<and> states c ! i = NOT_PRESENT \<and> \<not> promotable c ff i then Inl BlockEvicted else Inr (), c')
     \<and> ci_wf c' \<and> same_but_data c c' \<and> (\<forall>j. is_claimed (promote_claim c') j = is_claimed (promote_claim c) j)
     \<and> states c' = (if promotable c ff i then (states c)[i := DIRTY] else states c)
     \<and> data_file c' = (if promotable c ff i then overwrite (data_file c) (i * bsize c) (blk c ff i) else data_file c)"
proof (cases "states c ! i = SYNCING \<or> states c ! i = NOT_PRESENT")
  case True
  obtain tok pc where pc: "claim (promote_claim c) i False = (Some tok, pc)"
    using free by (auto simp: claim_def is_claimed_def Let_def)
  let ?c = "c\<lparr> promote_claim := pc \<rparr>"
  have w: "ci_wf ?c" "i < num_blocks ?c" "length ff = dsize ?c"
    "states ?c ! i = SYNCING \<or> states ?c ! i = NOT_PRESENT" using wf i ff True by auto
  have pq: "promotable ?c ff i = promotable c ff i" "blk ?c ff i = blk c ff i"
    by (simp_all add: promotable_def blk_def valid_bytes_def)
  obtain c' where c': "promote_copy io ff req ?c i (states c ! i)
       = Some (if req \<and> \<not> promotable c ff i then Inl BlockEvicted else Inr (), c')" "ci_wf c'"
     "same_but_data ?c c'" "promote_claim c' = pc"
     "states c' = (if promotable c ff i then (states c)[i := DIRTY] else states c)"
     "data_file c' = (if promotable c ff i then overwrite (data_file c) (i * bsize c) (blk c ff i) else data_file c)"
    using promote_copy_ok [OF w(1-3) io w(4), of req] unfolding pq by (elim exE conjE) (simp only: states_claim, simp)
  let ?c' = "c'\<lparr> promote_claim := release_token pc i tok \<rparr>"
  have nc: "states c ! i \<noteq> CLEAN" using True by auto
  have np: "\<not> promotable c ff i \<Longrightarrow> states c ! i = NOT_PRESENT" using True by (auto simp: promotable_def)
  have "promote_block io ff req [] c i = promote_claimed io ff req ?c i (states c ! i) tok"
    using True nc ci_get [OF wf i] pc by (auto simp: promote_block.simps try_claim_promote_def)
  also have "\<dots> = Some (if req \<and> \<not> promotable c ff i then Inl BlockEvicted else Inr (), ?c')"
    by (simp add: promote_claimed_def c')
  finally have "promote_block io ff req [] c i
      = Some (if req \<and> states c ! i = NOT_PRESENT \<and> \<not> promotable c ff i then Inl BlockEvicted else Inr (), ?c')"
    using np by auto
  moreover have "same_but_data c ?c'"
    using c'(3) by (cases c, cases c') (simp add: same_but_data_def same_rest_def)
  ultimately show ?thesis
    using c' is_claimed_claim_release [OF pc] by (intro exI [of _ ?c']) simp
next
  case False
  then have "states c ! i = CLEAN \<or> states c ! i = DIRTY" by (rule_tac ci_state_cases [OF wf i]) auto
  then show ?thesis
    using ci_get [OF wf i] free wf by (auto simp: promote_block.simps promotable_def)
qed


text \<open>
  Promotion of a range: it fails exactly when a block has to be recovered and cannot,
  and otherwise each promotable block is dirty with the bytes of the flushing file.
\<close>

lemma promote_blocks_seq:
  assumes "ci_wf c" "length ff = dsize c" "io_works io" "distinct blocks" "\<forall>i\<in>set blocks. i < num_blocks c"
    and "\<forall>i\<in>set blocks. \<not> is_claimed (promote_claim c) i"
    and "\<not> (req \<and> (\<exists>i\<in>set blocks. states c ! i = NOT_PRESENT \<and> \<not> promotable c ff i))"
  shows "\<exists>c'. promote_blocks io ff req (\<lambda>_. []) blocks c = Some (Inr (), c') \<and> ci_wf c' \<and> same_but_data c c'
     \<and> (\<forall>j. is_claimed (promote_claim c') j = is_claimed (promote_claim c) j)
     \<and> (\<forall>i<num_blocks c. states c' ! i = (if i \<in> set blocks \<and> promotable c ff i then DIRTY else states c ! i))
     \<and> (\<forall>k<dsize c. data_file c' ! k = (if k div bsize c \<in> set blocks \<and> promotable c ff (k div bsize c)
                                          then ff ! k else data_file c ! k))"
  using assms
proof (induction blocks arbitrary: c)
  case Nil
  then show ?case by auto
next
  case (Cons a blocks)
  have a: "a < num_blocks c" and free: "\<not> is_claimed (promote_claim c) a" using Cons.prems by auto
  have g: "geometry_ok c" and df: "length (data_file c) = dsize c" using Cons.prems(1) by (auto simp: ci_wf_def)
  have ok: "\<not> (req \<and> states c ! a = NOT_PRESENT \<and> \<not> promotable c ff a)" using Cons.prems(7) by auto
  obtain c1 where c1: "promote_block io ff req [] c a = Some (Inr (), c1)" "ci_wf c1" "same_but_data c c1"
     "\<forall>j. is_claimed (promote_claim c1) j = is_claimed (promote_claim c) j"
     "states c1 = (if promotable c ff a then (states c)[a := DIRTY] else states c)"
     "data_file c1 = (if promotable c ff a then overwrite (data_file c) (a * bsize c) (blk c ff a) else data_file c)"
    using promote_block_seq [OF Cons.prems(1) a Cons.prems(2,3) free, of req] ok by (simp only: if_False) blast
  note f = same_but_data_simps [OF c1(3)]
  have ls: "length (states c) = num_blocks c" by (rule length_states [OF Cons.prems(1)])
  have pr: "promotable c1 ff i = promotable c ff i" "states c1 ! i = states c ! i"
    if "i \<in> set blocks" for i
  proof -
    have "i \<noteq> a" using that Cons.prems(4) by auto
    then show st: "states c1 ! i = states c ! i" by (simp add: c1(5))
    then show "promotable c1 ff i = promotable c ff i" by (simp add: promotable_def f)
  qed
  have d1: "data_file c1 ! k = (if k div bsize c = a \<and> promotable c ff a then ff ! k else data_file c ! k)"
    if k: "k < dsize c" for k
    using nth_overwrite_blk [OF g k Cons.prems(2) df a] by (simp add: c1(6))
  have e1: "length ff = dsize c1" "distinct blocks" "\<forall>i\<in>set blocks. i < num_blocks c1"
    "\<forall>i\<in>set blocks. \<not> is_claimed (promote_claim c1) i"
    using Cons.prems c1(4) by (auto simp: f)
  have e2: "\<not> (req \<and> (\<exists>i\<in>set blocks. states c1 ! i = NOT_PRESENT \<and> \<not> promotable c1 ff i))"
    using Cons.prems(7) pr by auto
  obtain c' where c': "promote_blocks io ff req (\<lambda>_. []) blocks c1 = Some (Inr (), c')" "ci_wf c'" "same_but_data c1 c'"
     "\<forall>j. is_claimed (promote_claim c') j = is_claimed (promote_claim c1) j"
     "\<forall>i<num_blocks c. states c' ! i = (if i \<in> set blocks \<and> promotable c1 ff i then DIRTY else states c1 ! i)"
     "\<forall>k<dsize c. data_file c' ! k = (if k div bsize c \<in> set blocks \<and> promotable c1 ff (k div bsize c)
                                          then ff ! k else data_file c1 ! k)"
    using Cons.IH [OF c1(2) e1(1) Cons.prems(3) e1(2-4) e2] unfolding f by blast
  have na: "a \<notin> set blocks" using Cons.prems(4) by simp
  have "valid_bytes c a \<noteq> 0" using valid_bytes_bounds(1) [OF g a] by simp
  then have "promote_blocks io ff req (\<lambda>_. []) (a # blocks) c = Some (Inr (), c')"
    using a c1(1) c'(1) by simp
  moreover have "states c' ! i = (if i \<in> set (a # blocks) \<and> promotable c ff i then DIRTY else states c ! i)"
    if "i < num_blocks c" for i
    using c'(5) that pr na ls by (cases "i = a") (auto simp: c1(5))
  moreover have "data_file c' ! k = (if k div bsize c \<in> set (a # blocks) \<and> promotable c ff (k div bsize c)
      then ff ! k else data_file c ! k)" if "k < dsize c" for k
    using c'(6) that pr(1) na d1 [OF that] by (cases "k div bsize c = a") auto
  ultimately show ?case
    using c'(2-4) c1(3,4) same_but_data_trans by (intro exI [of _ c']) blast
qed


section \<open>Sequences of state operations\<close>

datatype state_op =
    MarkPresent nat
  | MarkDirty nat
  | ClaimForFlush nat
  | Evict nat
  | TryClaim nat
  | Unclaim nat
  | Materialize nat

fun state_step :: "state_op \<Rightarrow> CacheInner \<Rightarrow> CacheInner option" where
  "state_step (MarkPresent i) c = set_present c i"
| "state_step (MarkDirty i) c = map_option snd (ci_transition_to_dirty c i)"
| "state_step (ClaimForFlush i) c = map_option snd (ci_transition_dirty_to_syncing c i)"
| "state_step (Evict i) c = map_option snd (ci_transition_syncing_to_not_present c i)"
| "state_step (TryClaim i) c = map_option snd (try_claim_block c i)"
| "state_step (Unclaim i) c = map_option snd (unclaim_block c i)"
| "state_step (Materialize i) c = map_option snd (claim_block_for_materialization c i)"

primrec op_block :: "state_op \<Rightarrow> nat" where
  "op_block (MarkPresent i) = i"
| "op_block (MarkDirty i) = i"
| "op_block (ClaimForFlush i) = i"
| "op_block (Evict i) = i"
| "op_block (TryClaim i) = i"
| "op_block (Unclaim i) = i"
| "op_block (Materialize i) = i"

fun state_run :: "state_op list \<Rightarrow> CacheInner \<Rightarrow> CacheInner option" where
  "state_run [] c = Some c"
| "state_run (op # ops) c = (case state_step op c of None \<Rightarrow> None | Some c' \<Rightarrow> state_run ops c')"

lemma unclaim_block_ok:
  assumes "ci_wf c" "i < num_blocks c"
  shows "\<exists>c'. unclaim_block c i = Some (states c ! i = CLEAN, c') \<and> ci_wf c' \<and> same_rest c c'
     \<and> states c' = (if states c ! i = CLEAN then (states c)[i := NOT_PRESENT] else states c)"
proof -
  obtain m where m: "sm_cas (state_map c) i CLEAN NOT_PRESENT
        = Some (if states c ! i = CLEAN then Inr CLEAN else Inl (states c ! i), m)"
    "sm_inv m" "sm_abs m = (if states c ! i = CLEAN then (states c)[i := NOT_PRESENT] else states c)"
    using ci_cas [OF assms, of NOT_PRESENT CLEAN] by auto
  show ?thesis
  proof (cases "states c ! i = CLEAN")
    case True
    then show ?thesis
      using m moved_ok [OF assms, of NOT_PRESENT m] by (simp add: unclaim_block_def moved_def)
  next
    case False
    then show ?thesis using m unmoved_ok [OF assms(1), of m] by (simp add: unclaim_block_def)
  qed
qed

lemma same_rest_from_claim: "same_rest (c\<lparr> promote_claim := pc \<rparr>) c' = same_rest c c'"
  by (cases c, cases c') (simp add: same_rest_def)

lemma claim_then_present:
  assumes "ci_wf c" "i < num_blocks c"
  shows "\<exists>c'. ci_try_set_present (c\<lparr> promote_claim := pc \<rparr>) i = Some (states c ! i = NOT_PRESENT, c')
     \<and> ci_wf c' \<and> same_rest c c' \<and> promote_claim c' = pc
     \<and> states c' = (if states c ! i = NOT_PRESENT then (states c)[i := CLEAN] else states c)"
  using ci_try_set_present_ok [of "c\<lparr> promote_claim := pc \<rparr>" i] assms
  by (cases "states c ! i = NOT_PRESENT") (auto simp: same_rest_from_claim)

lemma try_claim_block_ok:
  assumes "ci_wf c" "i < num_blocks c"
  shows "\<exists>r c'. try_claim_block c i = Some (r, c') \<and> ci_wf c' \<and> same_rest c c'"
proof -
  obtain t pc where pc: "try_claim_promote (promote_claim c) i = (t, pc)" by fastforce
  obtain c' where c': "ci_try_set_present (c\<lparr> promote_claim := pc \<rparr>) i = Some (states c ! i = NOT_PRESENT, c')"
    "ci_wf c'" "same_rest c c'"
    using claim_then_present [OF assms] by blast
  show ?thesis using assms(1) pc c' by (cases t) (auto simp: try_claim_block_def)
qed

lemma claim_block_for_materialization_ok:
  assumes "ci_wf c" "i < num_blocks c"
  shows "\<exists>r c'. claim_block_for_materialization c i = Some (r, c') \<and> ci_wf c' \<and> same_rest c c'"
proof -
  obtain t pc where pc: "try_claim_token (promote_claim c) i = (t, pc)" by fastforce
  obtain c' where c': "ci_try_set_present (c\<lparr> promote_claim := pc \<rparr>) i = Some (states c ! i = NOT_PRESENT, c')"
    "ci_wf c'" "same_rest c c'"
    using claim_then_present [OF assms] by blast
  show ?thesis
    using assms(1) pc c'
    by (cases t; cases "states c ! i = NOT_PRESENT") (simp_all add: claim_block_for_materialization_def)
qed

lemma state_step_ok:
  assumes "ci_wf c" "op_block op < num_blocks c"
  shows "\<exists>c'. state_step op c = Some c' \<and> ci_wf c' \<and> same_rest c c'"
proof (cases op)
  case (MarkPresent i)
  then show ?thesis using set_present_ok [OF assms(1), of i] assms(2) by auto
next
  case (MarkDirty i)
  then show ?thesis using ci_transition_to_dirty_ok [OF assms(1), of i] assms(2) by auto
next
  case (ClaimForFlush i)
  then show ?thesis using ci_transition_dirty_to_syncing_ok [OF assms(1), of i] assms(2) by auto
next
  case (Evict i)
  then show ?thesis using ci_transition_syncing_to_not_present_ok [OF assms(1), of i] assms(2) by auto
next
  case (TryClaim i)
  then show ?thesis using try_claim_block_ok [OF assms(1), of i] assms(2) by auto
next
  case (Unclaim i)
  then show ?thesis using unclaim_block_ok [OF assms(1), of i] assms(2) by auto
next
  case (Materialize i)
  then show ?thesis using claim_block_for_materialization_ok [OF assms(1), of i] assms(2) by auto
qed

text \<open>
  C12: Whatever sequence of state transitions and claims runs on the blocks of a
  well-formed cache, no operation panics and the dirty and syncing counters, which
  gate the flush scheduler, stay equal to the number of blocks in those states.
\<close>

theorem counters_exact:
  assumes "ci_wf c" "\<forall>op\<in>set ops. op_block op < num_blocks c"
  shows "\<exists>c'. state_run ops c = Some c' \<and> ci_wf c'
     \<and> dirty_block_count c' = of_nat (count_list (states c') DIRTY)
     \<and> syncing_block_count c' = of_nat (count_list (states c') SYNCING)"
  using assms
proof (induction ops arbitrary: c)
  case Nil
  then show ?case by (simp add: ci_wf_def counters_ok_def)
next
  case (Cons op ops)
  obtain c1 where c1: "state_step op c = Some c1" "ci_wf c1" "same_rest c c1"
    using state_step_ok [OF Cons.prems(1), of op] Cons.prems(2) by auto
  then show ?case
    using Cons.IH [OF c1(2)] Cons.prems(2) by (simp add: same_rest_simps [OF c1(3)])
qed

definition demo_cache :: CacheInner where
  "demo_cache = \<lparr> config = \<lparr> device_size = 8192, cfg_block_size = 4096, wal_sync = False \<rparr>,
     data_file = replicate 8192 0, flushing_file = None, flushing_disk = None, flushing_active = False,
     state_map = sm_new 2, promote_claim = pc_new, num_blocks = 2, dirty_block_count = 0,
     syncing_block_count = 0, sequence = 0, wal = [], metadata_file = None, handoff_phase = 0,
     manifest_etag = None, current_generation = 0, current_lease_revision = 0, fenced = False,
     page_crcs = [], pages_per_block = 1, rotation_seq = 0, ckpt_skips = 0, zero_block_hash = 0,
     compression_level = 1, readahead_window_bytes = 0 \<rparr>"

lemma states_demo: "states demo_cache = [NOT_PRESENT, NOT_PRESENT]"
proof -
  have "div_ceil 2 STATE_PAGE_ENTRIES = 1" by (simp add: div_ceil_def page_consts)
  then show ?thesis by (simp add: states_def demo_cache_def sm_abs_def sm_new_def dir_state_def numeral_2_eq_2)
qed

lemma demo_cache_wf: "ci_wf demo_cache"
proof -
  have "geometry_ok demo_cache"
    by (simp add: geometry_ok_def demo_cache_def cfg_num_blocks_def div_ceil_def PAGE_SIZE_def)
  moreover have "counters_ok demo_cache"
    by (simp add: counters_ok_def states_demo) (simp add: demo_cache_def)
  ultimately show ?thesis by (simp add: ci_wf_def) (simp add: demo_cache_def)
qed

theorem counters_exact_witness:
  "\<exists>c'. state_run [MarkPresent 0, MarkDirty 0, MarkDirty 1, ClaimForFlush 1] demo_cache = Some c' \<and> ci_wf c'
     \<and> dirty_block_count c' = of_nat (count_list (states c') DIRTY)
     \<and> syncing_block_count c' = of_nat (count_list (states c') SYNCING)"
proof (rule counters_exact [OF demo_cache_wf])
  have "num_blocks demo_cache = 2" by (simp add: demo_cache_def)
  then show "\<forall>op\<in>set [MarkPresent 0, MarkDirty 0, MarkDirty 1, ClaimForFlush 1]. op_block op < num_blocks demo_cache"
    by simp
qed


text \<open>
  C27: The two steps of \<open>set_present\<close> leave a window.  A task marks a block present: it
  sees the block absent and finds no claim to invalidate.  Before its compare-and-swap
  a materialization claims the block, another guest write commits it, and a flush
  uploads and evicts it.  When the first task then flips the block to CLEAN, the
  materialization's token is still valid, so its commit test (valid token, state
  CLEAN) passes although newer data was written and uploaded since the claim.
\<close>

theorem set_present_race:
  assumes "ci_wf c" "i < num_blocks c" "states c ! i = NOT_PRESENT" "\<not> is_claimed (promote_claim c) i"
  shows "\<exists>z tok c1 c2 c3 c4 c5.
       set_present_check c i = Some (True, z)
     \<and> claim_block_for_materialization z i = Some (Some tok, c1)
     \<and> ci_transition_to_dirty c1 i = Some (True, c2)
     \<and> ci_transition_dirty_to_syncing c2 i = Some (True, c3)
     \<and> ci_transition_syncing_to_not_present c3 i = Some (True, c4)
     \<and> set_present_flip c4 i = Some c5
     \<and> states c5 ! i = CLEAN \<and> is_valid (promote_claim c5) i tok"
proof -
  have "invalidate (promote_claim c) i = promote_claim c"
    using assms(4) by (simp add: invalidate_def is_claimed_def)
  then have z: "set_present_check c i = Some (True, c)"
    using assms(2,3) ci_get [OF assms(1,2)] by (simp add: set_present_check_def is_present_def)
  obtain tok pc where pc: "try_claim_token (promote_claim c) i = (Some tok, pc)" "is_valid pc i tok"
    using assms(4) by (auto simp: try_claim_token_def claim_def is_claimed_def Let_def is_valid_def
        if_valid_def bt_get_insert)
  obtain c1 where c1: "ci_try_set_present (c\<lparr> promote_claim := pc \<rparr>) i = Some (True, c1)" "ci_wf c1"
    "same_rest c c1" "promote_claim c1 = pc" "states c1 = (states c)[i := CLEAN]"
    using claim_then_present [OF assms(1,2), of pc] assms(3) by auto
  have m: "claim_block_for_materialization c i = Some (Some tok, c1)"
    using pc(1) c1(1) by (simp add: claim_block_for_materialization_def)
  have i: "i < length (states c)" using assms(1,2) by (simp add: length_states)
  have i1: "i < num_blocks c1" using assms(2) by (simp add: same_rest_simps [OF c1(3)])
  obtain c2 where c2: "ci_transition_to_dirty c1 i = Some (True, c2)" "ci_wf c2" "same_rest c1 c2"
    "promote_claim c2 = pc" "states c2 = (states c)[i := DIRTY]"
    using ci_transition_to_dirty_ok [OF c1(2) i1] c1(4,5) i by auto
  have i2: "i < num_blocks c2" using i1 by (simp add: same_rest_simps [OF c2(3)])
  obtain c3 where c3: "ci_transition_dirty_to_syncing c2 i = Some (True, c3)" "ci_wf c3" "same_rest c2 c3"
    "promote_claim c3 = pc" "states c3 = (states c)[i := SYNCING]"
    using ci_transition_dirty_to_syncing_ok [OF c2(2) i2] c2(4,5) i by auto
  have i3: "i < num_blocks c3" using i2 by (simp add: same_rest_simps [OF c3(3)])
  obtain c4 where c4: "ci_transition_syncing_to_not_present c3 i = Some (True, c4)" "ci_wf c4" "same_rest c3 c4"
    "promote_claim c4 = pc" "states c4 = (states c)[i := NOT_PRESENT]"
    using ci_transition_syncing_to_not_present_ok [OF c3(2) i3] c3(4,5) i by auto
  have i4: "i < num_blocks c4" using i3 by (simp add: same_rest_simps [OF c4(3)])
  obtain c5 where c5: "ci_try_set_present c4 i = Some (True, c5)" "promote_claim c5 = pc"
    "states c5 = (states c)[i := CLEAN]"
    using ci_try_set_present_ok [OF c4(2) i4] c4(4,5) i by auto
  have "set_present_flip c4 i = Some c5"
    using c5(1) i4 by (auto simp: set_present_flip_def sm_set_present_def ci_try_set_present_def split: if_splits)
  then show ?thesis
    using z m c2(1) c3(1) c4(1) c5(2,3) pc(2) i by (intro exI conjI) auto
qed

theorem set_present_race_witness:
  "\<exists>z tok c1 c2 c3 c4 c5.
       set_present_check demo_cache 1 = Some (True, z)
     \<and> claim_block_for_materialization z 1 = Some (Some tok, c1)
     \<and> ci_transition_to_dirty c1 1 = Some (True, c2)
     \<and> ci_transition_dirty_to_syncing c2 1 = Some (True, c3)
     \<and> ci_transition_syncing_to_not_present c3 1 = Some (True, c4)
     \<and> set_present_flip c4 1 = Some c5
     \<and> states c5 ! 1 = CLEAN \<and> is_valid (promote_claim c5) 1 tok"
proof (rule set_present_race [OF demo_cache_wf])
  show "1 < num_blocks demo_cache" by (simp add: demo_cache_def)
  show "states demo_cache ! 1 = NOT_PRESENT" by (simp add: states_demo)
  show "\<not> is_claimed (promote_claim demo_cache) 1"
    by (simp add: demo_cache_def pc_new_def is_claimed_def bt_get_def)
qed

end
