(* ===== verification/Metadata.thy ===== *)
theory Metadata
  imports CacheInner
begin

text \<open>
  The checkpoint file of the write cache: \<open>save_block_states\<close>, \<open>save_metadata\<close> and
  \<open>load_metadata\<close> of \<open>glidefs/src/block/write_cache/inner.rs\<close>.  The file holds a header,
  the present blocks with their states, the sequence number the snapshot covers, the
  sequence number of the last rotation and a checksum of everything before it.  The
  checksum function is the parameter \<open>crc\<close>; a failed system call of the save is the
  argument \<open>fault\<close>, which leaves the published file as it was, because the new one is
  written beside it and renamed.
\<close>

section \<open>Saving\<close>

definition METADATA_MAGIC :: bytes where "METADATA_MAGIC = [71, 76, 73, 68, 69, 67, 67, 72]"
definition METADATA_VERSION :: u32 where "METADATA_VERSION = 5"

definition meta_header :: "CacheInner \<Rightarrow> bytes" where
  "meta_header c = METADATA_MAGIC @ to_le_bytes METADATA_VERSION
     @ to_le_bytes (of_nat (dsize c) :: u64) @ to_le_bytes (of_nat (bsize c) :: u64)
     @ to_le_bytes (of_nat (num_blocks c) :: u64)"

definition meta_entry :: "nat \<times> byte \<Rightarrow> bytes" where
  "meta_entry e = to_le_bytes (of_nat (fst e) :: u32) @ [snd e]"

definition meta_content :: "u64 \<Rightarrow> CacheInner \<Rightarrow> bytes" where
  "meta_content covered_seq c =
     (let entries = iter_present (state_map c)
      in meta_header c @ to_le_bytes (of_nat (length entries) :: u64)
           @ concat (map meta_entry entries)
           @ to_le_bytes covered_seq @ to_le_bytes (rotation_seq c))"

text \<open>
  The sequence number is read first; \<open>writers\<close> is what other threads do before the
  state map is serialized.
\<close>

definition save_block_states :: "(bytes \<Rightarrow> u32) \<Rightarrow> io_error option \<Rightarrow> (CacheInner \<Rightarrow> CacheInner)
    \<Rightarrow> CacheInner \<Rightarrow> (CacheError + u64) \<times> CacheInner" where
  "save_block_states crc fault writers c =
     (let covered_seq = seq_current (sequence c); c = writers c
      in case fault of
           Some e \<Rightarrow> (Inl (Io e), c)
         | None \<Rightarrow>
             (let content = meta_content covered_seq c
              in (Inr covered_seq, c\<lparr> metadata_file := Some (content @ to_le_bytes (crc content)) \<rparr>)))"

definition save_metadata :: "(bytes \<Rightarrow> u32) \<Rightarrow> io_error option \<Rightarrow> (CacheInner \<Rightarrow> CacheInner)
    \<Rightarrow> CacheInner \<Rightarrow> (CacheError + unit) \<times> CacheInner" where
  "save_metadata crc fault writers c =
     (case save_block_states crc fault writers c of
        (Inl e, c) \<Rightarrow> (Inl e, c)
      | (Inr _, c) \<Rightarrow> (Inr (), c))"

section \<open>Loading\<close>

text \<open>The loop over the entries: the state map, the dirty count and the rest of the file.\<close>

fun load_entries :: "nat \<Rightarrow> nat \<Rightarrow> bytes \<Rightarrow> SparseStateMap \<Rightarrow> nat
    \<Rightarrow> CacheError + SparseStateMap \<times> nat \<times> bytes" where
  "load_entries nb 0 bs m dirty_count = Inr (m, dirty_count, bs)"
| "load_entries nb (Suc n) bs m dirty_count =
     (case read_exact 5 bs of
        Inl e \<Rightarrow> Inl (Io e)
      | Inr (entry_buf, rest) \<Rightarrow>
          (let idx = unat (from_le_bytes (take 4 entry_buf) :: u32); st = entry_buf ! 4
           in if nb \<le> idx then load_entries nb n rest m dirty_count
              else let dirty_count = (if st = DIRTY \<or> st = SYNCING then dirty_count + 1 else dirty_count)
                   in case sm_set_present m idx of
                        None \<Rightarrow> Inl Panicked
                      | Some m1 \<Rightarrow>
                          if st \<noteq> CLEAN then
                            (case sm_cas m1 idx CLEAN st of
                               None \<Rightarrow> Inl Panicked
                             | Some (_, m2) \<Rightarrow> load_entries nb n rest m2 dirty_count)
                          else load_entries nb n rest m1 dirty_count))"

text \<open>
  Everything behind the header: entry count, entries, the two sequence numbers and
  the checksum trailer.  The checksum covers what was read before the trailer.
\<close>

definition load_body :: "(bytes \<Rightarrow> u32) \<Rightarrow> nat \<Rightarrow> bytes \<Rightarrow> bytes
    \<Rightarrow> CacheError + SparseStateMap \<times> nat \<times> u64 \<times> u64" where
  "load_body crc nb file bs =
     (case read_exact 8 bs of
        Inl e \<Rightarrow> Inl (Io e)
      | Inr (count_buf, r1) \<Rightarrow>
          sum_bind (load_entries nb (unat (from_le_bytes count_buf :: u64)) r1 (sm_new nb) 0)
            (\<lambda>(m, dirty_count, r2).
              case read_exact 8 r2 of
                Inl e \<Rightarrow> Inl (Io e)
              | Inr (seq_buf, r3) \<Rightarrow>
                  (case read_exact 8 r3 of
                     Inl e \<Rightarrow> Inl (Io e)
                   | Inr (rot_buf, r4) \<Rightarrow>
                       (let computed_crc = crc (take (length file - length r4) file)
                        in case read_exact 4 r4 of
                             Inl _ \<Rightarrow> Inl InvalidMetadata
                           | Inr (crc_buf, _) \<Rightarrow>
                               if from_le_bytes crc_buf \<noteq> computed_crc then Inl InvalidMetadata
                               else Inr (m, dirty_count, from_le_bytes seq_buf, from_le_bytes rot_buf)))))"

definition load_metadata :: "(bytes \<Rightarrow> u32) \<Rightarrow> WriteCacheConfig \<Rightarrow> bytes option
    \<Rightarrow> CacheError + SparseStateMap \<times> nat \<times> u64 \<times> u64" where
  "load_metadata crc cfg stored =
     (case stored of
        None \<Rightarrow> Inr (sm_new (cfg_num_blocks cfg), 0, 0, 0)
      | Some file \<Rightarrow>
          (case read_exact 36 file of
             Inl e \<Rightarrow> Inl (Io e)
           | Inr (header, rest) \<Rightarrow>
               (if bslice 0 8 header \<noteq> METADATA_MAGIC then Inl InvalidMetadata
                else if unat (from_le_bytes (bslice 20 28 header) :: u64) \<noteq> cfg_block_size cfg
                  then Inl InvalidMetadata
                else if device_size cfg < unat (from_le_bytes (bslice 12 20 header) :: u64)
                  then Inl InvalidMetadata
                else if (from_le_bytes (bslice 8 12 header) :: u32) < 4 then Inl (Io InvalidData)
                else load_body crc (cfg_num_blocks cfg) file rest)))"

section \<open>The entry loop\<close>

lemma read_exact_append:
  "length a = n \<Longrightarrow> read_exact n (a @ b) = Inr (a, b)"
  by (simp add: read_exact_def)

lemma length_meta_entry [simp]: "length (meta_entry e) = 5"
  by (simp add: meta_entry_def)

lemma length_meta_entries: "length (concat (map meta_entry es)) = 5 * length es"
  by (induction es) simp_all

definition put_states :: "(nat \<times> byte) list \<Rightarrow> byte list \<Rightarrow> byte list" where
  "put_states es xs = fold (\<lambda>(i, s) xs. xs[i := s]) es xs"

lemma length_put_states [simp]: "length (put_states es xs) = length xs"
  unfolding put_states_def by (induction es arbitrary: xs) auto

lemma nth_put_states:
  "\<lbrakk> distinct (map fst es); j < length xs \<rbrakk>
    \<Longrightarrow> put_states es xs ! j = (case map_of es j of Some s \<Rightarrow> s | None \<Rightarrow> xs ! j)"
proof (induction es arbitrary: xs)
  case (Cons e es)
  obtain i s where e: "e = (i, s)" by (cases e)
  have "put_states (e # es) xs = put_states es (xs[i := s])" by (simp add: put_states_def e)
  moreover have "map_of es i = None" using Cons.prems(1) by (auto simp: e map_of_eq_None_iff)
  ultimately show ?case
    using Cons.IH [of "xs[i := s]"] Cons.prems by (auto simp: e nth_list_update split: option.splits)
qed (simp add: put_states_def)

lemma load_one:
  assumes "sm_inv m" "num_entries m = nb" "i < nb" "valid_state s" "s \<noteq> NOT_PRESENT"
    and "sm_abs m ! i = NOT_PRESENT"
  obtains m1 where "sm_set_present m i = Some m1" "sm_inv m1" "sm_abs m1 = (sm_abs m)[i := CLEAN]"
    and "s \<noteq> CLEAN \<Longrightarrow> \<exists>r m2. sm_cas m1 i CLEAN s = Some (r, m2) \<and> sm_inv m2 \<and> sm_abs m2 = (sm_abs m)[i := s]"
proof -
  obtain m1 where m1: "sm_set_present m i = Some m1" "sm_inv m1" "sm_abs m1 = (sm_abs m)[i := CLEAN]"
    using try_set_present_eq [of m i] assms by (auto simp: sm_set_present_def)
  have "i < length (sm_abs m1)" using m1(3) assms(2,3) by simp
  then obtain m2 where "sm_cas m1 i CLEAN s = Some (Inr CLEAN, m2)" "sm_inv m2" "sm_abs m2 = (sm_abs m1)[i := s]"
    using spm.cas_abs [OF m1(2) _ assms(4), of i CLEAN] m1(3) assms(2,3) by auto
  then show thesis using m1 that by auto
qed

lemma load_entries_all:
  assumes "sm_inv m" "num_entries m = nb" "distinct (map fst es)" "nb \<le> 2 ^ 32"
    and "\<forall>(i, s)\<in>set es. i < nb \<and> valid_state s \<and> s \<noteq> NOT_PRESENT \<and> sm_abs m ! i = NOT_PRESENT"
  shows "\<exists>m'. load_entries nb (length es) (concat (map meta_entry es) @ rest) m d
       = Inr (m', d + length (filter (\<lambda>(_, s). s = DIRTY \<or> s = SYNCING) es), rest)
     \<and> sm_inv m' \<and> sm_abs m' = put_states es (sm_abs m)"
  using assms
proof (induction es arbitrary: m d)
  case Nil
  then show ?case by (simp add: put_states_def)
next
  case (Cons e es)
  obtain i s where e: "e = (i, s)" by (cases e)
  have es: "i < nb" "valid_state s" "s \<noteq> NOT_PRESENT" "sm_abs m ! i = NOT_PRESENT"
    using Cons.prems(5) by (auto simp: e)
  obtain m1 where m1: "sm_set_present m i = Some m1" "sm_inv m1" "sm_abs m1 = (sm_abs m)[i := CLEAN]"
    and m2: "s \<noteq> CLEAN \<Longrightarrow> \<exists>r m2. sm_cas m1 i CLEAN s = Some (r, m2) \<and> sm_inv m2 \<and> sm_abs m2 = (sm_abs m)[i := s]"
    using load_one [OF Cons.prems(1,2) es] by blast
  define d' where "d' = (if s = DIRTY \<or> s = SYNCING then d + 1 else d)"
  have ix: "unat (from_le_bytes (take 4 (meta_entry e)) :: u32) = i"
    using es(1) Cons.prems(4) by (simp add: e meta_entry_def unat_of_nat)
  have st: "meta_entry e ! 4 = s" by (simp add: e meta_entry_def nth_append)
  obtain m' where m': "sm_inv m'" "sm_abs m' = (sm_abs m)[i := s]" and
    run: "load_entries nb (length (e # es)) (concat (map meta_entry (e # es)) @ rest) m d
       = load_entries nb (length es) (concat (map meta_entry es) @ rest) m' d'"
  proof (cases "s = CLEAN")
    case True
    then show thesis
      using that [of m1] m1 es(1) ix st by (simp add: read_exact_append d'_def)
  next
    case False
    then obtain r n where n: "sm_cas m1 i CLEAN s = Some (r, n)" "sm_inv n" "sm_abs n = (sm_abs m)[i := s]"
      using m2 by blast
    then show thesis
      using that [of n] False m1 es(1) ix st by (simp add: read_exact_append d'_def)
  qed
  have "num_entries m' = nb" using num_entries_abs [OF m'(2)] Cons.prems(2) by simp
  moreover have "\<forall>(j, t)\<in>set es. j < nb \<and> valid_state t \<and> t \<noteq> NOT_PRESENT \<and> sm_abs m' ! j = NOT_PRESENT"
  proof -
    have "sm_abs m' ! j = sm_abs m ! j" if "(j, t) \<in> set es" for j t
    proof -
      have "j \<noteq> i" using that Cons.prems(3) by (force simp: e)
      then show ?thesis by (simp add: m'(2))
    qed
    then show ?thesis using Cons.prems(5) by fastforce
  qed
  ultimately obtain m'' where
    "load_entries nb (length es) (concat (map meta_entry es) @ rest) m' d'
       = Inr (m'', d' + length (filter (\<lambda>(_, s). s = DIRTY \<or> s = SYNCING) es), rest)"
    "sm_inv m''" "sm_abs m'' = put_states es (sm_abs m')"
    using Cons.IH [OF m'(1), of d'] Cons.prems(3,4) by auto
  then show ?case unfolding run by (auto simp: e d'_def m'(2) put_states_def)
qed

section \<open>Round trip\<close>

lemma present_entries:
  fixes xs :: "byte list"
  defines "es \<equiv> filter (\<lambda>(_, s). s \<noteq> NOT_PRESENT) (List.enumerate 0 xs)"
  shows "distinct (map fst es)" "(i, s) \<in> set es \<Longrightarrow> i < length xs \<and> s = xs ! i \<and> s \<noteq> NOT_PRESENT"
    "map_of es j = (if j < length xs \<and> xs ! j \<noteq> NOT_PRESENT then Some (xs ! j) else None)"
    "length (filter (\<lambda>(_, s). s = DIRTY \<or> s = SYNCING) es) = count_list xs DIRTY + count_list xs SYNCING"
proof -
  show d: "distinct (map fst es)" unfolding es_def by (intro distinct_map_filter) simp
  have mem: "(i, s) \<in> set es \<longleftrightarrow> i < length xs \<and> s = xs ! i \<and> s \<noteq> NOT_PRESENT" for i s
    by (auto simp: es_def in_set_enumerate_eq)
  then show "(i, s) \<in> set es \<Longrightarrow> i < length xs \<and> s = xs ! i \<and> s \<noteq> NOT_PRESENT" by blast
  show "map_of es j = (if j < length xs \<and> xs ! j \<noteq> NOT_PRESENT then Some (xs ! j) else None)"
  proof (cases "j < length xs \<and> xs ! j \<noteq> NOT_PRESENT")
    case True
    then show ?thesis using map_of_is_SomeI [OF d, of j "xs ! j"] mem by auto
  next
    case False
    then have "j \<notin> fst ` set es" using mem by auto
    then show ?thesis using False by (auto simp: map_of_eq_None_iff)
  qed
  have "filter (\<lambda>(_, s). s = DIRTY \<or> s = SYNCING) es = filter (\<lambda>(_, s). s = DIRTY \<or> s = SYNCING) (List.enumerate 0 xs)"
    unfolding es_def by (simp add: case_prod_unfold) (rule filter_cong, auto)
  moreover have "length (filter (\<lambda>(_, s). s = DIRTY \<or> s = SYNCING) (List.enumerate n xs))
      = count_list xs DIRTY + count_list xs SYNCING" for n
    by (induction xs arbitrary: n) auto
  ultimately show "length (filter (\<lambda>(_, s). s = DIRTY \<or> s = SYNCING) es) = count_list xs DIRTY + count_list xs SYNCING"
    by simp
qed

lemma iter_present_states: "ci_wf c \<Longrightarrow>
  iter_present (state_map c) = filter (\<lambda>(_, s). s \<noteq> NOT_PRESENT) (List.enumerate 0 (states c))"
  by (simp add: ci_wf_def states_def iter_present_eq)

lemma length_METADATA_MAGIC [simp]: "length METADATA_MAGIC = 8"
  by (simp add: METADATA_MAGIC_def)

lemma length_meta_header [simp]: "length (meta_header c) = 36"
  by (simp add: meta_header_def)

lemma meta_header_fields:
  "bslice 0 8 (meta_header c) = METADATA_MAGIC"
  "from_le_bytes (bslice 8 12 (meta_header c)) = METADATA_VERSION"
  "from_le_bytes (bslice 12 20 (meta_header c)) = (of_nat (dsize c) :: u64)"
  "from_le_bytes (bslice 20 28 (meta_header c)) = (of_nat (bsize c) :: u64)"
  by (simp_all add: meta_header_def bslice_def)

lemma sm_abs_new: "sm_abs (sm_new n) = replicate n NOT_PRESENT"
proof (rule nth_equalityI)
  fix i assume "i < length (sm_abs (sm_new n))"
  then have i: "i < n" by simp
  have "i div 16384 < div_ceil n STATE_PAGE_ENTRIES"
    using page_in_range [OF sm_inv_new [of n], of i] i by (simp add: sm_new_def Let_def)
  then show "sm_abs (sm_new n) ! i = replicate n NOT_PRESENT ! i"
    using i by (simp add: sm_abs_def sm_new_def Let_def dir_state_def)
qed simp

lemma load_body_content:
  assumes wf: "ci_wf c" and nb: "num_blocks c \<le> nb" "nb \<le> 2 ^ 32"
    and flq: "fl = meta_content sq c @ to_le_bytes (crc (meta_content sq c))"
  shows "\<exists>m. load_body crc nb fl (drop 36 fl)
       = Inr (m, count_list (states c) DIRTY + count_list (states c) SYNCING, sq, rotation_seq c)
     \<and> sm_inv m \<and> sm_abs m = states c @ replicate (nb - num_blocks c) NOT_PRESENT"
proof -
  define es where "es = iter_present (state_map c)"
  have es: "es = filter (\<lambda>(_, s). s \<noteq> NOT_PRESENT) (List.enumerate 0 (states c))"
    unfolding es_def by (rule iter_present_states [OF wf])
  note pe = present_entries [where xs = "states c", folded es]
  have ls: "length (states c) = num_blocks c" by (rule length_states [OF wf])
  have le: "length es \<le> nb"
    unfolding es using nb(1) by (intro order_trans [OF length_filter_le]) (simp add: ls)
  have vs: "valid_state (states c ! i)" if "i < num_blocks c" for i
    using ci_state_cases [OF wf that] by (metis valid_states)
  have ok: "\<forall>(i, s)\<in>set es. i < nb \<and> valid_state s \<and> s \<noteq> NOT_PRESENT \<and> sm_abs (sm_new nb) ! i = NOT_PRESENT"
  proof clarify
    fix i s assume "(i, s) \<in> set es"
    from pe(2) [OF this] show "i < nb \<and> valid_state s \<and> s \<noteq> NOT_PRESENT \<and> sm_abs (sm_new nb) ! i = NOT_PRESENT"
      using vs nb(1) ls by (auto simp: sm_abs_new)
  qed
  define tl where "tl = to_le_bytes sq @ to_le_bytes (rotation_seq c) @ to_le_bytes (crc (meta_content sq c))"
  obtain m where m: "load_entries nb (length es) (concat (map meta_entry es) @ tl) (sm_new nb) 0
       = Inr (m, count_list (states c) DIRTY + count_list (states c) SYNCING, tl)"
    "sm_inv m" "sm_abs m = put_states es (sm_abs (sm_new nb))"
    using load_entries_all [OF sm_inv_new num_entries_new pe(1) nb(2) ok, of tl 0] pe(4) by auto
  have ct: "unat (from_le_bytes (to_le_bytes (of_nat (length es) :: u64)) :: u64) = length es"
    using le nb(2) by (simp add: unat_of_nat)
  have dr: "drop 36 fl = to_le_bytes (of_nat (length es) :: u64) @ concat (map meta_entry es) @ tl"
    by (simp add: flq meta_content_def Let_def es_def [symmetric] tl_def)
  have cr: "take (length fl - 4) fl = meta_content sq c" by (simp add: flq)
  have "load_body crc nb fl (drop 36 fl)
       = Inr (m, count_list (states c) DIRTY + count_list (states c) SYNCING, sq, rotation_seq c)"
    unfolding load_body_def dr
    by (simp add: read_exact_append ct m(1) del: from_to_le_bytes_word) (simp add: tl_def read_exact_append cr read_exact_def)
  moreover have "sm_abs m = states c @ replicate (nb - num_blocks c) NOT_PRESENT"
  proof (rule nth_equalityI)
    show "length (sm_abs m) = length (states c @ replicate (nb - num_blocks c) NOT_PRESENT)"
      using nb(1) ls by (simp add: m(3) del: length_sm_abs) simp
  next
    fix j assume "j < length (sm_abs m)"
    then have j: "j < nb" by (simp add: m(3) del: length_sm_abs) simp
    then show "sm_abs m ! j = (states c @ replicate (nb - num_blocks c) NOT_PRESENT) ! j"
      using nth_put_states [OF pe(1), of j "sm_abs (sm_new nb)"] pe(3) [of j] ls
      by (auto simp: m(3) sm_abs_new nth_append)
  qed
  ultimately show ?thesis using m(2) by blast
qed

text \<open>The file \<open>save_block_states\<close> publishes when every system call succeeds.\<close>

definition saved_file :: "(bytes \<Rightarrow> u32) \<Rightarrow> u64 \<Rightarrow> CacheInner \<Rightarrow> bytes" where
  "saved_file crc sq c = meta_content sq c @ to_le_bytes (crc (meta_content sq c))"

lemma save_block_states_ok:
  "save_block_states crc None writers c
     = (Inr (sequence c), (writers c)\<lparr> metadata_file := Some (saved_file crc (sequence c) (writers c)) \<rparr>)"
  by (simp add: save_block_states_def seq_current_def saved_file_def Let_def)

lemma take_meta_content: "take 36 (meta_content sq c) = meta_header c"
  by (simp add: meta_content_def Let_def)

lemma length_meta_content:
  "length (meta_content sq c) = 60 + 5 * length (iter_present (state_map c))"
  by (simp add: meta_content_def Let_def length_meta_entries)

lemma header_of_saved:
  "36 \<le> k \<Longrightarrow> read_exact 36 (take k (saved_file crc sq c))
     = Inr (meta_header c, drop 36 (take k (saved_file crc sq c)))"
  by (simp add: read_exact_def saved_file_def length_meta_content take_meta_content min_def)

lemma load_saved_file:
  assumes wf: "ci_wf c" and cfg: "cfg_block_size cfg = bsize c" "bsize c < 2 ^ 64" "dsize c \<le> device_size cfg"
    "cfg_num_blocks cfg \<le> 2 ^ 32"
  shows "\<exists>m. load_metadata crc cfg (Some (saved_file crc sq c))
       = Inr (m, count_list (states c) DIRTY + count_list (states c) SYNCING, sq, rotation_seq c)
     \<and> sm_inv m \<and> sm_abs m = states c @ replicate (cfg_num_blocks cfg - num_blocks c) NOT_PRESENT"
proof -
  let ?nb = "cfg_num_blocks cfg"
  define f where "f = saved_file crc sq c"
  have g: "geometry_ok c" using wf by (simp add: ci_wf_def)
  have "num_blocks c = div_ceil (dsize c) (bsize c)" using g by (simp add: geometry_ok_def cfg_num_blocks_def)
  also have "\<dots> \<le> ?nb"
    unfolding cfg_num_blocks_def div_ceil_def cfg(1) by (rule div_le_mono) (use cfg(3) in simp)
  finally have nb: "num_blocks c \<le> ?nb" .
  obtain m where m: "load_body crc ?nb f (drop 36 f)
       = Inr (m, count_list (states c) DIRTY + count_list (states c) SYNCING, sq, rotation_seq c)"
     "sm_inv m" "sm_abs m = states c @ replicate (?nb - num_blocks c) NOT_PRESENT"
    using load_body_content [OF wf nb cfg(4), of f sq crc] by (auto simp: f_def saved_file_def)
  have "36 \<le> length f" by (simp add: f_def saved_file_def length_meta_content)
  then have h: "read_exact 36 f = Inr (meta_header c, drop 36 f)"
    using header_of_saved [of "length f" crc sq c] by (simp add: f_def)
  have hf: "unat (from_le_bytes (bslice 20 28 (meta_header c)) :: u64) = bsize c"
    "unat (from_le_bytes (bslice 12 20 (meta_header c)) :: u64) = dsize c"
    using cfg(2) g by (simp_all add: meta_header_fields unat_of_nat geometry_ok_def)
  have "load_metadata crc cfg (Some f) = load_body crc ?nb f (drop 36 f)"
    using cfg(1,3) by (simp add: load_metadata_def h hf meta_header_fields(1,2) METADATA_VERSION_def)
  then show ?thesis using m by (simp add: f_def)
qed

text \<open>
  C32: A checkpoint of a well-formed cache is read back by a later start with the same block
  size and a device at least as large: the loaded states are the saved ones followed by
  absent blocks, the dirty count counts dirty and syncing blocks, and the sequence
  number is the one read before the snapshot was taken, whatever writers did meanwhile.
\<close>

theorem metadata_roundtrip:
  assumes "ci_wf (writers c)" "config (writers c) = config c"
    and "cfg_block_size cfg = bsize c" "bsize c < 2 ^ 64" "dsize c \<le> device_size cfg"
    and "cfg_num_blocks cfg \<le> 2 ^ 32" "save_block_states crc None writers c = (r, c')"
  shows "r = Inr (sequence c) \<and> (\<exists>m. load_metadata crc cfg (metadata_file c')
       = Inr (m, count_list (states c') DIRTY + count_list (states c') SYNCING, sequence c, rotation_seq c')
     \<and> sm_inv m \<and> sm_abs m = states c' @ replicate (cfg_num_blocks cfg - num_blocks c') NOT_PRESENT)"
proof -
  have c': "r = Inr (sequence c)" "c' = (writers c)\<lparr> metadata_file := Some (saved_file crc (sequence c) (writers c)) \<rparr>"
    using assms(7) by (auto simp: save_block_states_ok)
  then have "states c' = states (writers c)" by (simp add: states_def)
  then show ?thesis
    using load_saved_file [OF assms(1), of cfg crc "sequence c"] assms(2-6) c' by simp
qed

theorem metadata_roundtrip_witness:
  "\<exists>m. load_metadata (\<lambda>b. of_nat (length b)) \<lparr> device_size = 16384, cfg_block_size = 4096, wal_sync = True \<rparr>
       (Some (saved_file (\<lambda>b. of_nat (length b)) 0 demo_cache))
       = Inr (m, 0, 0, 0) \<and> sm_inv m \<and> sm_abs m = replicate 4 NOT_PRESENT"
proof -
  let ?crc = "\<lambda>b. of_nat (length b) :: u32"
  let ?cfg = "\<lparr> device_size = 16384, cfg_block_size = 4096, wal_sync = True \<rparr>"
  have s: "sequence demo_cache = 0" "rotation_seq demo_cache = 0" "config demo_cache = \<lparr> device_size = 8192, cfg_block_size = 4096, wal_sync = False \<rparr>"
    "num_blocks demo_cache = 2" by (simp_all add: demo_cache_def)
  define c' where "c' = demo_cache\<lparr> metadata_file := Some (saved_file ?crc 0 demo_cache) \<rparr>"
  have "states c' = states demo_cache" by (simp add: c'_def states_def)
  then have st: "states c' = [NOT_PRESENT, NOT_PRESENT]" by (simp add: states_demo)
  have "save_block_states ?crc None (\<lambda>c. c) demo_cache = (Inr 0, c')"
    by (simp add: save_block_states_ok c'_def s)
  then have "\<exists>m. load_metadata ?crc ?cfg (metadata_file c')
       = Inr (m, count_list (states c') DIRTY + count_list (states c') SYNCING, sequence demo_cache, rotation_seq c')
     \<and> sm_inv m \<and> sm_abs m = states c' @ replicate (cfg_num_blocks ?cfg - num_blocks c') NOT_PRESENT"
    using metadata_roundtrip [where writers = "\<lambda>c. c", OF demo_cache_wf, of ?cfg ?crc "Inr 0" c']
    by (simp add: s cfg_num_blocks_def div_ceil_def)
  moreover have "cfg_num_blocks ?cfg = 4" by (simp add: cfg_num_blocks_def div_ceil_def)
  moreover have "metadata_file c' = Some (saved_file ?crc 0 demo_cache)" "rotation_seq c' = 0" "num_blocks c' = 2"
    by (simp_all add: c'_def s)
  moreover have "[NOT_PRESENT, NOT_PRESENT] @ replicate (4 - 2) NOT_PRESENT = replicate 4 NOT_PRESENT"
    by (simp add: numeral_eq_Suc)
  ultimately show ?thesis by (simp add: s st)
qed

section \<open>Torn and foreign files\<close>

lemma sm_cas_total:
  assumes "sm_inv m" "i < num_entries m"
  shows "\<exists>r m'. sm_cas m i e v = Some (r, m') \<and> sm_inv m' \<and> num_entries m' = num_entries m"
proof (cases "dir_state (directory m) i = e")
  case False
  then show ?thesis using sm_cas_err [OF assms] assms by simp
next
  case True
  have r: "i div 16384 < length (directory m)" using page_in_range assms by blast
  show ?thesis
  proof (cases "directory m ! (i div 16384)")
    case (Some pg)
    then show ?thesis
      using r sm_inv_store [OF assms(1) r Some] assms(1)
      by (auto simp: sm_cas_def split_index_eq load_page_def)
  next
    case None
    obtain m' where m': "ensure_page m (i div 16384) = Some (StatePage_new, m')"
      "sm_inv m'" "num_entries m' = num_entries m" "directory m' ! (i div 16384) = Some StatePage_new"
      using ensure_page_alloc [OF assms None] by blast
    have "i div 16384 < length (directory m')" using page_in_range [OF m'(2)] assms(2) m'(3) by simp
    from sm_inv_store [OF m'(2) this m'(4)] show ?thesis
      using None r assms(1) m' by (auto simp: sm_cas_def split_index_eq load_page_def)
  qed
qed

lemma set_present_total:
  assumes "sm_inv m" "i < num_entries m"
  shows "\<exists>m'. sm_set_present m i = Some m' \<and> sm_inv m' \<and> num_entries m' = num_entries m"
proof -
  obtain m' where m': "try_set_present m i = Some (sm_abs m ! i = NOT_PRESENT, m')" "sm_inv m'"
    "sm_abs m' = (if sm_abs m ! i = NOT_PRESENT then (sm_abs m)[i := CLEAN] else sm_abs m)"
    using try_set_present_eq [OF assms] by blast
  have "num_entries m' = num_entries m"
    using num_entries_abs [OF m'(3)] by (cases "sm_abs m ! i = NOT_PRESENT") simp_all
  then show ?thesis using m' by (simp add: sm_set_present_def)
qed

lemma load_entries_length:
  assumes "sm_inv m" "num_entries m = nb"
  shows "case load_entries nb n bs m d of
      Inl e \<Rightarrow> e \<noteq> Panicked | Inr (m', d', rest) \<Rightarrow> length rest + 5 * n = length bs"
  using assms
proof (induction n arbitrary: bs m d)
  case 0
  then show ?case by simp
next
  case (Suc n)
  show ?case
  proof (cases "length bs < 5")
    case True
    then show ?thesis by (simp add: read_exact_def)
  next
    case False
    let ?i = "unat (from_le_bytes (take 4 (take 5 bs)) :: u32)" and ?s = "take 5 bs ! 4"
    have rd: "read_exact 5 bs = Inr (take 5 bs, drop 5 bs)" using False by (simp add: read_exact_def)
    have "\<exists>m' d'. load_entries nb (Suc n) bs m d = load_entries nb n (drop 5 bs) m' d'
        \<and> sm_inv m' \<and> num_entries m' = nb"
    proof (cases "nb \<le> ?i")
      case True
      then show ?thesis using Suc.prems unfolding load_entries.simps rd Let_def by auto
    next
      case i: False
      obtain m1 where m1: "sm_set_present m ?i = Some m1" "sm_inv m1" "num_entries m1 = nb"
        using set_present_total [OF Suc.prems(1), of ?i] Suc.prems(2) i by auto
      obtain r m2 where m2: "sm_cas m1 ?i CLEAN ?s = Some (r, m2)" "sm_inv m2" "num_entries m2 = nb"
        using sm_cas_total [OF m1(2), of ?i CLEAN ?s] m1(3) i by auto
      show ?thesis
      proof (cases "?s = CLEAN")
        case True
        then show ?thesis
          using i m1 unfolding load_entries.simps rd Let_def by auto
      next
        case False
        then show ?thesis
          using i m1 m2 unfolding load_entries.simps rd Let_def by auto
      qed
    qed
    then obtain m' d' where "load_entries nb (Suc n) bs m d = load_entries nb n (drop 5 bs) m' d'"
      "sm_inv m'" "num_entries m' = nb" by blast
    then show ?thesis
      using Suc.IH [of m' "drop 5 bs" d'] False by (auto split: sum.splits)
  qed
qed

lemma load_body_length:
  "case load_body crc nb fl bs of
     Inl e \<Rightarrow> e \<noteq> Panicked
   | Inr _ \<Rightarrow> 28 + 5 * unat (from_le_bytes (take 8 bs) :: u64) \<le> length bs"
proof (cases "length bs < 8")
  case True
  then show ?thesis by (simp add: load_body_def read_exact_def)
next
  case False
  let ?n = "unat (from_le_bytes (take 8 bs) :: u64)"
  show ?thesis
  proof (cases "load_entries nb ?n (drop 8 bs) (sm_new nb) 0")
    case (Inl e)
    then show ?thesis
      using load_entries_length [of "sm_new nb" nb ?n "drop 8 bs" 0] False
      by (simp add: load_body_def read_exact_def)
  next
    case (Inr x)
    obtain m d rest where x: "x = (m, d, rest)" by (cases x)
    have "length rest + 5 * ?n = length (drop 8 bs)"
      using load_entries_length [of "sm_new nb" nb ?n "drop 8 bs" 0] Inr by (simp add: x)
    then show ?thesis
      using False Inr by (simp add: load_body_def read_exact_def x Let_def) linarith
  qed
qed

lemma load_metadata_no_panic: "load_metadata crc cfg f \<noteq> Inl Panicked"
proof -
  have "load_body crc nb fl bs \<noteq> Inl Panicked" for nb fl bs
    using load_body_length [where crc = crc and nb = nb and fl = fl and bs = bs] by (auto split: sum.splits)
  then show ?thesis
    by (cases f) (simp_all add: load_metadata_def read_exact_def)
qed

text \<open>
  C33: No proper prefix of a checkpoint file is accepted, whatever the configuration of the
  reader and whatever the checksum function: the reader returns an error and does not
  panic.
\<close>

theorem metadata_torn_rejected:
  assumes "ci_wf c" "k < length (saved_file crc sq c)"
  shows "\<exists>e. load_metadata crc cfg (Some (take k (saved_file crc sq c))) = Inl e \<and> e \<noteq> Panicked"
proof -
  let ?file = "saved_file crc sq c" and ?n = "length (iter_present (state_map c))"
  have len: "length ?file = 64 + 5 * ?n" by (simp add: saved_file_def length_meta_content)
  have "length (iter_present (state_map c)) \<le> num_blocks c"
    unfolding iter_present_states [OF assms(1)]
    by (intro order_trans [OF length_filter_le]) (simp add: length_states [OF assms(1)])
  then have n: "?n < 2 ^ 64" using assms(1) by (simp add: ci_wf_def geometry_ok_def)
  have "\<not> is_ok (load_metadata crc cfg (Some (take k ?file)))"
  proof (cases "k < 36")
    case True
    then show ?thesis using assms(2) by (simp add: load_metadata_def read_exact_def min_def)
  next
    case False
    let ?bs = "drop 36 (take k ?file)"
    have lb: "length ?bs < 28 + 5 * ?n" using assms(2) len by simp
    have "\<not> is_ok (load_body crc (cfg_num_blocks cfg) (take k ?file) ?bs)"
    proof (cases "k < 44")
      case True
      then have "length ?bs < 8" by simp
      then have "read_exact 8 ?bs = Inl UnexpectedEof" unfolding read_exact_def by (rule if_P)
      then show ?thesis unfolding load_body_def by simp
    next
      case False
      have "take 8 ?bs = take 8 (drop 36 ?file)" using False by (simp add: take_drop min_def)
      also have "\<dots> = to_le_bytes (of_nat ?n :: u64)"
        by (simp add: saved_file_def meta_content_def Let_def)
      finally have "unat (from_le_bytes (take 8 ?bs) :: u64) = ?n" using n by (simp add: unat_of_nat)
      then show ?thesis
        using load_body_length [where crc = crc and nb = "cfg_num_blocks cfg" and fl = "take k ?file" and bs = ?bs] lb
        by (auto simp: is_ok_def split: sum.splits)
    qed
    then show ?thesis
      using False by (simp add: load_metadata_def header_of_saved)
  qed
  then show ?thesis
    using load_metadata_no_panic [of crc cfg "Some (take k ?file)"] by (auto simp: is_ok_def split: sum.splits)
qed

theorem metadata_torn_rejected_witness:
  "\<exists>e. load_metadata (\<lambda>_. 0) (config demo_cache) (Some (take 63 (saved_file (\<lambda>_. 0) 0 demo_cache))) = Inl e
     \<and> e \<noteq> Panicked"
  by (rule metadata_torn_rejected [OF demo_cache_wf]) (simp add: saved_file_def length_meta_content)

end
