(* ===== verification/WritePath.thy ===== *)
theory WritePath
  imports Metadata
begin

text \<open>
  The guest write path of \<open>glidefs/src/block/write_cache/write.rs\<close>: plain and
  eviction-checked writes, materialized writes, zeroing, and the two halves of the
  zero-copy write.  Every operation runs under the lock on the data file, so it is one
  step for the rotation; the outcomes of its system calls are the argument \<open>io\<close>, and
  what other tasks do while a promotion waits is \<open>sched\<close>.  \<open>pcrc\<close> is the page checksum
  and \<open>wcrc\<close> the checksum of a log record.
\<close>

section \<open>Actions on the cache\<close>

text \<open>
  An action returns a result and the new cache; \<open>None\<close> is a panic, or a wait that does
  not end.
\<close>

type_synonym 'a act = "CacheInner \<Rightarrow> ((CacheError + 'a) \<times> CacheInner) option"

definition cbind :: "'a act \<Rightarrow> ('a \<Rightarrow> 'b act) \<Rightarrow> 'b act" where
  "cbind f g c = (case f c of
      None \<Rightarrow> None
    | Some (Inl e, c') \<Rightarrow> Some (Inl e, c')
    | Some (Inr a, c') \<Rightarrow> g a c')"

lemma cbind_simps [simp]:
  "f c = Some (Inr a, c') \<Longrightarrow> cbind f g c = g a c'"
  "f c = Some (Inl e, c') \<Longrightarrow> cbind f g c = Some (Inl e, c')"
  "f c = None \<Longrightarrow> cbind f g c = None"
  by (simp_all add: cbind_def)

type_synonym rounds = "nat \<Rightarrow> (bool \<times> (CacheInner \<Rightarrow> CacheInner)) list"

section \<open>Logging\<close>

text \<open>A block is marked first and numbered afterwards.\<close>

fun mark_dirty_blocks :: "(bytes \<Rightarrow> u32) \<Rightarrow> nat list \<Rightarrow> bytes \<Rightarrow> CacheInner \<Rightarrow> (bytes \<times> CacheInner) option" where
  "mark_dirty_blocks wcrc [] batch c = Some (batch, c)"
| "mark_dirty_blocks wcrc (block # blocks) batch c =
     (if num_blocks c \<le> block then mark_dirty_blocks wcrc blocks batch c
      else case ci_transition_to_dirty c block of
             None \<Rightarrow> None
           | Some (False, c) \<Rightarrow> mark_dirty_blocks wcrc blocks batch c
           | Some (True, c) \<Rightarrow>
               (let (sq, counter) = seq_next (sequence c)
                in mark_dirty_blocks wcrc blocks (serialize_entry wcrc batch (of_nat block) sq)
                     (c\<lparr> sequence := counter \<rparr>)))"

definition wal_append_and_mark_dirty :: "(bytes \<Rightarrow> u32) \<Rightarrow> io_env \<Rightarrow> nat list \<Rightarrow> unit act" where
  "wal_append_and_mark_dirty wcrc io blocks c =
     (case mark_dirty_blocks wcrc blocks [] c of
        None \<Rightarrow> None
      | Some (batch, c) \<Rightarrow>
          if batch = [] then Some (Inr (), c)
          else (case append_batch (wal_write io batch) batch (wal c) of
                  (Inl e, log) \<Rightarrow> Some (Inl (Io e), c\<lparr> wal := log \<rparr>)
                | (Inr _, log) \<Rightarrow>
                    (let c = c\<lparr> wal := log \<rparr>
                     in if wal_sync (config c) \<and> sync_fails io then Some (Inl (Io OtherError), c)
                        else Some (Inr (), c))))"

section \<open>The parts of a write\<close>

fun set_present_blocks :: "nat list \<Rightarrow> CacheInner \<Rightarrow> CacheInner option" where
  "set_present_blocks [] c = Some c"
| "set_present_blocks (idx # blocks) c =
     (if idx < num_blocks c then
        (case set_present c idx of None \<Rightarrow> None | Some c \<Rightarrow> set_present_blocks blocks c)
      else set_present_blocks blocks c)"

definition present_act :: "nat list \<Rightarrow> unit act" where
  "present_act blocks c = map_option (\<lambda>c. (Inr (), c)) (set_present_blocks blocks c)"

definition pwrite_act :: "io_env \<Rightarrow> bytes \<Rightarrow> nat \<Rightarrow> unit act" where
  "pwrite_act io data off c =
     (case write_all_at io (data_file c) data off of
        (Inl e, f) \<Rightarrow> Some (Inl (Io e), c\<lparr> data_file := f \<rparr>)
      | (Inr _, f) \<Rightarrow> Some (Inr (), c\<lparr> data_file := f \<rparr>))"

definition crc_act :: "(CacheInner \<Rightarrow> page_map \<Rightarrow> page_map option) \<Rightarrow> unit act" where
  "crc_act upd c = map_option (\<lambda>m. (Inr (), c\<lparr> page_crcs := m \<rparr>)) (upd c (page_crcs c))"

definition capture_act :: "(bytes \<Rightarrow> u32) \<Rightarrow> nat \<Rightarrow> bytes \<Rightarrow> unit act" where
  "capture_act pcrc off data =
     crc_act (\<lambda>c. capture_page_crcs pcrc (bsize c) (pages_per_block c) off data)"

text \<open>\<open>offset.checked_add(len)\<close> and the test against the device size.\<close>

definition check_range :: "CacheInner \<Rightarrow> nat \<Rightarrow> nat \<Rightarrow> CacheError + nat" where
  "check_range c off len =
     (if 2 ^ 64 \<le> off + len then Inl (OffsetOutOfBounds (2 ^ 64 - 1) (dsize c))
      else if dsize c < off + len then Inl (OffsetOutOfBounds (off + len) (dsize c))
      else Inr (off + len))"

section \<open>Writes\<close>

definition write_inner :: "(bytes \<Rightarrow> u32) \<Rightarrow> (bytes \<Rightarrow> u32) \<Rightarrow> io_env \<Rightarrow> rounds \<Rightarrow> nat \<Rightarrow> bytes \<Rightarrow> bool \<Rightarrow> unit act" where
  "write_inner pcrc wcrc io sched off data require_promotion c =
     (if fenced c then Some (Inl (Fenced (current_generation c) 0), c)
      else case check_range c off (length data) of
             Inl e \<Rightarrow> Some (Inl e, c)
           | Inr fin \<Rightarrow>
               if data = [] then Some (Inr (), c)
               else if bsize c = 0 then None
               else let blocks = touched (bsize c) off fin
                    in cbind (promote_syncing_blocks io sched blocks require_promotion) (\<lambda>_.
                       cbind (present_act blocks) (\<lambda>_.
                       cbind (pwrite_act io data off) (\<lambda>_.
                       cbind (capture_act pcrc off data) (\<lambda>_.
                         wal_append_and_mark_dirty wcrc io blocks)))) c)"

definition cache_write :: "(bytes \<Rightarrow> u32) \<Rightarrow> (bytes \<Rightarrow> u32) \<Rightarrow> io_env \<Rightarrow> rounds \<Rightarrow> nat \<Rightarrow> bytes \<Rightarrow> unit act" where
  "cache_write pcrc wcrc io sched off data = write_inner pcrc wcrc io sched off data False"

definition write_with_eviction_check :: "(bytes \<Rightarrow> u32) \<Rightarrow> (bytes \<Rightarrow> u32) \<Rightarrow> io_env \<Rightarrow> rounds \<Rightarrow> nat \<Rightarrow> bytes \<Rightarrow> unit act" where
  "write_with_eviction_check pcrc wcrc io sched off data = write_inner pcrc wcrc io sched off data True"

text \<open>
  \<open>write_materialized\<close>: the state test, the write and the commit are one critical section
  under the claim map.
\<close>

definition materialize_commit :: "(bytes \<Rightarrow> u32) \<Rightarrow> (bytes \<Rightarrow> u32) \<Rightarrow> io_env \<Rightarrow> nat \<Rightarrow> bytes \<Rightarrow> nat list \<Rightarrow> nat \<Rightarrow> bool act" where
  "materialize_commit pcrc wcrc io off data blocks idx c =
     (case sm_get (state_map c) idx of
        None \<Rightarrow> None
      | Some st \<Rightarrow>
          if st \<noteq> CLEAN then Some (Inr False, c)
          else cbind (pwrite_act io data off) (\<lambda>_.
               cbind (capture_act pcrc off data) (\<lambda>_.
               cbind (wal_append_and_mark_dirty wcrc io blocks) (\<lambda>_ c. Some (Inr True, c)))) c)"

definition write_materialized :: "(bytes \<Rightarrow> u32) \<Rightarrow> (bytes \<Rightarrow> u32) \<Rightarrow> io_env \<Rightarrow> nat \<Rightarrow> bytes \<Rightarrow> nat \<Rightarrow> ClaimToken \<Rightarrow> bool act" where
  "write_materialized pcrc wcrc io off data idx tok c =
     (if data = [] then Some (Inr True, c)
      else case check_range c off (length data) of
             Inl e \<Rightarrow> Some (Inl e, c)
           | Inr fin \<Rightarrow>
               if bsize c = 0 then None
               else case if_valid (promote_claim c) idx tok (\<lambda>_.
                           materialize_commit pcrc wcrc io off data (touched (bsize c) off fin) idx c) of
                      None \<Rightarrow> Some (Inr False, c)
                    | Some r \<Rightarrow> r)"

section \<open>Zeroing\<close>

definition ZERO_CHUNK_SIZE :: nat where "ZERO_CHUNK_SIZE = 128 * 1024"

function zero_range_fallback_with :: "io_env \<Rightarrow> nat \<Rightarrow> nat \<Rightarrow> bytes \<Rightarrow> (io_error + unit) \<times> bytes" where
  "zero_range_fallback_with io current_offset remaining f =
     (if remaining = 0 then (Inr (), f)
      else let chunk_size = min remaining ZERO_CHUNK_SIZE
           in case write_all_at io f (replicate chunk_size 0) current_offset of
                (Inl e, f) \<Rightarrow> (Inl e, f)
              | (Inr _, f) \<Rightarrow>
                  zero_range_fallback_with io (current_offset + chunk_size) (remaining - chunk_size) f)"
  by pat_completeness auto
termination
  by (relation "measure (\<lambda>(_, _, n, _). n)") (auto simp: ZERO_CHUNK_SIZE_def)

declare zero_range_fallback_with.simps [simp del]

text \<open>The outcome of \<open>fallocate(FALLOC_FL_ZERO_RANGE)\<close>.\<close>

datatype fallocate_outcome = FallocDone | FallocUnsupported | FallocFailed

definition zero_file :: "io_env \<Rightarrow> fallocate_outcome \<Rightarrow> nat \<Rightarrow> nat \<Rightarrow> unit act" where
  "zero_file io sys off len c =
     (case sys of
        FallocDone \<Rightarrow> Some (Inr (), c\<lparr> data_file := overwrite (data_file c) off (replicate len 0) \<rparr>)
      | FallocFailed \<Rightarrow> Some (Inl (Io OtherError), c)
      | FallocUnsupported \<Rightarrow>
          (case zero_range_fallback_with io off len (data_file c) of
             (Inl e, f) \<Rightarrow> Some (Inl (Io e), c\<lparr> data_file := f \<rparr>)
           | (Inr _, f) \<Rightarrow> Some (Inr (), c\<lparr> data_file := f \<rparr>)))"

definition zero_range :: "(bytes \<Rightarrow> u32) \<Rightarrow> (bytes \<Rightarrow> u32) \<Rightarrow> io_env \<Rightarrow> fallocate_outcome \<Rightarrow> rounds \<Rightarrow> nat \<Rightarrow> nat \<Rightarrow> unit act" where
  "zero_range pcrc wcrc io sys sched off len c =
     (if len = 0 then Some (Inr (), c)
      else case check_range c off len of
             Inl e \<Rightarrow> Some (Inl e, c)
           | Inr fin \<Rightarrow>
               if bsize c = 0 then None
               else let blocks = touched (bsize c) off fin
                    in cbind (promote_syncing_blocks io sched blocks False) (\<lambda>_.
                       cbind (present_act blocks) (\<lambda>_.
                       cbind (zero_file io sys off len) (\<lambda>_.
                       cbind (crc_act (\<lambda>c. capture_zero_page_crcs pcrc (bsize c) (pages_per_block c) off len)) (\<lambda>_.
                         wal_append_and_mark_dirty wcrc io blocks)))) c)"

section \<open>The two-phase and zero-copy writes\<close>

fun any_new_block :: "CacheInner \<Rightarrow> nat list \<Rightarrow> bool option" where
  "any_new_block c [] = Some False"
| "any_new_block c (idx # blocks) =
     (if num_blocks c \<le> idx then Some True
      else case ci_is_present c idx of
             None \<Rightarrow> None
           | Some present \<Rightarrow> if \<not> present then Some True else any_new_block c blocks)"

definition has_new_blocks :: "CacheInner \<Rightarrow> nat \<Rightarrow> nat \<Rightarrow> bool option" where
  "has_new_blocks c off len =
     (if bsize c = 0 \<or> off + len = 0 \<or> 2 ^ 64 \<le> off + len then None
      else any_new_block c (touched (bsize c) off (off + len)))"

definition pre_write :: "nat \<Rightarrow> nat \<Rightarrow> unit act" where
  "pre_write off len c =
     (case check_range c off len of
        Inl e \<Rightarrow> Some (Inl e, c)
      | Inr fin \<Rightarrow>
          if len = 0 then Some (Inr (), c)
          else if bsize c = 0 then None
          else present_act (touched (bsize c) off fin) c)"

definition pwrite_and_commit :: "(bytes \<Rightarrow> u32) \<Rightarrow> (bytes \<Rightarrow> u32) \<Rightarrow> io_env \<Rightarrow> rounds \<Rightarrow> nat \<Rightarrow> bytes \<Rightarrow> unit act" where
  "pwrite_and_commit pcrc wcrc io sched off data c =
     (if data = [] then Some (Inr (), c)
      else if bsize c = 0 \<or> 2 ^ 64 \<le> off + length data then None
      else let blocks = touched (bsize c) off (off + length data)
           in cbind (promote_syncing_blocks io sched blocks True) (\<lambda>_.
              cbind (pwrite_act io data off) (\<lambda>_.
              cbind (capture_act pcrc off data) (\<lambda>_.
                wal_append_and_mark_dirty wcrc io blocks))) c)"

definition zc_promote_for_write_with :: "io_env \<Rightarrow> rounds \<Rightarrow> nat \<Rightarrow> nat \<Rightarrow> unit act" where
  "zc_promote_for_write_with io sched off len c =
     (if len = 0 then Some (Inr (), c)
      else if bsize c = 0 \<or> 2 ^ 64 \<le> off + len then None
      else let fully_covers = (off mod bsize c = 0 \<and> len mod bsize c = 0)
           in promote_syncing_blocks io sched (touched (bsize c) off (off + len)) (\<not> fully_covers) c)"

definition commit_after_zc_write_with :: "(bytes \<Rightarrow> u32) \<Rightarrow> io_env \<Rightarrow> nat \<Rightarrow> nat \<Rightarrow> unit act" where
  "commit_after_zc_write_with wcrc io off len c =
     (if len = 0 then Some (Inr (), c)
      else if bsize c = 0 \<or> 2 ^ 64 \<le> off + len then None
      else cbind (crc_act (\<lambda>c. invalidate_page_crcs (bsize c) off len)) (\<lambda>_.
             wal_append_and_mark_dirty wcrc io (touched (bsize c) off (off + len))) c)"

text \<open>
  What the kernel's fixed-buffer write puts into the data file between promotion and
  commit of a zero-copy write.
\<close>

definition kernel_write :: "nat \<Rightarrow> bytes \<Rightarrow> unit act" where
  "kernel_write off data c = Some (Inr (), c\<lparr> data_file := overwrite (data_file c) off data \<rparr>)"

section \<open>Where a block's bytes are\<close>

text \<open>
  A block is \<open>promoted\<close> when a writer would copy it from the flushing file; \<open>src_file\<close>
  is the device image those copies would give, and \<open>view\<close> what a guest reads when \<open>R\<close>
  is the image in the object store.
\<close>

definition promoted :: "CacheInner \<Rightarrow> nat \<Rightarrow> bool" where
  "promoted c i = (case flushing_file c of None \<Rightarrow> False | Some ff \<Rightarrow> promotable c ff i)"

definition src_file :: "CacheInner \<Rightarrow> bytes" where
  "src_file c = map (\<lambda>k. if promoted c (k div bsize c) then the (flushing_file c) ! k else data_file c ! k)
     [0..<dsize c]"

definition view :: "(nat \<Rightarrow> byte) \<Rightarrow> CacheInner \<Rightarrow> nat \<Rightarrow> byte" where
  "view R c k = (if states c ! (k div bsize c) = DIRTY \<or> states c ! (k div bsize c) = SYNCING
     then src_file c ! k else R k)"

definition crcs_ok :: "(bytes \<Rightarrow> u32) \<Rightarrow> CacheInner \<Rightarrow> bool" where
  "crcs_ok pcrc c = crc_sound pcrc (bsize c) (pages_per_block c) (num_blocks c) (src_file c) (page_crcs c)"

lemma length_src_file [simp]: "length (src_file c) = dsize c"
  by (simp add: src_file_def)

lemma nth_src_file:
  "k < dsize c \<Longrightarrow> src_file c ! k
     = (if promoted c (k div bsize c) then the (flushing_file c) ! k else data_file c ! k)"
  by (simp add: src_file_def)

lemma block_of_byte:
  assumes "geometry_ok c" "k < dsize c"
  shows "k div bsize c < num_blocks c"
proof -
  have "k < num_blocks c * bsize c" using device_covered [OF assms(1)] assms(2) by simp
  then show ?thesis by (simp add: less_mult_imp_div_less)
qed

lemma src_file_cong:
  assumes "geometry_ok c" "config c' = config c" "flushing_file c' = flushing_file c"
    and "\<And>k. k < dsize c \<Longrightarrow> data_file c' ! k = data_file c ! k"
    and "\<And>i. i < num_blocks c \<Longrightarrow> promoted c' i = promoted c i"
  shows "src_file c' = src_file c"
  using assms(2-5) block_of_byte [OF assms(1)]
  by (intro nth_equalityI) (auto simp: nth_src_file)

lemma promoted_cong:
  "\<lbrakk> config c' = config c; flushing_file c' = flushing_file c; states c' ! i = states c ! i \<rbrakk>
    \<Longrightarrow> promoted c' i = promoted c i"
  by (simp add: promoted_def promotable_def blk_def valid_bytes_def split: option.splits)

lemma promoted_state:
  "promoted c i \<Longrightarrow> states c ! i = SYNCING \<or> states c ! i = NOT_PRESENT"
  by (auto simp: promoted_def promotable_def split: option.splits)

text \<open>What an operation on guest data leaves alone.\<close>

definition same_io :: "CacheInner \<Rightarrow> CacheInner \<Rightarrow> bool" where
  "same_io c c' \<longleftrightarrow> c' = c\<lparr> data_file := data_file c', state_map := state_map c',
     promote_claim := promote_claim c', dirty_block_count := dirty_block_count c',
     syncing_block_count := syncing_block_count c', sequence := sequence c', wal := wal c',
     page_crcs := page_crcs c' \<rparr>"

lemma same_io_refl [simp]: "same_io c c"
  by (simp add: same_io_def)

lemma same_io_trans [trans]: "\<lbrakk> same_io a b; same_io b c \<rbrakk> \<Longrightarrow> same_io a c"
  unfolding same_io_def by (cases a, cases b, cases c) simp

lemma same_but_data_io: "same_but_data c c' \<Longrightarrow> same_io c c'"
  unfolding same_but_data_def same_rest_def same_io_def by (cases c, cases c') simp

lemma same_rest_io: "same_rest c c' \<Longrightarrow> same_io c c'"
  by (rule same_but_data_io [OF same_rest_but_data])

lemma same_io_simps:
  assumes "same_io c c'"
  shows "config c' = config c" "flushing_file c' = flushing_file c" "num_blocks c' = num_blocks c"
    "pages_per_block c' = pages_per_block c" "fenced c' = fenced c" "flushing_active c' = flushing_active c"
    "rotation_seq c' = rotation_seq c" "flushing_disk c' = flushing_disk c" "metadata_file c' = metadata_file c"
    "handoff_phase c' = handoff_phase c" "manifest_etag c' = manifest_etag c"
    "current_generation c' = current_generation c" "current_lease_revision c' = current_lease_revision c"
    "ckpt_skips c' = ckpt_skips c"
    "geometry_ok c' = geometry_ok c" "valid_bytes c' = valid_bytes c" "blk c' = blk c"
  using assms unfolding same_io_def
  by (cases c, cases c', simp add: geometry_ok_def valid_bytes_def blk_def fun_eq_iff)+

section \<open>Each part without interference\<close>

definition promotion_ok :: "CacheInner \<Rightarrow> bool \<Rightarrow> nat list \<Rightarrow> bool" where
  "promotion_ok c req blocks \<longleftrightarrow> \<not> req \<or> (\<forall>i\<in>set blocks. promoted c i
     \<or> states c ! i = DIRTY \<or> states c ! i = CLEAN)"

lemma check_promoted_ok:
  assumes "ci_wf c" "\<forall>i\<in>set blocks. i < num_blocks c" "\<forall>i\<in>set blocks. \<not> is_claimed (promote_claim c) i"
  shows "check_promoted blocks c = Some (if \<exists>i\<in>set blocks. states c ! i = SYNCING \<or> states c ! i = NOT_PRESENT
     then Inl BlockEvicted else Inr ())"
  using assms(2,3)
proof (induction blocks)
  case (Cons i blocks)
  have "i < num_blocks c" using Cons.prems(1) by simp
  from ci_get [OF assms(1) this] show ?case using Cons by auto
qed simp

lemma promote_ok:
  assumes wf: "ci_wf c" and io: "io_works io" and bl: "distinct blocks" "\<forall>i\<in>set blocks. i < num_blocks c"
    and free: "\<forall>i\<in>set blocks. \<not> is_claimed (promote_claim c) i" and ok: "promotion_ok c req blocks"
  shows "\<exists>c'. promote_syncing_blocks io (\<lambda>_. []) blocks req c = Some (Inr (), c') \<and> ci_wf c'
     \<and> same_but_data c c' \<and> (\<forall>j. is_claimed (promote_claim c') j = is_claimed (promote_claim c) j)
     \<and> (\<forall>i<num_blocks c. states c' ! i = (if i \<in> set blocks \<and> promoted c i then DIRTY else states c ! i))
     \<and> src_file c' = src_file c"
proof (cases "flushing_file c")
  case None
  then have np: "\<not> promoted c i" for i by (simp add: promoted_def)
  have "promote_syncing_blocks io (\<lambda>_. []) blocks req c = Some (Inr (), c)"
  proof (cases req)
    case True
    then have "\<forall>i\<in>set blocks. states c ! i = DIRTY \<or> states c ! i = CLEAN"
      using ok np by (auto simp: promotion_ok_def)
    then have "\<not> (\<exists>i\<in>set blocks. states c ! i = SYNCING \<or> states c ! i = NOT_PRESENT)" by auto
    then show ?thesis
      using check_promoted_ok [OF wf bl(2) free] True None by (simp add: promote_syncing_blocks_def)
  next
    case False
    then show ?thesis using None by (simp add: promote_syncing_blocks_def)
  qed
  then show ?thesis using wf np by auto
next
  case (Some ff)
  have g: "geometry_ok c" and lf: "length ff = dsize c" using wf Some by (auto simp: ci_wf_def)
  have pr: "promoted c i = promotable c ff i" for i by (simp add: promoted_def Some)
  have ok': "\<not> (req \<and> (\<exists>i\<in>set blocks. states c ! i = NOT_PRESENT \<and> \<not> promotable c ff i))"
    using ok by (auto simp: promotion_ok_def pr)
  obtain c' where c': "promote_blocks io ff req (\<lambda>_. []) blocks c = Some (Inr (), c')" "ci_wf c'" "same_but_data c c'"
     "\<forall>j. is_claimed (promote_claim c') j = is_claimed (promote_claim c) j"
     "\<forall>i<num_blocks c. states c' ! i = (if i \<in> set blocks \<and> promotable c ff i then DIRTY else states c ! i)"
     "\<forall>k<dsize c. data_file c' ! k = (if k div bsize c \<in> set blocks \<and> promotable c ff (k div bsize c)
                                          then ff ! k else data_file c ! k)"
    using promote_blocks_seq [OF wf lf io bl free ok'] by blast
  note f = same_but_data_simps [OF c'(3)]
  have p': "promoted c' i = (promoted c i \<and> i \<notin> set blocks)" if "i < num_blocks c" for i
  proof (cases "i \<in> set blocks \<and> promotable c ff i")
    case True
    then have "states c' ! i = DIRTY" using c'(5) that by simp
    then show ?thesis using promoted_state [of c' i] True by auto
  next
    case False
    then have "states c' ! i = states c ! i" using c'(5) that by auto
    then show ?thesis using promoted_cong [OF f(1,2)] False by (auto simp: pr)
  qed
  have "src_file c' ! k = src_file c ! k" if k: "k < dsize c" for k
  proof -
    have "k div bsize c < num_blocks c" by (rule block_of_byte [OF g k])
    then show ?thesis
      using k c'(6) p' Some by (auto simp: nth_src_file f pr)
  qed
  then have "src_file c' = src_file c" by (intro nth_equalityI) (simp_all add: f)
  then show ?thesis using c' Some by (auto simp: promote_syncing_blocks_def pr)
qed

lemma set_present_blocks_ok:
  assumes "ci_wf c" "\<forall>i\<in>set blocks. i < num_blocks c"
  shows "\<exists>c'. set_present_blocks blocks c = Some c' \<and> ci_wf c' \<and> same_rest c c'
     \<and> (\<forall>i<num_blocks c. states c' ! i = (if i \<in> set blocks \<and> states c ! i = NOT_PRESENT then CLEAN else states c ! i))
     \<and> (\<forall>j. is_claimed (promote_claim c') j = is_claimed (promote_claim c) j)"
  using assms
proof (induction blocks arbitrary: c)
  case Nil
  then show ?case by simp
next
  case (Cons a blocks)
  have a: "a < num_blocks c" using Cons.prems(2) by simp
  obtain c1 where c1: "set_present c a = Some c1" "ci_wf c1"
     "states c1 = (if states c ! a = NOT_PRESENT then (states c)[a := CLEAN] else states c)" "same_rest c c1"
     "promote_claim c1 = (if states c ! a = NOT_PRESENT then invalidate (promote_claim c) a else promote_claim c)"
    using set_present_ok [OF Cons.prems(1) a] by blast
  note f = same_rest_simps [OF c1(4)]
  have cl: "is_claimed (promote_claim c1) j = is_claimed (promote_claim c) j" for j
    by (auto simp: c1(5) is_claimed_def invalidate_def bt_get_insert split: option.splits)
  obtain c' where c': "set_present_blocks blocks c1 = Some c'" "ci_wf c'" "same_rest c1 c'"
     "\<forall>i<num_blocks c. states c' ! i = (if i \<in> set blocks \<and> states c1 ! i = NOT_PRESENT then CLEAN else states c1 ! i)"
     "\<forall>j. is_claimed (promote_claim c') j = is_claimed (promote_claim c1) j"
    using Cons.IH [OF c1(2)] Cons.prems(2) f(4) by auto
  have ls: "length (states c) = num_blocks c" by (rule length_states [OF Cons.prems(1)])
  have "states c' ! i = (if i \<in> set (a # blocks) \<and> states c ! i = NOT_PRESENT then CLEAN else states c ! i)"
    if "i < num_blocks c" for i
    using c'(4) that a ls c1(3) by (cases "i = a"; cases "states c ! a = NOT_PRESENT") auto
  then show ?case using a c1(1) c' cl same_rest_trans [OF c1(4) c'(3)] by auto
qed

text \<open>The log entries of newly dirtied blocks, numbered from the one after \<open>s\<close>.\<close>

fun log_entries :: "u64 \<Rightarrow> nat list \<Rightarrow> WalEntry list" where
  "log_entries s [] = []"
| "log_entries s (b # bs) = \<lparr> block_index = of_nat b, entry_sequence = s + 1 \<rparr> # log_entries (s + 1) bs"

definition log_bytes :: "(bytes \<Rightarrow> u32) \<Rightarrow> WalEntry list \<Rightarrow> bytes" where
  "log_bytes wcrc es = concat (map (wal_record wcrc) es)"

lemma serialize_entry_append: "serialize_entry wcrc buf b s = buf @ serialize_entry wcrc [] b s"
  by (simp add: serialize_entry_def)

lemma seq_next_room: "unat s + 1 < 2 ^ 64 \<Longrightarrow> seq_next s = (s + 1, s + 1) \<and> unat (s + 1) = unat s + 1"
proof -
  assume a: "unat s + 1 < 2 ^ 64"
  then have "s \<noteq> - 1" by (auto simp: unsigned_minus_1_eq_mask mask_eq_exp_minus_1)
  moreover have "unat (s + 1) = unat s + 1" using a by (simp add: unat_word_ariths)
  ultimately show ?thesis by (simp add: seq_next_def)
qed

lemma ci_wf_sequence [simp]: "ci_wf (c\<lparr> sequence := s \<rparr>) = ci_wf c"
  by (simp add: ci_wf_def counters_ok_def geometry_ok_def states_def)

lemma states_sequence [simp]: "states (c\<lparr> sequence := s \<rparr>) = states c"
  by (simp add: states_def)

lemma same_rest_sequence:
  "\<lbrakk> same_rest c c'; same_rest (c'\<lparr> sequence := s \<rparr>) c'' \<rbrakk> \<Longrightarrow> same_rest (c\<lparr> sequence := s \<rparr>) c''"
  by (cases c, cases c', cases c'') (simp add: same_rest_def)

lemma mark_dirty_blocks_ok:
  assumes "ci_wf c" "distinct blocks" "\<forall>b\<in>set blocks. b < num_blocks c"
    and "unat (sequence c) + length blocks < 2 ^ 64"
  defines "fresh \<equiv> filter (\<lambda>b. states c ! b \<noteq> DIRTY) blocks"
  shows "\<exists>c'. mark_dirty_blocks wcrc blocks batch c = Some (batch @ log_bytes wcrc (log_entries (sequence c) fresh), c')
     \<and> ci_wf c' \<and> same_rest (c\<lparr> sequence := sequence c + of_nat (length fresh) \<rparr>) c'
     \<and> promote_claim c' = promote_claim c
     \<and> (\<forall>i<num_blocks c. states c' ! i = (if i \<in> set blocks then DIRTY else states c ! i))"
  using assms(1-4) unfolding fresh_def
proof (induction blocks arbitrary: c batch)
  case Nil
  then show ?case by (simp add: log_bytes_def)
next
  case (Cons a blocks)
  have a: "a < num_blocks c" and na: "a \<notin> set blocks" using Cons.prems(2,3) by auto
  obtain c1 where c1: "ci_transition_to_dirty c a = Some (states c ! a \<noteq> DIRTY, c1)" "ci_wf c1"
    "states c1 = (states c)[a := DIRTY]" "same_rest c c1" "promote_claim c1 = promote_claim c"
    using ci_transition_to_dirty_ok [OF Cons.prems(1) a] by blast
  note f = same_rest_simps [OF c1(4)]
  define s where "s = (if states c ! a = DIRTY then sequence c else sequence c + 1)"
  define d where "d = c1\<lparr> sequence := s \<rparr>"
  define batch1 where "batch1 = (if states c ! a = DIRTY then batch
      else batch @ serialize_entry wcrc [] (of_nat a) (sequence c + 1))"
  have room: "unat (sequence c) + 1 < 2 ^ 64" using Cons.prems(4) by simp
  have step: "mark_dirty_blocks wcrc (a # blocks) batch c = mark_dirty_blocks wcrc blocks batch1 d"
  proof (cases "states c ! a = DIRTY")
    case True
    have "d = c1" using True f(7) by (simp add: d_def s_def)
    then show ?thesis using True a c1(1) by (simp add: batch1_def)
  next
    case False
    then show ?thesis
      using a c1(1) seq_next_room [OF room] f(7) serialize_entry_append [of wcrc batch]
      by (simp add: batch1_def d_def s_def)
  qed
  have d: "ci_wf d" "\<forall>b\<in>set blocks. b < num_blocks d" "sequence d = s"
    "states d = (states c)[a := DIRTY]" "num_blocks d = num_blocks c" "promote_claim d = promote_claim c"
    using c1 Cons.prems(3) f(4) by (simp_all add: d_def)
  have sl: "unat (sequence d) + length blocks < 2 ^ 64"
    using Cons.prems(4) seq_next_room [OF room] d(3) by (simp add: s_def)
  have fr: "filter (\<lambda>b. states d ! b \<noteq> DIRTY) blocks = filter (\<lambda>b. states c ! b \<noteq> DIRTY) blocks"
  proof (rule filter_cong [OF refl])
    fix b assume "b \<in> set blocks"
    then have "b \<noteq> a" using na by auto
    then show "(states d ! b \<noteq> DIRTY) = (states c ! b \<noteq> DIRTY)" by (simp add: d(4))
  qed
  let ?fr = "filter (\<lambda>b. states c ! b \<noteq> DIRTY) blocks"
  obtain c' where c': "mark_dirty_blocks wcrc blocks batch1 d
      = Some (batch1 @ log_bytes wcrc (log_entries s ?fr), c')" "ci_wf c'"
     "same_rest (d\<lparr> sequence := s + of_nat (length ?fr) \<rparr>) c'" "promote_claim c' = promote_claim d"
     "\<forall>i<num_blocks d. states c' ! i = (if i \<in> set blocks then DIRTY else states d ! i)"
    using Cons.IH [OF d(1) _ d(2) sl, of batch1] Cons.prems(2) unfolding fr d(3) by auto
  let ?all = "filter (\<lambda>b. states c ! b \<noteq> DIRTY) (a # blocks)"
  have len: "s + of_nat (length ?fr) = sequence c + of_nat (length ?all)" by (simp add: s_def)
  have "same_rest (c\<lparr> sequence := sequence c + of_nat (length ?all) \<rparr>) c'"
    using same_rest_sequence [OF c1(4)] c'(3) unfolding len by (simp add: d_def)
  moreover have "batch1 @ log_bytes wcrc (log_entries s ?fr) = batch @ log_bytes wcrc (log_entries (sequence c) ?all)"
    by (simp add: batch1_def s_def log_bytes_def wal_record_def)
  moreover have "states c' ! i = (if i \<in> set (a # blocks) then DIRTY else states c ! i)" if "i < num_blocks c" for i
    using c'(5) that d(4,5) length_states [OF Cons.prems(1)] by (cases "i = a") auto
  ultimately show ?case using step c'(1,2,4) d(6) by auto
qed

lemma log_bytes_Nil: "log_bytes wcrc es = [] \<longleftrightarrow> es = []"
proof -
  have "length (wal_record wcrc e) = 20" for e by (simp add: wal_record_def serialize_entry_def)
  then have "wal_record wcrc e \<noteq> []" for e by (metis list.size(3) zero_neq_numeral)
  then show ?thesis by (cases es) (auto simp: log_bytes_def)
qed

lemma ci_wf_wal [simp]: "ci_wf (c\<lparr> wal := w \<rparr>) = ci_wf c"
  by (simp add: ci_wf_def counters_ok_def geometry_ok_def states_def)

lemma states_wal [simp]: "states (c\<lparr> wal := w \<rparr>) = states c"
  by (simp add: states_def)

lemma wal_append_ok:
  assumes "ci_wf c" "io_works io" "distinct blocks" "\<forall>b\<in>set blocks. b < num_blocks c"
    and "unat (sequence c) + length blocks < 2 ^ 64"
  defines "fresh \<equiv> filter (\<lambda>b. states c ! b \<noteq> DIRTY) blocks"
  shows "\<exists>c'. wal_append_and_mark_dirty wcrc io blocks c = Some (Inr (), c') \<and> ci_wf c'
     \<and> same_io c c' \<and> data_file c' = data_file c \<and> page_crcs c' = page_crcs c
     \<and> promote_claim c' = promote_claim c
     \<and> sequence c' = sequence c + of_nat (length fresh)
     \<and> wal c' = wal c @ log_bytes wcrc (log_entries (sequence c) fresh)
     \<and> (\<forall>i<num_blocks c. states c' ! i = (if i \<in> set blocks then DIRTY else states c ! i))"
proof -
  let ?b = "log_bytes wcrc (log_entries (sequence c) fresh)"
  obtain d where d: "mark_dirty_blocks wcrc blocks [] c = Some (?b, d)" "ci_wf d"
    "same_rest (c\<lparr> sequence := sequence c + of_nat (length fresh) \<rparr>) d" "promote_claim d = promote_claim c"
    "\<forall>i<num_blocks c. states d ! i = (if i \<in> set blocks then DIRTY else states c ! i)"
    using mark_dirty_blocks_ok [OF assms(1,3-5), of wcrc "[]"] unfolding fresh_def by auto
  note f = same_rest_simps [OF d(3)]
  define c' where "c' = d\<lparr> wal := wal c @ ?b \<rparr>"
  have run: "wal_append_and_mark_dirty wcrc io blocks c = Some (Inr (), c')"
  proof (cases "?b = []")
    case True
    then have "c' = d" using f(8) by (simp add: c'_def)
    then show ?thesis using True d(1) by (simp add: wal_append_and_mark_dirty_def)
  next
    case False
    then show ?thesis
      using d(1) f(8) assms(2)
      by (simp add: wal_append_and_mark_dirty_def append_batch_def c'_def Let_def)
  qed
  have "same_io c c'"
    using d(3) by (cases c, cases d) (simp add: same_rest_def same_io_def c'_def)
  then show ?thesis using run d(2,4,5) f by (simp add: c'_def)
qed

section \<open>Data landing in the active file\<close>

definition landed :: "CacheInner \<Rightarrow> nat \<Rightarrow> bytes \<Rightarrow> page_map \<Rightarrow> CacheInner" where
  "landed c off data m = c\<lparr> data_file := overwrite (data_file c) off data, page_crcs := m \<rparr>"

abbreviation wblocks :: "CacheInner \<Rightarrow> nat \<Rightarrow> bytes \<Rightarrow> nat list" where
  "wblocks c off data \<equiv> touched (bsize c) off (off + length data)"

lemma in_touched:
  assumes "0 < bs" "off \<le> k" "k < fin"
  shows "k div bs \<in> set (touched bs off fin)"
proof -
  have "off div bs \<le> k div bs" using assms(2) by (rule div_le_mono)
  moreover have "k div bs \<le> (fin - 1) div bs" using assms(3) by (intro div_le_mono) simp
  ultimately show ?thesis by (simp add: set_touched)
qed

lemma wblocks_in_range:
  assumes "geometry_ok c" "data \<noteq> []" "off + length data \<le> dsize c"
  shows "\<forall>i\<in>set (wblocks c off data). i < num_blocks c"
proof
  fix i assume "i \<in> set (wblocks c off data)"
  then show "i < num_blocks c"
    using last_block_less [of "bsize c" "off + length data" "num_blocks c" i] device_covered [OF assms(1)] assms
    by (auto simp: set_touched geometry_ok_def)
qed

lemma landed_ok:
  assumes wf: "ci_wf c" and rng: "data \<noteq> []" "off + length data \<le> dsize c"
    and np: "\<forall>i\<in>set (wblocks c off data). \<not> promoted c i"
  shows "ci_wf (landed c off data m)" "states (landed c off data m) = states c"
    "same_io c (landed c off data m)" "src_file (landed c off data m) = overwrite (src_file c) off data"
    "promoted (landed c off data m) = promoted c"
proof -
  let ?d = "landed c off data m"
  have g: "geometry_ok c" and df: "length (data_file c) = dsize c" using wf by (auto simp: ci_wf_def)
  show "ci_wf ?d"
    using wf df rng(2) by (simp add: landed_def ci_wf_def counters_ok_def geometry_ok_def states_def)
  show st: "states ?d = states c" by (simp add: landed_def states_def)
  show "same_io c ?d" by (simp add: landed_def same_io_def)
  show pr: "promoted ?d = promoted c"
    by (rule ext, rule promoted_cong) (simp_all add: st, simp_all add: landed_def)
  have bs: "0 < bsize c" using g by (simp add: geometry_ok_def)
  show "src_file ?d = overwrite (src_file c) off data"
  proof (rule nth_equalityI)
    show "length (src_file ?d) = length (overwrite (src_file c) off data)"
      using rng(2) by (simp add: landed_def)
  next
    fix k assume "k < length (src_file ?d)"
    then have k: "k < dsize c" by (simp add: landed_def)
    show "src_file ?d ! k = overwrite (src_file c) off data ! k"
    proof (cases "off \<le> k \<and> k < off + length data")
      case True
      then have "\<not> promoted c (k div bsize c)" using np in_touched [OF bs] by blast
      then show ?thesis
        using True k rng(2) df pr by (simp add: nth_src_file nth_overwrite landed_def)
    next
      case False
      then show ?thesis
        using k rng(2) df pr by (auto simp: nth_src_file nth_overwrite landed_def)
    qed
  qed
qed

text \<open>The log entries a write of clean, absent or stranded blocks makes.\<close>

definition fresh_blocks :: "CacheInner \<Rightarrow> nat list \<Rightarrow> nat list" where
  "fresh_blocks c blocks = filter (\<lambda>b. states c ! b \<noteq> DIRTY \<and> \<not> promoted c b) blocks"

definition wrote :: "(bytes \<Rightarrow> u32) \<Rightarrow> (bytes \<Rightarrow> u32) \<Rightarrow> CacheInner \<Rightarrow> nat \<Rightarrow> bytes \<Rightarrow> CacheInner \<Rightarrow> bool" where
  "wrote pcrc wcrc c off data c' \<longleftrightarrow> ci_wf c' \<and> same_io c c'
     \<and> src_file c' = overwrite (src_file c) off data
     \<and> (\<forall>i<num_blocks c. states c' ! i = (if i \<in> set (wblocks c off data) then DIRTY else states c ! i))
     \<and> wal c' = wal c @ log_bytes wcrc (log_entries (sequence c) (fresh_blocks c (wblocks c off data)))
     \<and> sequence c' = sequence c + of_nat (length (fresh_blocks c (wblocks c off data)))
     \<and> crcs_ok pcrc c'
     \<and> (\<forall>j. is_claimed (promote_claim c') j = is_claimed (promote_claim c) j)"

lemma commit_ok:
  assumes wf: "ci_wf c" and rng: "data \<noteq> []" "off + length data \<le> dsize c" and io: "io_works io"
    and np: "\<forall>i\<in>set (wblocks c off data). \<not> promoted c i"
    and room: "unat (sequence c) + length (wblocks c off data) < 2 ^ 64"
    and crc: "crc_sound pcrc (bsize c) (pages_per_block c) (num_blocks c) (overwrite (src_file c) off data) m"
  shows "\<exists>c'. wal_append_and_mark_dirty wcrc io (wblocks c off data) (landed c off data m) = Some (Inr (), c')
     \<and> wrote pcrc wcrc c off data c' \<and> promote_claim c' = promote_claim c"
proof -
  let ?d = "landed c off data m" and ?bl = "wblocks c off data"
  have g: "geometry_ok c" using wf by (simp add: ci_wf_def)
  note d = landed_ok [OF wf rng np, of m]
  have f: "config ?d = config c" "flushing_file ?d = flushing_file c" "num_blocks ?d = num_blocks c"
    "sequence ?d = sequence c" "wal ?d = wal c" "page_crcs ?d = m" "promote_claim ?d = promote_claim c"
    "pages_per_block ?d = pages_per_block c"
    by (simp_all add: landed_def)
  have bl: "\<forall>i\<in>set ?bl. i < num_blocks ?d" using wblocks_in_range [OF g rng] f(3) by simp
  have fr: "filter (\<lambda>b. states c ! b \<noteq> DIRTY) ?bl = fresh_blocks c ?bl"
    unfolding fresh_blocks_def using np by (intro filter_cong) auto
  have rm: "unat (sequence ?d) + length ?bl < 2 ^ 64" using room f(4) by simp
  obtain c' where c': "wal_append_and_mark_dirty wcrc io ?bl ?d = Some (Inr (), c')" "ci_wf c'" "same_io ?d c'"
     "data_file c' = data_file ?d" "page_crcs c' = m" "promote_claim c' = promote_claim ?d"
     "sequence c' = sequence c + of_nat (length (fresh_blocks c ?bl))"
     "wal c' = wal c @ log_bytes wcrc (log_entries (sequence c) (fresh_blocks c ?bl))"
     "\<forall>i<num_blocks c. states c' ! i = (if i \<in> set ?bl then DIRTY else states c ! i)"
    using wal_append_ok [OF d(1) io touched_distinct bl rm, of wcrc] unfolding fr f d(2) by blast
  note s = same_io_simps [OF c'(3)]
  have src: "src_file c' = overwrite (src_file c) off data"
    unfolding d(4) [symmetric]
  proof (rule src_file_cong)
    show "geometry_ok ?d" using d(1) by (simp add: ci_wf_def)
    show "promoted c' i = promoted ?d i" if "i < num_blocks ?d" for i
    proof (cases "i \<in> set ?bl")
      case True
      then have "states c' ! i = DIRTY" using c'(9) that f(3) by simp
      then show ?thesis using np True promoted_state [of c' i] d(5) by auto
    next
      case False
      then have "states c' ! i = states ?d ! i" using c'(9) that f(3) d(2) by simp
      then show ?thesis by (intro promoted_cong) (simp_all add: s)
    qed
  qed (simp_all add: s c'(4))
  have "crcs_ok pcrc c'"
    using crc by (simp add: crcs_ok_def src c'(5) s f)
  then show ?thesis
    using c' src same_io_trans [OF d(3) c'(3)] f(7) by (auto simp: wrote_def)
qed

section \<open>Whole writes\<close>

lemma check_range_ok:
  "\<lbrakk> geometry_ok c; off + len \<le> dsize c \<rbrakk> \<Longrightarrow> check_range c off len = Inr (off + len)"
  by (simp add: check_range_def geometry_ok_def)

lemma crcs_ok_sound:
  assumes "ci_wf c" "crcs_ok pcrc c" "data \<noteq> []" "off + length data \<le> dsize c"
  shows "\<exists>m. capture_page_crcs pcrc (bsize c) (pages_per_block c) off data (page_crcs c) = Some m
       \<and> crc_sound pcrc (bsize c) (pages_per_block c) (num_blocks c) (overwrite (src_file c) off data) m"
    "\<exists>m. capture_zero_page_crcs pcrc (bsize c) (pages_per_block c) off (length data) (page_crcs c) = Some m
       \<and> crc_sound pcrc (bsize c) (pages_per_block c) (num_blocks c)
            (overwrite (src_file c) off (replicate (length data) 0)) m"
    "\<exists>m. invalidate_page_crcs (bsize c) off (length data) (page_crcs c) = Some m
       \<and> crc_sound pcrc (bsize c) (pages_per_block c) (num_blocks c) (overwrite (src_file c) off data) m"
proof -
  have g: "geometry_ok c" using assms(1) by (simp add: ci_wf_def)
  have geo: "0 < bsize c" "pages_per_block c * PAGE_SIZE = bsize c" "length (src_file c) \<le> num_blocks c * bsize c"
    "num_blocks c \<le> 2 ^ 32"
    using g device_covered [OF g] by (simp_all add: geometry_ok_def)
  have rng: "off + length data \<le> length (src_file c)" "0 < length data" using assms(3,4) by simp_all
  note snd = assms(2) [unfolded crcs_ok_def]
  show "\<exists>m. capture_page_crcs pcrc (bsize c) (pages_per_block c) off data (page_crcs c) = Some m
       \<and> crc_sound pcrc (bsize c) (pages_per_block c) (num_blocks c) (overwrite (src_file c) off data) m"
    by (rule capture_page_crcs_sound [OF snd geo assms(3) rng(1)])
  show "\<exists>m. capture_zero_page_crcs pcrc (bsize c) (pages_per_block c) off (length data) (page_crcs c) = Some m
       \<and> crc_sound pcrc (bsize c) (pages_per_block c) (num_blocks c)
            (overwrite (src_file c) off (replicate (length data) 0)) m"
    by (rule capture_zero_page_crcs_sound [OF snd geo rng(2,1)])
  show "\<exists>m. invalidate_page_crcs (bsize c) off (length data) (page_crcs c) = Some m
       \<and> crc_sound pcrc (bsize c) (pages_per_block c) (num_blocks c) (overwrite (src_file c) off data) m"
    by (rule invalidate_page_crcs_sound [OF snd geo rng(2,1)])
       (use rng(1) overwrite_elsewhere [OF rng(1)] in auto)
qed

text \<open>A cache ready for a guest write to the blocks: nothing claimed, sequence numbers left.\<close>

definition writable :: "(bytes \<Rightarrow> u32) \<Rightarrow> CacheInner \<Rightarrow> nat \<Rightarrow> nat \<Rightarrow> bool" where
  "writable pcrc c off len \<longleftrightarrow> ci_wf c \<and> crcs_ok pcrc c \<and> 0 < len \<and> off + len \<le> dsize c
     \<and> (\<forall>i\<in>set (touched (bsize c) off (off + len)). \<not> is_claimed (promote_claim c) i)
     \<and> unat (sequence c) + length (touched (bsize c) off (off + len)) < 2 ^ 64"

text \<open>Promotion and marking present, the common first half of a write.\<close>

definition prepared :: "CacheInner \<Rightarrow> nat list \<Rightarrow> CacheInner \<Rightarrow> bool" where
  "prepared c blocks c' \<longleftrightarrow> ci_wf c' \<and> same_but_data c c' \<and> src_file c' = src_file c
     \<and> (\<forall>i\<in>set blocks. \<not> promoted c' i)
     \<and> (\<forall>i<num_blocks c. i \<notin> set blocks \<longrightarrow> states c' ! i = states c ! i)
     \<and> fresh_blocks c' blocks = fresh_blocks c blocks
     \<and> (\<forall>j. is_claimed (promote_claim c') j = is_claimed (promote_claim c) j)"

lemma promote_prepared:
  assumes wf: "ci_wf c" and io: "io_works io" and bl: "distinct blocks" "\<forall>i\<in>set blocks. i < num_blocks c"
    and free: "\<forall>i\<in>set blocks. \<not> is_claimed (promote_claim c) i" and ok: "promotion_ok c req blocks"
  shows "\<exists>c1. promote_syncing_blocks io (\<lambda>_. []) blocks req c = Some (Inr (), c1) \<and> prepared c blocks c1"
proof -
  obtain c1 where c1: "promote_syncing_blocks io (\<lambda>_. []) blocks req c = Some (Inr (), c1)" "ci_wf c1"
     "same_but_data c c1" "src_file c1 = src_file c"
     "\<forall>i<num_blocks c. states c1 ! i = (if i \<in> set blocks \<and> promoted c i then DIRTY else states c ! i)"
     "\<forall>j. is_claimed (promote_claim c1) j = is_claimed (promote_claim c) j"
    using promote_ok [OF assms] by blast
  note f = same_but_data_simps [OF c1(3)]
  have np: "\<not> promoted c1 i" if "i \<in> set blocks" for i
  proof (cases "promoted c i")
    case True
    then have "states c1 ! i = DIRTY" using c1(5) bl(2) that by auto
    then show ?thesis using promoted_state [of c1 i] by auto
  next
    case False
    then have "states c1 ! i = states c ! i" using c1(5) bl(2) that by auto
    then show ?thesis using False promoted_cong [OF f(1,2)] by blast
  qed
  have "states c1 ! i = (if promoted c i then DIRTY else states c ! i)" if "i \<in> set blocks" for i
    using c1(5) bl(2) that by auto
  then have "fresh_blocks c1 blocks = fresh_blocks c blocks"
    unfolding fresh_blocks_def using np by (intro filter_cong) auto
  then show ?thesis using c1 np by (auto simp: prepared_def)
qed

lemma prepared_present:
  assumes p: "prepared c blocks c1" and bl: "\<forall>i\<in>set blocks. i < num_blocks c"
  shows "\<exists>c2. present_act blocks c1 = Some (Inr (), c2) \<and> prepared c blocks c2"
proof -
  have p1: "ci_wf c1" "same_but_data c c1" "src_file c1 = src_file c" "\<forall>i\<in>set blocks. \<not> promoted c1 i"
    "\<forall>i<num_blocks c. i \<notin> set blocks \<longrightarrow> states c1 ! i = states c ! i"
    "fresh_blocks c1 blocks = fresh_blocks c blocks"
    "\<forall>j. is_claimed (promote_claim c1) j = is_claimed (promote_claim c) j"
    using p by (auto simp: prepared_def)
  note f = same_but_data_simps [OF p1(2)]
  have bl1: "\<forall>i\<in>set blocks. i < num_blocks c1" using bl f(3) by simp
  obtain c2 where c2: "set_present_blocks blocks c1 = Some c2" "ci_wf c2" "same_rest c1 c2"
     "\<forall>i<num_blocks c1. states c2 ! i = (if i \<in> set blocks \<and> states c1 ! i = NOT_PRESENT then CLEAN else states c1 ! i)"
     "\<forall>j. is_claimed (promote_claim c2) j = is_claimed (promote_claim c1) j"
    using set_present_blocks_ok [OF p1(1) bl1] by blast
  note h = same_rest_simps [OF c2(3)]
  have pc: "promoted c2 i = promoted c1 i" if "i < num_blocks c1" for i
  proof (cases "i \<in> set blocks \<and> states c1 ! i = NOT_PRESENT")
    case True
    then have "states c2 ! i = CLEAN" using c2(4) that by simp
    then show ?thesis using True p1(4) promoted_state [of c2 i] by auto
  next
    case False
    then have "states c2 ! i = states c1 ! i" using c2(4) that by auto
    then show ?thesis by (intro promoted_cong) (simp_all add: h)
  qed
  have "geometry_ok c1" using p1(1) by (simp add: ci_wf_def)
  then have src: "src_file c2 = src_file c"
    unfolding p1(3) [symmetric] by (rule src_file_cong) (simp_all add: h pc)
  have np: "\<forall>i\<in>set blocks. \<not> promoted c2 i" using p1(4) pc bl1 by blast
  have "same_but_data c c2" using p1(2) same_rest_but_data [OF c2(3)] by (rule same_but_data_trans)
  moreover have "states c2 ! i = states c ! i" if "i < num_blocks c" "i \<notin> set blocks" for i
    using that p1(5) c2(4) f(3) by auto
  moreover have "fresh_blocks c2 blocks = fresh_blocks c1 blocks"
    unfolding fresh_blocks_def using c2(4) p1(4) np bl1 by (intro filter_cong) auto
  ultimately show ?thesis using c2(1,2,5) src np p1(6,7) by (auto simp: prepared_def present_act_def)
qed

lemma prepare_ok:
  assumes "ci_wf c" "io_works io" "distinct blocks" and bl: "\<forall>i\<in>set blocks. i < num_blocks c"
    and "\<forall>i\<in>set blocks. \<not> is_claimed (promote_claim c) i" "promotion_ok c req blocks"
  shows "\<exists>c1 c2. promote_syncing_blocks io (\<lambda>_. []) blocks req c = Some (Inr (), c1)
     \<and> present_act blocks c1 = Some (Inr (), c2) \<and> prepared c blocks c2"
  using promote_prepared [OF assms] prepared_present [OF _ bl] by blast

lemma prepared_wrote:
  assumes p: "prepared c blocks c2" and bl: "blocks = wblocks c off data" and w: "wrote pcrc wcrc c2 off data c'"
  shows "wrote pcrc wcrc c off data c'"
proof -
  have s: "same_but_data c c2" using p by (simp add: prepared_def)
  note f = same_but_data_simps [OF s]
  have "same_io c c'"
    using same_io_trans [OF same_but_data_io [OF s]] w by (simp add: wrote_def)
  then show ?thesis using p w by (auto simp: wrote_def prepared_def f bl)
qed

lemma prepared_crcs:
  assumes "prepared c blocks c2" "crcs_ok pcrc c"
  shows "crcs_ok pcrc c2"
proof -
  have s: "same_but_data c c2" using assms(1) by (simp add: prepared_def)
  show ?thesis using assms by (simp add: prepared_def crcs_ok_def same_but_data_simps [OF s])
qed

lemma write_inner_ok:
  assumes w: "writable pcrc c off (length data)" and io: "io_works io" and nf: "\<not> fenced c"
    and ok: "promotion_ok c req (wblocks c off data)"
  shows "\<exists>c'. write_inner pcrc wcrc io (\<lambda>_. []) off data req c = Some (Inr (), c')
     \<and> wrote pcrc wcrc c off data c'"
proof -
  let ?bl = "wblocks c off data"
  have wf: "ci_wf c" and crc: "crcs_ok pcrc c" and rng: "data \<noteq> []" "off + length data \<le> dsize c"
    and free: "\<forall>i\<in>set ?bl. \<not> is_claimed (promote_claim c) i"
    and room: "unat (sequence c) + length ?bl < 2 ^ 64"
    using w by (auto simp: writable_def)
  have g: "geometry_ok c" using wf by (simp add: ci_wf_def)
  obtain c1 c2 where c1: "promote_syncing_blocks io (\<lambda>_. []) ?bl req c = Some (Inr (), c1)"
    "present_act ?bl c1 = Some (Inr (), c2)" and p: "prepared c ?bl c2"
    using prepare_ok [OF wf io touched_distinct wblocks_in_range [OF g rng] free ok] by blast
  have p2: "ci_wf c2" "same_but_data c c2" "\<forall>i\<in>set ?bl. \<not> promoted c2 i" using p by (auto simp: prepared_def)
  note f = same_but_data_simps [OF p2(2)]
  have rng2: "off + length data \<le> dsize c2" using rng(2) f(1) by simp
  obtain m where m: "capture_page_crcs pcrc (bsize c2) (pages_per_block c2) off data (page_crcs c2) = Some m"
    "crc_sound pcrc (bsize c2) (pages_per_block c2) (num_blocks c2) (overwrite (src_file c2) off data) m"
    using crcs_ok_sound(1) [OF p2(1) prepared_crcs [OF p crc] rng(1) rng2] by blast
  have np2: "\<forall>i\<in>set (wblocks c2 off data). \<not> promoted c2 i" using p2(3) f(1) by simp
  have room2: "unat (sequence c2) + length (wblocks c2 off data) < 2 ^ 64" using room f by simp
  obtain c' where c': "wal_append_and_mark_dirty wcrc io (wblocks c2 off data) (landed c2 off data m) = Some (Inr (), c')"
    "wrote pcrc wcrc c2 off data c'"
    using commit_ok [OF p2(1) rng(1) rng2 io np2 room2 m(2)] by blast
  have "write_inner pcrc wcrc io (\<lambda>_. []) off data req c = Some (Inr (), c')"
    using nf rng(1) g check_range_ok [OF g rng(2)] c1 c'(1) m(1) io f(1)
    by (simp add: write_inner_def geometry_ok_def Let_def pwrite_act_def write_all_at_def capture_act_def crc_act_def
        landed_def)
  then show ?thesis using prepared_wrote [OF p refl c'(2)] by blast
qed

lemma overwrite_append:
  assumes "off + length a + length b \<le> length f"
  shows "overwrite (overwrite f off a) (off + length a) b = overwrite f off (a @ b)"
  using assms by (intro nth_equalityI) (auto simp: nth_overwrite nth_append)

lemma zero_range_fallback_ok:
  "\<lbrakk> io_works io; off + len \<le> length f \<rbrakk>
    \<Longrightarrow> zero_range_fallback_with io off len f = (Inr (), overwrite f off (replicate len 0))"
proof (induction io off len f rule: zero_range_fallback_with.induct)
  case (1 io off len f)
  show ?case
  proof (cases "len = 0")
    case True
    then show ?thesis using 1(3) by (simp add: zero_range_fallback_with.simps overwrite_def)
  next
    case False
    define n where "n = min len ZERO_CHUNK_SIZE"
    have n: "n \<le> len" "replicate len (0::byte) = replicate n 0 @ replicate (len - n) 0"
      by (simp_all add: n_def replicate_add [symmetric])
    define f' where "f' = overwrite f off (replicate n 0)"
    have wr: "write_all_at io f (replicate n 0) off = (Inr (), f')"
      using 1(2) by (simp add: write_all_at_def f'_def)
    have lf: "off + n + (len - n) \<le> length f'" using n(1) 1(3) by (simp add: f'_def)
    have "zero_range_fallback_with io off len f = zero_range_fallback_with io (off + n) (len - n) f'"
      using False wr by (simp add: zero_range_fallback_with.simps [of io off len f] n_def Let_def)
    also have "\<dots> = (Inr (), overwrite f' (off + n) (replicate (len - n) 0))"
      using 1(1) [OF False n_def wr [symmetric] refl 1(2) lf] by simp
    also have "overwrite f' (off + n) (replicate (len - n) 0) = overwrite f off (replicate len 0)"
      using overwrite_append [of off "replicate n 0" "replicate (len - n) 0" f] n 1(3) by (simp add: f'_def)
    finally show ?thesis .
  qed
qed

lemma zero_range_ok:
  assumes w: "writable pcrc c off len" and io: "io_works io" and sys: "sys \<noteq> FallocFailed"
  shows "\<exists>c'. zero_range pcrc wcrc io sys (\<lambda>_. []) off len c = Some (Inr (), c')
     \<and> wrote pcrc wcrc c off (replicate len 0) c'"
proof -
  let ?z = "replicate len (0::byte)" and ?bl = "touched (bsize c) off (off + len)"
  have wf: "ci_wf c" and crc: "crcs_ok pcrc c" and rng: "?z \<noteq> []" "off + length ?z \<le> dsize c" "0 < len"
    and free: "\<forall>i\<in>set ?bl. \<not> is_claimed (promote_claim c) i"
    and room: "unat (sequence c) + length ?bl < 2 ^ 64"
    using w by (auto simp: writable_def)
  have g: "geometry_ok c" using wf by (simp add: ci_wf_def)
  have inr: "\<forall>i\<in>set ?bl. i < num_blocks c" using wblocks_in_range [OF g rng(1,2)] by simp
  have ok: "promotion_ok c False ?bl" by (simp add: promotion_ok_def)
  obtain c1 c2 where c1: "promote_syncing_blocks io (\<lambda>_. []) ?bl False c = Some (Inr (), c1)"
    "present_act ?bl c1 = Some (Inr (), c2)" and p: "prepared c ?bl c2"
    using prepare_ok [OF wf io touched_distinct inr free ok] by blast
  have p2: "ci_wf c2" "same_but_data c c2" "\<forall>i\<in>set ?bl. \<not> promoted c2 i" using p by (auto simp: prepared_def)
  note f = same_but_data_simps [OF p2(2)]
  have rng2: "off + length ?z \<le> dsize c2" using rng(2) f(1) by simp
  obtain m where m: "capture_zero_page_crcs pcrc (bsize c2) (pages_per_block c2) off len (page_crcs c2) = Some m"
    "crc_sound pcrc (bsize c2) (pages_per_block c2) (num_blocks c2) (overwrite (src_file c2) off ?z) m"
    using crcs_ok_sound(2) [OF p2(1) prepared_crcs [OF p crc] rng(1) rng2] by auto
  have np2: "\<forall>i\<in>set (wblocks c2 off ?z). \<not> promoted c2 i" using p2(3) f(1) by simp
  have room2: "unat (sequence c2) + length (wblocks c2 off ?z) < 2 ^ 64" using room f by simp
  obtain c' where c': "wal_append_and_mark_dirty wcrc io (wblocks c2 off ?z) (landed c2 off ?z m) = Some (Inr (), c')"
    "wrote pcrc wcrc c2 off ?z c'"
    using commit_ok [OF p2(1) rng(1) rng2 io np2 room2 m(2)] by blast
  have "length (data_file c2) = dsize c2" using p2(1) by (simp add: ci_wf_def)
  then have zf: "zero_file io sys off len c2 = Some (Inr (), c2\<lparr> data_file := overwrite (data_file c2) off ?z \<rparr>)"
    using sys rng2 zero_range_fallback_ok [OF io, of off len "data_file c2"]
    by (cases sys) (simp_all add: zero_file_def)
  have "zero_range pcrc wcrc io sys (\<lambda>_. []) off len c = Some (Inr (), c')"
    using rng(3) g check_range_ok [OF g, of off len] rng(2) c1 c'(1) m(1) f(1) zf
    by (simp add: zero_range_def geometry_ok_def Let_def crc_act_def landed_def)
  moreover have "wrote pcrc wcrc c off ?z c'" by (rule prepared_wrote [OF p _ c'(2)]) simp
  ultimately show ?thesis by blast
qed

text \<open>What a finished write means for the guest.\<close>

lemma wrote_view:
  assumes "geometry_ok c" "wrote pcrc wcrc c off data c'" "off + length data \<le> dsize c" "k < dsize c"
    and "\<not> (off \<le> k \<and> k < off + length data) \<Longrightarrow> k div bsize c \<in> set (wblocks c off data) \<Longrightarrow>
      states c ! (k div bsize c) = DIRTY \<or> states c ! (k div bsize c) = SYNCING \<or> R k = src_file c ! k"
  shows "view R c' k = (if off \<le> k \<and> k < off + length data then data ! (k - off) else view R c k)"
proof -
  have s: "same_io c c'" using assms(2) by (simp add: wrote_def)
  note f = same_io_simps [OF s]
  have b: "k div bsize c < num_blocks c" by (rule block_of_byte [OF assms(1,4)])
  have bs: "0 < bsize c" using assms(1) by (simp add: geometry_ok_def)
  have st: "states c' ! (k div bsize c) = (if k div bsize c \<in> set (wblocks c off data) then DIRTY else states c ! (k div bsize c))"
    and src: "src_file c' = overwrite (src_file c) off data"
    using assms(2) b by (auto simp: wrote_def)
  show ?thesis
  proof (cases "off \<le> k \<and> k < off + length data")
    case True
    then have "k div bsize c \<in> set (wblocks c off data)" using in_touched [OF bs] by blast
    then show ?thesis using True st src assms(3,4) by (simp add: view_def f nth_overwrite)
  next
    case False
    have sk: "src_file c' ! k = src_file c ! k" using False src assms(3,4) by (auto simp: nth_overwrite)
    show ?thesis
    proof (cases "k div bsize c \<in> set (wblocks c off data)")
      case True
      then show ?thesis using assms(5) [OF False True] False st sk by (auto simp: view_def f)
    next
      case out: False
      then show ?thesis using False st sk by (auto simp: view_def f)
    qed
  qed
qed

section \<open>Zero-copy writes\<close>

text \<open>The part of a zero-copy write that runs under the rotation gate.\<close>

definition zc_gated :: "(bytes \<Rightarrow> u32) \<Rightarrow> io_env \<Rightarrow> rounds \<Rightarrow> nat \<Rightarrow> bytes \<Rightarrow> unit act" where
  "zc_gated wcrc io sched off data =
     cbind (zc_promote_for_write_with io sched off (length data)) (\<lambda>_.
     cbind (kernel_write off data) (\<lambda>_.
       commit_after_zc_write_with wcrc io off (length data)))"

lemma promote_then_land:
  assumes w: "writable pcrc c off (length data)" and io: "io_works io"
    and ok: "promotion_ok c req (wblocks c off data)"
  obtains c1 m m2 c' c'' where
    "promote_syncing_blocks io (\<lambda>_. []) (wblocks c off data) req c = Some (Inr (), c1)" "config c1 = config c"
    "capture_page_crcs pcrc (bsize c) (pages_per_block c1) off data (page_crcs c1) = Some m"
    "invalidate_page_crcs (bsize c) off (length data) (page_crcs c1) = Some m2"
    "wal_append_and_mark_dirty wcrc io (wblocks c off data) (landed c1 off data m) = Some (Inr (), c')"
    "wal_append_and_mark_dirty wcrc io (wblocks c off data) (landed c1 off data m2) = Some (Inr (), c'')"
    "wrote pcrc wcrc c off data c'" "wrote pcrc wcrc c off data c''"
proof -
  let ?bl = "wblocks c off data"
  have wf: "ci_wf c" and crc: "crcs_ok pcrc c" and rng: "data \<noteq> []" "off + length data \<le> dsize c"
    and free: "\<forall>i\<in>set ?bl. \<not> is_claimed (promote_claim c) i"
    and room: "unat (sequence c) + length ?bl < 2 ^ 64"
    using w by (auto simp: writable_def)
  have g: "geometry_ok c" using wf by (simp add: ci_wf_def)
  obtain c1 where c1: "promote_syncing_blocks io (\<lambda>_. []) ?bl req c = Some (Inr (), c1)" and p: "prepared c ?bl c1"
    using promote_prepared [OF wf io touched_distinct wblocks_in_range [OF g rng] free ok] by blast
  have p2: "ci_wf c1" "same_but_data c c1" "\<forall>i\<in>set ?bl. \<not> promoted c1 i" using p by (auto simp: prepared_def)
  note f = same_but_data_simps [OF p2(2)]
  have rng2: "off + length data \<le> dsize c1" using rng(2) f(1) by simp
  have np2: "\<forall>i\<in>set (wblocks c1 off data). \<not> promoted c1 i" using p2(3) f(1) by simp
  have room2: "unat (sequence c1) + length (wblocks c1 off data) < 2 ^ 64" using room f by simp
  note snd = crcs_ok_sound [OF p2(1) prepared_crcs [OF p crc] rng(1) rng2]
  note com = commit_ok [OF p2(1) rng(1) rng2 io np2 room2, of pcrc _ wcrc]
  obtain m where m: "capture_page_crcs pcrc (bsize c1) (pages_per_block c1) off data (page_crcs c1) = Some m"
    "crc_sound pcrc (bsize c1) (pages_per_block c1) (num_blocks c1) (overwrite (src_file c1) off data) m"
    using snd(1) by blast
  obtain m2 where m2: "invalidate_page_crcs (bsize c1) off (length data) (page_crcs c1) = Some m2"
    "crc_sound pcrc (bsize c1) (pages_per_block c1) (num_blocks c1) (overwrite (src_file c1) off data) m2"
    using snd(3) by blast
  obtain c' c'' where "wal_append_and_mark_dirty wcrc io (wblocks c1 off data) (landed c1 off data m) = Some (Inr (), c')"
    "wrote pcrc wcrc c1 off data c'"
    "wal_append_and_mark_dirty wcrc io (wblocks c1 off data) (landed c1 off data m2) = Some (Inr (), c'')"
    "wrote pcrc wcrc c1 off data c''"
    using com [OF m(2)] com [OF m2(2)] by blast
  then show thesis
    using that [OF c1 f(1), of m m2 c' c''] m(1) m2(1) prepared_wrote [OF p refl] f(1) by simp
qed

lemma gated_writes_ok:
  assumes w: "writable pcrc c off (length data)" and io: "io_works io"
    and ok: "promotion_ok c True (wblocks c off data)"
  shows "\<exists>c'. pwrite_and_commit pcrc wcrc io (\<lambda>_. []) off data c = Some (Inr (), c') \<and> wrote pcrc wcrc c off data c'"
    "\<exists>c'. zc_gated wcrc io (\<lambda>_. []) off data c = Some (Inr (), c') \<and> wrote pcrc wcrc c off data c'"
proof -
  let ?bl = "wblocks c off data"
  have g: "geometry_ok c" and rng: "data \<noteq> []" "off + length data \<le> dsize c"
    using w by (auto simp: writable_def ci_wf_def)
  have okr: "promotion_ok c req ?bl" for req using ok by (simp add: promotion_ok_def)
  have lt: "off + length data < 2 ^ 64" and bs: "bsize c \<noteq> 0" using g rng(2) by (simp_all add: geometry_ok_def)
  obtain c1 m c' where "promote_syncing_blocks io (\<lambda>_. []) ?bl True c = Some (Inr (), c1)" "config c1 = config c"
     "capture_page_crcs pcrc (bsize c) (pages_per_block c1) off data (page_crcs c1) = Some m"
     "wal_append_and_mark_dirty wcrc io ?bl (landed c1 off data m) = Some (Inr (), c')"
     "wrote pcrc wcrc c off data c'"
    using promote_then_land [OF w io ok] by metis
  then show "\<exists>c'. pwrite_and_commit pcrc wcrc io (\<lambda>_. []) off data c = Some (Inr (), c') \<and> wrote pcrc wcrc c off data c'"
    using lt bs rng(1) io
    by (simp add: pwrite_and_commit_def Let_def pwrite_act_def write_all_at_def capture_act_def crc_act_def landed_def)
  define req where "req = (\<not> (off mod bsize c = 0 \<and> length data mod bsize c = 0))"
  obtain c1 m c' where c1: "promote_syncing_blocks io (\<lambda>_. []) ?bl req c = Some (Inr (), c1)" "config c1 = config c"
     "invalidate_page_crcs (bsize c) off (length data) (page_crcs c1) = Some m"
     "wal_append_and_mark_dirty wcrc io ?bl (landed c1 off data m) = Some (Inr (), c')"
     "wrote pcrc wcrc c off data c'"
    using promote_then_land [OF w io okr] by metis
  have "zc_promote_for_write_with io (\<lambda>_. []) off (length data) c = Some (Inr (), c1)"
    using c1(1) lt bs rng(1) by (simp add: zc_promote_for_write_with_def req_def)
  then show "\<exists>c'. zc_gated wcrc io (\<lambda>_. []) off data c = Some (Inr (), c') \<and> wrote pcrc wcrc c off data c'"
    using c1(2-5) lt bs rng(1)
    by (simp add: zc_gated_def kernel_write_def commit_after_zc_write_with_def Let_def crc_act_def landed_def)
qed

section \<open>Refused writes\<close>

lemma promote_step_src:
  assumes wf: "ci_wf c" and ff: "flushing_file c = Some ff" and a: "a < num_blocks c" and s: "same_but_data c c1"
    and st: "states c1 = (if promotable c ff a then (states c)[a := DIRTY] else states c)"
    and df: "data_file c1 = (if promotable c ff a then overwrite (data_file c) (a * bsize c) (blk c ff a) else data_file c)"
  shows "src_file c1 = src_file c" "j < num_blocks c \<Longrightarrow> promoted c1 j = (promoted c j \<and> j \<noteq> a)"
proof -
  note f = same_but_data_simps [OF s]
  have g: "geometry_ok c" and lf: "length ff = dsize c" "length (data_file c) = dsize c"
    and ls: "length (states c) = num_blocks c"
    using wf ff length_states [OF wf] by (auto simp: ci_wf_def)
  have pr: "promoted c i = promotable c ff i" for i by (simp add: promoted_def ff)
  show p1: "promoted c1 j = (promoted c j \<and> j \<noteq> a)" if j: "j < num_blocks c" for j
  proof (cases "j = a \<and> promotable c ff a")
    case True
    then have "states c1 ! j = DIRTY" using st j ls by simp
    then show ?thesis using True promoted_state [of c1 j] by auto
  next
    case False
    then have "states c1 ! j = states c ! j" using st by auto
    then have "promoted c1 j = promoted c j" by (rule promoted_cong [OF f(1,2)])
    then show ?thesis using False by (auto simp: pr)
  qed
  have "src_file c1 ! k = src_file c ! k" if k: "k < dsize c" for k
  proof -
    have b: "k div bsize c < num_blocks c" by (rule block_of_byte [OF g k])
    have "data_file c1 ! k = (if k div bsize c = a \<and> promotable c ff a then ff ! k else data_file c ! k)"
      using nth_overwrite_blk [OF g k lf a] by (simp add: df)
    then show ?thesis using k b p1 [OF b] ff by (auto simp: nth_src_file f pr)
  qed
  then show "src_file c1 = src_file c" by (intro nth_equalityI) (simp_all add: f)
qed

lemma promote_blocks_any:
  assumes "ci_wf c" "flushing_file c = Some ff" "io_works io" "distinct blocks" "\<forall>i\<in>set blocks. i < num_blocks c"
    and "\<forall>i\<in>set blocks. \<not> is_claimed (promote_claim c) i"
  shows "\<exists>c'. promote_blocks io ff req (\<lambda>_. []) blocks c
       = Some (if req \<and> (\<exists>i\<in>set blocks. states c ! i = NOT_PRESENT \<and> \<not> promoted c i) then Inl BlockEvicted else Inr (), c')
     \<and> ci_wf c' \<and> same_but_data c c' \<and> src_file c' = src_file c
     \<and> (\<forall>i<num_blocks c. states c' ! i = states c ! i \<or> promoted c i \<and> states c' ! i = DIRTY)"
  using assms
proof (induction blocks arbitrary: c)
  case Nil
  then show ?case by auto
next
  case (Cons a blocks)
  have a: "a < num_blocks c" and free: "\<not> is_claimed (promote_claim c) a" and na: "a \<notin> set blocks"
    using Cons.prems by auto
  have g: "geometry_ok c" and lf: "length ff = dsize c" using Cons.prems(1,2) by (auto simp: ci_wf_def)
  have pr: "promoted c i = promotable c ff i" for i by (simp add: promoted_def Cons.prems(2))
  have vb: "valid_bytes c a \<noteq> 0" using valid_bytes_bounds(1) [OF g a] by simp
  let ?bad = "req \<and> states c ! a = NOT_PRESENT \<and> \<not> promotable c ff a"
  obtain c1 where c1: "promote_block io ff req [] c a = Some (if ?bad then Inl BlockEvicted else Inr (), c1)"
     "ci_wf c1" "same_but_data c c1" "\<forall>j. is_claimed (promote_claim c1) j = is_claimed (promote_claim c) j"
     "states c1 = (if promotable c ff a then (states c)[a := DIRTY] else states c)"
     "data_file c1 = (if promotable c ff a then overwrite (data_file c) (a * bsize c) (blk c ff a) else data_file c)"
    using promote_block_seq [OF Cons.prems(1) a lf Cons.prems(3) free, of req] by blast
  note f = same_but_data_simps [OF c1(3)]
  note src = promote_step_src [OF Cons.prems(1,2) a c1(3,5,6)]
  have ls: "length (states c) = num_blocks c" by (rule length_states [OF Cons.prems(1)])
  have st1: "states c1 ! i = states c ! i \<or> promoted c i \<and> states c1 ! i = DIRTY" if "i < num_blocks c" for i
    using that ls c1(5) by (cases "i = a") (auto simp: pr)
  show ?case
  proof (cases ?bad)
    case True
    then have "promote_blocks io ff req (\<lambda>_. []) (a # blocks) c = Some (Inl BlockEvicted, c1)"
      using a vb c1(1) by simp
    then show ?thesis using True c1(2,3) src(1) st1 by (auto simp: pr)
  next
    case False
    have cond: "(\<exists>i\<in>set blocks. states c1 ! i = NOT_PRESENT \<and> \<not> promoted c1 i)
      = (\<exists>i\<in>set blocks. states c ! i = NOT_PRESENT \<and> \<not> promoted c i)"
    proof (rule bex_cong [OF refl])
      fix i assume i: "i \<in> set blocks"
      then have "i \<noteq> a" "i < num_blocks c" using na Cons.prems(5) by auto
      then show "(states c1 ! i = NOT_PRESENT \<and> \<not> promoted c1 i) = (states c ! i = NOT_PRESENT \<and> \<not> promoted c i)"
        using src(2) c1(5) by simp
    qed
    obtain c' where c': "promote_blocks io ff req (\<lambda>_. []) blocks c1
       = Some (if req \<and> (\<exists>i\<in>set blocks. states c ! i = NOT_PRESENT \<and> \<not> promoted c i) then Inl BlockEvicted else Inr (), c')"
      "ci_wf c'" "same_but_data c1 c'" "src_file c' = src_file c"
      "\<forall>i<num_blocks c. states c' ! i = states c1 ! i \<or> promoted c1 i \<and> states c' ! i = DIRTY"
      using Cons.IH [OF c1(2)] Cons.prems(2-6) c1(4) src(1) unfolding cond f by auto
    have "promote_blocks io ff req (\<lambda>_. []) (a # blocks) c = promote_blocks io ff req (\<lambda>_. []) blocks c1"
      using a vb c1(1) False by auto
    moreover have "states c' ! i = states c ! i \<or> promoted c i \<and> states c' ! i = DIRTY" if "i < num_blocks c" for i
      using c'(5) st1 [OF that] src(2) [OF that] that by auto
    moreover have "(req \<and> (\<exists>i\<in>set (a # blocks). states c ! i = NOT_PRESENT \<and> \<not> promoted c i))
        = (req \<and> (\<exists>i\<in>set blocks. states c ! i = NOT_PRESENT \<and> \<not> promoted c i))"
      using False by (auto simp: pr)
    ultimately show ?thesis using c'(1,2,4) same_but_data_trans [OF c1(3) c'(3)] by auto
  qed
qed

lemma promote_refused:
  assumes wf: "ci_wf c" and io: "io_works io" and bl: "distinct blocks" "\<forall>i\<in>set blocks. i < num_blocks c"
    and free: "\<forall>i\<in>set blocks. \<not> is_claimed (promote_claim c) i" and no: "\<not> promotion_ok c req blocks"
  shows "\<exists>c'. promote_syncing_blocks io (\<lambda>_. []) blocks req c = Some (Inl BlockEvicted, c') \<and> ci_wf c'
     \<and> same_but_data c c' \<and> src_file c' = src_file c
     \<and> (\<forall>i<num_blocks c. states c' ! i = states c ! i \<or> promoted c i \<and> states c' ! i = DIRTY)"
proof -
  have bad: "req" "\<exists>i\<in>set blocks. \<not> promoted c i \<and> (states c ! i = SYNCING \<or> states c ! i = NOT_PRESENT)"
    using no ci_state_cases [OF wf] bl(2) by (auto simp: promotion_ok_def)
  show ?thesis
  proof (cases "flushing_file c")
    case None
    then have "promote_syncing_blocks io (\<lambda>_. []) blocks req c = Some (Inl BlockEvicted, c)"
      using check_promoted_ok [OF wf bl(2) free] bad by (auto simp: promote_syncing_blocks_def)
    then show ?thesis using wf by auto
  next
    case (Some ff)
    have "\<exists>i\<in>set blocks. states c ! i = NOT_PRESENT \<and> \<not> promoted c i"
      using bad(2) by (auto simp: promoted_def promotable_def Some)
    then show ?thesis
      using promote_blocks_any [OF wf Some io bl free, of req] bad(1) Some by (simp add: promote_syncing_blocks_def)
  qed
qed

lemma refused_view:
  assumes "ci_wf c" "same_but_data c c'" "src_file c' = src_file c" "k < dsize c"
    and "\<forall>i<num_blocks c. states c' ! i = states c ! i \<or> promoted c i \<and> states c' ! i = DIRTY"
    and "promoted c (k div bsize c) \<Longrightarrow> states c ! (k div bsize c) = NOT_PRESENT \<Longrightarrow> R k = src_file c ! k"
  shows "view R c' k = view R c k"
proof -
  note f = same_but_data_simps [OF assms(2)]
  have "k div bsize c < num_blocks c" using assms(1,4) by (intro block_of_byte) (simp_all add: ci_wf_def)
  then consider "states c' ! (k div bsize c) = states c ! (k div bsize c)"
    | "promoted c (k div bsize c)" "states c' ! (k div bsize c) = DIRTY"
    using assms(5) by blast
  then show ?thesis
  proof cases
    case 1
    then show ?thesis by (simp add: view_def f assms(3))
  next
    case 2
    then show ?thesis using promoted_state [OF 2(1)] assms(6) by (auto simp: view_def f assms(3))
  qed
qed

section \<open>Properties of guest writes\<close>

text \<open>
  C2: A guest write without interference succeeds and acts on the device the guest sees as an
  overwrite of the addressed bytes and nothing else, whatever mix of dirty, syncing
  and absent blocks it touches, as long as a block it covers only in part is local or
  its local bytes are the stored ones.  The cache stays well formed and its page
  checksums sound.
\<close>

theorem write_refines:
  assumes "writable pcrc c off (length data)" "io_works io" "\<not> fenced c"
    and "\<And>k. k < dsize c \<Longrightarrow> k div bsize c \<in> set (wblocks c off data) \<Longrightarrow> \<not> (off \<le> k \<and> k < off + length data) \<Longrightarrow>
      states c ! (k div bsize c) = DIRTY \<or> states c ! (k div bsize c) = SYNCING \<or> R k = src_file c ! k"
  shows "\<exists>c'. cache_write pcrc wcrc io (\<lambda>_. []) off data c = Some (Inr (), c') \<and> ci_wf c' \<and> crcs_ok pcrc c'
     \<and> (\<forall>k<dsize c. view R c' k = (if off \<le> k \<and> k < off + length data then data ! (k - off) else view R c k))"
proof -
  have g: "geometry_ok c" and r: "off + length data \<le> dsize c" using assms(1) by (auto simp: writable_def ci_wf_def)
  obtain c' where c': "write_inner pcrc wcrc io (\<lambda>_. []) off data False c = Some (Inr (), c')"
    "wrote pcrc wcrc c off data c'"
    using write_inner_ok [OF assms(1-3), of False wcrc] by (auto simp: promotion_ok_def)
  have "view R c' k = (if off \<le> k \<and> k < off + length data then data ! (k - off) else view R c k)" if "k < dsize c" for k
    by (rule wrote_view [OF g c'(2) r that]) (use assms(4) that in blast)
  then show ?thesis using c' by (auto simp: cache_write_def wrote_def)
qed

lemma demo_writable: "\<lbrakk> 0 < len; off + len \<le> 4096 \<rbrakk> \<Longrightarrow> writable pcrc demo_cache off len"
proof -
  assume l: "0 < len" "off + len \<le> 4096"
  have c: "bsize demo_cache = 4096" "dsize demo_cache = 8192" "page_crcs demo_cache = []" "sequence demo_cache = 0"
    "promote_claim demo_cache = pc_new"
    by (simp_all add: demo_cache_def)
  have "(off + len - 1) div 4096 = 0" using l by simp
  then have "touched 4096 off (off + len) = [0]" using l by (simp add: touched_def)
  then show ?thesis
    using l demo_cache_wf
    by (simp add: writable_def crcs_ok_def c) (simp add: pc_new_def is_claimed_def bt_get_def)
qed

theorem write_refines_witness:
  "\<exists>c'. cache_write (\<lambda>_. 0) (\<lambda>_. 0) io_ok (\<lambda>_. []) 4 [7, 8] demo_cache = Some (Inr (), c') \<and> ci_wf c'
     \<and> crcs_ok (\<lambda>_. 0) c' \<and> view (\<lambda>_. 0) c' 5 = 8"
proof -
  have d: "dsize demo_cache = 8192" "bsize demo_cache = 4096" "data_file demo_cache = replicate 8192 0"
    "flushing_file demo_cache = None" "\<not> fenced demo_cache"
    by (simp_all add: demo_cache_def)
  have "src_file demo_cache ! k = 0" if "k < 8192" for k
    using that by (simp add: nth_src_file d promoted_def)
  then obtain c' where "cache_write (\<lambda>_. 0) (\<lambda>_. 0) io_ok (\<lambda>_. []) 4 [7, 8] demo_cache = Some (Inr (), c')"
    "ci_wf c'" "crcs_ok (\<lambda>_. 0) c'"
    "\<forall>k<dsize demo_cache. view (\<lambda>_. 0) c' k
        = (if 4 \<le> k \<and> k < 4 + length [7::byte, 8] then [7, 8] ! (k - 4) else view (\<lambda>_. 0) demo_cache k)"
    using write_refines [of "\<lambda>_. 0" demo_cache 4 "[7, 8]" io_ok "\<lambda>_. 0" "\<lambda>_. 0"] demo_writable [of "Suc (Suc 0)" 4 "\<lambda>_. 0"] d
    by auto
  moreover have "(5::nat) < dsize demo_cache" using d by simp
  ultimately show ?thesis by fastforce
qed

text \<open>
  C28: Zeroing a range has exactly the effect of writing zeros to it, whether the kernel
  zeroes the range or the fallback loop writes it in chunks: same device contents,
  states, log records and sound checksums.
\<close>

theorem zero_range_refines:
  assumes "writable pcrc c off len" "io_works io" "sys = FallocDone \<or> sys = FallocUnsupported" "\<not> fenced c"
  shows "(\<exists>c'. zero_range pcrc wcrc io sys (\<lambda>_. []) off len c = Some (Inr (), c')
              \<and> wrote pcrc wcrc c off (replicate len 0) c')
       \<and> (\<exists>c'. cache_write pcrc wcrc io (\<lambda>_. []) off (replicate len 0) c = Some (Inr (), c')
              \<and> wrote pcrc wcrc c off (replicate len 0) c')"
proof -
  have "sys \<noteq> FallocFailed" using assms(3) by auto
  moreover have "promotion_ok c False (wblocks c off (replicate len 0))" by (simp add: promotion_ok_def)
  ultimately show ?thesis
    using zero_range_ok [OF assms(1,2), of sys wcrc] write_inner_ok [of pcrc c off "replicate len 0" io False wcrc] assms
    by (simp add: cache_write_def)
qed

theorem zero_range_refines_witness:
  "\<exists>c'. zero_range (\<lambda>_. 0) (\<lambda>_. 0) io_ok FallocUnsupported (\<lambda>_. []) 0 4096 demo_cache = Some (Inr (), c')
     \<and> wrote (\<lambda>_. 0) (\<lambda>_. 0) demo_cache 0 (replicate 4096 0) c'"
proof -
  have "\<not> fenced demo_cache" by (simp add: demo_cache_def)
  then show ?thesis
    using zero_range_refines [of "\<lambda>_. 0" demo_cache 0 4096 io_ok FallocUnsupported "\<lambda>_. 0"] demo_writable [of 4096 0 "\<lambda>_. 0"]
    by (simp del: replicate.simps)
qed

text \<open>
  C31: Once a newer owner has fenced the cache, the plain write path refuses every write
  and changes nothing, but the user-copy commit, the zero-copy commit and zeroing do
  not look at the fence: they still succeed and acknowledge data that the fenced
  manifest can never publish.
\<close>

theorem fence_gaps:
  assumes "writable pcrc c off (length data)" "io_works io" "fenced c" "promotion_ok c True (wblocks c off data)"
  shows "cache_write pcrc wcrc io sched off data c = Some (Inl (Fenced (current_generation c) 0), c)
     \<and> write_with_eviction_check pcrc wcrc io sched off data c = Some (Inl (Fenced (current_generation c) 0), c)
     \<and> (\<exists>c'. pwrite_and_commit pcrc wcrc io (\<lambda>_. []) off data c = Some (Inr (), c') \<and> wrote pcrc wcrc c off data c')
     \<and> (\<exists>c'. zc_gated wcrc io (\<lambda>_. []) off data c = Some (Inr (), c') \<and> wrote pcrc wcrc c off data c')
     \<and> (\<exists>c'. zero_range pcrc wcrc io FallocDone (\<lambda>_. []) off (length data) c = Some (Inr (), c')
            \<and> wrote pcrc wcrc c off (replicate (length data) 0) c')"
  using gated_writes_ok [OF assms(1,2,4)] zero_range_ok [OF assms(1,2)] assms(3)
  by (simp add: cache_write_def write_with_eviction_check_def write_inner_def)

definition demo_present :: "CacheInner" where
  "demo_present = the (set_present_blocks [0] (demo_cache\<lparr> fenced := True \<rparr>))"

lemma demo_present_ok:
  "ci_wf demo_present" "fenced demo_present" "states demo_present ! 0 = CLEAN"
  "writable pcrc demo_present 0 (Suc 0)" "config demo_present = config demo_cache"
proof -
  let ?c = "demo_cache\<lparr> fenced := True \<rparr>"
  have wf: "ci_wf ?c"
    using demo_cache_wf by (simp add: ci_wf_def counters_ok_def geometry_ok_def states_def)
  have n: "num_blocks ?c = 2" "bsize ?c = 4096" "dsize ?c = 8192" "page_crcs ?c = []" "sequence ?c = 0"
    "promote_claim ?c = pc_new" "config ?c = config demo_cache"
    by (simp_all add: demo_cache_def)
  have st: "states ?c = [NOT_PRESENT, NOT_PRESENT]" using states_demo by (simp add: states_def)
  obtain c' where c': "set_present_blocks [0] ?c = Some c'" "ci_wf c'" "same_rest ?c c'"
     "\<forall>i<num_blocks ?c. states c' ! i = (if i \<in> set [0] \<and> states ?c ! i = NOT_PRESENT then CLEAN else states ?c ! i)"
     "\<forall>j. is_claimed (promote_claim c') j = is_claimed (promote_claim ?c) j"
    using set_present_blocks_ok [OF wf, of "[0]"] n(1) by auto
  note f = same_rest_simps [OF c'(3)]
  have e: "demo_present = c'" unfolding demo_present_def c'(1) by simp
  show "ci_wf demo_present" "fenced demo_present" "config demo_present = config demo_cache"
    using c'(2) f n(7) by (simp_all add: e)
  show "states demo_present ! 0 = CLEAN" using c'(4) n(1) st by (simp add: e)
  have "touched 4096 0 (Suc 0) = [0]" by (simp add: touched_def)
  moreover have "\<not> is_claimed pc_new 0" by (simp add: pc_new_def is_claimed_def bt_get_def)
  ultimately show "writable pcrc demo_present 0 (Suc 0)"
    using c'(2,5) f n by (simp add: e writable_def crcs_ok_def)
qed

theorem fence_gaps_witness:
  "cache_write (\<lambda>_. 0) (\<lambda>_. 0) io_ok (\<lambda>_. []) 0 [7] demo_present = Some (Inl (Fenced (current_generation demo_present) 0), demo_present)
     \<and> (\<exists>c'. zc_gated (\<lambda>_. 0) io_ok (\<lambda>_. []) 0 [7] demo_present = Some (Inr (), c')
            \<and> wrote (\<lambda>_. 0) (\<lambda>_. 0) demo_present 0 [7] c')"
proof -
  have b: "bsize demo_present = 4096" by (simp add: demo_present_ok(5)) (simp add: demo_cache_def)
  have "wblocks demo_present 0 [7] = [0]" by (simp add: touched_def b)
  then have "promotion_ok demo_present True (wblocks demo_present 0 [7])"
    using demo_present_ok(3) by (simp add: promotion_ok_def)
  then show ?thesis
    using fence_gaps [of "\<lambda>_. 0" demo_present 0 "[7]" io_ok "\<lambda>_. 0" "\<lambda>_. []"] demo_present_ok(2,4) by simp
qed

text \<open>
  C29: A write that must not land on an evicted block is refused with \<open>BlockEvicted\<close> when
  some block in its range has no local bytes to recover, and the refusal does not
  change what the guest reads, given that the store holds what the flush uploaded for
  the blocks evicted so far.
\<close>

theorem evicted_write_refused:
  assumes "writable pcrc c off (length data)" "io_works io" "\<not> fenced c"
    and "\<not> promotion_ok c True (wblocks c off data)"
    and "\<And>k. k < dsize c \<Longrightarrow> promoted c (k div bsize c) \<Longrightarrow> states c ! (k div bsize c) = NOT_PRESENT \<Longrightarrow> R k = src_file c ! k"
  shows "\<exists>c'. write_with_eviction_check pcrc wcrc io (\<lambda>_. []) off data c = Some (Inl BlockEvicted, c') \<and> ci_wf c'
     \<and> wal c' = wal c \<and> (\<forall>k<dsize c. view R c' k = view R c k)"
proof -
  let ?bl = "wblocks c off data"
  have wf: "ci_wf c" and g: "geometry_ok c" and rng: "data \<noteq> []" "off + length data \<le> dsize c"
    and free: "\<forall>i\<in>set ?bl. \<not> is_claimed (promote_claim c) i"
    using assms(1) by (auto simp: writable_def ci_wf_def)
  obtain c' where c': "promote_syncing_blocks io (\<lambda>_. []) ?bl True c = Some (Inl BlockEvicted, c')" "ci_wf c'"
     "same_but_data c c'" "src_file c' = src_file c"
     "\<forall>i<num_blocks c. states c' ! i = states c ! i \<or> promoted c i \<and> states c' ! i = DIRTY"
    using promote_refused [OF wf assms(2) touched_distinct wblocks_in_range [OF g rng] free assms(4)] by blast
  have "write_with_eviction_check pcrc wcrc io (\<lambda>_. []) off data c = Some (Inl BlockEvicted, c')"
    using c'(1) assms(3) rng(1) g check_range_ok [OF g rng(2)]
    by (simp add: write_with_eviction_check_def write_inner_def geometry_ok_def Let_def)
  moreover have "view R c' k = view R c k" if "k < dsize c" for k
    by (rule refused_view [OF wf c'(3,4) that c'(5)]) (use assms(5) that in blast)
  ultimately show ?thesis using c'(2) same_but_data_simps(7) [OF c'(3)] by auto
qed

theorem evicted_write_refused_witness:
  "\<exists>c'. write_with_eviction_check (\<lambda>_. 0) (\<lambda>_. 0) io_ok (\<lambda>_. []) 0 [7] demo_cache = Some (Inl BlockEvicted, c')
     \<and> ci_wf c'"
proof -
  have d: "bsize demo_cache = 4096" "flushing_file demo_cache = None" "\<not> fenced demo_cache" by (simp_all add: demo_cache_def)
  have "wblocks demo_cache 0 [7] = [0]" by (simp add: touched_def d)
  then have "\<not> promotion_ok demo_cache True (wblocks demo_cache 0 [7])"
    by (simp add: promotion_ok_def promoted_def d states_demo)
  moreover have "\<not> promoted demo_cache i" for i by (simp add: promoted_def d)
  ultimately show ?thesis
    using evicted_write_refused [of "\<lambda>_. 0" demo_cache 0 "[7]" io_ok "\<lambda>_. 0" "\<lambda>_. 0"] demo_writable [of "Suc 0" 0 "\<lambda>_. 0"] d(3)
    by auto
qed

lemma touched_block:
  assumes "geometry_ok c" "i < num_blocks c"
  shows "touched (bsize c) (i * bsize c) (i * bsize c + valid_bytes c i) = [i]"
proof -
  note vb = valid_bytes_bounds [OF assms]
  have "(i * bsize c + valid_bytes c i - 1) div bsize c = i"
    using vb by (intro div_nat_eqI) (auto simp: mult.commute)
  then show ?thesis using assms(1) by (simp add: touched_def geometry_ok_def)
qed

text \<open>
  C30: A materialized block lands exactly when its claim is still the live one and the
  block still waits for data; otherwise nothing changes.  When it lands, it is a
  write of the whole block.
\<close>

theorem materialized_write_guarded:
  fixes tok :: ClaimToken
  assumes "ci_wf c" "crcs_ok pcrc c" "io_works io" "i < num_blocks c" "length data = valid_bytes c i"
    and "unat (sequence c) + 1 < 2 ^ 64"
  defines "live \<equiv> is_valid (promote_claim c) i tok \<and> states c ! i = CLEAN"
  shows "\<exists>c'. write_materialized pcrc wcrc io (i * bsize c) data i tok c = Some (Inr live, c')
     \<and> (if live then wrote pcrc wcrc c (i * bsize c) data c' else c' = c)"
proof -
  let ?off = "i * bsize c"
  have g: "geometry_ok c" using assms(1) by (simp add: ci_wf_def)
  note vb = valid_bytes_bounds [OF g assms(4)]
  have bl: "wblocks c ?off data = [i]" using touched_block [OF g assms(4)] assms(5) by simp
  have rng: "data \<noteq> []" "?off + length data \<le> dsize c" using vb assms(5) by auto
  have cr: "check_range c ?off (length data) = Inr (?off + length data)" by (rule check_range_ok [OF g rng(2)])
  have iv: "if_valid (promote_claim c) i tok f = (if is_valid (promote_claim c) i tok then Some (f ()) else None)" for f
    by (auto simp: is_valid_def if_valid_def split: option.splits)
  have w: "write_materialized pcrc wcrc io ?off data i tok c =
     (if is_valid (promote_claim c) i tok then materialize_commit pcrc wcrc io ?off data [i] i c else Some (Inr False, c))"
    using rng(1) cr g bl by (simp add: write_materialized_def iv geometry_ok_def)
  show ?thesis
  proof (cases live)
    case False
    then show ?thesis
      using w ci_get [OF assms(1,4)] by (auto simp: live_def materialize_commit_def)
  next
    case True
    then have st: "states c ! i = CLEAN" by (simp add: live_def)
    have np: "\<forall>j\<in>set (wblocks c ?off data). \<not> promoted c j" using promoted_state [of c i] st by (auto simp: bl)
    obtain m where m: "capture_page_crcs pcrc (bsize c) (pages_per_block c) ?off data (page_crcs c) = Some m"
      "crc_sound pcrc (bsize c) (pages_per_block c) (num_blocks c) (overwrite (src_file c) ?off data) m"
      using crcs_ok_sound(1) [OF assms(1,2) rng] by blast
    obtain c' where c': "wal_append_and_mark_dirty wcrc io [i] (landed c ?off data m) = Some (Inr (), c')"
      "wrote pcrc wcrc c ?off data c'"
      using commit_ok [OF assms(1) rng assms(3) np _ m(2), of wcrc] assms(6) by (auto simp: bl)
    have "materialize_commit pcrc wcrc io ?off data [i] i c = Some (Inr True, c')"
      using ci_get [OF assms(1,4)] st m(1) c'(1) assms(3)
      by (simp add: materialize_commit_def pwrite_act_def write_all_at_def capture_act_def crc_act_def landed_def)
    then show ?thesis using True w c'(2) by (auto simp: live_def)
  qed
qed

theorem materialized_write_guarded_witness:
  "\<exists>c'. write_materialized (\<lambda>_. 0) (\<lambda>_. 0) io_ok 0 (replicate 4096 5) 0 3 demo_cache = Some (Inr False, c')
     \<and> c' = demo_cache"
proof -
  have d: "num_blocks demo_cache = 2" "bsize demo_cache = 4096" "dsize demo_cache = 8192" "sequence demo_cache = 0"
    "page_crcs demo_cache = []" by (simp_all add: demo_cache_def)
  have "crcs_ok (\<lambda>_. 0) demo_cache" by (simp add: crcs_ok_def d)
  then show ?thesis
    using materialized_write_guarded [of demo_cache "\<lambda>_. 0" io_ok 0 "replicate 4096 5" "\<lambda>_. 0" 3] demo_cache_wf
    by (simp add: d valid_bytes_def states_demo del: replicate.simps)
qed

end
