(* ===== verification/Rotation.thy ===== *)
theory Rotation
  imports WritePath
begin

text \<open>
  Rotation of the data file and checkpointing, from
  \<open>glidefs/src/block/write_cache/flush.rs\<close>: the rename of the active file to the flushing
  file under the data file lock with the claim of every dirty block, its undo when the
  new file cannot be created, the local flush, and the checkpoint that publishes the
  block states and truncates the log when nothing was logged since.
\<close>

section \<open>Rotation\<close>

text \<open>The system calls of a rotation that can fail: the rename, the new file, the undo.\<close>

record rotate_env =
  rename_error :: "io_error option"
  create_error :: "io_error option"
  undo_error :: "io_error option"

definition rotate_works :: rotate_env where
  "rotate_works = \<lparr> rename_error = None, create_error = None, undo_error = None \<rparr>"

fun claim_dirty :: "nat list \<Rightarrow> CacheInner \<Rightarrow> (nat list \<times> CacheInner) option" where
  "claim_dirty [] c = Some ([], c)"
| "claim_dirty (idx # rest) c =
     (case ci_transition_dirty_to_syncing c idx of
        None \<Rightarrow> None
      | Some (won, c) \<Rightarrow>
          map_option (\<lambda>(claimed, c). (if won then idx # claimed else claimed, c)) (claim_dirty rest c))"

definition rotate_data_file_inner :: "rotate_env \<Rightarrow> bool \<Rightarrow> nat list act" where
  "rotate_data_file_inner env snapshot c =
     (let c = c\<lparr> rotation_seq := seq_current (sequence c), flushing_active := True \<rparr>
      in case rename_error env of
           Some e \<Rightarrow> Some (Inl (Io e), c)
         | None \<Rightarrow>
             (case create_error env of
                Some e \<Rightarrow>
                  (let c = c\<lparr> flushing_active := False, rotation_seq := 0 \<rparr>
                   in case undo_error env of
                        Some u \<Rightarrow> Some (Inl (Io u), c\<lparr> flushing_disk := Some (data_file c) \<rparr>)
                      | None \<Rightarrow> Some (Inl (Io e), c))
              | None \<Rightarrow>
                  (case (if snapshot then claim_dirty (iter_with_state (state_map c) DIRTY) c else Some ([], c)) of
                     None \<Rightarrow> None
                   | Some (claimed, c) \<Rightarrow>
                       (let old_file = data_file c
                        in Some (Inr claimed, c\<lparr> data_file := sf_open None (dsize c),
                             flushing_file := Some old_file, flushing_disk := Some old_file \<rparr>)))))"

definition rotate_data_file :: "rotate_env \<Rightarrow> unit act" where
  "rotate_data_file env = cbind (rotate_data_file_inner env False) (\<lambda>_ c. Some (Inr (), c))"

definition rotate_and_snapshot :: "rotate_env \<Rightarrow> nat list act" where
  "rotate_and_snapshot env = rotate_data_file_inner env True"

section \<open>Local flush and checkpoint\<close>

definition local_flush :: "io_env \<Rightarrow> unit act" where
  "local_flush io c = (if sync_fails io then Some (Inl (Io OtherError), c) else Some (Inr (), c))"

definition CKPT_MAX_SKIPS :: u32 where "CKPT_MAX_SKIPS = 2"

definition handoff_active :: "CacheInner \<Rightarrow> bool" where
  "handoff_active c = phase_is_active (phase_from_u8 (handoff_phase c))"

definition phase_to_u8 :: "HandoffPhase \<Rightarrow> byte" where
  "phase_to_u8 p = (case p of Idle \<Rightarrow> 0 | Warming \<Rightarrow> 1 | Freezing \<Rightarrow> 2 | Cutover \<Rightarrow> 3)"

definition set_handoff_phase :: "HandoffPhase \<Rightarrow> CacheInner \<Rightarrow> CacheInner" where
  "set_handoff_phase p c = c\<lparr> handoff_phase := phase_to_u8 p \<rparr>"

definition get_handoff_phase :: "CacheInner \<Rightarrow> HandoffPhase" where
  "get_handoff_phase c = phase_from_u8 (handoff_phase c)"

text \<open>
  \<open>fault\<close> is a failure of the metadata save and \<open>trunc_ok\<close> the outcome of the log
  truncation.  \<open>writers\<close> run between the read of the sequence number and the snapshot,
  \<open>late\<close> between the snapshot and the truncation test; when the log guard is held across
  the snapshot there is no append in between.
\<close>

definition checkpoint :: "(bytes \<Rightarrow> u32) \<Rightarrow> io_error option \<Rightarrow> bool \<Rightarrow> (CacheInner \<Rightarrow> CacheInner)
    \<Rightarrow> (CacheInner \<Rightarrow> CacheInner) \<Rightarrow> unit act" where
  "checkpoint mcrc fault trunc_ok writers late c =
     (if handoff_active c then
        (case save_block_states mcrc fault writers c of
           (Inl e, c) \<Rightarrow> Some (Inl e, c)
         | (Inr _, c) \<Rightarrow> Some (Inr (), c))
      else if CKPT_MAX_SKIPS \<le> ckpt_skips c then
        (case save_block_states mcrc fault writers c of
           (r, c) \<Rightarrow>
             (case exclusive_then_truncate trunc_ok (case r of Inl _ \<Rightarrow> Inl OtherError | Inr s \<Rightarrow> Inr s)
                     (\<not> handoff_active c) (wal c) of
                (Inl e, log) \<Rightarrow> Some (Inl (Io e), c\<lparr> wal := log \<rparr>)
              | (Inr _, log) \<Rightarrow> Some (Inr (), c\<lparr> wal := log, ckpt_skips := 0 \<rparr>)))
      else
        (case save_block_states mcrc fault writers c of
           (Inl e, c) \<Rightarrow> Some (Inl e, c)
         | (Inr covered_seq, c) \<Rightarrow>
             (let c = late c
              in case truncate_if trunc_ok (seq_current (sequence c) = covered_seq \<and> \<not> handoff_active c) (wal c) of
                   (Inl e, log) \<Rightarrow> Some (Inl (Io e), c\<lparr> wal := log \<rparr>)
                 | (Inr truncated, log) \<Rightarrow>
                     Some (Inr (), c\<lparr> wal := log,
                        ckpt_skips := (if truncated then 0 else ckpt_skips c + 1) \<rparr>))))"

section \<open>A rotation is invisible to the guest\<close>

definition syncing_of :: "byte \<Rightarrow> byte" where
  "syncing_of s = (if s = DIRTY then SYNCING else s)"

lemma claim_dirty_ok:
  assumes "ci_wf c" "distinct idxs" "\<forall>i\<in>set idxs. i < num_blocks c \<and> states c ! i = DIRTY"
  shows "\<exists>c'. claim_dirty idxs c = Some (idxs, c') \<and> ci_wf c' \<and> same_rest c c' \<and> promote_claim c' = promote_claim c
     \<and> (\<forall>i<num_blocks c. states c' ! i = (if i \<in> set idxs then SYNCING else states c ! i))"
  using assms
proof (induction idxs arbitrary: c)
  case Nil
  then show ?case by simp
next
  case (Cons a idxs)
  have a: "a < num_blocks c" "states c ! a = DIRTY" "a \<notin> set idxs" using Cons.prems by auto
  obtain c1 where c1: "ci_transition_dirty_to_syncing c a = Some (True, c1)" "ci_wf c1"
     "states c1 = (states c)[a := SYNCING]" "same_rest c c1" "promote_claim c1 = promote_claim c"
    using ci_transition_dirty_to_syncing_ok [OF Cons.prems(1) a(1)] a(2) by auto
  note f = same_rest_simps [OF c1(4)]
  have "states c1 ! i = states c ! i" if "i \<in> set idxs" for i
    using a(3) that c1(3) by (metis nth_list_update_neq)
  then have "\<forall>i\<in>set idxs. i < num_blocks c1 \<and> states c1 ! i = DIRTY"
    using Cons.prems(3) f(4) by simp
  then obtain c' where c': "claim_dirty idxs c1 = Some (idxs, c')" "ci_wf c'" "same_rest c1 c'"
    "promote_claim c' = promote_claim c1"
    "\<forall>i<num_blocks c1. states c' ! i = (if i \<in> set idxs then SYNCING else states c1 ! i)"
    using Cons.IH [OF c1(2)] Cons.prems(2) by auto
  have "states c' ! i = (if i \<in> set (a # idxs) then SYNCING else states c ! i)" if "i < num_blocks c" for i
    using c'(5) that f(4) c1(3) length_states [OF Cons.prems(1)] by (cases "i = a") auto
  then show ?case
    using c1(1,5) c'(1,2,4) same_rest_trans [OF c1(4) c'(3)] by auto
qed

lemma iter_with_state_eq:
  assumes "sm_inv m" "s \<noteq> NOT_PRESENT"
  shows "iter_with_state m s = filter (\<lambda>i. sm_abs m ! i = s) [0..<num_entries m]"
proof -
  have "iter_with_state m s = map fst (filter (\<lambda>(_, t). t = s) (iter_present m))"
    using assms(2) by (simp add: iter_with_state_def iter_present_def case_prod_unfold) (metis (mono_tags, lifting))
  also have "\<dots> = map fst (filter (\<lambda>(_, t). t = s) (List.enumerate 0 (sm_abs m)))"
    using assms(2) by (simp add: iter_present_eq [OF assms(1)] case_prod_unfold) (metis (mono_tags, lifting))
  also have "\<dots> = filter (\<lambda>i. sm_abs m ! i = s) [0..<length (sm_abs m)]"
  proof -
    have "List.enumerate 0 xs = map (\<lambda>i. (i, xs ! i)) [0..<length xs]" for xs :: "byte list"
      by (intro nth_equalityI) (simp_all add: nth_enumerate_eq)
    then show ?thesis by (simp add: filter_map o_def)
  qed
  finally show ?thesis by simp
qed

lemma states_rotated [simp]:
  "states (c\<lparr> data_file := d, flushing_file := f, flushing_disk := g \<rparr>) = states c"
  "states (c\<lparr> rotation_seq := q, flushing_active := b \<rparr>) = states c"
  by (simp_all add: states_def)

lemma ci_wf_flags [simp]: "ci_wf (c\<lparr> rotation_seq := q, flushing_active := b \<rparr>) = ci_wf c"
  by (simp add: ci_wf_def counters_ok_def geometry_ok_def states_def)

definition dirty_list :: "CacheInner \<Rightarrow> nat list" where
  "dirty_list c = filter (\<lambda>i. states c ! i = DIRTY) [0..<num_blocks c]"

lemma rotate_ok:
  assumes wf: "ci_wf c"
  shows "\<exists>c'. rotate_and_snapshot rotate_works c = Some (Inr (dirty_list c), c') \<and> ci_wf c'
     \<and> states c' = map syncing_of (states c)
     \<and> data_file c' = replicate (dsize c) 0 \<and> flushing_file c' = Some (data_file c) \<and> flushing_disk c' = Some (data_file c)
     \<and> rotation_seq c' = sequence c \<and> flushing_active c' \<and> config c' = config c \<and> num_blocks c' = num_blocks c
     \<and> wal c' = wal c \<and> metadata_file c' = metadata_file c \<and> sequence c' = sequence c
     \<and> promote_claim c' = promote_claim c \<and> page_crcs c' = page_crcs c \<and> pages_per_block c' = pages_per_block c
     \<and> fenced c' = fenced c \<and> handoff_phase c' = handoff_phase c
     \<and> zero_block_hash c' = zero_block_hash c \<and> compression_level c' = compression_level c"
proof -
  let ?b = "c\<lparr> rotation_seq := sequence c, flushing_active := True \<rparr>"
  have wb: "ci_wf ?b" using wf by simp
  have it: "iter_with_state (state_map ?b) DIRTY = dirty_list c"
    using wf iter_with_state_eq [of "state_map c" DIRTY]
    by (simp add: ci_wf_def states_def dirty_list_def)
  have "\<forall>i\<in>set (dirty_list c). i < num_blocks ?b \<and> states ?b ! i = DIRTY" "distinct (dirty_list c)"
    by (auto simp: dirty_list_def)
  then obtain d where d: "claim_dirty (dirty_list c) ?b = Some (dirty_list c, d)" "ci_wf d" "same_rest ?b d"
    "promote_claim d = promote_claim ?b"
    "\<forall>i<num_blocks ?b. states d ! i = (if i \<in> set (dirty_list c) then SYNCING else states ?b ! i)"
    using claim_dirty_ok [OF wb] by blast
  note f = same_rest_simps [OF d(3)]
  let ?c' = "d\<lparr> data_file := replicate (dsize c) 0, flushing_file := Some (data_file c), flushing_disk := Some (data_file c) \<rparr>"
  have run: "rotate_and_snapshot rotate_works c = Some (Inr (dirty_list c), ?c')"
    using d(1) it f by (simp add: rotate_and_snapshot_def rotate_data_file_inner_def rotate_works_def Let_def
        seq_current_def sf_open_def)
  have st: "states d = map syncing_of (states c)"
  proof (rule nth_equalityI)
    show "length (states d) = length (map syncing_of (states c))"
      using length_states [OF d(2)] length_states [OF wf] f(4) by simp
    fix i assume "i < length (states d)"
    then have "i < num_blocks c" using length_states [OF d(2)] f(4) by simp
    then show "states d ! i = map syncing_of (states c) ! i"
      using d(5) length_states [OF wf] by (simp add: dirty_list_def syncing_of_def)
  qed
  have "ci_wf ?c'" using d(2) wf f by (simp add: ci_wf_def counters_ok_def geometry_ok_def states_def)
  then show ?thesis using run st f d(4) same_io_simps(10) [OF same_rest_io [OF d(3)]] by simp
qed

text \<open>
  C34: A rotation claims exactly the dirty blocks and does not change what the guest reads,
  although every later read of a claimed block comes from another file.
\<close>

theorem rotation_invisible:
  assumes "ci_wf c" "flushing_file c = None"
  shows "\<exists>c'. rotate_and_snapshot rotate_works c = Some (Inr (dirty_list c), c') \<and> ci_wf c'
     \<and> (\<forall>i<num_blocks c. states c' ! i \<noteq> DIRTY) \<and> (\<forall>k<dsize c. view R c' k = view R c k)"
proof -
  obtain c' where c': "rotate_and_snapshot rotate_works c = Some (Inr (dirty_list c), c')" "ci_wf c'"
     "states c' = map syncing_of (states c)" "flushing_file c' = Some (data_file c)" "config c' = config c"
    using rotate_ok [OF assms(1)] by blast
  have ls: "length (states c) = num_blocks c" by (rule length_states [OF assms(1)])
  have g: "geometry_ok c" using assms(1) by (simp add: ci_wf_def)
  have "view R c' k = view R c k" if k: "k < dsize c" for k
  proof -
    have b: "k div bsize c < num_blocks c" by (rule block_of_byte [OF g k])
    have np: "\<not> promoted c (k div bsize c)" using assms(2) by (simp add: promoted_def)
    have "states c ! (k div bsize c) = DIRTY \<or> states c ! (k div bsize c) = SYNCING
      \<Longrightarrow> promoted c' (k div bsize c)"
      using b ls c'(3,4) by (auto simp: promoted_def promotable_def syncing_of_def)
    then show ?thesis
      using k b ls np c'(3-5) by (auto simp: view_def nth_src_file syncing_of_def)
  qed
  moreover have "\<forall>i<num_blocks c. states c' ! i \<noteq> DIRTY" using c'(3) ls by (simp add: syncing_of_def)
  ultimately show ?thesis using c'(1,2) by blast
qed

theorem rotation_invisible_witness:
  "\<exists>c'. rotate_and_snapshot rotate_works demo_cache = Some (Inr (dirty_list demo_cache), c') \<and> ci_wf c'
     \<and> view (\<lambda>k. of_nat k) c' 5000 = view (\<lambda>k. of_nat k) demo_cache 5000"
proof -
  have d: "flushing_file demo_cache = None" "dsize demo_cache = 8192" by (simp_all add: demo_cache_def)
  have "(5000::nat) < dsize demo_cache" using d(2) by simp
  then show ?thesis
    using rotation_invisible [OF demo_cache_wf d(1), of "\<lambda>k. of_nat k"] by blast
qed

end
