(* ===== verification/Recovery.thy ===== *)
theory Recovery
  imports Rotation
begin

text \<open>
  Opening a cache after a restart: \<open>WriteCache::open\<close> and \<open>open_fresh_active\<close> of
  \<open>glidefs/src/block/write_cache/init.rs\<close>, \<open>finish_recovery\<close> of \<open>recovery.rs\<close>, and the two
  steps a handoff successor runs after the takeover, \<open>replay_wal_tail\<close> and
  \<open>recover_pending_flush_file\<close> of \<open>flush.rs\<close>.  A crash is a crash of the process: what
  was written to the files stays, the memory is lost.
\<close>

section \<open>What is on disk\<close>

record disk =
  d_data :: "bytes option"
  d_flush :: "bytes option"
  d_meta :: "bytes option"
  d_wal :: log_file

definition crash :: "CacheInner \<Rightarrow> disk" where
  "crash c = \<lparr> d_data = Some (data_file c), d_flush = flushing_disk c, d_meta = metadata_file c,
     d_wal = Contents (wal c) \<rparr>"

text \<open>
  The outcomes of the system calls of an open: file access, the rewrite of the log, the
  two attempts to open it and the removal of the flushing file; and whether the process
  is a handoff successor whose predecessor still runs.
\<close>

record open_faults =
  of_io :: io_env
  rewrite_error :: "io_error option"
  wal_open_error :: "io_error option"
  wal_reopen_error :: "io_error option"
  unlink_error :: "io_error option"
  successor_passive :: bool

definition open_works :: open_faults where
  "open_works = \<lparr> of_io = io_ok, rewrite_error = None, wal_open_error = None, wal_reopen_error = None,
     unlink_error = None, successor_passive = False \<rparr>"

section \<open>States from metadata and log\<close>

fun apply_wal :: "nat \<Rightarrow> WalEntry list \<Rightarrow> SparseStateMap \<Rightarrow> nat \<Rightarrow> u64 \<Rightarrow> (SparseStateMap \<times> nat \<times> u64) option" where
  "apply_wal nb [] m dirty_count max_seq = Some (m, dirty_count, max_seq)"
| "apply_wal nb (e # es) m dirty_count max_seq =
     (let idx = unat (block_index e); max_seq = max max_seq (entry_sequence e)
      in if idx < nb then
           (case sm_get m idx of
              None \<Rightarrow> None
            | Some old \<Rightarrow>
                if old \<noteq> DIRTY then
                  (case sm_set_present m idx of
                     None \<Rightarrow> None
                   | Some m \<Rightarrow>
                       (case sm_get m idx of
                          None \<Rightarrow> None
                        | Some current \<Rightarrow>
                            if current \<noteq> DIRTY then
                              (case sm_cas m idx current DIRTY of
                                 None \<Rightarrow> None
                               | Some (_, m) \<Rightarrow> apply_wal nb es m (dirty_count + 1) max_seq)
                            else apply_wal nb es m (dirty_count + 1) max_seq))
                else apply_wal nb es m dirty_count max_seq)
         else apply_wal nb es m dirty_count max_seq)"

definition wal_min_seq :: "u64 \<Rightarrow> u64 \<Rightarrow> u64" where
  "wal_min_seq rot persisted = (if 0 < rot \<and> rot < persisted then rot else persisted)"

definition open_states :: "(bytes \<Rightarrow> u32) \<Rightarrow> (bytes \<Rightarrow> u32) \<Rightarrow> WriteCacheConfig \<Rightarrow> disk
    \<Rightarrow> CacheError + SparseStateMap \<times> nat \<times> u64 \<times> u64 \<times> WalEntry list" where
  "open_states mcrc wcrc cfg dk =
     sum_bind (load_metadata mcrc cfg (d_meta dk)) (\<lambda>(m, dirty_count, persisted, rot).
       case replay wcrc (d_wal dk) (wal_min_seq rot persisted) of
         Inl _ \<Rightarrow> Inl (Io OtherError)
       | Inr logged \<Rightarrow>
           (case apply_wal (cfg_num_blocks cfg) logged m dirty_count persisted of
              None \<Rightarrow> Inl Panicked
            | Some (m, dirty_count, max_seq) \<Rightarrow> Inr (m, dirty_count, max persisted max_seq, rot, logged)))"

text \<open>The log after the rewrite and after it was opened, or the error.\<close>

definition open_wal :: "(bytes \<Rightarrow> u32) \<Rightarrow> open_faults \<Rightarrow> disk \<Rightarrow> WalEntry list \<Rightarrow> CacheError + bytes" where
  "open_wal wcrc flt dk logged =
     (let rewritten =
        (if successor_passive flt then Inr (case d_wal dk of Contents bs \<Rightarrow> bs | _ \<Rightarrow> [])
         else case rewrite_error flt of
                Some e \<Rightarrow> Inl (Io e)
              | None \<Rightarrow> Inr (log_bytes wcrc logged))
      in sum_bind rewritten (\<lambda>log.
           case wal_open_error flt of
             None \<Rightarrow> Inr log
           | Some WouldBlock \<Rightarrow> Inl Locked
           | Some _ \<Rightarrow>
               (case wal_reopen_error flt of
                  None \<Rightarrow> Inr []
                | Some WouldBlock \<Rightarrow> Inl Locked
                | Some e \<Rightarrow> Inl (Io e))))"

section \<open>Recovery of an interrupted flush\<close>

definition entry_blocks :: "nat \<Rightarrow> WalEntry list \<Rightarrow> nat list" where
  "entry_blocks nb logged = filter (\<lambda>i. i < nb) (map (\<lambda>e. unat (block_index e)) logged)"

definition post_rotation_blocks :: "nat \<Rightarrow> u64 \<Rightarrow> SparseStateMap \<Rightarrow> WalEntry list \<Rightarrow> nat list" where
  "post_rotation_blocks nb rot m logged =
     (if 0 < rot then map fst (filter (\<lambda>(_, s). s = DIRTY) (iter_present m)) @ entry_blocks nb logged
      else entry_blocks nb logged)"

definition copy_block :: "WriteCacheConfig \<Rightarrow> io_env \<Rightarrow> bytes \<Rightarrow> nat \<Rightarrow> bytes \<Rightarrow> (CacheError + unit) \<times> bytes" where
  "copy_block cfg io ff idx df =
     (let off = idx * cfg_block_size cfg; valid = min (cfg_block_size cfg) (device_size cfg - off)
      in if valid = 0 then (Inr (), df)
         else case read_exact_at io ff valid off of
                Inl e \<Rightarrow> (Inl (Io e), df)
              | Inr buf \<Rightarrow>
                  (case write_all_at io df buf off of
                     (Inl e, df) \<Rightarrow> (Inl (Io e), df)
                   | (Inr _, df) \<Rightarrow> (Inr (), df)))"

fun recover_blocks :: "WriteCacheConfig \<Rightarrow> io_env \<Rightarrow> nat list \<Rightarrow> bytes \<Rightarrow> (nat \<times> byte) list
    \<Rightarrow> SparseStateMap \<Rightarrow> bytes \<Rightarrow> (CacheError + SparseStateMap) \<times> bytes" where
  "recover_blocks cfg io post ff [] m df = (Inr m, df)"
| "recover_blocks cfg io post ff ((idx, s) # rest) m df =
     (if s = DIRTY \<or> s = SYNCING then
        (case (if idx \<in> set post then (Inr (), df) else copy_block cfg io ff idx df) of
           (Inl e, df) \<Rightarrow> (Inl e, df)
         | (Inr _, df) \<Rightarrow>
             (case sm_cas m idx SYNCING DIRTY of
                None \<Rightarrow> (Inl Panicked, df)
              | Some (_, m) \<Rightarrow> recover_blocks cfg io post ff rest m df))
      else recover_blocks cfg io post ff rest m df)"

fun cas_all :: "byte \<Rightarrow> byte \<Rightarrow> (nat \<times> byte) list \<Rightarrow> SparseStateMap \<Rightarrow> SparseStateMap option" where
  "cas_all expected new [] m = Some m"
| "cas_all expected new ((idx, s) # rest) m =
     (if s = expected then
        (case sm_cas m idx expected new of
           None \<Rightarrow> None
         | Some (_, m) \<Rightarrow> cas_all expected new rest m)
      else cas_all expected new rest m)"

text \<open>The states, the active file and the flushing file after this part of the open.\<close>

definition recover_flushing :: "open_faults \<Rightarrow> WriteCacheConfig \<Rightarrow> u64 \<Rightarrow> WalEntry list \<Rightarrow> SparseStateMap \<Rightarrow> bytes
    \<Rightarrow> bytes option \<Rightarrow> (CacheError + SparseStateMap) \<times> bytes \<times> bytes option" where
  "recover_flushing flt cfg rot logged m df fl =
     (case fl of
        Some ff0 \<Rightarrow>
          (if successor_passive flt then (Inr m, df, fl)
           else let ff = sf_open (Some ff0) (device_size cfg);
                    post = post_rotation_blocks (cfg_num_blocks cfg) rot m logged
                in case recover_blocks cfg (of_io flt) post ff (iter_present m) m df of
                     (Inl e, df) \<Rightarrow> (Inl e, df, Some ff)
                   | (Inr m, df) \<Rightarrow>
                       (case unlink_error flt of
                          Some e \<Rightarrow> (Inl (Io e), df, Some ff)
                        | None \<Rightarrow> (Inr m, df, None)))
      | None \<Rightarrow>
          (case cas_all SYNCING DIRTY (iter_present m) m of
             None \<Rightarrow> (Inl Panicked, df, None)
           | Some m \<Rightarrow> (Inr m, df, None)))"

section \<open>Opening\<close>

text \<open>The environment's default compression level and the hash of the zero block.\<close>

record open_params =
  default_level :: int
  zero_hash :: Blake3Hash

definition DEFAULT_READAHEAD_WINDOW_BYTES :: nat where
  "DEFAULT_READAHEAD_WINDOW_BYTES = 32 * 1024 * 1024"

definition new_inner :: "open_params \<Rightarrow> bool \<Rightarrow> WriteCacheConfig \<Rightarrow> bytes \<Rightarrow> bytes option \<Rightarrow> bytes option \<Rightarrow> bytes
    \<Rightarrow> SparseStateMap \<Rightarrow> nat \<Rightarrow> u64 \<Rightarrow> CacheInner" where
  "new_inner par passive cfg df fl meta log m dirty_count sq =
     \<lparr> config = cfg, data_file = df, flushing_file = None, flushing_disk = fl, flushing_active = False,
       state_map = m, promote_claim = pc_new, num_blocks = cfg_num_blocks cfg,
       dirty_block_count = of_nat dirty_count, syncing_block_count = 0, sequence = sq, wal = log,
       metadata_file = meta, handoff_phase = (if passive then phase_to_u8 Warming else phase_to_u8 Idle),
       manifest_etag = None, current_generation = 0, current_lease_revision = 0, fenced = False,
       page_crcs = [], pages_per_block = cfg_block_size cfg div 4096, rotation_seq = 0, ckpt_skips = 0,
       zero_block_hash = zero_hash par, compression_level = default_level par,
       readahead_window_bytes = DEFAULT_READAHEAD_WINDOW_BYTES \<rparr>"

definition open_cache :: "(bytes \<Rightarrow> u32) \<Rightarrow> (bytes \<Rightarrow> u32) \<Rightarrow> open_params \<Rightarrow> open_faults \<Rightarrow> WriteCacheConfig \<Rightarrow> disk
    \<Rightarrow> (CacheError + CacheInner) \<times> disk" where
  "open_cache mcrc wcrc par flt cfg dk =
     (case validate cfg of
        Inl e \<Rightarrow> (Inl e, dk)
      | Inr _ \<Rightarrow>
          (let df = sf_open (d_data dk) (device_size cfg); dk = dk\<lparr> d_data := Some df \<rparr>
           in case open_states mcrc wcrc cfg dk of
                Inl e \<Rightarrow> (Inl e, dk)
              | Inr (m, dirty_count, sq, rot, logged) \<Rightarrow>
                  (case open_wal wcrc flt dk logged of
                     Inl e \<Rightarrow> (Inl e, dk)
                   | Inr log \<Rightarrow>
                       (let dk = dk\<lparr> d_wal := Contents log \<rparr>
                        in case recover_flushing flt cfg rot logged m df (d_flush dk) of
                             (Inl e, df, fl) \<Rightarrow> (Inl e, dk\<lparr> d_data := Some df, d_flush := fl \<rparr>)
                           | (Inr m, df, fl) \<Rightarrow>
                               (let dk = dk\<lparr> d_data := Some df, d_flush := fl \<rparr>; present = iter_present m
                                in case cas_all CLEAN NOT_PRESENT present m of
                                     None \<Rightarrow> (Inl Panicked, dk)
                                   | Some m' \<Rightarrow>
                                       (Inr (new_inner par (successor_passive flt) cfg df fl (d_meta dk) log m'
                                              (dirty_count - length (filter (\<lambda>(_, s). s = CLEAN) present)) sq), dk))))))"

definition open_fresh_active :: "open_params \<Rightarrow> open_faults \<Rightarrow> WriteCacheConfig \<Rightarrow> disk \<Rightarrow> CacheError + CacheInner" where
  "open_fresh_active par flt cfg dk =
     sum_bind (validate cfg) (\<lambda>_.
       case wal_open_error flt of
         Some WouldBlock \<Rightarrow> Inl Locked
       | Some e \<Rightarrow> Inl (Io e)
       | None \<Rightarrow>
           Inr (new_inner par (successor_passive flt) cfg (sf_open (d_data dk) (device_size cfg)) (d_flush dk)
                  (d_meta dk) (case d_wal dk of Contents bs \<Rightarrow> bs | _ \<Rightarrow> []) (sm_new (cfg_num_blocks cfg)) 0 0))"

definition finish_recovery :: "(bytes \<Rightarrow> u32) \<Rightarrow> io_error option \<Rightarrow> unit act" where
  "finish_recovery mcrc fault c =
     (if dirty_block_count c = 0 then Some (Inr (), c)
      else Some (save_metadata mcrc fault (\<lambda>c. c) c))"

section \<open>After a handoff\<close>

fun replay_entries :: "WalEntry list \<Rightarrow> CacheInner \<Rightarrow> u64 \<Rightarrow> (CacheInner \<times> u64) option" where
  "replay_entries [] c max_seq = Some (c, max_seq)"
| "replay_entries (e # es) c max_seq =
     (let idx = unat (block_index e); max_seq = max max_seq (entry_sequence e)
      in if num_blocks c \<le> idx then replay_entries es c max_seq
         else case sm_get (state_map c) idx of
                None \<Rightarrow> None
              | Some old \<Rightarrow>
                  if old = DIRTY then replay_entries es c max_seq
                  else (case sm_set_present (state_map c) idx of
                          None \<Rightarrow> None
                        | Some m \<Rightarrow>
                            (case sm_get m idx of
                               None \<Rightarrow> None
                             | Some current \<Rightarrow>
                                 if current = DIRTY then replay_entries es (c\<lparr> state_map := m \<rparr>) max_seq
                                 else (case sm_cas m idx current DIRTY of
                                         None \<Rightarrow> None
                                       | Some (r, m) \<Rightarrow>
                                           replay_entries es (c\<lparr> state_map := m, dirty_block_count :=
                                             (if is_ok r then dirty_block_count c + 1 else dirty_block_count c) \<rparr>) max_seq))))"

definition replay_wal_tail :: "(bytes \<Rightarrow> u32) \<Rightarrow> log_file \<Rightarrow> nat act" where
  "replay_wal_tail wcrc log c =
     (case replay wcrc log (seq_current (sequence c)) of
        Inl _ \<Rightarrow> Some (Inl (Io OtherError), c)
      | Inr logged \<Rightarrow>
          if logged = [] then Some (Inr 0, c)
          else map_option (\<lambda>(c, max_seq). (Inr (length logged),
                   if seq_current (sequence c) < max_seq then c\<lparr> sequence := advance_to (sequence c) max_seq \<rparr> else c))
                 (replay_entries logged c (seq_current (sequence c))))"

fun recover_syncing :: "io_env \<Rightarrow> bytes \<Rightarrow> nat list \<Rightarrow> CacheInner \<Rightarrow> nat \<Rightarrow> ((CacheError + nat) \<times> CacheInner) option" where
  "recover_syncing io ff [] c recovered = Some (Inr recovered, c)"
| "recover_syncing io ff (idx # rest) c recovered =
     (if valid_bytes c idx = 0 then recover_syncing io ff rest c recovered
      else case copy_block (config c) io ff idx (data_file c) of
             (Inl e, df) \<Rightarrow> Some (Inl e, c\<lparr> data_file := df \<rparr>)
           | (Inr _, df) \<Rightarrow>
               (case sm_cas (state_map c) idx SYNCING DIRTY of
                  None \<Rightarrow> None
                | Some (_, m) \<Rightarrow>
                    recover_syncing io ff rest (c\<lparr> data_file := df, state_map := m,
                        dirty_block_count := dirty_block_count c + 1 \<rparr>) (recovered + 1)))"

definition recover_pending_flush_file :: "open_faults \<Rightarrow> nat act" where
  "recover_pending_flush_file flt c =
     (let syncing = map fst (filter (\<lambda>(_, s). s = SYNCING) (iter_present (state_map c)))
      in case flushing_disk c of
           None \<Rightarrow>
             (if syncing = [] then Some (Inr 0, c)
              else map_option (\<lambda>m. (Inr (length syncing), c\<lparr> state_map := m \<rparr>))
                     (cas_all SYNCING NOT_PRESENT (map (\<lambda>i. (i, SYNCING)) syncing) (state_map c)))
         | Some ff \<Rightarrow>
             cbind (\<lambda>c. recover_syncing (of_io flt) ff syncing c 0) (\<lambda>recovered c.
               case unlink_error flt of
                 Some e \<Rightarrow> Some (Inl (Io e), c)
               | None \<Rightarrow> Some (Inr recovered, c\<lparr> flushing_disk := None \<rparr>)) c)"


section \<open>The state map after an open\<close>

lemma set_present_abs:
  assumes "sm_inv m" "i < num_entries m"
  shows "\<exists>m'. sm_set_present m i = Some m' \<and> sm_inv m'
     \<and> sm_abs m' = (if sm_abs m ! i = NOT_PRESENT then (sm_abs m)[i := CLEAN] else sm_abs m)"
  using try_set_present_eq [OF assms] by (auto simp: sm_set_present_def)

lemma apply_wal_ok:
  assumes "sm_inv m" "num_entries m = nb"
  shows "\<exists>m' d' mx. apply_wal nb es m d mx0 = Some (m', d', mx) \<and> sm_inv m' \<and> num_entries m' = nb
     \<and> (\<forall>i<nb. sm_abs m' ! i = (if i \<in> set (entry_blocks nb es) then DIRTY else sm_abs m ! i))
     \<and> mx0 \<le> mx \<and> (\<forall>e\<in>set es. entry_sequence e \<le> mx)
     \<and> (\<forall>s\<ge>mx0. (\<forall>e\<in>set es. entry_sequence e \<le> s) \<longrightarrow> mx \<le> s)
     \<and> (d = count_list (sm_abs m) DIRTY \<longrightarrow> d' = count_list (sm_abs m') DIRTY)"
  using assms
proof (induction es arbitrary: m d mx0)
  case Nil
  then show ?case by (simp add: entry_blocks_def)
next
  case (Cons e es)
  let ?i = "unat (block_index e)" and ?mx = "max mx0 (entry_sequence e)"
  let ?goal = "\<lambda>m1 d1. apply_wal nb (e # es) m d mx0 = apply_wal nb es m1 d1 ?mx
     \<and> sm_inv m1 \<and> num_entries m1 = nb
     \<and> (\<forall>i<nb. sm_abs m1 ! i = (if i = ?i then DIRTY else sm_abs m ! i))
     \<and> (d = count_list (sm_abs m) DIRTY \<longrightarrow> d1 = count_list (sm_abs m1) DIRTY)"
  have "\<exists>m1 d1. ?goal m1 d1"
  proof (cases "?i < nb")
    case False
    then show ?thesis using Cons.prems by (auto simp: Let_def)
  next
    case True
    then have i: "?i < length (sm_abs m)" using Cons.prems by simp
    have g: "sm_get m ?i = Some (sm_abs m ! ?i)" by (rule spm.get_abs [OF Cons.prems(1) i])
    show ?thesis
    proof (cases "sm_abs m ! ?i = DIRTY")
      case True
      then show ?thesis using g Cons.prems \<open>?i < nb\<close> by (auto simp: Let_def)
    next
      case False
      obtain m1 where m1: "sm_set_present m ?i = Some m1" "sm_inv m1"
        "sm_abs m1 = (if sm_abs m ! ?i = NOT_PRESENT then (sm_abs m)[?i := CLEAN] else sm_abs m)"
        using set_present_abs [OF Cons.prems(1)] i by auto
      have i1: "?i < length (sm_abs m1)" using m1(3) i by (simp split: if_splits)
      have nd: "sm_abs m1 ! ?i \<noteq> DIRTY" using m1(3) False i by auto
      have g1: "sm_get m1 ?i = Some (sm_abs m1 ! ?i)" by (rule spm.get_abs [OF m1(2) i1])
      obtain m2 where m2: "sm_cas m1 ?i (sm_abs m1 ! ?i) DIRTY = Some (Inr (sm_abs m1 ! ?i), m2)" "sm_inv m2"
        "sm_abs m2 = (sm_abs m1)[?i := DIRTY]"
        using spm.cas_ok [OF m1(2) i1, of DIRTY] by auto
      have n2: "num_entries m2 = nb"
        using m2(3) m1(3) Cons.prems(2) by (metis length_list_update length_sm_abs)
      have a2: "sm_abs m2 = (sm_abs m)[?i := DIRTY]" using m2(3) m1(3) by simp
      have "count_list (sm_abs m2) DIRTY = count_list (sm_abs m) DIRTY + 1"
        using count_list_update [OF i, of DIRTY DIRTY] False by (simp add: a2)
      moreover have "\<forall>j<nb. sm_abs m2 ! j = (if j = ?i then DIRTY else sm_abs m ! j)"
        using a2 i Cons.prems(2) by (simp add: nth_list_update)
      ultimately have "?goal m2 (d + 1)"
        using g g1 m1(1) m2(1,2) n2 nd False \<open>?i < nb\<close> by (simp add: Let_def)
      then show ?thesis by blast
    qed
  qed
  then obtain m1 d1 where m1: "?goal m1 d1" by blast
  obtain m' d' mx where m': "apply_wal nb es m1 d1 ?mx = Some (m', d', mx)" "sm_inv m'" "num_entries m' = nb"
    "\<forall>i<nb. sm_abs m' ! i = (if i \<in> set (entry_blocks nb es) then DIRTY else sm_abs m1 ! i)"
    "?mx \<le> mx" "\<forall>e\<in>set es. entry_sequence e \<le> mx"
    "\<forall>s\<ge>?mx. (\<forall>e\<in>set es. entry_sequence e \<le> s) \<longrightarrow> mx \<le> s"
    "d1 = count_list (sm_abs m1) DIRTY \<longrightarrow> d' = count_list (sm_abs m') DIRTY"
    using Cons.IH [of m1 d1 ?mx] m1 by blast
  have "\<forall>i<nb. sm_abs m' ! i = (if i \<in> set (entry_blocks nb (e # es)) then DIRTY else sm_abs m ! i)"
    using m'(4) m1 by (auto simp: entry_blocks_def)
  moreover have "mx0 \<le> mx" "entry_sequence e \<le> mx" using m'(5) by auto
  moreover have "\<forall>s\<ge>mx0. (\<forall>e\<in>set (e # es). entry_sequence e \<le> s) \<longrightarrow> mx \<le> s" using m'(7) by simp
  ultimately show ?case using m1 m'(1-3,6,8) by auto
qed

text \<open>The states a pass over the present blocks leaves.\<close>

definition recast :: "byte \<Rightarrow> byte \<Rightarrow> byte \<Rightarrow> byte" where
  "recast expected new s = (if s = expected then new else s)"

lemma cas_all_list:
  assumes "sm_inv m" "num_entries m = nb" "valid_state new" "distinct (map fst es)"
    and "\<forall>(i, s)\<in>set es. i < nb \<and> s = sm_abs m ! i"
  shows "\<exists>m'. cas_all e new es m = Some m' \<and> sm_inv m' \<and> num_entries m' = nb
     \<and> (\<forall>i<nb. sm_abs m' ! i = (if i \<in> fst ` set es then recast e new (sm_abs m ! i) else sm_abs m ! i))"
  using assms
proof (induction es arbitrary: m)
  case Nil
  then show ?case by simp
next
  case (Cons a es)
  obtain i s where a: "a = (i, s)" by (cases a)
  have i: "i < length (sm_abs m)" "s = sm_abs m ! i" "i \<notin> fst ` set es" using Cons.prems a by auto
  obtain m1 where m1: "cas_all e new (a # es) m = cas_all e new es m1" "sm_inv m1"
    "sm_abs m1 = (if s = e then (sm_abs m)[i := new] else sm_abs m)"
    using spm.cas_ok [OF Cons.prems(1) i(1) Cons.prems(3), of e] i(2) a Cons.prems(1) by (cases "s = e") auto
  have n1: "num_entries m1 = nb" using m1(3) Cons.prems(2) by (metis length_list_update length_sm_abs)
  have "j < nb \<and> t = sm_abs m1 ! j" if jt: "(j, t) \<in> set es" for j t
  proof -
    have "j \<noteq> i" using i(3) jt by force
    then show ?thesis using Cons.prems(5) jt m1(3) by auto
  qed
  then have "\<forall>(j, s)\<in>set es. j < nb \<and> s = sm_abs m1 ! j" by blast
  then obtain m' where m': "cas_all e new es m1 = Some m'" "sm_inv m'" "num_entries m' = nb"
    "\<forall>i<nb. sm_abs m' ! i = (if i \<in> fst ` set es then recast e new (sm_abs m1 ! i) else sm_abs m1 ! i)"
    using Cons.IH [OF m1(2) n1 Cons.prems(3)] Cons.prems(4) by auto
  have "sm_abs m' ! j = (if j \<in> fst ` set (a # es) then recast e new (sm_abs m ! j) else sm_abs m ! j)" if "j < nb" for j
    using m'(4) that m1(3) i a Cons.prems(2) by (cases "j = i") (auto simp: recast_def)
  then show ?case using m1(1) m'(1-3) by auto
qed

lemma iter_present_set:
  assumes "sm_inv m"
  shows "distinct (map fst (iter_present m))"
    "(i, s) \<in> set (iter_present m) \<longleftrightarrow> i < num_entries m \<and> s = sm_abs m ! i \<and> s \<noteq> NOT_PRESENT"
  unfolding iter_present_eq [OF assms]
   apply (rule present_entries(1))
  apply (simp add: in_set_enumerate_eq)
  apply blast
  done

lemma cas_all_ok:
  assumes "sm_inv m" "num_entries m = nb" "valid_state new" "e \<noteq> NOT_PRESENT"
  shows "\<exists>m'. cas_all e new (iter_present m) m = Some m' \<and> sm_inv m' \<and> num_entries m' = nb
     \<and> (\<forall>i<nb. sm_abs m' ! i = recast e new (sm_abs m ! i))"
proof -
  have "\<forall>(i, s)\<in>set (iter_present m). i < nb \<and> s = sm_abs m ! i"
    using iter_present_set(2) [OF assms(1)] assms(2) by auto
  then obtain m' where m': "cas_all e new (iter_present m) m = Some m'" "sm_inv m'" "num_entries m' = nb"
    "\<forall>i<nb. sm_abs m' ! i = (if i \<in> fst ` set (iter_present m) then recast e new (sm_abs m ! i) else sm_abs m ! i)"
    using cas_all_list [OF assms(1-3) iter_present_set(1) [OF assms(1)]] by blast
  have "i \<in> fst ` set (iter_present m) \<longleftrightarrow> sm_abs m ! i \<noteq> NOT_PRESENT" if "i < nb" for i
  proof -
    have "i \<in> fst ` set (iter_present m) \<longleftrightarrow> (\<exists>s. (i, s) \<in> set (iter_present m))" by force
    then show ?thesis unfolding iter_present_set(2) [OF assms(1)] using that assms(2) by simp
  qed
  then have "\<forall>i<nb. sm_abs m' ! i = recast e new (sm_abs m ! i)"
    using m'(4) assms(4) by (simp add: recast_def)
  then show ?thesis using m'(1-3) by blast
qed

section \<open>Copying back from the flushing file\<close>

lemma copy_block_ok:
  assumes "geometry_ok c" "i < num_blocks c" "io_works io" "length ff = dsize c"
  shows "copy_block (config c) io ff i df = (Inr (), overwrite df (i * bsize c) (blk c ff i))"
proof -
  have v: "min (bsize c) (dsize c - i * bsize c) = valid_bytes c i" by (simp add: valid_bytes_def)
  show ?thesis
    using valid_bytes_bounds [OF assms(1,2)] assms(3,4)
    by (simp add: copy_block_def Let_def v read_exact_at_def write_all_at_def blk_def)
qed

lemma recover_blocks_list:
  assumes "geometry_ok c" "io_works io" "length ff = dsize c" "length df = dsize c"
    and "sm_inv m" "num_entries m = num_blocks c" "distinct (map fst es)"
    and "\<forall>(i, s)\<in>set es. i < num_blocks c \<and> s = sm_abs m ! i"
  shows "\<exists>m' df'. recover_blocks (config c) io post ff es m df = (Inr m', df') \<and> sm_inv m'
     \<and> num_entries m' = num_blocks c \<and> length df' = dsize c
     \<and> (\<forall>i<num_blocks c. sm_abs m' ! i = (if i \<in> fst ` set es then recast SYNCING DIRTY (sm_abs m ! i) else sm_abs m ! i))
     \<and> (\<forall>k<dsize c. df' ! k = (if (k div bsize c, DIRTY) \<in> set es \<or> (k div bsize c, SYNCING) \<in> set es
           then if k div bsize c \<in> set post then df ! k else ff ! k else df ! k))"
  using assms(4-)
proof (induction es arbitrary: m df)
  case Nil
  then show ?case by simp
next
  case (Cons a es)
  obtain i s where a: "a = (i, s)" by (cases a)
  have i: "i < num_blocks c" "s = sm_abs m ! i" "i \<notin> fst ` set es" using Cons.prems a by auto
  have il: "i < length (sm_abs m)" using i(1) Cons.prems(3) by simp
  let ?copied = "(s = DIRTY \<or> s = SYNCING) \<and> i \<notin> set post"
  define d1 where "d1 = (if ?copied then overwrite df (i * bsize c) (blk c ff i) else df)"
  have d1: "length d1 = dsize c" "\<forall>k<dsize c. d1 ! k = (if ?copied \<and> k div bsize c = i then ff ! k else df ! k)"
    using nth_overwrite_blk [OF assms(1) _ assms(3) Cons.prems(1) i(1)] length_blk [OF assms(1) i(1) assms(3)]
      valid_bytes_bounds [OF assms(1) i(1)] Cons.prems(1) by (simp_all add: d1_def)
  obtain m1 where m1: "sm_inv m1" "sm_abs m1 = (if s = SYNCING then (sm_abs m)[i := DIRTY] else sm_abs m)"
    and step: "recover_blocks (config c) io post ff (a # es) m df = recover_blocks (config c) io post ff es m1 d1"
  proof (cases "s = DIRTY \<or> s = SYNCING")
    case False
    then show ?thesis using that [of m] Cons.prems(2) a by (simp add: d1_def)
  next
    case True
    obtain m1 where m1: "sm_cas m i SYNCING DIRTY = Some (if sm_abs m ! i = SYNCING then Inr SYNCING else Inl (sm_abs m ! i), m1)"
      "sm_inv m1" "sm_abs m1 = (if sm_abs m ! i = SYNCING then (sm_abs m)[i := DIRTY] else sm_abs m)"
      by (rule spm.cas_abs [OF Cons.prems(2) il valid_states(3)])
    have "(if i \<in> set post then (Inr (), df) else copy_block (config c) io ff i df) = (Inr (), d1)"
      using True copy_block_ok [OF assms(1) i(1) assms(2,3)] by (simp add: d1_def)
    then show ?thesis using that [OF m1(2)] m1(1,3) True a i(2) by simp
  qed
  have n1: "num_entries m1 = num_blocks c"
    using m1(2) Cons.prems(3) by (metis length_list_update length_sm_abs)
  have "j < num_blocks c \<and> t = sm_abs m1 ! j" if jt: "(j, t) \<in> set es" for j t
  proof -
    have "j \<noteq> i" using i(3) jt by force
    then show ?thesis using Cons.prems(5) jt m1(2) by auto
  qed
  then have "\<forall>(j, s)\<in>set es. j < num_blocks c \<and> s = sm_abs m1 ! j" by blast
  moreover have "distinct (map fst es)" using Cons.prems(4) by simp
  ultimately obtain m' df' where r: "recover_blocks (config c) io post ff es m1 d1 = (Inr m', df')" "sm_inv m'"
    "num_entries m' = num_blocks c" "length df' = dsize c"
    "\<forall>i<num_blocks c. sm_abs m' ! i = (if i \<in> fst ` set es then recast SYNCING DIRTY (sm_abs m1 ! i) else sm_abs m1 ! i)"
    "\<forall>k<dsize c. df' ! k = (if (k div bsize c, DIRTY) \<in> set es \<or> (k div bsize c, SYNCING) \<in> set es
         then if k div bsize c \<in> set post then d1 ! k else ff ! k else d1 ! k)"
    using Cons.IH [OF d1(1) m1(1) n1] by blast
  have "sm_abs m' ! j = (if j \<in> fst ` set (a # es) then recast SYNCING DIRTY (sm_abs m ! j) else sm_abs m ! j)"
    if "j < num_blocks c" for j
    using r(5) that m1(2) i(2,3) il a by (cases "j = i") (auto simp: recast_def)
  moreover have "df' ! k = (if (k div bsize c, DIRTY) \<in> set (a # es) \<or> (k div bsize c, SYNCING) \<in> set (a # es)
         then if k div bsize c \<in> set post then df ! k else ff ! k else df ! k)" if k: "k < dsize c" for k
  proof (cases "k div bsize c = i")
    case True
    have "(i, t) \<notin> set es" for t using i(3) by force
    then show ?thesis using r(6) d1(2) k True a by auto
  next
    case False
    then show ?thesis using r(6) d1(2) k a by auto
  qed
  ultimately show ?case using step r(1-4) by auto
qed

lemma recover_blocks_ok:
  assumes "geometry_ok c" "io_works io" "length ff = dsize c" "length df = dsize c"
    and m: "sm_inv m" "num_entries m = num_blocks c"
  shows "\<exists>m' df'. recover_blocks (config c) io post ff (iter_present m) m df = (Inr m', df') \<and> sm_inv m'
     \<and> num_entries m' = num_blocks c \<and> length df' = dsize c
     \<and> (\<forall>i<num_blocks c. sm_abs m' ! i = recast SYNCING DIRTY (sm_abs m ! i))
     \<and> (\<forall>k<dsize c. df' ! k = (if (sm_abs m ! (k div bsize c) = DIRTY \<or> sm_abs m ! (k div bsize c) = SYNCING)
           \<and> k div bsize c \<notin> set post then ff ! k else df ! k))"
proof -
  let ?es = "iter_present m"
  have mem: "(i, s) \<in> set ?es \<longleftrightarrow> i < num_blocks c \<and> s = sm_abs m ! i \<and> s \<noteq> NOT_PRESENT" for i s
    using iter_present_set(2) [OF m(1)] m(2) by simp
  have "\<forall>(i, s)\<in>set ?es. i < num_blocks c \<and> s = sm_abs m ! i" using mem by auto
  from recover_blocks_list [OF assms iter_present_set(1) [OF m(1)] this, of post]
  obtain m' df' where r: "recover_blocks (config c) io post ff ?es m df = (Inr m', df')" "sm_inv m'"
     "num_entries m' = num_blocks c" "length df' = dsize c"
     "\<forall>i<num_blocks c. sm_abs m' ! i = (if i \<in> fst ` set ?es then recast SYNCING DIRTY (sm_abs m ! i) else sm_abs m ! i)"
     "\<forall>k<dsize c. df' ! k = (if (k div bsize c, DIRTY) \<in> set ?es \<or> (k div bsize c, SYNCING) \<in> set ?es
           then if k div bsize c \<in> set post then df ! k else ff ! k else df ! k)"
    by blast
  have "sm_abs m' ! i = recast SYNCING DIRTY (sm_abs m ! i)" if i: "i < num_blocks c" for i
  proof (cases "sm_abs m ! i = SYNCING")
    case True
    then have "i \<in> fst ` set ?es" using mem [of i SYNCING] i by force
    then show ?thesis using r(5) i by simp
  next
    case False
    then show ?thesis using r(5) i by (simp add: recast_def)
  qed
  moreover have "df' ! k = (if (sm_abs m ! (k div bsize c) = DIRTY \<or> sm_abs m ! (k div bsize c) = SYNCING)
           \<and> k div bsize c \<notin> set post then ff ! k else df ! k)" if k: "k < dsize c" for k
    using r(6) k block_of_byte [OF assms(1) k] unfolding mem by auto
  ultimately show ?thesis using r(1-4) by blast
qed

section \<open>An open without faults\<close>

text \<open>
  The entries an open replays, the state of a block before the interrupted flush is
  looked at, and the blocks it takes from the active file.
\<close>

definition replayed :: "u64 \<Rightarrow> u64 \<Rightarrow> WalEntry list \<Rightarrow> WalEntry list" where
  "replayed rot sq es = filter (\<lambda>e. wal_min_seq rot sq < entry_sequence e) es"

definition boot_state :: "nat \<Rightarrow> SparseStateMap \<Rightarrow> WalEntry list \<Rightarrow> nat \<Rightarrow> byte" where
  "boot_state nb m live i = (if i \<in> set (entry_blocks nb live) then DIRTY else sm_abs m ! i)"

definition kept_active :: "nat \<Rightarrow> u64 \<Rightarrow> SparseStateMap \<Rightarrow> WalEntry list \<Rightarrow> nat \<Rightarrow> bool" where
  "kept_active nb rot m live i \<longleftrightarrow> i \<in> set (entry_blocks nb live) \<or> 0 < rot \<and> boot_state nb m live i = DIRTY"

text \<open>What a fault-free open makes of the files a cache with the geometry of \<open>c\<close> left behind.\<close>

definition opened :: "(bytes \<Rightarrow> u32) \<Rightarrow> CacheInner \<Rightarrow> disk \<Rightarrow> SparseStateMap \<Rightarrow> u64 \<Rightarrow> u64 \<Rightarrow> WalEntry list
    \<Rightarrow> CacheInner \<Rightarrow> bool" where
  "opened wcrc c dk m sq rot es c' \<longleftrightarrow>
     (let live = replayed rot sq es; st = boot_state (num_blocks c) m live
      in config c' = config c \<and> num_blocks c' = num_blocks c \<and> pages_per_block c' = bsize c div 4096
       \<and> sm_inv (state_map c') \<and> num_entries (state_map c') = num_blocks c \<and> length (data_file c') = dsize c
       \<and> flushing_file c' = None \<and> flushing_disk c' = None \<and> metadata_file c' = d_meta dk
       \<and> rotation_seq c' = 0 \<and> promote_claim c' = pc_new \<and> page_crcs c' = [] \<and> handoff_phase c' = 0 \<and> \<not> fenced c'
       \<and> syncing_block_count c' = 0 \<and> (\<forall>s\<ge>sq. (\<forall>e\<in>set live. entry_sequence e \<le> s) \<longrightarrow> sequence c' \<le> s)
       \<and> wal c' = log_bytes wcrc live \<and> sq \<le> sequence c' \<and> (\<forall>e\<in>set live. entry_sequence e \<le> sequence c')
       \<and> (\<forall>i<num_blocks c. states c' ! i = (if st i = DIRTY \<or> st i = SYNCING then DIRTY else NOT_PRESENT))
       \<and> (\<forall>k<dsize c. data_file c' ! k =
           (case d_flush dk of
              None \<Rightarrow> the (d_data dk) ! k
            | Some ff \<Rightarrow>
                if (st (k div bsize c) = DIRTY \<or> st (k div bsize c) = SYNCING)
                   \<and> \<not> kept_active (num_blocks c) rot m live (k div bsize c)
                then ff ! k else the (d_data dk) ! k)))"

lemma validate_ok: "geometry_ok c \<Longrightarrow> validate (config c) = Inr ()"
  by (simp add: validate_def geometry_ok_def)

lemma replay_log: "replay wcrc (Contents (log_bytes wcrc es)) n = Inr (filter (\<lambda>e. n < entry_sequence e) es)"
  using replay_loop_records [of wcrc n es "[]"] by (simp add: replay_def log_bytes_def replay_loop_torn)

lemma open_states_ok:
  assumes "load_metadata mcrc cfg (d_meta dk) = Inr (m, d, sq, rot)" "sm_inv m" "num_entries m = cfg_num_blocks cfg"
    and "d_wal dk = Contents (log_bytes wcrc es)"
  shows "\<exists>m1 d1 s1. open_states mcrc wcrc cfg dk = Inr (m1, d1, s1, rot, replayed rot sq es) \<and> sm_inv m1
     \<and> num_entries m1 = cfg_num_blocks cfg
     \<and> (\<forall>i<cfg_num_blocks cfg. sm_abs m1 ! i = boot_state (cfg_num_blocks cfg) m (replayed rot sq es) i)
     \<and> sq \<le> s1 \<and> (\<forall>e\<in>set (replayed rot sq es). entry_sequence e \<le> s1)
     \<and> (\<forall>s\<ge>sq. (\<forall>e\<in>set (replayed rot sq es). entry_sequence e \<le> s) \<longrightarrow> s1 \<le> s)
     \<and> (d = count_list (sm_abs m) DIRTY \<longrightarrow> d1 = count_list (sm_abs m1) DIRTY)"
proof -
  let ?live = "replayed rot sq es"
  obtain m1 d1 mx where a: "apply_wal (cfg_num_blocks cfg) ?live m d sq = Some (m1, d1, mx)" "sm_inv m1"
    "num_entries m1 = cfg_num_blocks cfg"
    "\<forall>i<cfg_num_blocks cfg. sm_abs m1 ! i = (if i \<in> set (entry_blocks (cfg_num_blocks cfg) ?live) then DIRTY else sm_abs m ! i)"
    "sq \<le> mx" "\<forall>e\<in>set ?live. entry_sequence e \<le> mx"
    "\<forall>s\<ge>sq. (\<forall>e\<in>set ?live. entry_sequence e \<le> s) \<longrightarrow> mx \<le> s"
    "d = count_list (sm_abs m) DIRTY \<longrightarrow> d1 = count_list (sm_abs m1) DIRTY"
    using apply_wal_ok [OF assms(2,3), of ?live d sq] by blast
  have "open_states mcrc wcrc cfg dk = Inr (m1, d1, max sq mx, rot, ?live)"
    using assms(1,4) a(1) by (simp add: open_states_def replay_log flip: replayed_def)
  then show ?thesis using a by (auto simp: boot_state_def)
qed

lemma post_rotation_iff:
  assumes "sm_inv m1" "num_entries m1 = nb" "\<forall>i<nb. sm_abs m1 ! i = boot_state nb m live i" "i < nb"
  shows "i \<in> set (post_rotation_blocks nb rot m1 live) \<longleftrightarrow> kept_active nb rot m live i"
proof -
  have "i \<in> fst ` {x \<in> set (iter_present m1). case x of (_, s) \<Rightarrow> s = DIRTY} \<longleftrightarrow> (i, DIRTY) \<in> set (iter_present m1)"
    by force
  also have "\<dots> \<longleftrightarrow> boot_state nb m live i = DIRTY"
    using iter_present_set(2) [OF assms(1), of i DIRTY] assms(2-4) by auto
  finally show ?thesis by (auto simp: post_rotation_blocks_def kept_active_def)
qed

lemma recover_flushing_ok:
  assumes g: "geometry_ok c" and df: "length df = dsize c" and fl: "\<And>ff. fl = Some ff \<Longrightarrow> length ff = dsize c"
    and m1: "sm_inv m1" "num_entries m1 = num_blocks c" "\<forall>i<num_blocks c. sm_abs m1 ! i = boot_state (num_blocks c) m live i"
  shows "\<exists>m2 df2. recover_flushing open_works (config c) rot live m1 df fl = (Inr m2, df2, None) \<and> sm_inv m2
     \<and> num_entries m2 = num_blocks c \<and> length df2 = dsize c
     \<and> (\<forall>i<num_blocks c. sm_abs m2 ! i = recast SYNCING DIRTY (sm_abs m1 ! i))
     \<and> (\<forall>k<dsize c. df2 ! k = (case fl of None \<Rightarrow> df ! k | Some ff \<Rightarrow>
          if (sm_abs m1 ! (k div bsize c) = DIRTY \<or> sm_abs m1 ! (k div bsize c) = SYNCING)
             \<and> \<not> kept_active (num_blocks c) rot m live (k div bsize c) then ff ! k else df ! k))"
proof (cases fl)
  case None
  obtain m2 where m2: "cas_all SYNCING DIRTY (iter_present m1) m1 = Some m2" "sm_inv m2" "num_entries m2 = num_blocks c"
    "\<forall>i<num_blocks c. sm_abs m2 ! i = recast SYNCING DIRTY (sm_abs m1 ! i)"
    using cas_all_ok [OF m1(1,2), of DIRTY SYNCING] by auto
  then show ?thesis using None df by (simp add: recover_flushing_def)
next
  case (Some ff)
  have nb: "cfg_num_blocks (config c) = num_blocks c" using g by (simp add: geometry_ok_def)
  let ?post = "post_rotation_blocks (num_blocks c) rot m1 live"
  have lf: "length ff = dsize c" by (rule fl [OF Some])
  obtain m2 df2 where r: "recover_blocks (config c) io_ok ?post ff (iter_present m1) m1 df = (Inr m2, df2)" "sm_inv m2"
     "num_entries m2 = num_blocks c" "length df2 = dsize c"
     "\<forall>i<num_blocks c. sm_abs m2 ! i = recast SYNCING DIRTY (sm_abs m1 ! i)"
     "\<forall>k<dsize c. df2 ! k = (if (sm_abs m1 ! (k div bsize c) = DIRTY \<or> sm_abs m1 ! (k div bsize c) = SYNCING)
           \<and> k div bsize c \<notin> set ?post then ff ! k else df ! k)"
    using recover_blocks_ok [OF g io_works_ok lf df m1(1,2), of ?post] by blast
  have "sf_open (Some ff) (dsize c) = ff" using lf by (simp add: sf_open_def)
  then have "recover_flushing open_works (config c) rot live m1 df fl = (Inr m2, df2, None)"
    using Some r(1) nb by (simp add: recover_flushing_def open_works_def Let_def)
  moreover have "k div bsize c \<notin> set ?post \<longleftrightarrow> \<not> kept_active (num_blocks c) rot m live (k div bsize c)"
    if "k < dsize c" for k
    using post_rotation_iff [OF m1 block_of_byte [OF g that]] by simp
  ultimately show ?thesis using r(2-6) Some by simp
qed

lemma open_ok:
  assumes g: "geometry_ok c" and df: "d_data dk = Some df" "length df = dsize c"
    and fl: "\<And>ff. d_flush dk = Some ff \<Longrightarrow> length ff = dsize c"
    and meta: "load_metadata mcrc (config c) (d_meta dk) = Inr (m, d, sq, rot)" "sm_inv m" "num_entries m = num_blocks c"
    and log: "d_wal dk = Contents (log_bytes wcrc es)"
  shows "\<exists>c' dk'. open_cache mcrc wcrc par open_works (config c) dk = (Inr c', dk') \<and> opened wcrc c dk m sq rot es c'
     \<and> (d = count_list (sm_abs m) DIRTY \<longrightarrow> set (sm_abs m) \<subseteq> {NOT_PRESENT, DIRTY}
          \<longrightarrow> dirty_block_count c' = of_nat (count_list (states c') DIRTY))"
proof -
  let ?live = "replayed rot sq es"
  have nb: "cfg_num_blocks (config c) = num_blocks c" using g by (simp add: geometry_ok_def)
  have df': "sf_open (Some df) (dsize c) = df" using df(2) by (simp add: sf_open_def)
  have dk: "dk\<lparr> d_data := Some df \<rparr> = dk" using df(1) by simp
  obtain m1 d1 s1 where o: "open_states mcrc wcrc (config c) dk = Inr (m1, d1, s1, rot, ?live)"
    and m1: "sm_inv m1" "num_entries m1 = num_blocks c"
      "\<forall>i<num_blocks c. sm_abs m1 ! i = boot_state (num_blocks c) m ?live i"
    and s1: "sq \<le> s1" "\<forall>e\<in>set ?live. entry_sequence e \<le> s1"
      "\<forall>s\<ge>sq. (\<forall>e\<in>set ?live. entry_sequence e \<le> s) \<longrightarrow> s1 \<le> s"
    and d1: "d = count_list (sm_abs m) DIRTY \<longrightarrow> d1 = count_list (sm_abs m1) DIRTY"
    using open_states_ok [OF meta(1,2) _ log] meta(3) nb by auto
  have w: "open_wal wcrc open_works dk ?live = Inr (log_bytes wcrc ?live)"
    by (simp add: open_wal_def open_works_def)
  obtain m2 df2 where r: "recover_flushing open_works (config c) rot ?live m1 df (d_flush dk) = (Inr m2, df2, None)"
     "sm_inv m2" "num_entries m2 = num_blocks c" "length df2 = dsize c"
     "\<forall>i<num_blocks c. sm_abs m2 ! i = recast SYNCING DIRTY (sm_abs m1 ! i)"
     "\<forall>k<dsize c. df2 ! k = (case d_flush dk of None \<Rightarrow> df ! k | Some ff \<Rightarrow>
          if (sm_abs m1 ! (k div bsize c) = DIRTY \<or> sm_abs m1 ! (k div bsize c) = SYNCING)
             \<and> \<not> kept_active (num_blocks c) rot m ?live (k div bsize c) then ff ! k else df ! k)"
    using recover_flushing_ok [OF g df(2) fl m1] by blast
  obtain m3 where m3: "cas_all CLEAN NOT_PRESENT (iter_present m2) m2 = Some m3" "sm_inv m3"
     "num_entries m3 = num_blocks c" "\<forall>i<num_blocks c. sm_abs m3 ! i = recast CLEAN NOT_PRESENT (sm_abs m2 ! i)"
    using cas_all_ok [OF r(2,3), of NOT_PRESENT CLEAN] by auto
  define c' where "c' = new_inner par False (config c) df2 None (d_meta dk) (log_bytes wcrc ?live) m3
     (d1 - length (filter (\<lambda>(_, s). s = CLEAN) (iter_present m2))) s1"
  have run: "\<exists>dk'. open_cache mcrc wcrc par open_works (config c) dk = (Inr c', dk')"
    unfolding open_cache_def validate_ok [OF g] df(1) df' sum.case Let_def dk o w prod.case
    using r(1) m3(1) by (simp add: open_works_def c'_def)
  have st: "states c' ! i = (if boot_state (num_blocks c) m ?live i = DIRTY \<or> boot_state (num_blocks c) m ?live i = SYNCING
      then DIRTY else NOT_PRESENT)" if i: "i < num_blocks c" for i
  proof -
    have "i < length (sm_abs m1)" using i m1(2) by simp
    then have "valid_state (sm_abs m1 ! i)" using spm.abs_valid [OF m1(1)] nth_mem by blast
    then have v: "valid_state (boot_state (num_blocks c) m ?live i)" using m1(3) i by simp
    have "states c' ! i = recast CLEAN NOT_PRESENT (recast SYNCING DIRTY (boot_state (num_blocks c) m ?live i))"
      using m3(4) r(5) m1(3) i by (simp add: c'_def states_def new_inner_def)
    then show ?thesis using v by (auto simp: recast_def valid_state_def)
  qed
  have "data_file c' ! k = (case d_flush dk of None \<Rightarrow> the (d_data dk) ! k | Some ff \<Rightarrow>
      if (boot_state (num_blocks c) m ?live (k div bsize c) = DIRTY \<or> boot_state (num_blocks c) m ?live (k div bsize c) = SYNCING)
         \<and> \<not> kept_active (num_blocks c) rot m ?live (k div bsize c) then ff ! k else the (d_data dk) ! k)"
    if k: "k < dsize c" for k
    using r(6) k df(1) m1(3) block_of_byte [OF g k]
    by (cases "d_flush dk") (simp_all add: c'_def new_inner_def)
  then have "opened wcrc c dk m sq rot es c'"
    unfolding opened_def Let_def
    using st nb m3(2,3) r(4) s1
    by (simp add: c'_def new_inner_def phase_to_u8_def)
  moreover have "dirty_block_count c' = of_nat (count_list (states c') DIRTY)"
    if d: "d = count_list (sm_abs m) DIRTY" and two: "set (sm_abs m) \<subseteq> {NOT_PRESENT, DIRTY}"
  proof -
    have n1: "sm_abs m1 ! i = NOT_PRESENT \<or> sm_abs m1 ! i = DIRTY" if i: "i < num_blocks c" for i
    proof -
      have "sm_abs m ! i \<in> set (sm_abs m)" using i meta(3) by simp
      then have "sm_abs m ! i = NOT_PRESENT \<or> sm_abs m ! i = DIRTY" using two by blast
      then show ?thesis using m1(3) i by (simp add: boot_state_def)
    qed
    have n2: "\<forall>i<num_blocks c. sm_abs m2 ! i = sm_abs m1 ! i \<and> sm_abs m2 ! i \<noteq> CLEAN"
      using n1 r(5) by (fastforce simp: recast_def)
    have "sm_abs m2 = sm_abs m1" "sm_abs m3 = sm_abs m2"
      using n2 r(3) m1(2) m3(3,4) by (auto intro!: nth_equalityI simp: recast_def)
    moreover have "filter (\<lambda>(_, s). s = CLEAN) (iter_present m2) = []"
      using n2 iter_present_set(2) [OF r(2), of _ CLEAN] r(3) by (auto simp: filter_empty_conv)
    ultimately show ?thesis using d1 d by (simp add: c'_def new_inner_def states_def)
  qed
  ultimately show ?thesis using run by blast
qed

end
