(* ===== verification/Crash.thy ===== *)
theory Crash
  imports Recovery
begin

text \<open>
  The write cache as a whole, between its clients and its files: guest writes, zeroing,
  checkpoints and process crashes in any order on a new volume, and what a crash in the
  middle of a flush does.
\<close>

section \<open>Operations on a new volume\<close>

datatype host_op = HWrite nat bytes | HZero nat nat | HCheckpoint | HCrash

text \<open>A crash is followed by an open with the same configuration.\<close>

fun host_step :: "(bytes \<Rightarrow> u32) \<Rightarrow> (bytes \<Rightarrow> u32) \<Rightarrow> (bytes \<Rightarrow> u32) \<Rightarrow> open_params \<Rightarrow> host_op \<Rightarrow> CacheInner
    \<Rightarrow> CacheInner option" where
  "host_step pcrc mcrc wcrc par (HWrite off data) c =
     map_option snd (cache_write pcrc wcrc io_ok (\<lambda>_. []) off data c)"
| "host_step pcrc mcrc wcrc par (HZero off len) c =
     map_option snd (zero_range pcrc wcrc io_ok FallocDone (\<lambda>_. []) off len c)"
| "host_step pcrc mcrc wcrc par HCheckpoint c = map_option snd (checkpoint mcrc None True (\<lambda>c. c) (\<lambda>c. c) c)"
| "host_step pcrc mcrc wcrc par HCrash c =
     (case open_cache mcrc wcrc par open_works (config c) (crash c) of
        (Inr c', _) \<Rightarrow> Some c'
      | (Inl _, _) \<Rightarrow> None)"

fun host_run :: "(bytes \<Rightarrow> u32) \<Rightarrow> (bytes \<Rightarrow> u32) \<Rightarrow> (bytes \<Rightarrow> u32) \<Rightarrow> open_params \<Rightarrow> host_op list \<Rightarrow> CacheInner
    \<Rightarrow> CacheInner option" where
  "host_run pcrc mcrc wcrc par [] c = Some c"
| "host_run pcrc mcrc wcrc par (op # ops) c =
     (case host_step pcrc mcrc wcrc par op c of None \<Rightarrow> None | Some c' \<Rightarrow> host_run pcrc mcrc wcrc par ops c')"

text \<open>The same operations on a plain device: a write outside of it is refused.\<close>

fun device_step :: "nat \<Rightarrow> host_op \<Rightarrow> (nat \<Rightarrow> byte) \<Rightarrow> nat \<Rightarrow> byte" where
  "device_step dev (HWrite off data) img =
     (if off + length data \<le> dev then (\<lambda>k. if off \<le> k \<and> k < off + length data then data ! (k - off) else img k)
      else img)"
| "device_step dev (HZero off len) img =
     (if off + len \<le> dev then (\<lambda>k. if off \<le> k \<and> k < off + len then 0 else img k) else img)"
| "device_step dev HCheckpoint img = img"
| "device_step dev HCrash img = img"

definition device_run :: "nat \<Rightarrow> host_op list \<Rightarrow> nat \<Rightarrow> byte" where
  "device_run dev ops = fold (device_step dev) ops (\<lambda>_. 0)"

section \<open>What survives a crash\<close>

text \<open>
  The files describe the dirty blocks: a block is dirty exactly when the checkpoint or
  the replayed part of the log says so.
\<close>

definition durable :: "(bytes \<Rightarrow> u32) \<Rightarrow> (bytes \<Rightarrow> u32) \<Rightarrow> CacheInner \<Rightarrow> bool" where
  "durable mcrc wcrc c \<longleftrightarrow> (\<exists>m d sq rot es.
     load_metadata mcrc (config c) (metadata_file c) = Inr (m, d, sq, rot) \<and> sm_inv m
     \<and> num_entries m = num_blocks c \<and> d = count_list (sm_abs m) DIRTY \<and> set (sm_abs m) \<subseteq> {NOT_PRESENT, DIRTY}
     \<and> wal c = log_bytes wcrc es \<and> sq \<le> sequence c \<and> (\<forall>e\<in>set es. entry_sequence e \<le> sequence c)
     \<and> (\<forall>i<num_blocks c. states c ! i = DIRTY \<longleftrightarrow> boot_state (num_blocks c) m (replayed rot sq es) i = DIRTY))"

lemma unat_plus_nat:
  fixes s :: u64
  assumes "unat s + n < 2 ^ 64"
  shows "unat (s + of_nat n) = unat s + n"
proof -
  have "unat (of_nat n :: u64) = n" using assms by (simp add: unat_of_nat)
  then show ?thesis using assms unat_add_lem [of s "of_nat n"] by simp
qed

lemma log_entries_bounds:
  "unat s + length bs < 2 ^ 64 \<Longrightarrow> e \<in> set (log_entries s bs)
    \<Longrightarrow> s < entry_sequence e \<and> entry_sequence e \<le> s + of_nat (length bs)"
proof (induction bs arbitrary: s)
  case Nil
  then show ?case by simp
next
  case (Cons b bs)
  have s1: "unat (s + 1) = unat s + 1" using seq_next_room [of s] Cons.prems(1) by simp
  have s2: "unat (s + of_nat (length (b # bs))) = unat s + length (b # bs)"
    by (rule unat_plus_nat [OF Cons.prems(1)])
  show ?case
  proof (cases "e \<in> set (log_entries (s + 1) bs)")
    case True
    have "s + 1 < entry_sequence e \<and> entry_sequence e \<le> s + 1 + of_nat (length bs)"
      using Cons.IH [OF _ True] Cons.prems(1) s1 by simp
    then show ?thesis using s1 by (auto simp: word_less_nat_alt ac_simps)
  next
    case False
    then have "entry_sequence e = s + 1" using Cons.prems(2) by auto
    then show ?thesis using s1 s2 by (simp add: word_less_nat_alt word_le_nat_alt)
  qed
qed

lemma entry_blocks_append: "entry_blocks nb (a @ b) = entry_blocks nb a @ entry_blocks nb b"
  by (simp add: entry_blocks_def)

lemma entry_blocks_log:
  "\<lbrakk> \<forall>b\<in>set bs. b < nb; nb \<le> 2 ^ 32 \<rbrakk> \<Longrightarrow> entry_blocks nb (log_entries s bs) = bs"
proof (induction bs arbitrary: s)
  case Nil
  then show ?case by (simp add: entry_blocks_def)
next
  case (Cons b bs)
  have "entry_blocks nb (log_entries s (b # bs)) = b # entry_blocks nb (log_entries (s + 1) bs)"
    using Cons.prems by (simp add: entry_blocks_def unat_of_nat)
  then show ?case using Cons by simp
qed

lemma wal_min_le: "wal_min_seq rot sq \<le> sq"
  by (auto simp: wal_min_seq_def)

lemma replayed_append:
  assumes "sq \<le> s" "unat s + length bs < 2 ^ 64"
  shows "replayed rot sq (es @ log_entries s bs) = replayed rot sq es @ log_entries s bs"
proof -
  have "\<forall>e\<in>set (log_entries s bs). wal_min_seq rot sq < entry_sequence e"
    using log_entries_bounds [OF assms(2)] wal_min_le [of rot sq] assms(1) by force
  then show ?thesis by (simp add: replayed_def)
qed

lemma log_bytes_append: "log_bytes wcrc (a @ b) = log_bytes wcrc a @ log_bytes wcrc b"
  by (simp add: log_bytes_def)

text \<open>A cache between operations, with no flush in progress and nothing claimed.\<close>

definition calm :: "(bytes \<Rightarrow> u32) \<Rightarrow> (bytes \<Rightarrow> u32) \<Rightarrow> (bytes \<Rightarrow> u32) \<Rightarrow> CacheInner \<Rightarrow> bool" where
  "calm pcrc mcrc wcrc c \<longleftrightarrow> ci_wf c \<and> crcs_ok pcrc c \<and> flushing_file c = None \<and> flushing_disk c = None
     \<and> \<not> fenced c \<and> (\<forall>i. \<not> is_claimed (promote_claim c) i) \<and> \<not> handoff_active c \<and> bsize c < 2 ^ 64
     \<and> (\<forall>i<num_blocks c. states c ! i = NOT_PRESENT \<or> states c ! i = DIRTY)
     \<and> (\<forall>k<dsize c. states c ! (k div bsize c) \<noteq> DIRTY \<longrightarrow> data_file c ! k = 0)
     \<and> durable mcrc wcrc c"

lemma calm_src: "calm pcrc mcrc wcrc c \<Longrightarrow> k < dsize c \<Longrightarrow> src_file c ! k = data_file c ! k"
  by (simp add: nth_src_file calm_def promoted_def)

lemma wrote_durable:
  assumes d: "durable mcrc wcrc c" and w: "wrote pcrc wcrc c off data c'" and g: "geometry_ok c"
    and rng: "data \<noteq> []" "off + length data \<le> dsize c" and nf: "flushing_file c = None"
    and room: "unat (sequence c) + length (wblocks c off data) < 2 ^ 64"
  shows "durable mcrc wcrc c'"
proof -
  obtain m d sq rot es where m: "load_metadata mcrc (config c) (metadata_file c) = Inr (m, d, sq, rot)" "sm_inv m"
     "num_entries m = num_blocks c" "d = count_list (sm_abs m) DIRTY" "set (sm_abs m) \<subseteq> {NOT_PRESENT, DIRTY}"
     "wal c = log_bytes wcrc es" "sq \<le> sequence c" "\<forall>e\<in>set es. entry_sequence e \<le> sequence c"
     "\<forall>i<num_blocks c. states c ! i = DIRTY \<longleftrightarrow> boot_state (num_blocks c) m (replayed rot sq es) i = DIRTY"
    using d unfolding durable_def by blast
  let ?bl = "wblocks c off data" and ?n = "num_blocks c"
  let ?fr = "fresh_blocks c ?bl" and ?log = "\<lambda>bs. log_entries (sequence c) bs"
  have w': "same_io c c'" "wal c' = log_bytes wcrc (es @ ?log ?fr)" "sequence c' = sequence c + of_nat (length ?fr)"
     "\<forall>i<?n. states c' ! i = (if i \<in> set ?bl then DIRTY else states c ! i)"
    using w m(6) by (simp_all add: wrote_def log_bytes_append)
  note s = same_io_simps [OF w'(1)]
  have fr: "set ?fr = {b \<in> set ?bl. states c ! b \<noteq> DIRTY}" "length ?fr \<le> length ?bl"
    using nf by (auto simp: fresh_blocks_def promoted_def)
  then have rm: "unat (sequence c) + length ?fr < 2 ^ 64" using room by simp
  have sq: "sequence c \<le> sequence c'" using unat_plus_nat [OF rm] w'(3) by (simp add: word_le_nat_alt)
  have bl: "\<forall>b\<in>set ?bl. b < ?n" by (rule wblocks_in_range [OF g rng])
  have eb: "entry_blocks ?n (?log ?fr) = ?fr"
    using bl fr(1) g by (intro entry_blocks_log) (auto simp: geometry_ok_def)
  have rp: "replayed rot sq (es @ ?log ?fr) = replayed rot sq es @ ?log ?fr"
    by (rule replayed_append [OF m(7) rm])
  have bs: "boot_state ?n m (replayed rot sq (es @ ?log ?fr)) i
      = (if i \<in> set ?fr then DIRTY else boot_state ?n m (replayed rot sq es) i)" for i
    by (simp add: rp boot_state_def entry_blocks_append eb)
  have "states c' ! i = DIRTY \<longleftrightarrow> boot_state ?n m (replayed rot sq (es @ ?log ?fr)) i = DIRTY" if i: "i < ?n" for i
    using w'(4) i m(9) fr(1) unfolding bs by auto
  moreover have "\<forall>e\<in>set (es @ ?log ?fr). entry_sequence e \<le> sequence c'"
    using m(8) sq log_entries_bounds [OF rm] w'(3) by force
  moreover have "sq \<le> sequence c'" using m(7) sq by simp
  ultimately show ?thesis
    unfolding durable_def s using m(1-5) w'(2) by blast
qed

lemma wrote_calm:
  assumes c: "calm pcrc mcrc wcrc c" and w: "wrote pcrc wcrc c off data c'"
    and rng: "data \<noteq> []" "off + length data \<le> dsize c"
    and room: "unat (sequence c) + num_blocks c < 2 ^ 64"
  shows "calm pcrc mcrc wcrc c'" "config c' = config c" "num_blocks c' = num_blocks c"
    "unat (sequence c') \<le> unat (sequence c) + num_blocks c"
    "k < dsize c \<Longrightarrow> view (\<lambda>_. 0) c' k = (if off \<le> k \<and> k < off + length data then data ! (k - off) else view (\<lambda>_. 0) c k)"
proof -
  have g: "geometry_ok c" and nf: "flushing_file c = None" and du: "durable mcrc wcrc c"
    using c by (simp_all add: calm_def ci_wf_def)
  let ?bl = "wblocks c off data"
  have bl: "\<forall>b\<in>set ?bl. b < num_blocks c" by (rule wblocks_in_range [OF g rng])
  have "length ?bl = card (set ?bl)" by (simp add: distinct_card)
  also have "\<dots> \<le> card {..<num_blocks c}" using bl by (intro card_mono) auto
  finally have len: "length ?bl \<le> num_blocks c" by simp
  have s: "same_io c c'" using w by (simp add: wrote_def)
  note f = same_io_simps [OF s]
  show "config c' = config c" "num_blocks c' = num_blocks c" by (simp_all add: f)
  have fl: "length (fresh_blocks c ?bl) \<le> length ?bl" by (simp add: fresh_blocks_def)
  then have rm: "unat (sequence c) + length (fresh_blocks c ?bl) < 2 ^ 64" using room len by simp
  have "sequence c' = sequence c + of_nat (length (fresh_blocks c ?bl))" using w by (simp add: wrote_def)
  then show "unat (sequence c') \<le> unat (sequence c) + num_blocks c" using unat_plus_nat [OF rm] fl len by simp
  have vw: "view (\<lambda>_. 0) c' k = (if off \<le> k \<and> k < off + length data then data ! (k - off) else view (\<lambda>_. 0) c k)"
    if k: "k < dsize c" for k
  proof (rule wrote_view [OF g w rng(2) k])
    show "states c ! (k div bsize c) = DIRTY \<or> states c ! (k div bsize c) = SYNCING \<or> 0 = src_file c ! k"
      using c k by (auto simp: calm_src [OF c k]) (auto simp: calm_def)
  qed
  then show "k < dsize c \<Longrightarrow> view (\<lambda>_. 0) c' k = (if off \<le> k \<and> k < off + length data then data ! (k - off) else view (\<lambda>_. 0) c k)" .
  have st: "\<forall>i<num_blocks c. states c' ! i = (if i \<in> set ?bl then DIRTY else states c ! i)" using w by (simp add: wrote_def)
  have "data_file c' ! k = 0" if k: "k < dsize c" and nd: "states c' ! (k div bsize c) \<noteq> DIRTY" for k
  proof -
    have b: "k div bsize c < num_blocks c" by (rule block_of_byte [OF g k])
    have out: "k div bsize c \<notin> set ?bl" "states c ! (k div bsize c) \<noteq> DIRTY"
      using st b nd by (metis (full_types))+
    then have "\<not> (off \<le> k \<and> k < off + length data)" using in_touched [of "bsize c" off k] g by (auto simp: geometry_ok_def)
    moreover have "src_file c' = overwrite (src_file c) off data" using w by (simp add: wrote_def)
    ultimately have "src_file c' ! k = src_file c ! k" using rng(2) k by (auto simp: nth_overwrite)
    moreover have "src_file c' ! k = data_file c' ! k" using k f nf by (simp add: nth_src_file promoted_def)
    ultimately show ?thesis using calm_src [OF c k] c k out(2) by (simp add: calm_def)
  qed
  moreover have "durable mcrc wcrc c'"
    using room len by (intro wrote_durable [OF du w g rng nf]) simp
  ultimately show "calm pcrc mcrc wcrc c'"
    using c w st unfolding calm_def f by (auto simp: wrote_def handoff_active_def f)
qed

section \<open>Every operation keeps a cache calm\<close>

definition step_ok :: "(bytes \<Rightarrow> u32) \<Rightarrow> (bytes \<Rightarrow> u32) \<Rightarrow> (bytes \<Rightarrow> u32) \<Rightarrow> host_op \<Rightarrow> CacheInner \<Rightarrow> CacheInner \<Rightarrow> bool" where
  "step_ok pcrc mcrc wcrc op c c' \<longleftrightarrow> calm pcrc mcrc wcrc c' \<and> config c' = config c \<and> num_blocks c' = num_blocks c
     \<and> unat (sequence c') \<le> unat (sequence c) + num_blocks c
     \<and> (\<forall>k<dsize c. view (\<lambda>_. 0) c' k = device_step (dsize c) op (view (\<lambda>_. 0) c) k)"

lemma step_ok_same: "\<lbrakk> calm pcrc mcrc wcrc c; device_step (dsize c) op = (\<lambda>img. img) \<rbrakk> \<Longrightarrow> step_ok pcrc mcrc wcrc op c c"
  by (simp add: step_ok_def)

lemma calm_writable:
  fixes data :: bytes
  assumes "calm pcrc mcrc wcrc c" "unat (sequence c) + num_blocks c < 2 ^ 64" "data \<noteq> []" "off + length data \<le> dsize c"
  shows "writable pcrc c off (length data)"
proof -
  have g: "geometry_ok c" using assms(1) by (simp add: calm_def ci_wf_def)
  let ?bl = "wblocks c off data"
  have "length ?bl = card (set ?bl)" by (simp add: distinct_card)
  also have "\<dots> \<le> card {..<num_blocks c}" using wblocks_in_range [OF g assms(3,4)] by (intro card_mono) auto
  finally show ?thesis using assms by (simp add: writable_def calm_def)
qed

lemma write_step_ok:
  assumes c: "calm pcrc mcrc wcrc c" and room: "unat (sequence c) + num_blocks c < 2 ^ 64"
  shows "\<exists>c'. host_step pcrc mcrc wcrc par (HWrite off data) c = Some c' \<and> step_ok pcrc mcrc wcrc (HWrite off data) c c'"
proof -
  have f: "\<not> fenced c" and g: "geometry_ok c" using c by (simp_all add: calm_def ci_wf_def)
  consider "dsize c < off + length data" | "off + length data \<le> dsize c" "data = []"
    | "off + length data \<le> dsize c" "data \<noteq> []" by linarith
  then show ?thesis
  proof cases
    case 1
    then have "\<exists>e. check_range c off (length data) = Inl e" by (simp add: check_range_def)
    then have "host_step pcrc mcrc wcrc par (HWrite off data) c = Some c"
      using f by (auto simp: cache_write_def write_inner_def)
    moreover have "step_ok pcrc mcrc wcrc (HWrite off data) c c" using 1 by (intro step_ok_same [OF c] ext) auto
    ultimately show ?thesis by blast
  next
    case 2
    then have "host_step pcrc mcrc wcrc par (HWrite off data) c = Some c"
      using f check_range_ok [OF g, of off "length data"] by (simp add: cache_write_def write_inner_def)
    moreover have "step_ok pcrc mcrc wcrc (HWrite off data) c c" using 2 by (intro step_ok_same [OF c] ext) auto
    ultimately show ?thesis by blast
  next
    case 3
    obtain c' where c': "write_inner pcrc wcrc io_ok (\<lambda>_. []) off data False c = Some (Inr (), c')"
      "wrote pcrc wcrc c off data c'"
      using write_inner_ok [OF calm_writable [OF c room 3(2,1)] io_works_ok f, of False wcrc]
      by (auto simp: promotion_ok_def)
    then show ?thesis
      using wrote_calm [OF c c'(2) 3(2,1) room] 3(1) by (simp add: cache_write_def step_ok_def)
  qed
qed

lemma zero_step_ok:
  assumes c: "calm pcrc mcrc wcrc c" and room: "unat (sequence c) + num_blocks c < 2 ^ 64"
  shows "\<exists>c'. host_step pcrc mcrc wcrc par (HZero off len) c = Some c' \<and> step_ok pcrc mcrc wcrc (HZero off len) c c'"
proof -
  have g: "geometry_ok c" using c by (simp add: calm_def ci_wf_def)
  consider "len = 0" | "0 < len" "dsize c < off + len" | "off + len \<le> dsize c" "0 < len" by linarith
  then show ?thesis
  proof cases
    case 1
    then have "step_ok pcrc mcrc wcrc (HZero off len) c c" by (intro step_ok_same [OF c] ext) auto
    then show ?thesis using 1 by (auto simp: zero_range_def)
  next
    case 2
    then have "\<exists>e. check_range c off len = Inl e" by (simp add: check_range_def)
    then have "host_step pcrc mcrc wcrc par (HZero off len) c = Some c" using 2(1) by (auto simp: zero_range_def)
    moreover have "step_ok pcrc mcrc wcrc (HZero off len) c c" using 2 by (intro step_ok_same [OF c] ext) auto
    ultimately show ?thesis by blast
  next
    case 3
    let ?z = "replicate len (0 :: byte)"
    have z: "?z \<noteq> []" "off + length ?z \<le> dsize c" using 3 by auto
    have "writable pcrc c off len" using calm_writable [OF c room z] by simp
    then obtain c' where c': "zero_range pcrc wcrc io_ok FallocDone (\<lambda>_. []) off len c = Some (Inr (), c')"
      "wrote pcrc wcrc c off ?z c'"
      using zero_range_ok [of pcrc c off len io_ok FallocDone wcrc] by auto
    then show ?thesis
      using wrote_calm [OF c c'(2) z room] 3(1) by (auto simp: step_ok_def)
  qed
qed

lemma calm_two:
  assumes "calm pcrc mcrc wcrc c"
  shows "set (states c) \<subseteq> {NOT_PRESENT, DIRTY}" "count_list (states c) SYNCING = 0"
proof -
  have "ci_wf c" using assms by (simp add: calm_def)
  then show two: "set (states c) \<subseteq> {NOT_PRESENT, DIRTY}"
    using assms length_states [of c] by (auto simp: calm_def in_set_conv_nth)
  then show "count_list (states c) SYNCING = 0" by (auto simp: count_list_0_iff)
qed

lemma checkpoint_run:
  assumes "\<not> handoff_active c"
  shows "checkpoint mcrc None True (\<lambda>c. c) (\<lambda>c. c) c
     = Some (Inr (), c\<lparr> metadata_file := Some (saved_file mcrc (sequence c) c), wal := [], ckpt_skips := 0 \<rparr>)"
  using assms
  by (simp add: checkpoint_def save_block_states_ok handoff_active_def exclusive_then_truncate_def
      truncate_if_def seq_current_def Let_def)

lemma checkpoint_step_ok:
  assumes c: "calm pcrc mcrc wcrc c"
  shows "\<exists>c'. host_step pcrc mcrc wcrc par HCheckpoint c = Some c' \<and> step_ok pcrc mcrc wcrc HCheckpoint c c'"
proof -
  let ?c' = "c\<lparr> metadata_file := Some (saved_file mcrc (sequence c) c), wal := [], ckpt_skips := 0 \<rparr>"
  have wf: "ci_wf c" and bs: "bsize c < 2 ^ 64" using c by (simp_all add: calm_def)
  have nb: "cfg_num_blocks (config c) = num_blocks c" "num_blocks c \<le> 2 ^ 32"
    using wf by (simp_all add: ci_wf_def geometry_ok_def)
  note two = calm_two [OF c]
  obtain m where m: "load_metadata mcrc (config c) (Some (saved_file mcrc (sequence c) c))
       = Inr (m, count_list (states c) DIRTY, sequence c, rotation_seq c)" "sm_inv m" "sm_abs m = states c"
    using load_saved_file [OF wf refl bs order_refl, of mcrc "sequence c"] nb two(2) by auto
  have s: "states ?c' = states c" by (simp add: states_def)
  have "num_entries m = num_blocks c" using m(3) length_states [OF wf] by (metis length_sm_abs)
  then have "durable mcrc wcrc ?c'"
    unfolding durable_def using m two(1)
    by (intro exI [of _ m] exI [of _ "count_list (states c) DIRTY"] exI [of _ "sequence c"] exI [of _ "rotation_seq c"]
        exI [of _ "[]"]) (simp add: s log_bytes_def replayed_def boot_state_def entry_blocks_def)
  moreover have "ci_wf ?c'" using wf by (simp add: ci_wf_def counters_ok_def geometry_ok_def s)
  moreover have "src_file ?c' = src_file c" using c by (simp add: src_file_def promoted_def calm_def)
  ultimately have "step_ok pcrc mcrc wcrc HCheckpoint c ?c'"
    using c by (simp add: step_ok_def calm_def s handoff_active_def crcs_ok_def view_def)
  moreover have "\<not> handoff_active c" using c by (simp add: calm_def)
  ultimately show ?thesis using checkpoint_run by auto
qed
lemma crash_step_ok:
  assumes c: "calm pcrc mcrc wcrc c"
  shows "\<exists>c'. host_step pcrc mcrc wcrc par HCrash c = Some c' \<and> step_ok pcrc mcrc wcrc HCrash c c'"
proof -
  have wf: "ci_wf c" and g: "geometry_ok c" and fl: "flushing_disk c = None" and df: "length (data_file c) = dsize c"
    using c by (simp_all add: calm_def ci_wf_def)
  obtain m d sq rot es where m: "load_metadata mcrc (config c) (metadata_file c) = Inr (m, d, sq, rot)" "sm_inv m"
     "num_entries m = num_blocks c" "d = count_list (sm_abs m) DIRTY" "set (sm_abs m) \<subseteq> {NOT_PRESENT, DIRTY}"
     "wal c = log_bytes wcrc es" "sq \<le> sequence c" "\<forall>e\<in>set es. entry_sequence e \<le> sequence c"
     "\<forall>i<num_blocks c. states c ! i = DIRTY \<longleftrightarrow> boot_state (num_blocks c) m (replayed rot sq es) i = DIRTY"
    using c unfolding calm_def durable_def by blast
  let ?live = "replayed rot sq es"
  have cr: "d_data (crash c) = Some (data_file c)" "d_flush (crash c) = None" "d_meta (crash c) = metadata_file c"
    "d_wal (crash c) = Contents (log_bytes wcrc es)" using fl m(6) by (simp_all add: crash_def)
  obtain c' dk' where run: "open_cache mcrc wcrc par open_works (config c) (crash c) = (Inr c', dk')"
    and o: "opened wcrc c (crash c) m sq rot es c'"
    and cnt: "dirty_block_count c' = of_nat (count_list (states c') DIRTY)"
    using open_ok [OF g cr(1) df _ _ m(2,3) cr(4), of mcrc d sq rot par] m(1,4,5) cr by auto
  note o' = o [unfolded opened_def Let_def cr(2)]
  have ns: "boot_state (num_blocks c) m ?live i \<noteq> SYNCING" if "i < num_blocks c" for i
  proof -
    have "sm_abs m ! i \<in> set (sm_abs m)" using that m(3) by simp
    then show ?thesis using m(5) by (auto simp: boot_state_def)
  qed
  have st: "\<forall>i<num_blocks c. states c' ! i = (if states c ! i = DIRTY then DIRTY else NOT_PRESENT)"
    using o' ns m(9) by simp
  have st2: "states c' = states c"
  proof (rule nth_equalityI)
    show "length (states c') = length (states c)" using o' length_states [OF wf] by (simp add: states_def)
    then show "states c' ! i = states c ! i" if "i < length (states c')" for i
      using that c st length_states [OF wf] by (auto simp: calm_def)
  qed
  have data: "\<forall>k<dsize c. data_file c' ! k = data_file c ! k" using o' cr(1) by simp
  have "pages_per_block c' = pages_per_block c" using o' g by (auto simp: geometry_ok_def PAGE_SIZE_def)
  then have wf': "ci_wf c'"
    using wf o' cnt st2 calm_two(2) [OF c] by (auto simp: ci_wf_def geometry_ok_def counters_ok_def)
  have "replayed rot sq ?live = ?live" by (simp add: replayed_def)
  then have "durable mcrc wcrc c'"
    unfolding durable_def using o' m(1-5,9) cr(3) st2
    by (intro exI [of _ m] exI [of _ d] exI [of _ sq] exI [of _ rot] exI [of _ ?live]) simp
  moreover have "sequence c' \<le> sequence c" using o' m(7,8) by (auto simp: replayed_def)
  moreover have "src_file c' = src_file c"
    using o' data c by (simp add: src_file_def promoted_def calm_def)
  ultimately have "step_ok pcrc mcrc wcrc HCrash c c'"
    using c o' wf' st2 data
    by (simp add: step_ok_def calm_def view_def crcs_ok_def handoff_active_def is_claimed_def pc_new_def bt_get_def
        phase_from_u8_def phase_is_active_def word_le_nat_alt)
  then show ?thesis using run by simp
qed

lemma host_step_ok:
  assumes "calm pcrc mcrc wcrc c" "unat (sequence c) + num_blocks c < 2 ^ 64"
  shows "\<exists>c'. host_step pcrc mcrc wcrc par op c = Some c' \<and> step_ok pcrc mcrc wcrc op c c'"
  using write_step_ok [OF assms] zero_step_ok [OF assms] checkpoint_step_ok [OF assms(1)] crash_step_ok [OF assms(1)]
  by (cases op) blast+

lemma device_step_cong:
  "(\<And>k. k < dev \<Longrightarrow> f k = g k) \<Longrightarrow> k < dev \<Longrightarrow> device_step dev op f k = device_step dev op g k"
  by (cases op) auto

lemma host_run_ok:
  assumes "calm pcrc mcrc wcrc c" "unat (sequence c) + length ops * num_blocks c < 2 ^ 64"
    and "\<And>k. k < dsize c \<Longrightarrow> view (\<lambda>_. 0) c k = img k"
  shows "\<exists>c'. host_run pcrc mcrc wcrc par ops c = Some c' \<and> calm pcrc mcrc wcrc c' \<and> config c' = config c
     \<and> num_blocks c' = num_blocks c \<and> unat (sequence c') \<le> unat (sequence c) + length ops * num_blocks c
     \<and> (\<forall>k<dsize c. view (\<lambda>_. 0) c' k = fold (device_step (dsize c)) ops img k)"
  using assms
proof (induction ops arbitrary: c img)
  case Nil
  then show ?case by simp
next
  case (Cons op ops)
  have "unat (sequence c) + num_blocks c < 2 ^ 64" using Cons.prems(2) by simp
  then obtain c1 where c1: "host_step pcrc mcrc wcrc par op c = Some c1" "step_ok pcrc mcrc wcrc op c c1"
    using host_step_ok [OF Cons.prems(1)] by blast
  have d: "dsize c1 = dsize c" using c1(2) by (simp add: step_ok_def)
  have "unat (sequence c1) + length ops * num_blocks c1 < 2 ^ 64"
    using c1(2) Cons.prems(2) by (simp add: step_ok_def)
  moreover have "view (\<lambda>_. 0) c1 k = device_step (dsize c) op img k" if "k < dsize c1" for k
  proof -
    have k: "k < dsize c" using that d by simp
    have "view (\<lambda>_. 0) c1 k = device_step (dsize c) op (view (\<lambda>_. 0) c) k" using c1(2) k by (simp add: step_ok_def)
    also have "\<dots> = device_step (dsize c) op img k" by (rule device_step_cong [OF Cons.prems(3) k])
    finally show ?thesis .
  qed
  moreover have "calm pcrc mcrc wcrc c1" using c1(2) by (simp add: step_ok_def)
  ultimately obtain c' where c': "host_run pcrc mcrc wcrc par ops c1 = Some c'" "calm pcrc mcrc wcrc c'"
     "config c' = config c1" "num_blocks c' = num_blocks c1"
     "unat (sequence c') \<le> unat (sequence c1) + length ops * num_blocks c1"
     "\<forall>k<dsize c1. view (\<lambda>_. 0) c' k = fold (device_step (dsize c1)) ops (device_step (dsize c) op img) k"
    using Cons.IH by blast
  then show ?case using c1 d by (simp add: step_ok_def)
qed

text \<open>The directory of a volume that was never opened.\<close>

definition no_files :: disk where
  "no_files = \<lparr> d_data = None, d_flush = None, d_meta = None, d_wal = NotFound \<rparr>"

definition volume_ok :: "WriteCacheConfig \<Rightarrow> bool" where
  "volume_ok cfg \<longleftrightarrow> 0 < device_size cfg \<and> device_size cfg < 2 ^ 64 \<and> 0 < cfg_block_size cfg
     \<and> cfg_block_size cfg < 2 ^ 64 \<and> 4096 dvd cfg_block_size cfg \<and> cfg_num_blocks cfg \<le> 2 ^ 32"

lemma fresh_calm:
  assumes v: "volume_ok cfg"
  shows "\<exists>c. open_fresh_active par open_works cfg no_files = Inr c \<and> calm pcrc mcrc wcrc c \<and> config c = cfg
     \<and> num_blocks c = cfg_num_blocks cfg \<and> sequence c = 0 \<and> (\<forall>k<device_size cfg. view (\<lambda>_. 0) c k = 0)"
proof -
  let ?n = "cfg_num_blocks cfg"
  define c where "c = new_inner par False cfg (replicate (device_size cfg) 0) None None [] (sm_new ?n) 0 0"
  have run: "open_fresh_active par open_works cfg no_files = Inr c"
    using v by (simp add: open_fresh_active_def validate_def volume_ok_def open_works_def no_files_def sf_open_def c_def)
  have st: "states c = replicate ?n NOT_PRESENT" by (simp add: c_def new_inner_def states_def sm_abs_new)
  have f: "config c = cfg" "num_blocks c = ?n" "sequence c = 0" "flushing_file c = None" "metadata_file c = None"
    "wal c = []" "data_file c = replicate (device_size cfg) 0" "state_map c = sm_new ?n"
    "dirty_block_count c = 0" "syncing_block_count c = 0"
    by (simp_all add: c_def new_inner_def)
  have inv: "sm_inv (sm_new ?n)" by (rule sm_inv_new)
  have "geometry_ok c" using v by (simp add: geometry_ok_def volume_ok_def c_def new_inner_def PAGE_SIZE_def)
  then have wf: "ci_wf c"
    by (simp add: ci_wf_def counters_ok_def f st)
  have "durable mcrc wcrc c"
    unfolding durable_def
    by (intro exI [of _ "sm_new ?n"] exI [of _ 0] exI [of _ "[]"])
      (auto simp: f st load_metadata_def inv sm_abs_new log_bytes_def replayed_def boot_state_def entry_blocks_def)
  moreover have "crcs_ok pcrc c" by (simp add: crcs_ok_def) (simp add: c_def new_inner_def)
  ultimately have "calm pcrc mcrc wcrc c"
    using v wf st f by (simp add: calm_def volume_ok_def)
      (simp add: c_def new_inner_def pc_new_def is_claimed_def bt_get_def handoff_active_def phase_to_u8_def phase_from_u8_def phase_is_active_def)
  moreover have "view (\<lambda>_. 0) c k = 0" if "k < device_size cfg" for k
    using block_of_byte [OF \<open>geometry_ok c\<close>, of k] that f(1,2) st by (simp add: view_def)
  ultimately show ?thesis using run f by blast
qed

text \<open>
  C1: A new volume behaves like a plain zero-filled device under any sequence of writes,
  zeroings, checkpoints and process crashes, each crash followed by a recovery: every
  operation returns, and what the guest reads at the end is what the accepted writes put
  there.  Writes outside of the device are refused without effect.
\<close>

theorem new_volume_crash_consistent:
  assumes "volume_ok cfg" "length ops * cfg_num_blocks cfg < 2 ^ 64"
  shows "\<exists>c0 c. open_fresh_active par open_works cfg no_files = Inr c0
     \<and> host_run pcrc mcrc wcrc par ops c0 = Some c \<and> ci_wf c \<and> crcs_ok pcrc c
     \<and> (\<forall>k<device_size cfg. view (\<lambda>_. 0) c k = device_run (device_size cfg) ops k)"
proof -
  obtain c0 where c0: "open_fresh_active par open_works cfg no_files = Inr c0" "calm pcrc mcrc wcrc c0" "config c0 = cfg"
     "num_blocks c0 = cfg_num_blocks cfg" "sequence c0 = 0" "\<forall>k<device_size cfg. view (\<lambda>_. 0) c0 k = 0"
    using fresh_calm [OF assms(1)] by blast
  then obtain c where "host_run pcrc mcrc wcrc par ops c0 = Some c" "calm pcrc mcrc wcrc c"
     "\<forall>k<dsize c0. view (\<lambda>_. 0) c k = fold (device_step (dsize c0)) ops (\<lambda>_. 0) k"
    using host_run_ok [OF c0(2), of ops "\<lambda>_. 0" par] assms(2) by auto
  then show ?thesis using c0(1,3) by (auto simp: device_run_def calm_def)
qed

theorem new_volume_crash_consistent_witness:
  "\<exists>c0 c. open_fresh_active \<lparr> default_level = 1, zero_hash = 0 \<rparr> open_works
        \<lparr> device_size = 8192, cfg_block_size = 4096, wal_sync = True \<rparr> no_files = Inr c0
     \<and> host_run (\<lambda>_. 0) (\<lambda>_. 0) (\<lambda>_. 0) \<lparr> default_level = 1, zero_hash = 0 \<rparr>
         [HWrite 4095 [7, 8], HCrash, HCheckpoint, HZero 4096 1, HCrash, HWrite 8192 [9]] c0 = Some c
     \<and> view (\<lambda>_. 0) c 4095 = 7 \<and> view (\<lambda>_. 0) c 4096 = 0"
proof -
  let ?cfg = "\<lparr> device_size = 8192, cfg_block_size = 4096, wal_sync = True \<rparr>"
  let ?ops = "[HWrite 4095 [7, 8], HCrash, HCheckpoint, HZero 4096 1, HCrash, HWrite 8192 [9]]"
  have n: "cfg_num_blocks ?cfg = 2" by (simp add: cfg_num_blocks_def div_ceil_def)
  have v: "volume_ok ?cfg" by (simp add: volume_ok_def n)
  have l: "length ?ops * cfg_num_blocks ?cfg < 2 ^ 64" by (simp add: n)
  have "device_run 8192 ?ops 4095 = 7" "device_run 8192 ?ops 4096 = 0" by (simp_all add: device_run_def)
  moreover have "(4095 :: nat) < device_size ?cfg" "(4096 :: nat) < device_size ?cfg" by simp_all
  ultimately show ?thesis
    using new_volume_crash_consistent [OF v l, of "\<lparr> default_level = 1, zero_hash = 0 \<rparr>" "\<lambda>_. 0" "\<lambda>_. 0" "\<lambda>_. 0"]
    by (metis WriteCacheConfig.select_convs(1))
qed

section \<open>Crashes during a flush\<close>

text \<open>A rotation followed by a checkpoint: the claimed blocks are on disk as syncing.\<close>

definition flushing_saved :: "(bytes \<Rightarrow> u32) \<Rightarrow> CacheInner \<Rightarrow> CacheInner \<Rightarrow> bool" where
  "flushing_saved mcrc c c2 \<longleftrightarrow> ci_wf c2 \<and> config c2 = config c \<and> num_blocks c2 = num_blocks c
     \<and> states c2 = map syncing_of (states c) \<and> data_file c2 = replicate (dsize c) 0
     \<and> flushing_file c2 = Some (data_file c) \<and> flushing_disk c2 = Some (data_file c)
     \<and> wal c2 = [] \<and> sequence c2 = sequence c \<and> promote_claim c2 = promote_claim c
     \<and> page_crcs c2 = page_crcs c \<and> pages_per_block c2 = pages_per_block c \<and> fenced c2 = fenced c
     \<and> (\<exists>m d. load_metadata mcrc (config c) (metadata_file c2) = Inr (m, d, sequence c, sequence c)
          \<and> sm_inv m \<and> sm_abs m = states c2)"

lemma rotate_then_checkpoint:
  assumes c: "calm pcrc mcrc wcrc c"
  shows "\<exists>c1 c2. rotate_and_snapshot rotate_works c = Some (Inr (dirty_list c), c1)
     \<and> checkpoint mcrc None True (\<lambda>c. c) (\<lambda>c. c) c1 = Some (Inr (), c2) \<and> flushing_saved mcrc c c2"
proof -
  have wf: "ci_wf c" and bs: "bsize c < 2 ^ 64" and na: "\<not> handoff_active c" using c by (simp_all add: calm_def)
  obtain c1 where c1: "rotate_and_snapshot rotate_works c = Some (Inr (dirty_list c), c1)" "ci_wf c1"
     "states c1 = map syncing_of (states c)" "data_file c1 = replicate (dsize c) 0"
     "flushing_file c1 = Some (data_file c)" "flushing_disk c1 = Some (data_file c)"
     "rotation_seq c1 = sequence c" "config c1 = config c" "num_blocks c1 = num_blocks c" "sequence c1 = sequence c"
     "promote_claim c1 = promote_claim c" "page_crcs c1 = page_crcs c" "pages_per_block c1 = pages_per_block c"
     "fenced c1 = fenced c" "handoff_phase c1 = handoff_phase c"
    using rotate_ok [OF wf] by blast
  let ?c2 = "c1\<lparr> metadata_file := Some (saved_file mcrc (sequence c) c1), wal := [], ckpt_skips := 0 \<rparr>"
  have "\<not> handoff_active c1" using na c1(15) by (simp add: handoff_active_def)
  then have run: "checkpoint mcrc None True (\<lambda>c. c) (\<lambda>c. c) c1 = Some (Inr (), ?c2)"
    using checkpoint_run [of c1 mcrc] c1(10) by simp
  have nb: "cfg_num_blocks (config c) = num_blocks c" "num_blocks c \<le> 2 ^ 32"
    using wf by (simp_all add: ci_wf_def geometry_ok_def)
  have s: "states ?c2 = states c1" by (simp add: states_def)
  have "\<exists>m d. load_metadata mcrc (config c) (Some (saved_file mcrc (sequence c) c1)) = Inr (m, d, sequence c, sequence c)
          \<and> sm_inv m \<and> sm_abs m = states c1"
    using load_saved_file [OF c1(2), of "config c" mcrc "sequence c"] bs c1(7-9) nb by auto
  moreover have "ci_wf ?c2" using c1(2) by (simp add: ci_wf_def counters_ok_def geometry_ok_def s)
  ultimately have "flushing_saved mcrc c ?c2"
    unfolding flushing_saved_def using c1(3-) s by simp
  then show ?thesis using c1(1) run by blast
qed

lemma saved_src:
  assumes c: "calm pcrc mcrc wcrc c" and f: "flushing_saved mcrc c c2"
  shows "src_file c2 = src_file c" "\<And>i. i < num_blocks c \<Longrightarrow> promoted c2 i \<longleftrightarrow> states c ! i = DIRTY"
proof -
  have wf: "ci_wf c" and g: "geometry_ok c" using c by (simp_all add: calm_def ci_wf_def)
  note f' = f [unfolded flushing_saved_def]
  have st: "states c2 ! i = syncing_of (states c ! i)" if "i < num_blocks c" for i
    using f' that length_states [OF wf] by simp
  have df: "length (data_file c) = dsize c" using wf by (simp add: ci_wf_def)
  show p: "promoted c2 i \<longleftrightarrow> states c ! i = DIRTY" if i: "i < num_blocks c" for i
  proof (cases "states c ! i = DIRTY")
    case True
    then show ?thesis using f' st [OF i] by (simp add: promoted_def promotable_def syncing_of_def)
  next
    case False
    have "blk c (data_file c) i ! j = 0" if j: "j < valid_bytes c i" for j
    proof -
      have k: "i * bsize c + j < dsize c" using valid_bytes_bounds [OF g i] j by simp
      have "(i * bsize c + j) div bsize c = i"
        using in_block_iff [OF g k, of i] j by simp
      then have "data_file c ! (i * bsize c + j) = 0" using c k False by (auto simp: calm_def)
      then show ?thesis
        using nth_bslice [of "i * bsize c + valid_bytes c i" "data_file c" j "i * bsize c"] j df
          valid_bytes_bounds [OF g i] by (simp add: blk_def)
    qed
    then have "all_zero (blk c (data_file c) i)"
      using length_blk [OF g i df] by (simp add: all_zero_def list_all_length)
    moreover have "blk c2 (data_file c) i = blk c (data_file c) i" using f' by (simp add: blk_def valid_bytes_def)
    moreover have "states c2 ! i = states c ! i" "states c ! i \<noteq> SYNCING"
      using st [OF i] False c i by (auto simp: syncing_of_def calm_def)
    ultimately show ?thesis using f' False by (simp add: promoted_def promotable_def)
  qed
  show "src_file c2 = src_file c"
  proof (rule nth_equalityI)
    show "length (src_file c2) = length (src_file c)" using f' by simp
    fix k assume "k < length (src_file c2)"
    then have k: "k < dsize c" using f' by simp
    have b: "k div bsize c < num_blocks c" by (rule block_of_byte [OF g k])
    have "src_file c2 ! k = (if states c ! (k div bsize c) = DIRTY then data_file c ! k else 0)"
      using k f' p [OF b] by (simp add: nth_src_file)
    also have "\<dots> = src_file c ! k" using calm_src [OF c k] c k by (auto simp: calm_def)
    finally show "src_file c2 ! k = src_file c ! k" .
  qed
qed

text \<open>
  An open that finds the flushing file and a checkpoint made after the rotation takes every
  block the checkpoint says is syncing from the flushing file, unless the log names it.
\<close>

lemma open_flushing_saved:
  assumes g: "geometry_ok c" and f: "flushing_saved mcrc c c2"
    and c3: "config c3 = config c" "num_blocks c3 = num_blocks c" "metadata_file c3 = metadata_file c2"
      "flushing_disk c3 = flushing_disk c2" "wal c3 = []" "length (data_file c3) = dsize c" "geometry_ok c3"
  shows "\<exists>c4 dk. open_cache mcrc wcrc par open_works (config c) (crash c3) = (Inr c4, dk)
     \<and> (\<forall>k<dsize c. states c ! (k div bsize c) = DIRTY \<longrightarrow> view R c4 k = data_file c ! k)
     \<and> (\<forall>k<dsize c. states c ! (k div bsize c) = NOT_PRESENT \<longrightarrow> view R c4 k = R k)"
proof -
  note f' = f [unfolded flushing_saved_def]
  obtain m d where m: "load_metadata mcrc (config c) (metadata_file c2) = Inr (m, d, sequence c, sequence c)"
    "sm_inv m" "sm_abs m = states c2" using f' by blast
  have cr: "d_data (crash c3) = Some (data_file c3)" "d_flush (crash c3) = Some (data_file c)"
    "d_meta (crash c3) = metadata_file c2" "d_wal (crash c3) = Contents (log_bytes wcrc [])"
    using c3 f' by (simp_all add: crash_def log_bytes_def)
  have ne: "num_entries m = num_blocks c3" using m(3) length_states [of c2] f' c3(2) by (metis length_sm_abs)
  have lf: "length (data_file c) = dsize c" using f' by (auto simp: ci_wf_def)
  have ln: "length (states c) = num_blocks c" using f' length_states [of c2] by simp
  obtain c4 dk where o: "open_cache mcrc wcrc par open_works (config c) (crash c3) = (Inr c4, dk)"
    "opened wcrc c3 (crash c3) m (sequence c) (sequence c) [] c4"
    using open_ok [OF c3(7) cr(1) _ _ _ m(2) ne cr(4), of mcrc d "sequence c" "sequence c" par] m(1) cr c3(1,6) lf by auto
  have nr: "replayed r s [] = []" "entry_blocks n [] = []" for r s n
    by (simp_all add: replayed_def entry_blocks_def)
  note o' = o(2) [unfolded opened_def Let_def cr nr boot_state_def kept_active_def c3(1,2) option.case]
  have st: "sm_abs m ! i = syncing_of (states c ! i)" if "i < num_blocks c" for i
    using m(3) f' that ln by simp
  have k: "view R c4 k = (if states c ! (k div bsize c) = DIRTY then data_file c ! k else R k)"
    if "k < dsize c" "states c ! (k div bsize c) = DIRTY \<or> states c ! (k div bsize c) = NOT_PRESENT" for k
    using o' that st [OF block_of_byte [OF g that(1)]] block_of_byte [OF g that(1)]
    by (auto simp: view_def nth_src_file promoted_def syncing_of_def)
  then show ?thesis using o(1) by auto
qed


text \<open>A volume of two blocks with one byte written.\<close>

definition demo_cfg :: WriteCacheConfig where
  "demo_cfg = \<lparr> device_size = 8192, cfg_block_size = 4096, wal_sync = True \<rparr>"

definition demo_par :: open_params where
  "demo_par = \<lparr> default_level = 1, zero_hash = 0 \<rparr>"

lemma demo_volume: "volume_ok demo_cfg" "cfg_num_blocks demo_cfg = 2" "device_size demo_cfg = 8192"
    "cfg_block_size demo_cfg = 4096"
  by (simp_all add: volume_ok_def demo_cfg_def cfg_num_blocks_def div_ceil_def)

lemma demo_written:
  "\<exists>c0 c. open_fresh_active demo_par open_works demo_cfg no_files = Inr c0
     \<and> host_run pcrc mcrc wcrc demo_par [HWrite 0 [7]] c0 = Some c \<and> calm pcrc mcrc wcrc c \<and> config c = demo_cfg
     \<and> num_blocks c = 2 \<and> unat (sequence c) \<le> 2 \<and> view (\<lambda>_. 0) c 0 = 7 \<and> states c ! 0 = DIRTY"
proof -
  obtain c0 where c0: "open_fresh_active demo_par open_works demo_cfg no_files = Inr c0" "calm pcrc mcrc wcrc c0"
     "config c0 = demo_cfg" "num_blocks c0 = 2" "sequence c0 = 0" "\<forall>k<8192. view (\<lambda>_. 0) c0 k = 0"
    using fresh_calm [OF demo_volume(1), of demo_par pcrc mcrc wcrc] by (auto simp: demo_volume)
  obtain c where c: "host_run pcrc mcrc wcrc demo_par [HWrite 0 [7]] c0 = Some c" "calm pcrc mcrc wcrc c"
     "config c = config c0" "num_blocks c = num_blocks c0" "unat (sequence c) \<le> unat (sequence c0) + 1 * num_blocks c0"
     "\<forall>k<dsize c0. view (\<lambda>_. 0) c k = fold (device_step (dsize c0)) [HWrite 0 [7]] (\<lambda>_. 0) k"
    using host_run_ok [OF c0(2), of "[HWrite 0 [7]]" "\<lambda>_. 0" demo_par] c0(3-6) by (auto simp: demo_volume)
  have "view (\<lambda>_. 0) c 0 = 7" using c(6) c0(3) by (simp add: demo_volume)
  then have "states c ! 0 = DIRTY \<or> states c ! 0 = SYNCING" by (auto simp: view_def split: if_splits)
  moreover have "states c ! 0 = NOT_PRESENT \<or> states c ! 0 = DIRTY" using c(2,4) c0(4) by (simp add: calm_def)
  ultimately have "states c ! 0 = DIRTY" by auto
  then show ?thesis using \<open>view (\<lambda>_. 0) c 0 = 7\<close> c0 c by auto
qed




text \<open>A crash between a rotation and the next checkpoint, for a block the log names.\<close>

lemma open_unsaved:
  assumes c: "calm pcrc mcrc wcrc c"
    and m: "load_metadata mcrc (config c) (metadata_file c) = Inr (m, d, sq, rot)" "sm_inv m" "num_entries m = num_blocks c"
      "wal c = log_bytes wcrc es"
  shows "\<exists>c1 c2 dk. rotate_and_snapshot rotate_works c = Some (Inr (dirty_list c), c1)
     \<and> open_cache mcrc wcrc par open_works (config c) (crash c1) = (Inr c2, dk)
     \<and> (\<forall>k<dsize c. view R c1 k = view R c k)
     \<and> (\<forall>k<dsize c. k div bsize c \<in> set (entry_blocks (num_blocks c) (replayed rot sq es)) \<longrightarrow> view R c2 k = 0)"
proof -
  have wf: "ci_wf c" and g: "geometry_ok c" using c by (simp_all add: calm_def ci_wf_def)
  obtain c1 where c1: "rotate_and_snapshot rotate_works c = Some (Inr (dirty_list c), c1)" "ci_wf c1"
     "states c1 = map syncing_of (states c)" "data_file c1 = replicate (dsize c) 0"
     "flushing_file c1 = Some (data_file c)" "flushing_disk c1 = Some (data_file c)"
     "config c1 = config c" "num_blocks c1 = num_blocks c" "wal c1 = wal c" "metadata_file c1 = metadata_file c"
    using rotate_ok [OF wf] by blast
  have g1: "geometry_ok c1" using c1(2) by (simp add: ci_wf_def)
  have cr: "d_data (crash c1) = Some (replicate (dsize c) 0)" "d_flush (crash c1) = Some (data_file c)"
    "d_meta (crash c1) = metadata_file c" "d_wal (crash c1) = Contents (log_bytes wcrc es)"
    using c1 m(4) by (simp_all add: crash_def)
  have df: "length (data_file c) = dsize c" using wf by (simp add: ci_wf_def)
  obtain c2 dk where o: "open_cache mcrc wcrc par open_works (config c) (crash c1) = (Inr c2, dk)"
    "opened wcrc c1 (crash c1) m sq rot es c2"
    using open_ok [OF g1 cr(1) _ _ _ m(2) _ cr(4), of mcrc d sq rot par] m(1,3) c1(7,8) cr df by auto
  note o' = o(2) [unfolded opened_def Let_def cr c1(7,8) option.case]
  have "view R c2 k = 0" if k: "k < dsize c" and e: "k div bsize c \<in> set (entry_blocks (num_blocks c) (replayed rot sq es))" for k
    using o' k e block_of_byte [OF g k] by (simp add: view_def nth_src_file promoted_def boot_state_def kept_active_def)
  moreover have "view R c1 k = view R c k" if k: "k < dsize c" for k
  proof -
    have "states c ! (k div bsize c) = NOT_PRESENT \<or> states c ! (k div bsize c) = DIRTY"
      using c block_of_byte [OF g k] by (simp add: calm_def)
    then show ?thesis
      using c1(3,5,7) k block_of_byte [OF g k] length_states [OF wf] calm_src [OF c k]
      by (auto simp: view_def nth_src_file syncing_of_def promoted_def promotable_def)
  qed
  ultimately show ?thesis using c1(1) o(1) by blast
qed



section \<open>The dirty counter after recovery\<close>

lemma count_iter_present:
  assumes "sm_inv m" "t \<noteq> NOT_PRESENT"
  shows "length (filter (\<lambda>(_, s). s = t) (iter_present m)) = count_list (sm_abs m) t"
proof -
  have "filter (\<lambda>(_, s). s = t) (iter_present m) = filter (\<lambda>(_, s). s = t) (List.enumerate 0 (sm_abs m))"
    unfolding iter_present_eq [OF assms(1)] using assms(2)
    by (simp add: case_prod_unfold) (rule filter_cong, auto)
  moreover have "length (filter (\<lambda>(_, s). s = t) (List.enumerate n xs)) = count_list xs t" for n and xs :: "byte list"
    by (induction xs arbitrary: n) auto
  ultimately show ?thesis by simp
qed

lemma count_recast:
  "t \<noteq> e \<Longrightarrow> t \<noteq> v \<Longrightarrow> count_list (map (recast e v) xs) t = count_list xs t"
  "v \<noteq> e \<Longrightarrow> count_list (map (recast e v) xs) v = count_list xs v + count_list xs e"
  by (induction xs) (auto simp: recast_def)

lemma recast_all:
  assumes "num_entries m' = num_entries m" "\<forall>i<num_entries m. sm_abs m' ! i = recast e v (sm_abs m ! i)"
  shows "sm_abs m' = map (recast e v) (sm_abs m)"
  using assms by (intro nth_equalityI) simp_all

text \<open>
  The dirty counter after a restart is too low when the checkpoint holds blocks that
  were present but clean: they are dropped and subtracted from a counter that never
  counted them.  The blocks that are dirty after the restart are those that were dirty or
  syncing, and the counter is less by the number of clean ones.
\<close>

theorem recovered_dirty_count:
  assumes wf: "ci_wf c" and bs: "bsize c < 2 ^ 64" and fl: "flushing_disk c = None" and log: "wal c = []"
    and meta: "metadata_file c = Some (saved_file mcrc (sequence c) c)"
  shows "\<exists>c' dk. open_cache mcrc wcrc par open_works (config c) (crash c) = (Inr c', dk)
     \<and> count_list (states c') DIRTY = count_list (states c) DIRTY + count_list (states c) SYNCING
     \<and> dirty_block_count c' = of_nat (count_list (states c) DIRTY + count_list (states c) SYNCING - count_list (states c) CLEAN)"
proof -
  have g: "geometry_ok c" and df: "sf_open (Some (data_file c)) (dsize c) = data_file c"
    using wf by (simp_all add: ci_wf_def sf_open_def)
  have nb: "cfg_num_blocks (config c) = num_blocks c" "num_blocks c \<le> 2 ^ 32" using g by (simp_all add: geometry_ok_def)
  let ?d = "count_list (states c) DIRTY + count_list (states c) SYNCING"
  obtain m where m: "load_metadata mcrc (config c) (metadata_file c) = Inr (m, ?d, sequence c, rotation_seq c)"
    "sm_inv m" "sm_abs m = states c"
    using load_saved_file [OF wf refl bs order_refl, of mcrc "sequence c"] nb meta by auto
  have n: "num_entries m = num_blocks c" using m(3) length_states [OF wf] by (metis length_sm_abs)
  have cr: "(crash c)\<lparr> d_data := Some (data_file c) \<rparr> = crash c" "d_data (crash c) = Some (data_file c)"
    "d_meta (crash c) = metadata_file c" "d_wal (crash c) = Contents []" "d_flush (crash c) = None"
    using fl log by (simp_all add: crash_def)
  have o: "open_states mcrc wcrc (config c) (crash c) = Inr (m, ?d, sequence c, rotation_seq c, [])"
    using m(1) cr by (simp add: open_states_def replay_def replay_loop_torn)
  have w: "open_wal wcrc open_works (crash c) [] = Inr []"
    by (simp add: open_wal_def open_works_def log_bytes_def)
  obtain m2 where m2: "cas_all SYNCING DIRTY (iter_present m) m = Some m2" "sm_inv m2" "num_entries m2 = num_entries m"
    "\<forall>i<num_entries m. sm_abs m2 ! i = recast SYNCING DIRTY (sm_abs m ! i)"
    using cas_all_ok [OF m(2) refl, of DIRTY SYNCING] by auto
  obtain m3 where m3: "cas_all CLEAN NOT_PRESENT (iter_present m2) m2 = Some m3" "sm_inv m3"
    "num_entries m3 = num_entries m2" "\<forall>i<num_entries m2. sm_abs m3 ! i = recast CLEAN NOT_PRESENT (sm_abs m2 ! i)"
    using cas_all_ok [OF m2(2) refl, of NOT_PRESENT CLEAN] by auto
  define c' where "c' = new_inner par False (config c) (data_file c) None (metadata_file c) [] m3
     (?d - length (filter (\<lambda>(_, s). s = CLEAN) (iter_present m2))) (sequence c)"
  have "\<exists>dk. open_cache mcrc wcrc par open_works (config c) (crash c) = (Inr c', dk)"
    unfolding open_cache_def validate_ok [OF g] cr(2) df sum.case Let_def cr(1) o w prod.case
    using m2(1) m3(1) cr by (simp add: recover_flushing_def open_works_def c'_def)
  moreover have "sm_abs m2 = map (recast SYNCING DIRTY) (states c)" "sm_abs m3 = map (recast CLEAN NOT_PRESENT) (sm_abs m2)"
    using recast_all [OF m2(3,4)] recast_all [OF m3(3,4)] m(3) by simp_all
  ultimately show ?thesis
    using count_iter_present [OF m2(2), of CLEAN]
    by (auto simp: c'_def new_inner_def states_def count_recast simp del: map_map)
qed

lemma demo_clean_dirty:
  "\<exists>c. ci_wf c \<and> config c = config demo_cache \<and> flushing_disk c = None \<and> wal c = [] \<and> states c = [CLEAN, DIRTY]"
proof -
  have st: "length (states demo_cache) = 2" "states demo_cache ! 0 = NOT_PRESENT" "num_blocks demo_cache = 2"
    by (simp_all add: states_demo) (simp add: demo_cache_def)
  obtain c1 where c1: "ci_wf c1" "states c1 = (states demo_cache)[0 := CLEAN]" "same_rest demo_cache c1"
    using set_present_ok [OF demo_cache_wf, of 0] st by auto
  have n1: "num_blocks c1 = 2" using same_rest_simps(4) [OF c1(3)] st(3) by simp
  obtain c2 where c2: "ci_wf c2" "states c2 = (states c1)[1 := DIRTY]" "same_rest c1 c2"
    using ci_transition_to_dirty_ok [OF c1(1), of 1] n1 by auto
  have "states c2 = [CLEAN, DIRTY]" by (simp add: c2(2) c1(2) states_demo)
  moreover have "flushing_disk demo_cache = None" "wal demo_cache = []" by (simp_all add: demo_cache_def)
  ultimately show ?thesis
    using c2(1) same_rest_simps [OF c1(3)] same_rest_simps [OF c2(3)] by auto
qed

theorem recovered_dirty_count_witness:
  "\<exists>c c' dk. states c = [CLEAN, DIRTY]
     \<and> open_cache (\<lambda>_. 0) (\<lambda>_. 0) demo_par open_works (config c) (crash c) = (Inr c', dk)
     \<and> count_list (states c') DIRTY = 1 \<and> dirty_block_count c' = 0"
proof -
  obtain d where d: "ci_wf d" "config d = config demo_cache" "flushing_disk d = None" "wal d = []" "states d = [CLEAN, DIRTY]"
    using demo_clean_dirty by blast
  let ?c = "d\<lparr> metadata_file := Some (saved_file (\<lambda>_. 0) (sequence d) d) \<rparr>"
  have s: "states ?c = states d" by (simp add: states_def)
  have "ci_wf ?c" using d(1) by (simp add: ci_wf_def counters_ok_def geometry_ok_def s)
  moreover have "bsize ?c < 2 ^ 64" using d(2) by (simp add: demo_cache_def)
  moreover have "metadata_file ?c = Some (saved_file (\<lambda>_. 0) (sequence ?c) ?c)"
    by (simp add: saved_file_def meta_content_def meta_header_def)
  ultimately show ?thesis
    using recovered_dirty_count [of ?c "\<lambda>_. 0" "\<lambda>_. 0" demo_par] d(3-5) s by auto
qed

end
