(* ===== verification/CheckpointProtocol.thy ===== *)
theory CheckpointProtocol
  imports Crash
begin

text \<open>
  Writers and the checkpoint run concurrently: \<open>wal_append_and_mark_dirty\<close> of
  \<open>glidefs/src/block/write_cache/write.rs\<close> marks a block dirty, then numbers it, then
  appends its batch to the log, while \<open>checkpoint\<close> of \<open>flush.rs\<close> reads the sequence
  number, publishes a snapshot and truncates the log when no number was taken since.
  Each of these is one step of an interleaving here; a crash may come after any step.
\<close>

section \<open>Steps\<close>

text \<open>
  A writer holds the block it has marked and not yet numbered, and the batch it has not
  yet appended.
\<close>

record writer =
  marked :: "nat option"
  batch :: "WalEntry list"

datatype ckpt_phase = CkptIdle | CkptRead u64 | CkptSaved u64

record proto =
  cache :: CacheInner
  writers :: "nat \<Rightarrow> writer"
  ckpt :: ckpt_phase

definition no_write :: writer where
  "no_write = \<lparr> marked = None, batch = [] \<rparr>"

definition proto_start :: "CacheInner \<Rightarrow> proto" where
  "proto_start c = \<lparr> cache = c, writers = (\<lambda>_. no_write), ckpt = CkptIdle \<rparr>"

inductive proto_step :: "(bytes \<Rightarrow> u32) \<Rightarrow> (bytes \<Rightarrow> u32) \<Rightarrow> proto \<Rightarrow> proto \<Rightarrow> bool"
  for mcrc wcrc where
  mark: "\<lbrakk> marked (writers p w) = None; b < num_blocks (cache p);
     ci_transition_to_dirty (cache p) b = Some (fresh, c) \<rbrakk>
   \<Longrightarrow> proto_step mcrc wcrc p (p\<lparr> cache := c,
         writers := (writers p)(w := (writers p w)\<lparr> marked := (if fresh then Some b else None) \<rparr>) \<rparr>)"
| number: "\<lbrakk> marked (writers p w) = Some b; seq_next (sequence (cache p)) = (s, counter) \<rbrakk>
   \<Longrightarrow> proto_step mcrc wcrc p (p\<lparr> cache := (cache p)\<lparr> sequence := counter \<rparr>,
         writers := (writers p)(w := \<lparr> marked = None,
           batch = batch (writers p w) @ [\<lparr> block_index = of_nat b, entry_sequence = s \<rparr>] \<rparr>) \<rparr>)"
| append: "\<lbrakk> marked (writers p w) = None; buf = log_bytes wcrc (batch (writers p w));
     append_batch (Written (length buf)) buf (wal (cache p)) = (Inr (), log) \<rbrakk>
   \<Longrightarrow> proto_step mcrc wcrc p (p\<lparr> cache := (cache p)\<lparr> wal := log \<rparr>, writers := (writers p)(w := no_write) \<rparr>)"
| read: "ckpt p = CkptIdle \<Longrightarrow> proto_step mcrc wcrc p (p\<lparr> ckpt := CkptRead (seq_current (sequence (cache p))) \<rparr>)"
| snapshot: "ckpt p = CkptRead s
   \<Longrightarrow> proto_step mcrc wcrc p (p\<lparr> cache := (cache p)\<lparr> metadata_file := Some (saved_file mcrc s (cache p)) \<rparr>,
         ckpt := CkptSaved s \<rparr>)"
| truncate: "\<lbrakk> ckpt p = CkptSaved s;
     truncate_if True (seq_current (sequence (cache p)) = s) (wal (cache p)) = (Inr truncated, log) \<rbrakk>
   \<Longrightarrow> proto_step mcrc wcrc p (p\<lparr> cache := (cache p)\<lparr> wal := log \<rparr>, ckpt := CkptIdle \<rparr>)"

inductive_cases proto_stepE: "proto_step mcrc wcrc p p'"

inductive reach :: "(bytes \<Rightarrow> u32) \<Rightarrow> (bytes \<Rightarrow> u32) \<Rightarrow> proto \<Rightarrow> proto \<Rightarrow> bool"
  for mcrc wcrc p where
  here: "reach mcrc wcrc p p"
| step: "\<lbrakk> reach mcrc wcrc p q; proto_step mcrc wcrc q r \<rbrakk> \<Longrightarrow> reach mcrc wcrc p r"

section \<open>The invariant\<close>

definition logs :: "u64 \<Rightarrow> WalEntry list \<Rightarrow> nat \<Rightarrow> bool" where
  "logs sq es b \<longleftrightarrow> (\<exists>e\<in>set es. sq < entry_sequence e \<and> unat (block_index e) = b)"

definition in_hand :: "proto \<Rightarrow> nat \<Rightarrow> bool" where
  "in_hand p b \<longleftrightarrow> (\<exists>w. marked (writers p w) = Some b
     \<or> (\<exists>e\<in>set (batch (writers p w)). unat (block_index e) = b))"

definition pending_above :: "u64 \<Rightarrow> proto \<Rightarrow> nat \<Rightarrow> bool" where
  "pending_above sq p b \<longleftrightarrow> (\<exists>w. marked (writers p w) = Some b \<or> logs sq (batch (writers p w)) b)"

lemma logs_append [simp]: "logs sq (a @ b) i \<longleftrightarrow> logs sq a i \<or> logs sq b i"
  by (auto simp: logs_def)

lemma logs_Nil [simp]: "\<not> logs sq [] i"
  by (simp add: logs_def)

text \<open>
  Every dirty block is in the checkpoint, in the part of the log above it, or in the hands
  of a writer that will log it above the checkpoint.
\<close>

definition proto_inv_at :: "(bytes \<Rightarrow> u32) \<Rightarrow> (bytes \<Rightarrow> u32) \<Rightarrow> SparseStateMap \<Rightarrow> u64 \<Rightarrow> WalEntry list \<Rightarrow> proto \<Rightarrow> bool" where
  "proto_inv_at mcrc wcrc m sq es p \<longleftrightarrow> (let c = cache p in
     ci_wf c \<and> bsize c < 2 ^ 64 \<and> flushing_disk c = None \<and> rotation_seq c = 0
     \<and> (\<exists>d. load_metadata mcrc (config c) (metadata_file c) = Inr (m, d, sq, 0)) \<and> sm_inv m \<and> num_entries m = num_blocks c
     \<and> wal c = log_bytes wcrc es \<and> sq \<le> sequence c \<and> (\<forall>e\<in>set es. entry_sequence e \<le> sequence c)
     \<and> (\<forall>w. (\<forall>e\<in>set (batch (writers p w)). entry_sequence e \<le> sequence c)
            \<and> (\<forall>b. marked (writers p w) = Some b \<longrightarrow> b < num_blocks c))
     \<and> (\<forall>s. ckpt p = CkptRead s \<longrightarrow> s \<le> sequence c) \<and> (\<forall>s. ckpt p = CkptSaved s \<longrightarrow> sq = s)
     \<and> (\<forall>b<num_blocks c. states c ! b = DIRTY \<longrightarrow> sm_abs m ! b = DIRTY \<or> logs sq es b \<or> pending_above sq p b))"

lemma inv_mark:
  assumes i: "proto_inv_at mcrc wcrc m sq es p" and w: "marked (writers p w) = None" and b: "b < num_blocks (cache p)"
    and t: "ci_transition_to_dirty (cache p) b = Some (fresh, c)"
  shows "proto_inv_at mcrc wcrc m sq es (p\<lparr> cache := c,
         writers := (writers p)(w := (writers p w)\<lparr> marked := (if fresh then Some b else None) \<rparr>) \<rparr>)"
proof -
  have wf: "ci_wf (cache p)" using i by (simp add: proto_inv_at_def Let_def)
  have f: "fresh = (states (cache p) ! b \<noteq> DIRTY)" and c: "ci_wf c" "states c = (states (cache p))[b := DIRTY]"
    and s: "same_rest (cache p) c"
    using ci_transition_to_dirty_ok [OF wf b] t by auto
  let ?q = "p\<lparr> cache := c, writers := (writers p)(w := (writers p w)\<lparr> marked := (if fresh then Some b else None) \<rparr>) \<rparr>"
  have h: "pending_above sq p i \<Longrightarrow> pending_above sq ?q i" for i
    unfolding pending_above_def using w by (auto split: if_splits) (metis option.distinct(1))+
  have hb: "fresh \<Longrightarrow> pending_above sq ?q b" by (auto simp: pending_above_def)
  have "sm_abs m ! i = DIRTY \<or> logs sq es i \<or> pending_above sq ?q i"
    if "i < num_blocks c" "states c ! i = DIRTY" for i
  proof (cases "i = b")
    case True
    show ?thesis
    proof (cases fresh)
      case True then show ?thesis using hb \<open>i = b\<close> by blast
    next
      case False
      then have "states (cache p) ! b = DIRTY" using f by simp
      then show ?thesis using i b h \<open>i = b\<close> by (auto simp: proto_inv_at_def Let_def)
    qed
  next
    case False
    then have "states (cache p) ! i = DIRTY" using that(2) c(2) by simp
    then show ?thesis using i that(1) same_rest_simps(4) [OF s] h by (auto simp: proto_inv_at_def Let_def)
  qed
  then show ?thesis
    using i c(1) same_rest_simps [OF s] b unfolding proto_inv_at_def Let_def by auto
qed

lemma seq_less_next:
  fixes v :: u64
  assumes "v \<noteq> - 1"
  shows "v < v + 1"
proof -
  have "unat v \<noteq> unat (- 1 :: u64)" using assms by (simp add: word_unat_eq_iff)
  then have "unat v + 1 < 2 ^ 64" using unsigned_less [of v, where ?'a = nat] by (simp add: unsigned_minus_1_eq_mask mask_eq_exp_minus_1)
  then show ?thesis using seq_next_room [of v] by (simp add: word_less_nat_alt)
qed

lemma inv_number:
  assumes i: "proto_inv_at mcrc wcrc m sq es p" and w: "marked (writers p w) = Some b"
    and t: "seq_next (sequence (cache p)) = (s, counter)" and room: "counter \<noteq> - 1"
  shows "proto_inv_at mcrc wcrc m sq es (p\<lparr> cache := (cache p)\<lparr> sequence := counter \<rparr>,
         writers := (writers p)(w := \<lparr> marked = None,
           batch = batch (writers p w) @ [\<lparr> block_index = of_nat b, entry_sequence = s \<rparr>] \<rparr>) \<rparr>)"
proof -
  let ?c = "cache p"
  let ?q = "p\<lparr> cache := ?c\<lparr> sequence := counter \<rparr>,
         writers := (writers p)(w := \<lparr> marked = None,
           batch = batch (writers p w) @ [\<lparr> block_index = of_nat b, entry_sequence = s \<rparr>] \<rparr>) \<rparr>"
  have cs: "counter = sequence ?c + 1" "s = counter" "sequence ?c \<noteq> - 1"
    using t room by (auto simp: seq_next_def split: if_splits)
  then have lt: "sequence ?c < counter" using seq_less_next by blast
  have bn: "b < num_blocks ?c" and n32: "num_blocks ?c \<le> 2 ^ 32"
    using i w by (auto simp: proto_inv_at_def Let_def ci_wf_def geometry_ok_def)
  have ub: "unat (of_nat b :: u64) = b" using bn n32 by (simp add: unat_of_nat)
  have sl: "sq < s" using i lt cs(2) by (auto simp: proto_inv_at_def Let_def)
  have h: "pending_above sq p i \<Longrightarrow> pending_above sq ?q i" for i
  proof -
    assume "pending_above sq p i"
    then obtain v where v: "marked (writers p v) = Some i \<or> logs sq (batch (writers p v)) i" by (auto simp: pending_above_def)
    show "pending_above sq ?q i"
    proof (cases "v = w")
      case True
      have "logs sq (batch (writers ?q w)) i" using v w True ub sl by (auto simp: logs_def)
      then show ?thesis unfolding pending_above_def by blast
    next
      case False
      then have "marked (writers ?q v) = Some i \<or> logs sq (batch (writers ?q v)) i" using v by simp
      then show ?thesis unfolding pending_above_def by blast
    qed
  qed
  have st: "states (cache ?q) = states ?c" by simp
  have le: "\<And>x. x \<le> sequence ?c \<Longrightarrow> x \<le> counter" using lt by auto
  show ?thesis
    using i h le cs(2) unfolding proto_inv_at_def Let_def st by (auto simp: less_imp_le)
qed

lemma inv_append:
  assumes i: "proto_inv_at mcrc wcrc m sq es p" and w: "marked (writers p w) = None"
    and t: "append_batch (Written (length buf)) buf (wal (cache p)) = (Inr (), log)" "buf = log_bytes wcrc (batch (writers p w))"
  shows "proto_inv_at mcrc wcrc m sq (es @ batch (writers p w))
      (p\<lparr> cache := (cache p)\<lparr> wal := log \<rparr>, writers := (writers p)(w := no_write) \<rparr>)"
proof -
  let ?q = "p\<lparr> cache := (cache p)\<lparr> wal := log \<rparr>, writers := (writers p)(w := no_write) \<rparr>"
  have log: "log = log_bytes wcrc (es @ batch (writers p w))"
    using t i by (auto simp: append_batch_def proto_inv_at_def Let_def log_bytes_append split: if_splits)
  have h: "pending_above sq p j \<Longrightarrow> logs sq (batch (writers p w)) j \<or> pending_above sq ?q j" for j
  proof -
    assume "pending_above sq p j"
    then obtain v where v: "marked (writers p v) = Some j \<or> logs sq (batch (writers p v)) j" by (auto simp: pending_above_def)
    show "logs sq (batch (writers p w)) j \<or> pending_above sq ?q j"
    proof (cases "v = w")
      case True
      then show ?thesis using v w by simp
    next
      case False
      then have "marked (writers ?q v) = Some j \<or> logs sq (batch (writers ?q v)) j" using v by simp
      then show ?thesis unfolding pending_above_def by blast
    qed
  qed
  have "sm_abs m ! b = DIRTY \<or> logs sq (es @ batch (writers p w)) b \<or> pending_above sq ?q b"
    if "b < num_blocks (cache p)" "states (cache p) ! b = DIRTY" for b
    using i that h [of b] unfolding proto_inv_at_def Let_def by auto
  moreover have "states (cache ?q) = states (cache p)" by simp
  ultimately show ?thesis
    using i log unfolding proto_inv_at_def Let_def by (auto simp: no_write_def)
qed

lemma inv_read:
  "proto_inv_at mcrc wcrc m sq es p \<Longrightarrow> proto_inv_at mcrc wcrc m sq es (p\<lparr> ckpt := CkptRead (seq_current (sequence (cache p))) \<rparr>)"
  by (auto simp: proto_inv_at_def Let_def seq_current_def pending_above_def)

lemma inv_snapshot:
  assumes i: "proto_inv_at mcrc wcrc m sq es p" and c: "ckpt p = CkptRead s"
  shows "\<exists>m'. proto_inv_at mcrc wcrc m' s es (p\<lparr> cache := (cache p)\<lparr> metadata_file := Some (saved_file mcrc s (cache p)) \<rparr>,
         ckpt := CkptSaved s \<rparr>)"
proof -
  let ?c = "cache p"
  let ?c' = "?c\<lparr> metadata_file := Some (saved_file mcrc s ?c) \<rparr>"
  have wf: "ci_wf ?c" and bs: "bsize ?c < 2 ^ 64" and r: "rotation_seq ?c = 0"
    using i by (simp_all add: proto_inv_at_def Let_def)
  have nb: "cfg_num_blocks (config ?c) = num_blocks ?c" "num_blocks ?c \<le> 2 ^ 32"
    using wf by (simp_all add: ci_wf_def geometry_ok_def)
  obtain m' d' where m': "load_metadata mcrc (config ?c) (Some (saved_file mcrc s ?c)) = Inr (m', d', s, 0)"
    "sm_inv m'" "sm_abs m' = states ?c"
    using load_saved_file [OF wf refl bs order_refl, of mcrc s] nb r by auto
  have n: "num_entries m' = num_blocks ?c" using m'(3) length_states [OF wf] by (metis length_sm_abs)
  have st: "states ?c' = states ?c" by (simp add: states_def)
  have "ci_wf ?c'" using wf by (simp add: ci_wf_def counters_ok_def geometry_ok_def st)
  then have "proto_inv_at mcrc wcrc m' s es (p\<lparr> cache := ?c', ckpt := CkptSaved s \<rparr>)"
    using i c m' n unfolding proto_inv_at_def Let_def by (auto simp: st)
  then show ?thesis by blast
qed

lemma inv_truncate:
  assumes i: "proto_inv_at mcrc wcrc m sq es p" and c: "ckpt p = CkptSaved s"
    and t: "truncate_if True (seq_current (sequence (cache p)) = s) (wal (cache p)) = (Inr truncated, log)"
  shows "\<exists>es'. proto_inv_at mcrc wcrc m sq es' (p\<lparr> cache := (cache p)\<lparr> wal := log \<rparr>, ckpt := CkptIdle \<rparr>)"
proof (cases "sequence (cache p) = s")
  case False
  then have "log = wal (cache p)" using t by (simp add: truncate_if_def seq_current_def)
  then have "proto_inv_at mcrc wcrc m sq es (p\<lparr> cache := (cache p)\<lparr> wal := log \<rparr>, ckpt := CkptIdle \<rparr>)"
    using i unfolding proto_inv_at_def Let_def by (auto simp: pending_above_def)
  then show ?thesis by blast
next
  case True
  then have log: "log = log_bytes wcrc []" using t by (simp add: truncate_if_def seq_current_def log_bytes_def)
  have "sq = sequence (cache p)" using i c True by (simp add: proto_inv_at_def Let_def)
  then have "\<not> logs sq es b" for b using i by (auto simp: proto_inv_at_def Let_def logs_def)
  then have "proto_inv_at mcrc wcrc m sq [] (p\<lparr> cache := (cache p)\<lparr> wal := log \<rparr>, ckpt := CkptIdle \<rparr>)"
    using i log unfolding proto_inv_at_def Let_def by (auto simp: pending_above_def)
  then show ?thesis by blast
qed

lemma step_inv:
  assumes "proto_step mcrc wcrc p q" "proto_inv_at mcrc wcrc m sq es p" "sequence (cache q) \<noteq> - 1"
  shows "\<exists>m sq es. proto_inv_at mcrc wcrc m sq es q"
  using assms(1)
proof cases
  case mark
  then show ?thesis using inv_mark [OF assms(2)] by blast
next
  case (number w b s counter)
  then have "counter \<noteq> - 1" using assms(3) by simp
  then show ?thesis using inv_number [OF assms(2) number(2,3)] number(1) by blast
next
  case append
  then show ?thesis using inv_append [OF assms(2)] by blast
next
  case read
  then show ?thesis using inv_read [OF assms(2)] by blast
next
  case snapshot
  then show ?thesis using inv_snapshot [OF assms(2)] by blast
next
  case truncate
  then show ?thesis using inv_truncate [OF assms(2)] by blast
qed

lemma step_sequence:
  assumes "proto_step mcrc wcrc p q" "sequence (cache p) = - 1" "ci_wf (cache p)"
  shows "sequence (cache q) = - 1"
  using assms(1)
proof cases
  case (mark w b fresh c)
  then obtain c' where "ci_transition_to_dirty (cache p) b = Some (states (cache p) ! b \<noteq> DIRTY, c')" "same_rest (cache p) c'"
    using ci_transition_to_dirty_ok [OF assms(3)] by blast
  then have "same_rest (cache p) c" using mark(4) by simp
  then show ?thesis using mark(1) same_rest_simps(7) assms(2) by simp
qed (use assms(2) in \<open>auto simp: seq_next_def\<close>)

lemma step_wf:
  assumes "proto_step mcrc wcrc p q" "ci_wf (cache p)"
  shows "ci_wf (cache q)"
  using assms(1)
proof cases
  case (mark w b fresh c)
  then show ?thesis using ci_transition_to_dirty_ok [OF assms(2) mark(3)] by auto
next
  case (snapshot s)
  have "states ((cache p)\<lparr> metadata_file := x \<rparr>) = states (cache p)" for x by (simp add: states_def)
  then show ?thesis using snapshot assms(2) by (simp add: ci_wf_def counters_ok_def geometry_ok_def)
qed (use assms(2) in simp_all)

lemma reach_inv:
  assumes "reach mcrc wcrc p q" "proto_inv_at mcrc wcrc m sq es p"
  shows "ci_wf (cache q) \<and> (sequence (cache q) \<noteq> - 1 \<longrightarrow> (\<exists>m sq es. proto_inv_at mcrc wcrc m sq es q))"
  using assms
proof (induction rule: reach.induct)
  case here
  then show ?case by (auto simp: proto_inv_at_def Let_def)
next
  case (step q r)
  then show ?case using step_wf step_inv step_sequence by blast
qed

lemma fresh_proto_inv:
  assumes "volume_ok cfg" "open_fresh_active par open_works cfg no_files = Inr c0"
  shows "proto_inv_at mcrc wcrc (sm_new (cfg_num_blocks cfg)) 0 [] (proto_start c0)" "config c0 = cfg"
    "num_blocks c0 = cfg_num_blocks cfg"
proof -
  have c0: "calm (\<lambda>_. 0) (\<lambda>_. 0) (\<lambda>_. 0) c0" "config c0 = cfg" "num_blocks c0 = cfg_num_blocks cfg" "sequence c0 = 0"
    using fresh_calm [OF assms(1), of par "\<lambda>_. 0" "\<lambda>_. 0" "\<lambda>_. 0"] assms(2) by auto
  have fresh: "metadata_file c0 = None" "wal c0 = []" "states c0 = replicate (cfg_num_blocks cfg) NOT_PRESENT"
    "rotation_seq c0 = 0"
    using assms by (auto simp: open_fresh_active_def validate_def volume_ok_def open_works_def no_files_def
        new_inner_def states_def sm_abs_new)
  show "proto_inv_at mcrc wcrc (sm_new (cfg_num_blocks cfg)) 0 [] (proto_start c0)"
    using c0 fresh by (simp add: proto_inv_at_def Let_def proto_start_def no_write_def load_metadata_def log_bytes_def calm_def)
  show "config c0 = cfg" "num_blocks c0 = cfg_num_blocks cfg" by fact+
qed

section \<open>Crashes between steps\<close>

lemma inv_recovers:
  assumes i: "proto_inv_at mcrc wcrc m sq es p" and b: "b < num_blocks (cache p)" "states (cache p) ! b = DIRTY" "\<not> in_hand p b"
  shows "\<exists>c dk. open_cache mcrc wcrc par open_works (config (cache p)) (crash (cache p)) = (Inr c, dk) \<and> states c ! b = DIRTY"
proof -
  let ?c = "cache p"
  have wf: "ci_wf ?c" and g: "geometry_ok ?c" and fl: "flushing_disk ?c = None" and df: "length (data_file ?c) = dsize ?c"
    using i by (simp_all add: proto_inv_at_def Let_def ci_wf_def)
  obtain d where m: "load_metadata mcrc (config ?c) (metadata_file ?c) = Inr (m, d, sq, 0)" "sm_inv m"
     "num_entries m = num_blocks ?c" "wal ?c = log_bytes wcrc es"
     "sm_abs m ! b = DIRTY \<or> logs sq es b \<or> pending_above sq p b"
    using i b(1,2) unfolding proto_inv_at_def Let_def by blast
  have "\<not> pending_above sq p b" using b(3) by (auto simp: pending_above_def in_hand_def logs_def)
  then have bs: "boot_state (num_blocks ?c) m (replayed 0 sq es) b = DIRTY"
    using m(5) b(1) by (auto simp: boot_state_def entry_blocks_def replayed_def wal_min_seq_def logs_def)
  have cr: "d_data (crash ?c) = Some (data_file ?c)" "d_flush (crash ?c) = None" "d_meta (crash ?c) = metadata_file ?c"
    "d_wal (crash ?c) = Contents (log_bytes wcrc es)" using fl m(4) by (simp_all add: crash_def)
  obtain c dk where o: "open_cache mcrc wcrc par open_works (config ?c) (crash ?c) = (Inr c, dk)"
    "opened wcrc ?c (crash ?c) m sq 0 es c"
    using open_ok [OF g cr(1) df _ _ m(2,3) cr(4), of mcrc d sq 0 par] m(1) cr by auto
  have "states c ! b = DIRTY" using o(2) b(1) bs by (simp add: opened_def Let_def)
  then show ?thesis using o(1) by blast
qed


text \<open>The steps of one writer on a fresh volume.\<close>

lemma mark_fresh:
  assumes v: "volume_ok cfg" and o: "open_fresh_active par open_works cfg no_files = Inr c0" and b: "b < cfg_num_blocks cfg"
  shows "\<exists>c. reach mcrc wcrc (proto_start c0) \<lparr> cache = c, writers = (\<lambda>_. no_write)(0 := \<lparr> marked = Some b, batch = [] \<rparr>), ckpt = CkptIdle \<rparr>
     \<and> ci_wf c \<and> states c ! b = DIRTY \<and> num_blocks c = cfg_num_blocks cfg \<and> config c = cfg \<and> sequence c = 0 \<and> wal c = []
     \<and> metadata_file c = None \<and> flushing_disk c = None"
proof -
  note f = fresh_proto_inv [OF v o]
  have i: "ci_wf c0" using f(1) [of "\<lambda>_. 0" "\<lambda>_. 0"] by (simp add: proto_inv_at_def Let_def proto_start_def)
  have fresh: "metadata_file c0 = None" "wal c0 = []" "states c0 = replicate (cfg_num_blocks cfg) NOT_PRESENT"
    "sequence c0 = 0" "flushing_disk c0 = None"
    using v o by (auto simp: open_fresh_active_def validate_def volume_ok_def open_works_def no_files_def
        new_inner_def states_def sm_abs_new)
  have bn: "b < num_blocks c0" using b f(3) by simp
  obtain c where c: "ci_transition_to_dirty c0 b = Some (True, c)" "ci_wf c" "states c = (states c0)[b := DIRTY]"
     "same_rest c0 c"
    using ci_transition_to_dirty_ok [OF i bn] fresh(3) b by auto
  have "proto_step mcrc wcrc (proto_start c0) ((proto_start c0)\<lparr> cache := c,
      writers := (writers (proto_start c0))(0 := (writers (proto_start c0) 0)\<lparr> marked := (if True then Some b else None) \<rparr>) \<rparr>)"
    using c(1) bn by (intro proto_step.mark [where fresh = True]) (simp_all add: proto_start_def no_write_def)
  then have "reach mcrc wcrc (proto_start c0) \<lparr> cache = c, writers = (\<lambda>_. no_write)(0 := \<lparr> marked = Some b, batch = [] \<rparr>), ckpt = CkptIdle \<rparr>"
    using reach.step [OF reach.here] by (simp add: proto_start_def no_write_def)
  moreover have "states c ! b = DIRTY" using c(3) b fresh(3) by simp
  ultimately show ?thesis using c(2) same_rest_simps [OF c(4)] f(2,3) fresh by auto
qed

text \<open>
  C37: A second write to a block that another writer has marked but not yet logged is
  acknowledged without a log record.  A crash before the first writer appends makes the
  block absent after recovery, and the acknowledged write is gone.
\<close>

theorem second_writer_gap:
  assumes v: "volume_ok cfg" and o: "open_fresh_active par open_works cfg no_files = Inr c0" and b: "b < cfg_num_blocks cfg"
  shows "\<exists>p c1 c dk. reach mcrc wcrc (proto_start c0) p \<and> in_hand p b
     \<and> wal_append_and_mark_dirty wcrc io_ok [b] (cache p) = Some (Inr (), c1) \<and> states c1 ! b = DIRTY
     \<and> open_cache mcrc wcrc par open_works cfg (crash c1) = (Inr c, dk) \<and> states c ! b = NOT_PRESENT"
proof -
  obtain d where d: "reach mcrc wcrc (proto_start c0) \<lparr> cache = d, writers = (\<lambda>_. no_write)(0 := \<lparr> marked = Some b, batch = [] \<rparr>), ckpt = CkptIdle \<rparr>"
     "ci_wf d" "states d ! b = DIRTY" "num_blocks d = cfg_num_blocks cfg" "config d = cfg" "sequence d = 0" "wal d = []"
     "metadata_file d = None" "flushing_disk d = None"
    using mark_fresh [OF v o b] by blast
  let ?p = "\<lparr> cache = d, writers = (\<lambda>_. no_write)(0 := \<lparr> marked = Some b, batch = [] \<rparr>), ckpt = CkptIdle \<rparr>"
  have room: "unat (sequence d) + length [b] < 2 ^ 64" using d(6) by simp
  obtain c1 where c1: "wal_append_and_mark_dirty wcrc io_ok [b] d = Some (Inr (), c1)" "ci_wf c1" "same_io d c1"
     "wal c1 = wal d @ log_bytes wcrc (log_entries (sequence d) (filter (\<lambda>b. states d ! b \<noteq> DIRTY) [b]))"
     "\<forall>i<num_blocks d. states c1 ! i = (if i \<in> set [b] then DIRTY else states d ! i)"
    using wal_append_ok [OF d(2) io_works_ok _ _ room, of wcrc] b d(4) by auto
  note s = same_io_simps [OF c1(3)]
  have w: "wal c1 = log_bytes wcrc []" using c1(4) d(3,7) by (simp add: log_bytes_def)
  have g: "geometry_ok c1" and df: "length (data_file c1) = dsize c1" using c1(2) by (simp_all add: ci_wf_def)
  have cr: "d_data (crash c1) = Some (data_file c1)" "d_flush (crash c1) = None" "d_meta (crash c1) = None"
    "d_wal (crash c1) = Contents (log_bytes wcrc [])" using s d(8,9) w by (simp_all add: crash_def)
  have l: "load_metadata mcrc (config c1) (d_meta (crash c1)) = Inr (sm_new (num_blocks c1), 0, 0, 0)"
    using s d(4,5) cr(3) by (simp add: load_metadata_def)
  have e: "num_entries (sm_new (num_blocks c1)) = num_blocks c1" by simp
  obtain c dk where c: "open_cache mcrc wcrc par open_works (config c1) (crash c1) = (Inr c, dk)"
    "opened wcrc c1 (crash c1) (sm_new (num_blocks c1)) 0 0 [] c"
    using open_ok [OF g cr(1) df _ l sm_inv_new e cr(4), of par] cr(2) by auto
  have "states c ! b = NOT_PRESENT"
    using c(2) b s d(4) by (simp add: opened_def Let_def boot_state_def replayed_def entry_blocks_def sm_abs_new)
  moreover have "in_hand ?p b" unfolding in_hand_def by (intro exI [of _ 0]) simp
  moreover have "states c1 ! b = DIRTY" using c1(5) b d(4) by simp
  moreover have "config c1 = cfg" using s d(5) by simp
  ultimately show ?thesis using d(1) c1(1) c(1) by (intro exI [of _ ?p] exI [of _ c1] exI [of _ c] exI [of _ dk]) simp
qed

theorem second_writer_gap_witness:
  "\<exists>c0 p c1 c dk. open_fresh_active demo_par open_works demo_cfg no_files = Inr c0
     \<and> reach (\<lambda>_. 0) (\<lambda>_. 0) (proto_start c0) p
     \<and> wal_append_and_mark_dirty (\<lambda>_. 0) io_ok [1] (cache p) = Some (Inr (), c1) \<and> states c1 ! 1 = DIRTY
     \<and> open_cache (\<lambda>_. 0) (\<lambda>_. 0) demo_par open_works demo_cfg (crash c1) = (Inr c, dk) \<and> states c ! 1 = NOT_PRESENT"
proof -
  obtain c0 where c0: "open_fresh_active demo_par open_works demo_cfg no_files = Inr c0"
    using fresh_calm [OF demo_volume(1)] by blast
  have "(1::nat) < cfg_num_blocks demo_cfg" by (simp add: demo_volume)
  then show ?thesis using second_writer_gap [OF demo_volume(1) c0, of 1 "\<lambda>_. 0" "\<lambda>_. 0"] c0 by blast
qed


end
