(* ===== verification/ObjectKeys.thy ===== *)
theory ObjectKeys
  imports Pack "HOL-Library.List_Lexorder" "HOL-Library.Char_ord"
begin

text \<open>
  The object keys of the store: the zero-padded decimal and hexadecimal numbers that
  \<open>format!\<close> writes into them and \<open>parse\<close> and \<open>from_str_radix\<close> read back, the key
  builders of \<open>glidefs/src/block/manifest.rs\<close> and \<open>content_store.rs\<close>, the
  pack-path parser of \<open>glidefs/src/cli/gc.rs\<close>, and the boot block list codec.
\<close>

section \<open>Numbers in keys\<close>

fun digits_rev :: "nat \<Rightarrow> nat \<Rightarrow> nat list" where
  "digits_rev b n = (if b < 2 \<or> n < b then [n] else n mod b # digits_rev b (n div b))"

declare digits_rev.simps [simp del]

definition digit_char :: "nat \<Rightarrow> char" where
  "digit_char d = (if d < 10 then char_of (48 + d) else char_of (87 + d))"

text \<open>\<open>{:0w}\<close> and \<open>{:0wx}\<close> of an unsigned integer.\<close>

definition fmt_pad :: "nat \<Rightarrow> nat \<Rightarrow> nat \<Rightarrow> string" where
  "fmt_pad radix w n =
     (let ds = rev (digits_rev radix n) in map digit_char (replicate (w - length ds) 0 @ ds))"

definition to_digit :: "nat \<Rightarrow> char \<Rightarrow> nat option" where
  "to_digit radix c =
     (let n = of_char c;
          d = (if 48 \<le> n \<and> n \<le> 57 then Some (n - 48)
               else if 97 \<le> n \<and> n \<le> 122 then Some (n - 87)
               else if 65 \<le> n \<and> n \<le> 90 then Some (n - 55) else None)
      in case d of None \<Rightarrow> None | Some v \<Rightarrow> if v < radix then Some v else None)"

fun parse_digits :: "nat \<Rightarrow> nat \<Rightarrow> nat \<Rightarrow> string \<Rightarrow> nat option" where
  "parse_digits radix limit acc [] = Some acc"
| "parse_digits radix limit acc (c # cs) =
     (case to_digit radix c of
        None \<Rightarrow> None
      | Some d \<Rightarrow> if acc * radix + d < limit then parse_digits radix limit (acc * radix + d) cs else None)"

text \<open>\<open>from_str_radix\<close> of an unsigned integer type with values below \<open>limit\<close>.\<close>

definition parse_uint :: "nat \<Rightarrow> nat \<Rightarrow> string \<Rightarrow> nat option" where
  "parse_uint radix limit s =
     (case s of
        [] \<Rightarrow> None
      | c # cs \<Rightarrow> if c = CHR ''+'' then (if cs = [] then None else parse_digits radix limit 0 cs)
                 else parse_digits radix limit 0 s)"

section \<open>Substrings\<close>

definition strip_prefix :: "string \<Rightarrow> string \<Rightarrow> string option" where
  "strip_prefix p s = (if take (length p) s = p then Some (drop (length p) s) else None)"

definition strip_suffix :: "string \<Rightarrow> string \<Rightarrow> string option" where
  "strip_suffix q s =
     (if length q \<le> length s \<and> drop (length s - length q) s = q then Some (take (length s - length q) s) else None)"

definition ends_with :: "string \<Rightarrow> string \<Rightarrow> bool" where
  "ends_with s q \<longleftrightarrow> strip_suffix q s \<noteq> None"

text \<open>Splitting at the first slash, and the last segment of a path.\<close>

definition split_slash :: "string \<Rightarrow> (string \<times> string) option" where
  "split_slash s =
     (if CHR ''/'' \<in> set s
      then Some (takeWhile (\<lambda>c. c \<noteq> CHR ''/'') s, tl (dropWhile (\<lambda>c. c \<noteq> CHR ''/'') s)) else None)"

definition path_filename :: "string \<Rightarrow> string" where
  "path_filename s = rev (takeWhile (\<lambda>c. c \<noteq> CHR ''/'') (rev s))"

definition trim_end_slashes :: "string \<Rightarrow> string" where
  "trim_end_slashes s = rev (dropWhile (\<lambda>c. c = CHR ''/'') (rev s))"

section \<open>Key builders\<close>

definition manifest_s3_key :: "string \<Rightarrow> string" where
  "manifest_s3_key name = ''manifests/'' @ name"

definition snapshot_s3_key :: "string \<Rightarrow> u64 \<Rightarrow> string" where
  "snapshot_s3_key name sequence = ''snapshots/'' @ name @ ''/'' @ fmt_pad 10 20 (unat sequence)"

definition chunk_pack_rel :: "u32 \<Rightarrow> PackId \<Rightarrow> string" where
  "chunk_pack_rel chunk_idx pack_id =
     fmt_pad 10 4 (unat chunk_idx) @ ''/'' @ fmt_pad 16 16 (unat pack_id) @ ''.pack''"

definition chunk_pack_key :: "string \<Rightarrow> u32 \<Rightarrow> PackId \<Rightarrow> string" where
  "chunk_pack_key base chunk_idx pack_id = base @ ''/chunks/'' @ chunk_pack_rel chunk_idx pack_id"

definition parse_pack_path :: "string \<Rightarrow> (u32 \<times> PackId) option" where
  "parse_pack_path rel =
     (case split_slash rel of
        None \<Rightarrow> None
      | Some (dir, filename) \<Rightarrow>
          (case parse_uint 10 (2 ^ 32) dir of
             None \<Rightarrow> None
           | Some chunk_idx \<Rightarrow>
               (case strip_suffix ''.pack'' filename of
                  None \<Rightarrow> None
                | Some hex_str \<Rightarrow>
                    if length hex_str \<noteq> 16 then None
                    else (case parse_uint 16 (2 ^ 64) hex_str of
                            None \<Rightarrow> None
                          | Some pack_id \<Rightarrow> Some (of_nat chunk_idx, of_nat pack_id)))))"

section \<open>Export names\<close>

definition is_ascii_alphanumeric :: "char \<Rightarrow> bool" where
  "is_ascii_alphanumeric c \<longleftrightarrow>
     (let n = (of_char c :: nat) in (48 \<le> n \<and> n \<le> 57) \<or> (65 \<le> n \<and> n \<le> 90) \<or> (97 \<le> n \<and> n \<le> 122))"

definition name_char :: "char \<Rightarrow> bool" where
  "name_char c \<longleftrightarrow> is_ascii_alphanumeric c \<or> c = CHR ''-'' \<or> c = CHR ''_'' \<or> c = CHR ''.''"

text \<open>The check of the API, and that of the router, which returns the offending name.\<close>

definition is_valid_export_name :: "string \<Rightarrow> bool" where
  "is_valid_export_name name =
     (if name = [] \<or> length name > 128 then False
      else is_ascii_alphanumeric (hd name) \<and> list_all name_char (tl name))"

definition validate_export_name :: "string \<Rightarrow> string + unit" where
  "validate_export_name name =
     (if name = [] \<or> length name > 128 then Inl name
      else if \<not> is_ascii_alphanumeric (hd name) then Inl name
      else if \<not> list_all name_char (tl name) then Inl name
      else Inr ())"

lemma export_name_checks_agree: "is_ok (validate_export_name name) \<longleftrightarrow> is_valid_export_name name"
  by (simp add: validate_export_name_def is_valid_export_name_def)

section \<open>The boot block list\<close>

definition BLOCK_LIST_MAGIC :: bytes where "BLOCK_LIST_MAGIC = [0x47, 0x4C, 0x48, 0x53]"

definition serialize_block_list :: "u64 list \<Rightarrow> bytes" where
  "serialize_block_list blocks =
     BLOCK_LIST_MAGIC @ to_le_bytes (of_nat (length blocks) :: u32) @ concat (map to_le_bytes blocks)"

datatype block_list_error = ListTooSmall | BadListMagic | ListTruncated

definition deserialize_block_list :: "bytes \<Rightarrow> (block_list_error + u64 list) option" where
  "deserialize_block_list data =
     (if length data < 8 then Some (Inl ListTooSmall)
      else if take 4 data \<noteq> BLOCK_LIST_MAGIC then Some (Inl BadListMagic)
      else let count = unat (from_le_bytes (bslice 4 8 data) :: u32);
               expected_len = 8 + count * 8
        in if length data < expected_len then Some (Inl ListTruncated)
           else map_option Inr
                  (those (map (\<lambda>i. map_option from_le_bytes (rust_slice (8 + i * 8) (8 + i * 8 + 8) data))
                     [0..<count])))"

section \<open>Printing and parsing numbers\<close>

abbreviation num_of :: "nat \<Rightarrow> nat \<Rightarrow> nat list \<Rightarrow> nat" where
  "num_of b \<equiv> foldl (\<lambda>a d. a * b + d)"

lemma num_of_digits: "2 \<le> b \<Longrightarrow> num_of b 0 (rev (digits_rev b n)) = n"
proof (induction b n rule: digits_rev.induct)
  case (1 b n)
  show ?case
  proof (cases "n < b")
    case True
    then show ?thesis by (simp add: digits_rev.simps)
  next
    case False
    then have "num_of b 0 (rev (digits_rev b (n div b))) = n div b" using 1 by simp
    then show ?thesis using False 1(2) by (subst digits_rev.simps) simp
  qed
qed

lemma digits_less: "2 \<le> b \<Longrightarrow> d \<in> set (digits_rev b n) \<Longrightarrow> d < b"
proof (induction b n rule: digits_rev.induct)
  case (1 b n)
  show ?case
  proof (cases "n < b")
    case True
    then show ?thesis using 1(3) by (simp add: digits_rev.simps)
  next
    case False
    then have "d = n mod b \<or> d \<in> set (digits_rev b (n div b))"
      using 1(2,3) by (subst (asm) digits_rev.simps) auto
    then show ?thesis using 1 False by auto
  qed
qed

lemma length_digits: "2 \<le> b \<Longrightarrow> 0 < k \<Longrightarrow> n < b ^ k \<Longrightarrow> length (digits_rev b n) \<le> k"
proof (induction b n arbitrary: k rule: digits_rev.induct)
  case (1 b n)
  show ?case
  proof (cases "n < b")
    case True
    then show ?thesis using 1 by (simp add: digits_rev.simps)
  next
    case False
    then obtain j where k: "k = Suc j" and j: "0 < j" using 1(2-4) by (cases k; cases "k - 1") auto
    have "n div b < b ^ j" using 1(2,4) k by (simp add: div_less_iff_less_mult mult.commute)
    then have "length (digits_rev b (n div b)) \<le> j" using 1 False j by simp
    then show ?thesis using False 1(2) k by (subst digits_rev.simps) simp
  qed
qed

lemma digits_nonempty [simp]: "digits_rev b n \<noteq> []"
  by (subst digits_rev.simps) simp

lemma num_of_zeros [simp]: "num_of b 0 (replicate k 0) = 0"
  by (induction k) auto

lemma of_char_digit: "d < 36 \<Longrightarrow> (of_char (digit_char d) :: nat) = (if d < 10 then 48 + d else 87 + d)"
  by (simp add: digit_char_def)

lemma to_digit_char: "\<lbrakk> d < radix; radix \<le> 36 \<rbrakk> \<Longrightarrow> to_digit radix (digit_char d) = Some d"
  by (simp add: to_digit_def of_char_digit)

lemma num_of_ge: "0 < b \<Longrightarrow> acc \<le> num_of b acc ds"
proof (induction ds arbitrary: acc)
  case (Cons d ds)
  have "acc \<le> acc * b + d" using Cons(2) by (cases b) auto
  then show ?case using Cons order_trans by fastforce
qed simp

lemma parse_digits_map:
  "\<lbrakk> \<forall>d\<in>set ds. d < radix; radix \<le> 36; 0 < radix; num_of radix acc ds < limit \<rbrakk> \<Longrightarrow>
   parse_digits radix limit acc (map digit_char ds) = Some (num_of radix acc ds)"
proof (induction ds arbitrary: acc)
  case (Cons d ds)
  have "acc * radix + d < limit" using num_of_ge [of radix "acc * radix + d" ds] Cons(4,5) by simp
  then show ?case using Cons by (simp add: to_digit_char)
qed simp

lemma digit_char_plain: "d < 36 \<Longrightarrow> digit_char d \<noteq> CHR ''+'' \<and> digit_char d \<noteq> CHR ''/''"
proof -
  assume "d < 36"
  then have "(of_char (digit_char d) :: nat) \<noteq> of_char (CHR ''+'')"
    "(of_char (digit_char d) :: nat) \<noteq> of_char (CHR ''/'')"
    by (simp_all add: of_char_digit)
  then show ?thesis by metis
qed

lemma fmt_pad_digits:
  obtains ds where "fmt_pad radix w n = map digit_char ds"
    "2 \<le> radix \<Longrightarrow> num_of radix 0 ds = n \<and> (\<forall>d\<in>set ds. d < radix)" "ds \<noteq> []"
    "\<lbrakk> 2 \<le> radix; 0 < w; n < radix ^ w \<rbrakk> \<Longrightarrow> length ds = w"
proof
  let ?ds = "replicate (w - length (rev (digits_rev radix n))) 0 @ rev (digits_rev radix n)"
  show "fmt_pad radix w n = map digit_char ?ds" by (simp add: fmt_pad_def Let_def)
  show "num_of radix 0 ?ds = n \<and> (\<forall>d\<in>set ?ds. d < radix)" if "2 \<le> radix"
    using num_of_digits [OF that, of n] digits_less [OF that, of _ n] that by auto
  show "?ds \<noteq> []" by simp
  show "length ?ds = w" if "2 \<le> radix" "0 < w" "n < radix ^ w"
    using length_digits [OF that] by simp
qed

lemma parse_fmt_pad:
  assumes "2 \<le> radix" "radix \<le> 36" "n < limit"
  shows "parse_uint radix limit (fmt_pad radix w n) = Some n"
proof -
  obtain ds where ds: "fmt_pad radix w n = map digit_char ds" "num_of radix 0 ds = n"
    "\<forall>d\<in>set ds. d < radix" "ds \<noteq> []"
    using fmt_pad_digits [of radix w n] assms(1) by metis
  obtain d ds' where Cons: "ds = d # ds'" using ds(4) by (cases ds) auto
  have "d < 36" using ds(3) Cons assms(2) by simp
  then have ne: "digit_char d \<noteq> CHR ''+''" using digit_char_plain by blast
  have "parse_digits radix limit 0 (map digit_char ds) = Some n"
    using parse_digits_map [of ds radix 0 limit] ds assms by simp
  then show ?thesis using ne by (simp add: parse_uint_def ds(1) Cons)
qed

lemma fmt_pad_no_slash: "\<lbrakk> 2 \<le> radix; radix \<le> 36 \<rbrakk> \<Longrightarrow> CHR ''/'' \<notin> set (fmt_pad radix w n)"
proof
  assume r: "2 \<le> radix" "radix \<le> 36" and mem: "CHR ''/'' \<in> set (fmt_pad radix w n)"
  obtain ds where "fmt_pad radix w n = map digit_char ds" "\<forall>d\<in>set ds. d < radix"
    using fmt_pad_digits [of radix w n] r(1) by metis
  then obtain d where "d < radix" "digit_char d = CHR ''/''" using mem by auto
  then have "d < 36" "digit_char d = CHR ''/''" using r(2) by simp_all
  then show False using digit_char_plain by blast
qed

lemma split_slash_append: "CHR ''/'' \<notin> set a \<Longrightarrow> split_slash (a @ CHR ''/'' # b) = Some (a, b)"
  by (simp add: split_slash_def takeWhile_append dropWhile_append)

lemma strip_suffix_append [simp]: "strip_suffix q (a @ q) = Some a"
  by (simp add: strip_suffix_def)

lemma strip_prefix_append [simp]: "strip_prefix p (p @ a) = Some a"
  by (simp add: strip_prefix_def)

lemma strip_prefix_Some: "strip_prefix p s = Some r \<longleftrightarrow> s = p @ r"
  by (auto simp: strip_prefix_def) (metis append_take_drop_id)

lemma length_fmt_pad: "\<lbrakk> 2 \<le> radix; 0 < w; n < radix ^ w \<rbrakk> \<Longrightarrow> length (fmt_pad radix w n) = w"
  using fmt_pad_digits [of radix w n] by (metis length_map)

section \<open>Round trips and order of the keys\<close>

text \<open>
  the collector recognises every pack the store writes.  Parsing the path of a
  pack relative to the chunk directory gives back exactly its chunk index and pack
  identifier, for all values of both, so two packs never share a key.
\<close>
theorem pack_path_roundtrip:
  "parse_pack_path (chunk_pack_rel chunk_idx pack_id) = Some (chunk_idx, pack_id)"
proof -
  have c: "unat chunk_idx < 2 ^ 32" "unat pack_id < 2 ^ 64" "unat pack_id < 16 ^ 16"
    using unsigned_less [of chunk_idx, where ?'a = nat] unsigned_less [of pack_id, where ?'a = nat] by simp_all
  have "split_slash (chunk_pack_rel chunk_idx pack_id)
      = Some (fmt_pad 10 4 (unat chunk_idx), fmt_pad 16 16 (unat pack_id) @ ''.pack'')"
    unfolding chunk_pack_rel_def using split_slash_append fmt_pad_no_slash [of 10] by simp
  then show ?thesis
    using c by (simp add: parse_pack_path_def parse_fmt_pad length_fmt_pad)
qed

lemma num_of_bound: "\<lbrakk> \<forall>d\<in>set ds. d < b; 0 < b \<rbrakk> \<Longrightarrow> num_of b 0 ds < b ^ length ds"
proof (induction ds rule: rev_induct)
  case (snoc d ds)
  have "num_of b 0 ds * b + d < (num_of b 0 ds + 1) * b" using snoc(2) by simp
  also have "\<dots> \<le> b ^ length ds * b" using snoc by (intro mult_right_mono) auto
  finally show ?case by (simp add: mult.commute)
qed simp

lemma num_of_acc: "num_of b acc ds = acc * b ^ length ds + num_of b 0 ds"
proof (induction ds arbitrary: acc)
  case (Cons d ds)
  show ?case using Cons [of "acc * b + d"] Cons [of d] by (simp add: algebra_simps)
qed simp

lemma num_of_Cons: "num_of b 0 (d # ds) = d * b ^ length ds + num_of b 0 ds"
  using num_of_acc [of b d ds] by simp

lemma digit_char_mono: "\<lbrakk> d < 36; e < 36 \<rbrakk> \<Longrightarrow> digit_char d < digit_char e \<longleftrightarrow> d < e"
  by (simp add: less_char_def of_char_digit)

lemma digit_char_inj: "\<lbrakk> d < 36; e < 36 \<rbrakk> \<Longrightarrow> digit_char d = digit_char e \<longleftrightarrow> d = e"
  using digit_char_mono [of d e] digit_char_mono [of e d] by (metis neq_iff)

lemma top_digit_less:
  assumes "d < (e :: nat)" "r < p"
  shows "d * p + r < e * p + s"
proof -
  have "d * p + r < (d + 1) * p" using assms(2) by simp
  also have "\<dots> \<le> e * p" using assms(1) by (intro mult_right_mono) auto
  finally show ?thesis by simp
qed

lemma digit_strings_order:
  "\<lbrakk> length ds = length es; \<forall>d\<in>set ds. d < b; \<forall>e\<in>set es. e < b; 0 < b; b \<le> 36 \<rbrakk> \<Longrightarrow>
   map digit_char ds < map digit_char es \<longleftrightarrow> num_of b 0 ds < num_of b 0 es"
proof (induction ds es rule: list_induct2)
  case (Cons d ds e es)
  let ?p = "b ^ length es"
  have lt: "num_of b 0 ds < ?p" "num_of b 0 es < ?p"
    using num_of_bound [of ds b] num_of_bound [of es b] Cons(1,3,4,5) by auto
  have d: "d < 36" "e < 36" using Cons(3,4,6) by auto
  have IH: "map digit_char ds < map digit_char es \<longleftrightarrow> num_of b 0 ds < num_of b 0 es" using Cons by simp
  consider "d < e" | "d = e" | "e < d" by linarith
  then show ?case
  proof cases
    case 1
    then show ?thesis using top_digit_less [OF 1 lt(1)] d digit_char_mono [of d e] Cons(1)
      by (simp add: num_of_Cons del: foldl.simps)
  next
    case 2
    then show ?thesis using IH Cons(1) by (simp add: num_of_Cons del: foldl.simps)
  next
    case 3
    then show ?thesis
      using top_digit_less [OF 3 lt(2), of "num_of b 0 ds"] d digit_char_mono [of d e] digit_char_inj [of d e] Cons(1)
      by (simp add: num_of_Cons del: foldl.simps)
  qed
qed simp

text \<open>
  snapshots list in the order they were taken.  The keys of two snapshots of an
  export compare lexicographically as their sequence numbers compare as integers,
  and different numbers have different keys.
\<close>
theorem snapshot_key_order:
  "snapshot_s3_key name a < snapshot_s3_key name b \<longleftrightarrow> a < b"
proof -
  have lt: "unat w < 10 ^ 20" for w :: u64 using unsigned_less [of w, where ?'a = nat] by simp
  obtain ds where ds: "fmt_pad 10 20 (unat a) = map digit_char ds" "num_of 10 0 ds = unat a"
      "\<forall>d\<in>set ds. d < 10" "length ds = 20"
    using fmt_pad_digits [of 10 20 "unat a"] lt [of a] by (metis zero_less_numeral numeral_le_iff semiring_norm(68,71))
  obtain es where es: "fmt_pad 10 20 (unat b) = map digit_char es" "num_of 10 0 es = unat b"
      "\<forall>d\<in>set es. d < 10" "length es = 20"
    using fmt_pad_digits [of 10 20 "unat b"] lt [of b] by (metis zero_less_numeral numeral_le_iff semiring_norm(68,71))
  have pre: "p @ x < p @ y \<longleftrightarrow> x < y" for p x y :: string by (induction p) auto
  have "map digit_char ds < map digit_char es \<longleftrightarrow> a < b"
    using digit_strings_order [of ds es 10] ds es by (simp add: word_less_nat_alt)
  then show ?thesis using ds(1) es(1) by (simp add: snapshot_s3_key_def pre)
qed

lemma list_body_nth:
  assumes "i < length bs"
  shows "rust_slice (8 + i * 8) (8 + i * 8 + 8) (serialize_block_list bs) = Some (to_le_bytes (bs ! i))"
proof -
  have c: "concat (map to_le_bytes bs)
      = concat (map to_le_bytes (take i bs)) @ to_le_bytes (bs ! i) @ concat (map to_le_bytes (drop (Suc i) bs))"
    by (rule concat_map_nth [OF assms])
  have l: "length (concat (map to_le_bytes (take i bs))) = i * 8"
    using assms by (simp add: length_concat o_def sum_list_triv)
  define pre where "pre = BLOCK_LIST_MAGIC @ to_le_bytes (of_nat (length bs) :: u32) @ concat (map to_le_bytes (take i bs))"
  have p: "length pre = 8 + i * 8" by (simp add: pre_def l BLOCK_LIST_MAGIC_def)
  have "serialize_block_list bs = pre @ to_le_bytes (bs ! i) @ concat (map to_le_bytes (drop (Suc i) bs))"
    by (simp add: serialize_block_list_def c pre_def)
  then show ?thesis by (simp add: rust_slice_def bslice_def p)
qed

lemma length_block_list [simp]: "length (serialize_block_list bs) = 8 + 8 * length bs"
  by (simp add: serialize_block_list_def BLOCK_LIST_MAGIC_def length_concat o_def sum_list_triv)

lemma block_list_header:
  "take 4 (serialize_block_list bs) = BLOCK_LIST_MAGIC"
  "bslice 4 8 (serialize_block_list bs) = to_le_bytes (of_nat (length bs) :: u32)"
  by (simp_all add: serialize_block_list_def BLOCK_LIST_MAGIC_def bslice_def)

text \<open>
  the boot block list survives a round trip, and no proper prefix of it is
  accepted.
\<close>
theorem block_list_roundtrip:
  assumes "length blocks < 2 ^ 32"
  shows "deserialize_block_list (serialize_block_list blocks) = Some (Inr blocks)
       \<and> (\<forall>k < length (serialize_block_list blocks). \<exists>e.
            deserialize_block_list (take k (serialize_block_list blocks)) = Some (Inl e))"
proof (intro conjI allI impI)
  let ?s = "serialize_block_list blocks"
  have n: "unat (of_nat (length blocks) :: u32) = length blocks"
    using assms by (simp add: unat_of_nat take_bit_nat_eq_self)
  have "those (map (\<lambda>i. map_option from_le_bytes (rust_slice (8 + i * 8) (8 + i * 8 + 8) ?s)) [0..<length blocks])
      = Some blocks"
    by (rule those_map_nth) (simp only: list_body_nth option.map from_to_le_bytes_word)
  then show "deserialize_block_list ?s = Some (Inr blocks)"
    by (simp add: deserialize_block_list_def block_list_header n)
  fix k assume "k < length ?s"
  then have k: "k < 8 + 8 * length blocks" by simp
  show "\<exists>e. deserialize_block_list (take k ?s) = Some (Inl e)"
  proof (cases "k < 8")
    case True
    then show ?thesis using k by (simp add: deserialize_block_list_def)
  next
    case False
    then have "take 4 (take k ?s) = BLOCK_LIST_MAGIC" "bslice 4 8 (take k ?s) = bslice 4 8 ?s"
      by (simp_all add: bslice_def drop_take min_def flip: block_list_header(1) [of blocks])
    then show ?thesis using False k
      by (simp add: deserialize_block_list_def block_list_header n min_def)
  qed
qed

theorem block_list_roundtrip_witness:
  "deserialize_block_list (serialize_block_list [9, 2, - 1]) = Some (Inr [9, 2, - 1])
   \<and> (\<exists>e. deserialize_block_list (take 31 (serialize_block_list [9, 2, - 1])) = Some (Inl e))"
  using block_list_roundtrip [of "[9, 2, - 1]"] by simp

end
