(* ===== verification/ContentStore.thy ===== *)
theory ContentStore
  imports ObjectKeys OrdMap CircuitBreaker StoreError
begin

text \<open>
  The typed store of \<open>glidefs/src/block/content_store.rs\<close> over an object store.  The
  object store (the \<open>object_store\<close> crate and the service behind it) is the parameter
  \<open>object_store\<close>: every call is a function on an arbitrary state that returns an
  answer and the next state, and the clock the breaker reads is a function of that
  state, so time may pass in any call.  The circuit breaker is the model of
  \<open>CircuitBreaker\<close>; a semaphore is present or absent, and open or closed.
\<close>

section \<open>The object store\<close>

datatype put_mode = Overwrite | Create | UpdateTag string

datatype get_range = WholeObject | Bounded nat nat | Suffix nat

text \<open>
  \<open>os_path\<close> is \<open>Path::from\<close>.  A get answers with the entity tag and the body, whose
  transfer may still fail.  \<open>os_multipart\<close> starts a multipart upload, \<open>os_upload\<close> is
  the fate of its parts, \<open>os_settle\<close> the state once it has ended with the given result
  and \<open>os_upload_error\<close> the error of a failed one.  \<open>os_joined\<close> says whether a task
  spawned for a call can be joined.
\<close>

record 's object_store =
  os_path :: "string \<Rightarrow> string"
  os_put :: "string \<Rightarrow> bytes \<Rightarrow> put_mode \<Rightarrow> 's \<Rightarrow> (os_error + string option) \<times> 's"
  os_get :: "string \<Rightarrow> get_range \<Rightarrow> 's \<Rightarrow> (os_error + string option \<times> (os_error + bytes)) \<times> 's"
  os_head :: "string \<Rightarrow> 's \<Rightarrow> (os_error + unit) \<times> 's"
  os_delete :: "string \<Rightarrow> 's \<Rightarrow> (os_error + unit) \<times> 's"
  os_list :: "string \<Rightarrow> 's \<Rightarrow> (os_error + string) list \<times> 's"
  os_list_with_offset :: "string \<Rightarrow> string \<Rightarrow> 's \<Rightarrow> (os_error + string) list \<times> 's"
  os_multipart :: "string \<Rightarrow> 's \<Rightarrow> (os_error + unit) \<times> 's"
  os_upload :: "string \<Rightarrow> 's \<Rightarrow> upload_env"
  os_upload_error :: "string \<Rightarrow> 's \<Rightarrow> os_error"
  os_settle :: "string \<Rightarrow> pack_error + bytes \<Rightarrow> 's \<Rightarrow> 's"
  os_joined :: "'s \<Rightarrow> bool"
  os_clock :: "'s \<Rightarrow> u64"

section \<open>The content store and its breaker\<close>

record 's ContentStore =
  object_store :: "'s object_store"
  base_path :: string
  cb_config :: CircuitBreakerConfig
  upload_semaphore :: "bool option"
  download_semaphore :: "bool option"

record 's world =
  remote :: 's
  circuit :: "breaker option"

type_synonym ('s, 'a) csop = "'s world \<Rightarrow> (ContentStoreError + 'a) \<times> 's world"

definition cs_bind :: "('s, 'a) csop \<Rightarrow> ('a \<Rightarrow> ('s, 'b) csop) \<Rightarrow> ('s, 'b) csop" where
  "cs_bind m f w = (case m w of (Inl e, w') \<Rightarrow> (Inl e, w') | (Inr a, w') \<Rightarrow> f a w')"

definition cs_new :: "'s object_store \<Rightarrow> string \<Rightarrow> CircuitBreakerConfig \<Rightarrow> 's ContentStore" where
  "cs_new os base cfg =
     \<lparr> object_store = os, base_path = trim_end_slashes base, cb_config = cfg,
       upload_semaphore = None, download_semaphore = None \<rparr>"

abbreviation cs_now :: "'s ContentStore \<Rightarrow> 's world \<Rightarrow> u64" where
  "cs_now cs w \<equiv> os_clock (object_store cs) (remote w)"

text \<open>\<open>allow\<close> ends within two rounds when nobody interferes (\<open>allow_two_rounds\<close>).\<close>

definition check_circuit :: "'s ContentStore \<Rightarrow> ('s, unit) csop" where
  "check_circuit cs w =
     (case circuit w of
        None \<Rightarrow> (Inr (), w)
      | Some b \<Rightarrow>
          (case allow_rounds 2 (cb_config cs) (cs_now cs w) b of
             Some (True, b') \<Rightarrow> (Inr (), w\<lparr> circuit := Some b' \<rparr>)
           | Some (False, b') \<Rightarrow> (Inl CircuitOpen, w\<lparr> circuit := Some b' \<rparr>)
           | None \<Rightarrow> (Inl CircuitOpen, w)))"

definition cb_success :: "'s ContentStore \<Rightarrow> 's world \<Rightarrow> 's world" where
  "cb_success cs w = w\<lparr> circuit := map_option (record_success (cs_now cs w)) (circuit w) \<rparr>"

definition cb_failure :: "'s ContentStore \<Rightarrow> 's world \<Rightarrow> 's world" where
  "cb_failure cs w = w\<lparr> circuit := map_option (record_failure (cb_config cs) (cs_now cs w)) (circuit w) \<rparr>"

definition record_s3_result :: "'s ContentStore \<Rightarrow> os_error + 'a \<Rightarrow> 's world \<Rightarrow> 's world" where
  "record_s3_result cs result w =
     (case result of
        Inr _ \<Rightarrow> cb_success cs w
      | Inl e \<Rightarrow> if is_connectivity_error e then cb_failure cs w else cb_success cs w)"

definition record_s3_list_error :: "'s ContentStore \<Rightarrow> os_error \<Rightarrow> 's world \<Rightarrow> 's world" where
  "record_s3_list_error cs e w = (if is_connectivity_error e then cb_failure cs w else cb_success cs w)"

text \<open>A call to the store, its outcome recorded with the breaker.\<close>

definition issue :: "'s ContentStore \<Rightarrow> ('s \<Rightarrow> (os_error + 'a) \<times> 's) \<Rightarrow> 's world \<Rightarrow> (os_error + 'a) \<times> 's world" where
  "issue cs req w = (case req (remote w) of (r, s) \<Rightarrow> (r, record_s3_result cs r (w\<lparr> remote := s \<rparr>)))"

definition checked :: "'s ContentStore \<Rightarrow> ('s \<Rightarrow> (os_error + 'a) \<times> 's) \<Rightarrow> (os_error + 'a \<Rightarrow> ContentStoreError + 'b) \<Rightarrow> ('s, 'b) csop" where
  "checked cs req f = cs_bind (check_circuit cs) (\<lambda>_ w. case issue cs req w of (r, w') \<Rightarrow> (f r, w'))"

section \<open>Manifests\<close>

definition map_error :: "os_error + 'a \<Rightarrow> ContentStoreError + 'a" where
  "map_error r = (case r of Inl e \<Rightarrow> Inl (from_os_error e) | Inr a \<Rightarrow> Inr a)"

definition missing_ok :: "'b \<Rightarrow> ('a \<Rightarrow> ContentStoreError + 'b) \<Rightarrow> os_error + 'a \<Rightarrow> ContentStoreError + 'b" where
  "missing_ok d f r =
     (case r of Inr a \<Rightarrow> f a | Inl e \<Rightarrow> if e = OsNotFound then Inr d else Inl (from_os_error e))"

definition body_of :: "string option \<times> (os_error + bytes) \<Rightarrow> ContentStoreError + bytes" where
  "body_of response = map_error (snd response)"

definition cs_key :: "'s ContentStore \<Rightarrow> string \<Rightarrow> string" where
  "cs_key cs rel = os_path (object_store cs) (base_path cs @ ''/'' @ rel)"

definition put_manifest :: "'s ContentStore \<Rightarrow> string \<Rightarrow> bytes \<Rightarrow> string option \<Rightarrow> ('s, string option) csop" where
  "put_manifest cs name data expected_etag =
     (let mode = (case expected_etag of Some etag \<Rightarrow> UpdateTag etag | None \<Rightarrow> Overwrite)
      in checked cs (os_put (object_store cs) (cs_key cs (manifest_s3_key name)) data mode) map_error)"

definition delete_manifest :: "'s ContentStore \<Rightarrow> string \<Rightarrow> ('s, unit) csop" where
  "delete_manifest cs name =
     checked cs (os_delete (object_store cs) (cs_key cs (manifest_s3_key name))) (missing_ok () Inr)"

definition head_manifest :: "'s ContentStore \<Rightarrow> string \<Rightarrow> ('s, bool) csop" where
  "head_manifest cs name =
     checked cs (os_head (object_store cs) (cs_key cs (manifest_s3_key name))) (missing_ok False (\<lambda>_. Inr True))"

definition get_manifest :: "'s ContentStore \<Rightarrow> string \<Rightarrow> ('s, (bytes \<times> string option) option) csop" where
  "get_manifest cs name =
     checked cs (os_get (object_store cs) (cs_key cs (manifest_s3_key name)) WholeObject)
       (missing_ok None (\<lambda>response. sum_bind (body_of response) (\<lambda>body. Inr (Some (body, fst response)))))"

section \<open>Snapshots\<close>

definition put_snapshot :: "'s ContentStore \<Rightarrow> string \<Rightarrow> u64 \<Rightarrow> bytes \<Rightarrow> ('s, string option) csop" where
  "put_snapshot cs name sequence data =
     checked cs (os_put (object_store cs) (cs_key cs (snapshot_s3_key name sequence)) data Overwrite) map_error"

definition get_snapshot :: "'s ContentStore \<Rightarrow> string \<Rightarrow> u64 \<Rightarrow> ('s, bytes option) csop" where
  "get_snapshot cs name sequence =
     checked cs (os_get (object_store cs) (cs_key cs (snapshot_s3_key name sequence)) WholeObject)
       (missing_ok None (\<lambda>response. sum_bind (body_of response) (\<lambda>body. Inr (Some body))))"

definition delete_snapshot :: "'s ContentStore \<Rightarrow> string \<Rightarrow> u64 \<Rightarrow> ('s, unit) csop" where
  "delete_snapshot cs name sequence =
     checked cs (os_delete (object_store cs) (cs_key cs (snapshot_s3_key name sequence))) (missing_ok () Inr)"

text \<open>The loop of the listing operations; \<open>f\<close> is what the loop body does with a location.\<close>

fun list_loop :: "'s ContentStore \<Rightarrow> (string \<Rightarrow> 'a list) \<Rightarrow> (os_error + string) list \<Rightarrow> ('s, 'a list) csop" where
  "list_loop cs f [] w = (Inr [], cb_success cs w)"
| "list_loop cs f (Inl e # rs) w = (Inl (from_os_error e), record_s3_list_error cs e w)"
| "list_loop cs f (Inr location # rs) w =
     (case list_loop cs f rs w of (Inl e, w') \<Rightarrow> (Inl e, w') | (Inr xs, w') \<Rightarrow> (Inr (f location @ xs), w'))"

definition list_under :: "'s ContentStore \<Rightarrow> string \<Rightarrow> (string \<Rightarrow> 'a list) \<Rightarrow> ('s, 'a list) csop" where
  "list_under cs rel f =
     cs_bind (check_circuit cs) (\<lambda>_ w.
       case os_list (object_store cs) (cs_key cs rel) (remote w) of
         (rs, s) \<Rightarrow> list_loop cs f rs (w\<lparr> remote := s \<rparr>))"

definition list_snapshots :: "'s ContentStore \<Rightarrow> string \<Rightarrow> ('s, u64 list) csop" where
  "list_snapshots cs name =
     cs_bind (list_under cs (''snapshots/'' @ name @ ''/'')
       (\<lambda>location. case parse_uint 10 (2 ^ 64) (path_filename location) of
                     Some seq \<Rightarrow> [of_nat seq] | None \<Rightarrow> []))
       (\<lambda>sequences w. (Inr (sort sequences), w))"

fun delete_each :: "'s ContentStore \<Rightarrow> (os_error + string) list \<Rightarrow> 's world \<Rightarrow> 's world" where
  "delete_each cs [] w = w"
| "delete_each cs (Inl e # rs) w = delete_each cs rs w"
| "delete_each cs (Inr location # rs) w =
     delete_each cs rs (snd (issue cs (os_delete (object_store cs) location) w))"

definition delete_all_snapshots :: "'s ContentStore \<Rightarrow> string \<Rightarrow> ('s, unit) csop" where
  "delete_all_snapshots cs name =
     cs_bind (check_circuit cs) (\<lambda>_ w.
       case os_list (object_store cs) (cs_key cs (''snapshots/'' @ name @ ''/'')) (remote w) of
         (rs, s) \<Rightarrow> (Inr (), delete_each cs rs (w\<lparr> remote := s \<rparr>)))"

section \<open>Range reads\<close>

definition get_body :: "'s object_store \<Rightarrow> string \<Rightarrow> get_range \<Rightarrow> 's \<Rightarrow> (os_error + bytes) \<times> 's" where
  "get_body os path rng s =
     (case os_get os path rng s of
        (Inl e, s') \<Rightarrow> (Inl e, s')
      | (Inr response, s') \<Rightarrow> (snd response, s'))"

text \<open>
  Both range reads spawn the call, wait for a download permit inside the task, and
  record the outcome unless the task itself cannot be joined.
\<close>

definition get_spawned :: "'s ContentStore \<Rightarrow> string \<Rightarrow> get_range \<Rightarrow> ('s, bytes) csop" where
  "get_spawned cs path rng =
     cs_bind (check_circuit cs) (\<lambda>_ w.
       if \<not> os_joined (object_store cs) (remote w) then (Inl (ObjectStoreError OsOther), w)
       else (case issue cs (if download_semaphore cs = Some False then (\<lambda>s. (Inl OsOther, s))
                            else get_body (object_store cs) path rng) w of
               (r, w') \<Rightarrow> (map_error r, w')))"

definition get_range_from_key :: "'s ContentStore \<Rightarrow> string \<Rightarrow> u32 \<Rightarrow> u32 \<Rightarrow> ('s, bytes) csop" where
  "get_range_from_key cs key off cl =
     get_spawned cs (os_path (object_store cs) key) (Bounded (unat off) (unat off + unat cl))"

definition get_suffix_from_key :: "'s ContentStore \<Rightarrow> string \<Rightarrow> nat \<Rightarrow> ('s, bytes) csop" where
  "get_suffix_from_key cs key suffix_len =
     get_spawned cs (os_path (object_store cs) key) (Suffix suffix_len)"

section \<open>Sidecars and listings\<close>

definition list_chunk_packs :: "'s ContentStore \<Rightarrow> u32 \<Rightarrow> ('s, string list) csop" where
  "list_chunk_packs cs chunk_idx =
     list_under cs (''chunks/'' @ fmt_pad 10 4 (unat chunk_idx) @ ''/'')
       (\<lambda>location. if ends_with (path_filename location) ''.pack'' then [path_filename location] else [])"

definition put_sidecar :: "'s ContentStore \<Rightarrow> string \<Rightarrow> string \<Rightarrow> bytes \<Rightarrow> ('s, unit) csop" where
  "put_sidecar cs name suffix data =
     checked cs (os_put (object_store cs) (cs_key cs (''manifests/bases/'' @ name @ suffix)) data Overwrite)
       (\<lambda>r. sum_bind (map_error r) (\<lambda>_. Inr ()))"

definition get_sidecar :: "'s ContentStore \<Rightarrow> string \<Rightarrow> string \<Rightarrow> ('s, bytes option) csop" where
  "get_sidecar cs name suffix =
     checked cs (os_get (object_store cs) (cs_key cs (''manifests/bases/'' @ name @ suffix)) WholeObject)
       (missing_ok None (\<lambda>response. sum_bind (body_of response) (\<lambda>body. Inr (Some body))))"

definition put_boot_set :: "'s ContentStore \<Rightarrow> string \<Rightarrow> bytes \<Rightarrow> ('s, unit) csop" where
  "put_boot_set cs name data = put_sidecar cs name ''.boot-set'' data"

definition get_boot_set :: "'s ContentStore \<Rightarrow> string \<Rightarrow> ('s, bytes option) csop" where
  "get_boot_set cs name = get_sidecar cs name ''.boot-set''"

definition put_boot_set_meta :: "'s ContentStore \<Rightarrow> string \<Rightarrow> bytes \<Rightarrow> ('s, unit) csop" where
  "put_boot_set_meta cs name data = put_sidecar cs name ''.boot-set.meta'' data"

definition get_boot_set_meta :: "'s ContentStore \<Rightarrow> string \<Rightarrow> ('s, bytes option) csop" where
  "get_boot_set_meta cs name = get_sidecar cs name ''.boot-set.meta''"

definition put_runspec :: "'s ContentStore \<Rightarrow> string \<Rightarrow> bytes \<Rightarrow> ('s, unit) csop" where
  "put_runspec cs name data = put_sidecar cs name ''.runspec'' data"

definition get_runspec :: "'s ContentStore \<Rightarrow> string \<Rightarrow> ('s, bytes option) csop" where
  "get_runspec cs name = get_sidecar cs name ''.runspec''"

definition manifest_name :: "string \<Rightarrow> string \<Rightarrow> string list" where
  "manifest_name prefix_str path_str =
     (case strip_prefix prefix_str path_str of
        None \<Rightarrow> []
      | Some relative \<Rightarrow>
          if ends_with relative ''.hot-set'' \<or> ends_with relative ''.boot-set''
             \<or> ends_with relative ''.boot-set.meta'' \<or> ends_with relative ''.runspec'' then []
          else if relative \<noteq> [] then [relative] else [])"

definition list_all_manifests :: "'s ContentStore \<Rightarrow> ('s, string list) csop" where
  "list_all_manifests cs = list_under cs ''manifests/'' (manifest_name (base_path cs @ ''/manifests/''))"

section \<open>Packs\<close>

definition pack_path :: "'s ContentStore \<Rightarrow> u32 \<Rightarrow> PackId \<Rightarrow> string" where
  "pack_path cs chunk_idx pack_id =
     os_path (object_store cs) (chunk_pack_key (base_path cs) chunk_idx pack_id)"

definition head_chunk_pack :: "'s ContentStore \<Rightarrow> u32 \<Rightarrow> PackId \<Rightarrow> ('s, bool) csop" where
  "head_chunk_pack cs chunk_idx pack_id =
     checked cs (os_head (object_store cs) (pack_path cs chunk_idx pack_id)) (missing_ok False (\<lambda>_. Inr True))"

definition put_chunk_pack :: "'s ContentStore \<Rightarrow> u32 \<Rightarrow> PackId \<Rightarrow> bytes \<Rightarrow> ('s, unit) csop" where
  "put_chunk_pack cs chunk_idx pack_id data =
     cs_bind (check_circuit cs) (\<lambda>_ w.
       if upload_semaphore cs = Some False then (Inl SemaphoreClosed, w)
       else (case issue cs (os_put (object_store cs) (pack_path cs chunk_idx pack_id) data Overwrite) w of
               (r, w') \<Rightarrow> (sum_bind (map_error r) (\<lambda>_. Inr ()), w')))"

definition MULTIPART_CUTOFF :: nat where "MULTIPART_CUTOFF = 5 * 1024 * 1024"

definition estimated_size :: "pack_block list \<Rightarrow> nat" where
  "estimated_size blocks =
     PACK_HEADER_SIZE + sum_list (map (\<lambda>(_, _, c). length c) blocks)
     + length blocks * PACK_INDEX_ENTRY_SIZE + TRAILER_SIZE"

definition put_small_pack :: "'s ContentStore \<Rightarrow> string \<Rightarrow> pack_block list \<Rightarrow> u32 \<Rightarrow> ('s, PackIndexEntry list) csop" where
  "put_small_pack cs path blocks chunk_size w =
     (case assemble_pack blocks chunk_size of
        Inl e \<Rightarrow> (Inl (ObjectStoreError OsOther), w)
      | Inr (pack_bytes, es) \<Rightarrow>
          if upload_semaphore cs = Some False then (Inl SemaphoreClosed, w)
          else (case os_put (object_store cs) path pack_bytes Create (remote w) of
                  (result, s) \<Rightarrow>
                    let w1 = w\<lparr> remote := s \<rparr>
                    in (case result of
                          Inr _ \<Rightarrow> (Inr es, record_s3_result cs result w1)
                        | Inl e \<Rightarrow>
                            if e = OsAlreadyExists then (Inr es, cb_success cs w1)
                            else (Inl (from_os_error e), record_s3_result cs result w1))))"

definition put_large_pack :: "'s ContentStore \<Rightarrow> string \<Rightarrow> pack_block list \<Rightarrow> u32 \<Rightarrow> ('s, PackIndexEntry list) csop" where
  "put_large_pack cs path blocks chunk_size w =
     (case issue cs (os_multipart (object_store cs) path) w of
        (Inl e, w1) \<Rightarrow> (Inl (from_os_error e), w1)
      | (Inr _, w1) \<Rightarrow>
          let env = os_upload (object_store cs) path (remote w1)
          in (case stream_pack_to_writer env blocks chunk_size (new_with_part_size PART_SIZE) of
                Some (Inr (es, writer)) \<Rightarrow>
                  (let outcome = fst (finish env writer);
                       finish_result = (case outcome of
                           Inl _ \<Rightarrow> Inl (os_upload_error (object_store cs) path (remote w1)) | Inr _ \<Rightarrow> Inr ());
                       w2 = record_s3_result cs finish_result
                              (w1\<lparr> remote := os_settle (object_store cs) path outcome (remote w1) \<rparr>)
                   in (case finish_result of Inl e \<Rightarrow> (Inl (from_os_error e), w2) | Inr _ \<Rightarrow> (Inr es, w2)))
              | _ \<Rightarrow> (Inl (ObjectStoreError OsOther), w1)))"

definition stream_chunk_pack :: "'s ContentStore \<Rightarrow> u32 \<Rightarrow> PackId \<Rightarrow> pack_block list \<Rightarrow> u32 \<Rightarrow> ('s, PackIndexEntry list) csop" where
  "stream_chunk_pack cs chunk_idx pack_id blocks chunk_size =
     cs_bind (check_circuit cs) (\<lambda>_.
       let path = pack_path cs chunk_idx pack_id
       in if estimated_size blocks < MULTIPART_CUTOFF then put_small_pack cs path blocks chunk_size
          else put_large_pack cs path blocks chunk_size)"

definition get_chunk_block :: "'s ContentStore \<Rightarrow> u32 \<Rightarrow> PackId \<Rightarrow> u32 \<Rightarrow> u32 \<Rightarrow> ('s, bytes) csop" where
  "get_chunk_block cs chunk_idx pack_id off cl =
     get_range_from_key cs (chunk_pack_key (base_path cs) chunk_idx pack_id) off cl"

definition INITIAL_SUFFIX :: nat where "INITIAL_SUFFIX = 16 * 1024"

definition precise_suffix :: "bytes \<Rightarrow> nat" where
  "precise_suffix data =
     (let trailer_start = length data - TRAILER_SIZE;
          block_count = unat (from_le_bytes (bslice trailer_start (trailer_start + 2) data) :: u16)
      in block_count * PACK_INDEX_ENTRY_SIZE + TRAILER_SIZE)"

text \<open>The parser never panics (\<open>Pack\<close>), so its outer \<open>None\<close> does not arise.\<close>

definition get_pack_index :: "'s ContentStore \<Rightarrow> u32 \<Rightarrow> PackId \<Rightarrow> ('s, PackIndexEntry list) csop" where
  "get_pack_index cs chunk_idx pack_id =
     (let key = chunk_pack_key (base_path cs) chunk_idx pack_id
      in cs_bind (get_suffix_from_key cs key INITIAL_SUFFIX) (\<lambda>data.
           case parse_pack_index data of
             Some (Inr index) \<Rightarrow> (\<lambda>w. (Inr (entries index), w))
           | Some (Inl SuffixTooSmall) \<Rightarrow>
               (if length data < TRAILER_SIZE then (\<lambda>w. (Inl (ObjectStoreError OsOther), w))
                else cs_bind (get_suffix_from_key cs key (precise_suffix data)) (\<lambda>data2 w.
                       case parse_pack_index data2 of
                         Some (Inr index) \<Rightarrow> (Inr (entries index), w)
                       | _ \<Rightarrow> (Inl (ObjectStoreError OsOther), w)))
           | _ \<Rightarrow> (\<lambda>w. (Inl (ObjectStoreError OsOther), w))))"

definition delete_chunk_pack :: "'s ContentStore \<Rightarrow> u32 \<Rightarrow> PackId \<Rightarrow> ('s, unit) csop" where
  "delete_chunk_pack cs chunk_idx pack_id =
     checked cs (os_delete (object_store cs) (pack_path cs chunk_idx pack_id)) (missing_ok () Inr)"

section \<open>All operations\<close>

datatype cs_op =
    PutManifest string bytes "string option" | DeleteManifest string | HeadManifest string | GetManifest string
  | PutSnapshot string u64 bytes | GetSnapshot string u64 | DeleteSnapshot string u64
  | ListSnapshots string | DeleteAllSnapshots string | ListChunkPacks u32 | ListAllManifests
  | PutSidecar string string bytes | GetSidecar string string
  | HeadChunkPack u32 PackId | PutChunkPack u32 PackId bytes | StreamChunkPack u32 PackId "pack_block list" u32
  | GetChunkBlock u32 PackId u32 u32 | GetPackIndex u32 PackId | DeleteChunkPack u32 PackId

definition outcome :: "(ContentStoreError + 'a) \<times> 's world \<Rightarrow> ContentStoreError option \<times> 's world" where
  "outcome r = (case r of (Inl e, w) \<Rightarrow> (Some e, w) | (Inr _, w) \<Rightarrow> (None, w))"

fun cs_exec :: "'s ContentStore \<Rightarrow> cs_op \<Rightarrow> 's world \<Rightarrow> ContentStoreError option \<times> 's world" where
  "cs_exec cs (PutManifest n d t) w = outcome (put_manifest cs n d t w)"
| "cs_exec cs (DeleteManifest n) w = outcome (delete_manifest cs n w)"
| "cs_exec cs (HeadManifest n) w = outcome (head_manifest cs n w)"
| "cs_exec cs (GetManifest n) w = outcome (get_manifest cs n w)"
| "cs_exec cs (PutSnapshot n q d) w = outcome (put_snapshot cs n q d w)"
| "cs_exec cs (GetSnapshot n q) w = outcome (get_snapshot cs n q w)"
| "cs_exec cs (DeleteSnapshot n q) w = outcome (delete_snapshot cs n q w)"
| "cs_exec cs (ListSnapshots n) w = outcome (list_snapshots cs n w)"
| "cs_exec cs (DeleteAllSnapshots n) w = outcome (delete_all_snapshots cs n w)"
| "cs_exec cs (ListChunkPacks c) w = outcome (list_chunk_packs cs c w)"
| "cs_exec cs ListAllManifests w = outcome (list_all_manifests cs w)"
| "cs_exec cs (PutSidecar n q d) w = outcome (put_sidecar cs n q d w)"
| "cs_exec cs (GetSidecar n q) w = outcome (get_sidecar cs n q w)"
| "cs_exec cs (HeadChunkPack c p) w = outcome (head_chunk_pack cs c p w)"
| "cs_exec cs (PutChunkPack c p d) w = outcome (put_chunk_pack cs c p d w)"
| "cs_exec cs (StreamChunkPack c p bs z) w = outcome (stream_chunk_pack cs c p bs z w)"
| "cs_exec cs (GetChunkBlock c p a l) w = outcome (get_chunk_block cs c p a l w)"
| "cs_exec cs (GetPackIndex c p) w = outcome (get_pack_index cs c p w)"
| "cs_exec cs (DeleteChunkPack c p) w = outcome (delete_chunk_pack cs c p w)"

fun cs_run :: "'s ContentStore \<Rightarrow> cs_op list \<Rightarrow> 's world \<Rightarrow> ContentStoreError option list \<times> 's world" where
  "cs_run cs [] w = ([], w)"
| "cs_run cs (op # ops) w =
     (case cs_exec cs op w of (r, w1) \<Rightarrow> case cs_run cs ops w1 of (rs, w2) \<Rightarrow> (r # rs, w2))"

section \<open>The breaker in front of the store\<close>

lemma unpack_state: "word_state w = s \<Longrightarrow> \<exists>f p t. unpack w = (s, f, p, t)"
  by (cases "unpack w") (simp add: word_state_def)

lemma allow_two_rounds: "\<exists>r. allow_rounds 2 cfg now b = Some r"
proof (cases "allow_iter cfg now (state_word b)")
  case (Swap w r)
  show ?thesis
  proof (cases r)
    case None
    then have w: "w = pack STATE_HALF_OPEN 0 (ucast (half_open_permits cfg)) now"
      using Swap by (auto simp: allow_iter_def Let_def split: prod.splits if_splits)
    have "\<exists>r. allow_rounds (Suc 0) cfg now (b\<lparr> state_word := w \<rparr>) = Some r"
      unfolding w by (simp add: allow_iter_def unpack_pack) blast
    then show ?thesis using Swap None by (simp add: allow_rounds_2)
  qed (simp add: allow_rounds_2 Swap)
qed (simp add: allow_rounds_2)

definition calm_circuit :: "'s world \<Rightarrow> bool" where
  "calm_circuit w \<longleftrightarrow> (\<forall>b. circuit w = Some b \<longrightarrow> word_state (state_word b) = STATE_CLOSED)"

lemma allow_closed:
  "word_state (state_word b) = STATE_CLOSED \<Longrightarrow> allow_rounds 2 cfg now b = Some (True, b)"
  by (drule unpack_state) (auto simp: allow_rounds_2 allow_iter_def)

lemma check_calm: "calm_circuit w \<Longrightarrow> check_circuit cs w = (Inr (), w)"
  by (cases "circuit w") (simp_all add: check_circuit_def calm_circuit_def allow_closed)

lemma success_closed:
  "word_state (state_word b) = STATE_CLOSED \<Longrightarrow> word_state (state_word (record_success now b)) = STATE_CLOSED"
proof -
  assume "word_state (state_word b) = STATE_CLOSED"
  then obtain f p t where u: "unpack (state_word b) = (STATE_CLOSED, f, p, t)" using unpack_state by blast
  show ?thesis
  proof (cases "f = 0")
    case True
    then show ?thesis by (simp add: record_success_def u word_state_def)
  next
    case False
    then have "state_word (record_success now b) = pack STATE_CLOSED 0 0 now"
      by (simp add: record_success_def success_iter_def u)
    then show ?thesis by (simp add: word_state_def unpack_pack)
  qed
qed

lemma calm_success: "calm_circuit w \<Longrightarrow> calm_circuit (cb_success cs w)"
  by (auto simp: calm_circuit_def cb_success_def success_closed)

lemma cs_success_remote [simp]:
  "remote (cb_success cs w) = remote w" "remote (cb_failure cs w) = remote w"
  "remote (record_s3_result cs r w) = remote w"
  by (auto simp: cb_success_def cb_failure_def record_s3_result_def split: sum.splits)

lemma calm_remote [simp]: "calm_circuit (w\<lparr> remote := s \<rparr>) = calm_circuit w"
  by (simp add: calm_circuit_def)

definition polite :: "os_error + 'a \<Rightarrow> bool" where
  "polite r = (case r of Inl e \<Rightarrow> \<not> is_connectivity_error e | Inr _ \<Rightarrow> True)"

lemma polite_simps [simp]: "polite (Inr a)" "polite (Inl e) = (\<not> is_connectivity_error e)"
  by (simp_all add: polite_def)

lemma calm_record: "\<lbrakk> calm_circuit w; polite r \<rbrakk> \<Longrightarrow> calm_circuit (record_s3_result cs r w)"
  by (cases r) (simp_all add: record_s3_result_def calm_success)

text \<open>A store that answers every request: no call fails with a connectivity error.\<close>

definition answers :: "'s object_store \<Rightarrow> bool" where
  "answers os \<longleftrightarrow>
     (\<forall>p d m s. polite (fst (os_put os p d m s)))
   \<and> (\<forall>p r s. polite (fst (os_get os p r s)) \<and> polite (fst (get_body os p r s)))
   \<and> (\<forall>p s. polite (fst (os_head os p s))) \<and> (\<forall>p s. polite (fst (os_delete os p s)))
   \<and> (\<forall>p s. \<forall>r\<in>set (fst (os_list os p s)). polite r)
   \<and> (\<forall>p s. polite (fst (os_multipart os p s))) \<and> (\<forall>p s. \<not> is_connectivity_error (os_upload_error os p s))"

definition stays_calm :: "('s, 'a) csop \<Rightarrow> bool" where
  "stays_calm m \<longleftrightarrow> (\<forall>w. calm_circuit w \<longrightarrow> calm_circuit (snd (m w)) \<and> fst (m w) \<noteq> Inl CircuitOpen)"

lemma stays_calm_bind: "\<lbrakk> stays_calm m; \<And>a. stays_calm (f a) \<rbrakk> \<Longrightarrow> stays_calm (cs_bind m f)"
  by (fastforce simp: stays_calm_def cs_bind_def split: prod.splits sum.splits)

lemma stays_calm_check [simp]: "stays_calm (check_circuit cs)"
  by (simp add: stays_calm_def check_calm)

lemma from_os_error_not_open [simp]: "from_os_error e \<noteq> CircuitOpen"
  by (simp add: from_os_error_def)

lemma map_error_not_open [simp]: "map_error r \<noteq> Inl CircuitOpen"
  by (simp add: map_error_def split: sum.splits)

lemma missing_ok_not_open: "(\<And>a. f a \<noteq> Inl CircuitOpen) \<Longrightarrow> missing_ok d f r \<noteq> Inl CircuitOpen"
  by (simp add: missing_ok_def split: sum.splits)

lemma body_of_not_open [simp]: "body_of b \<noteq> Inl CircuitOpen"
  by (simp add: body_of_def)

lemma issue_calm:
  "\<lbrakk> calm_circuit w; \<And>s. polite (fst (req s)) \<rbrakk> \<Longrightarrow> calm_circuit (snd (issue cs req w))"
  by (simp add: issue_def case_prod_beta calm_record)

lemma stays_calm_checked:
  "\<lbrakk> \<And>s. polite (fst (req s)); \<And>r. f r \<noteq> Inl CircuitOpen \<rbrakk> \<Longrightarrow> stays_calm (checked cs req f)"
  unfolding checked_def
  by (rule stays_calm_bind [OF stays_calm_check]) (auto simp: stays_calm_def case_prod_beta intro: issue_calm)

lemma calm_list_loop:
  "\<lbrakk> calm_circuit w; \<forall>r\<in>set rs. polite r \<rbrakk> \<Longrightarrow>
   calm_circuit (snd (list_loop cs f rs w)) \<and> fst (list_loop cs f rs w) \<noteq> Inl CircuitOpen"
proof (induction rs arbitrary: w)
  case (Cons r rs)
  then show ?case
  proof (cases r)
    case (Inl e)
    then show ?thesis using Cons(2,3) by (simp add: record_s3_list_error_def calm_success)
  next
    case (Inr l)
    have "calm_circuit (snd (list_loop cs f rs w)) \<and> fst (list_loop cs f rs w) \<noteq> Inl CircuitOpen"
      using Cons by simp
    then show ?thesis using Inr by (auto split: prod.splits sum.splits)
  qed
qed (simp add: calm_success)

lemma stays_calm_list:
  fixes cs :: "'s ContentStore"
  shows "answers (object_store cs) \<Longrightarrow> stays_calm (list_under cs rel f)"
  unfolding list_under_def
proof (rule stays_calm_bind)
  fix u :: unit
  assume a: "answers (object_store cs)"
  show "stays_calm (\<lambda>w. case os_list (object_store cs) (cs_key cs rel) (remote w) of
          (rs, s) \<Rightarrow> list_loop cs f rs (w\<lparr>remote := s\<rparr>))"
    unfolding stays_calm_def
  proof (intro allI impI)
    fix w :: "'s world" assume c: "calm_circuit w"
    obtain rs s where o: "os_list (object_store cs) (cs_key cs rel) (remote w) = (rs, s)" by force
    then have "\<forall>r\<in>set rs. polite r" using a unfolding answers_def by (metis fst_conv)
    then show "calm_circuit (snd (case os_list (object_store cs) (cs_key cs rel) (remote w) of
                  (rs, s) \<Rightarrow> list_loop cs f rs (w\<lparr>remote := s\<rparr>)))
            \<and> fst (case os_list (object_store cs) (cs_key cs rel) (remote w) of
                  (rs, s) \<Rightarrow> list_loop cs f rs (w\<lparr>remote := s\<rparr>)) \<noteq> Inl CircuitOpen"
      using calm_list_loop [of "w\<lparr>remote := s\<rparr>" rs cs f] c o by simp
  qed
qed simp

lemma delete_each_calm:
  "\<lbrakk> answers (object_store cs); calm_circuit w \<rbrakk> \<Longrightarrow> calm_circuit (delete_each cs rs w)"
proof (induction cs rs w rule: delete_each.induct)
  case (3 cs location rs w)
  then show ?case by (simp add: issue_calm answers_def)
qed simp_all

lemma stays_calm_delete_all: "answers (object_store cs) \<Longrightarrow> stays_calm (delete_all_snapshots cs name)"
  unfolding delete_all_snapshots_def
  by (rule stays_calm_bind [OF stays_calm_check])
    (auto simp: stays_calm_def case_prod_beta intro!: delete_each_calm)

lemma answers_get_body: "answers os \<Longrightarrow> polite (fst (get_body os p r s))"
  by (simp add: answers_def)

lemma stays_calm_spawned:
  fixes cs :: "'s ContentStore"
  assumes "answers (object_store cs)" "download_semaphore cs \<noteq> Some False"
  shows "stays_calm (get_spawned cs p r)"
  unfolding get_spawned_def
proof (rule stays_calm_bind [OF stays_calm_check])
  show "stays_calm (\<lambda>w. if \<not> os_joined (object_store cs) (remote w) then (Inl (ObjectStoreError OsOther), w)
         else (case issue cs (if download_semaphore cs = Some False then \<lambda>s. (Inl OsOther, s)
                              else get_body (object_store cs) p r) w of
                 (r, w') \<Rightarrow> (map_error r, w')))"
    using assms by (auto simp: stays_calm_def case_prod_beta intro: issue_calm answers_get_body)
qed

lemma stays_calm_return: "r \<noteq> Inl CircuitOpen \<Longrightarrow> stays_calm (\<lambda>w. (r, w))"
  by (simp add: stays_calm_def)

lemma stays_calm_index:
  assumes "answers (object_store cs)" "download_semaphore cs \<noteq> Some False"
  shows "stays_calm (get_pack_index cs c p)"
proof -
  have read: "stays_calm (get_suffix_from_key cs k n)" for k n
    unfolding get_suffix_from_key_def by (rule stays_calm_spawned [OF assms])
  have parse: "stays_calm (\<lambda>w. case parse_pack_index d of
        Some (Inr index) \<Rightarrow> (Inr (entries index), w) | _ \<Rightarrow> (Inl (ObjectStoreError OsOther), w))" for d
    by (auto simp: stays_calm_def split: option.splits sum.splits)
  show ?thesis
    unfolding get_pack_index_def Let_def
    by (intro stays_calm_bind read)
      (auto intro!: stays_calm_bind read parse stays_calm_return split: option.splits sum.splits pack_error.splits)
qed

lemma stays_calm_put_small:
  fixes cs :: "'s ContentStore"
  shows "answers (object_store cs) \<Longrightarrow> stays_calm (put_small_pack cs p bs z)"
  unfolding stays_calm_def
proof (intro allI impI)
  fix w :: "'s world" assume a: "answers (object_store cs)" and c: "calm_circuit w"
  show "calm_circuit (snd (put_small_pack cs p bs z w)) \<and> fst (put_small_pack cs p bs z w) \<noteq> Inl CircuitOpen"
  proof (cases "assemble_pack bs z")
    case (Inr r)
    obtain d es where r: "r = (d, es)" by force
    obtain res s where put: "os_put (object_store cs) p d Create (remote w) = (res, s)" by force
    then have "polite res" using a unfolding answers_def by (metis fst_conv)
    then show ?thesis using Inr r put c
      by (auto simp: put_small_pack_def Let_def calm_record calm_success split: sum.splits)
  qed (simp add: put_small_pack_def c)
qed

lemma stays_calm_put_large:
  fixes cs :: "'s ContentStore"
  shows "answers (object_store cs) \<Longrightarrow> stays_calm (put_large_pack cs p bs z)"
  unfolding stays_calm_def
proof (intro allI impI)
  fix w :: "'s world" assume a: "answers (object_store cs)" and c: "calm_circuit w"
  obtain r w1 where i: "issue cs (os_multipart (object_store cs) p) w = (r, w1)" by force
  have c1: "calm_circuit w1"
    using issue_calm [OF c, of "os_multipart (object_store cs) p" cs] a i by (simp add: answers_def)
  show "calm_circuit (snd (put_large_pack cs p bs z w)) \<and> fst (put_large_pack cs p bs z w) \<noteq> Inl CircuitOpen"
    using a c1
    by (auto simp: put_large_pack_def i Let_def answers_def intro!: calm_record
        split: sum.splits option.splits)
qed

lemma stays_calm_stream: "answers (object_store cs) \<Longrightarrow> stays_calm (stream_chunk_pack cs c p bs z)"
  unfolding stream_chunk_pack_def
  by (rule stays_calm_bind [OF stays_calm_check]) (simp add: Let_def stays_calm_put_small stays_calm_put_large)

lemma stays_calm_put: "answers (object_store cs) \<Longrightarrow> stays_calm (put_chunk_pack cs c p d)"
  unfolding put_chunk_pack_def
  by (rule stays_calm_bind [OF stays_calm_check])
    (auto simp: stays_calm_def case_prod_beta answers_def sum_bind_eq_Inl intro: issue_calm)

lemma outcome_calm:
  "\<lbrakk> stays_calm m; calm_circuit w \<rbrakk> \<Longrightarrow>
   calm_circuit (snd (outcome (m w))) \<and> fst (outcome (m w)) \<noteq> Some CircuitOpen"
  by (cases "m w") (force simp: stays_calm_def outcome_def split: sum.splits)

lemmas simple_ops =
  put_manifest_def delete_manifest_def head_manifest_def get_manifest_def put_snapshot_def get_snapshot_def
  delete_snapshot_def put_sidecar_def get_sidecar_def head_chunk_pack_def delete_chunk_pack_def

lemma stays_calm_simple:
  assumes "answers (object_store cs)"
  shows "stays_calm (put_manifest cs n d t)" "stays_calm (delete_manifest cs n)" "stays_calm (head_manifest cs n)"
    "stays_calm (get_manifest cs n)" "stays_calm (put_snapshot cs n q d)" "stays_calm (get_snapshot cs n q)"
    "stays_calm (delete_snapshot cs n q)" "stays_calm (put_sidecar cs n x d)" "stays_calm (get_sidecar cs n x)"
    "stays_calm (head_chunk_pack cs c p)" "stays_calm (delete_chunk_pack cs c p)"
  using assms unfolding simple_ops Let_def
  by (auto intro!: stays_calm_checked missing_ok_not_open simp: answers_def sum_bind_eq_Inl)

lemma exec_calm:
  assumes "answers (object_store cs)" "download_semaphore cs \<noteq> Some False" "calm_circuit w"
  shows "calm_circuit (snd (cs_exec cs op w)) \<and> fst (cs_exec cs op w) \<noteq> Some CircuitOpen"
proof -
  have list: "stays_calm (list_snapshots cs n)" "stays_calm (list_chunk_packs cs c)"
      "stays_calm (list_all_manifests cs)" for n c
    unfolding list_snapshots_def list_chunk_packs_def list_all_manifests_def
    by (intro stays_calm_bind stays_calm_list assms stays_calm_return; simp)+
  have block: "stays_calm (get_chunk_block cs c p a l)" for c p a l
    unfolding get_chunk_block_def get_range_from_key_def by (rule stays_calm_spawned [OF assms(1,2)])
  show ?thesis
    by (cases op) (simp_all add: outcome_calm [OF _ assms(3)] stays_calm_simple [OF assms(1)] list block
        stays_calm_index [OF assms(1,2)] stays_calm_put [OF assms(1)] stays_calm_stream [OF assms(1)]
        stays_calm_delete_all [OF assms(1)])
qed

text \<open>
  C14: answers from the store never trip the breaker.  As long as no request fails with a
  connectivity error (not-found, precondition and the other regular answers are
  fine), every sequence of operations of the content store leaves the breaker
  closed, and none of them is refused by it.
\<close>
theorem answering_store_never_refused:
  assumes "answers (object_store cs)" "download_semaphore cs \<noteq> Some False" "calm_circuit w"
  shows "Some CircuitOpen \<notin> set (fst (cs_run cs ops w)) \<and> calm_circuit (snd (cs_run cs ops w))"
  using assms(3)
proof (induction ops arbitrary: w)
  case (Cons op ops)
  obtain r w1 where e: "cs_exec cs op w = (r, w1)" by force
  then have "calm_circuit w1" "r \<noteq> Some CircuitOpen"
    using exec_calm [OF assms(1,2) Cons(2), of op] by simp_all
  then show ?case using Cons(1) [of w1] e by (auto simp: case_prod_beta)
qed simp

section \<open>An in-memory store\<close>

text \<open>
  An ordered map of objects, as a concrete store for the examples: it keeps no entity
  tags, so a conditional update always fails its precondition.
\<close>

definition sub_object :: "get_range \<Rightarrow> bytes \<Rightarrow> bytes" where
  "sub_object r d = (case r of WholeObject \<Rightarrow> d | Bounded a b \<Rightarrow> bslice a b d | Suffix n \<Rightarrow> drop (length d - n) d)"

definition in_object :: "get_range \<Rightarrow> bytes \<Rightarrow> bool" where
  "in_object r d = (case r of WholeObject \<Rightarrow> True | Bounded a b \<Rightarrow> a < b \<and> b \<le> length d | Suffix n \<Rightarrow> 0 < n)"

definition keys_under :: "string \<Rightarrow> (string, bytes) btree \<Rightarrow> string list" where
  "keys_under prefix m = filter (\<lambda>k. strip_prefix (prefix @ ''/'') k \<noteq> None) (remdups (map fst m))"

definition mem_store :: "(string, bytes) btree object_store" where
  "mem_store =
     \<lparr> os_path = trim_end_slashes,
       os_put = (\<lambda>p d m s. case m of
          Overwrite \<Rightarrow> (Inr None, bt_insert p d s)
        | Create \<Rightarrow> if bt_get s p = None then (Inr None, bt_insert p d s) else (Inl OsAlreadyExists, s)
        | UpdateTag t \<Rightarrow> (Inl OsPrecondition, s)),
       os_get = (\<lambda>p r s. case bt_get s p of
          None \<Rightarrow> (Inl OsNotFound, s)
        | Some d \<Rightarrow> if in_object r d then (Inr (None, Inr (sub_object r d)), s) else (Inl OsNotSupported, s)),
       os_head = (\<lambda>p s. (if bt_get s p = None then Inl OsNotFound else Inr (), s)),
       os_delete = (\<lambda>p s. if bt_get s p = None then (Inl OsNotFound, s) else (Inr (), bt_remove p s)),
       os_list = (\<lambda>p s. (map Inr (keys_under p s), s)),
       os_list_with_offset = (\<lambda>p off s. (map Inr (filter (\<lambda>k. off < k) (keys_under p s)), s)),
       os_multipart = (\<lambda>p s. (Inr (), s)),
       os_upload = (\<lambda>p s. \<lparr> part_ok = (\<lambda>_. True), joined = (\<lambda>_. []), complete_ok = True \<rparr>),
       os_upload_error = (\<lambda>p s. OsNotSupported),
       os_settle = (\<lambda>p r s. case r of Inl _ \<Rightarrow> s | Inr d \<Rightarrow> bt_insert p d s),
       os_joined = (\<lambda>s. True),
       os_clock = (\<lambda>s. 100) \<rparr>"

definition mem_cs :: "(string, bytes) btree ContentStore" where
  "mem_cs = cs_new mem_store ''vol/'' default_config"

definition mem_world :: "(string, bytes) btree world" where
  "mem_world = \<lparr> remote = [], circuit = Some (with_clock 7) \<rparr>"

lemma mem_cs_fields [simp]:
  "object_store mem_cs = mem_store" "base_path mem_cs = ''vol''" "cb_config mem_cs = default_config"
  "upload_semaphore mem_cs = None" "download_semaphore mem_cs = None"
  by (simp_all add: mem_cs_def cs_new_def trim_end_slashes_def)

lemma mem_store_answers: "answers mem_store"
  by (auto simp: answers_def mem_store_def get_body_def polite_def is_connectivity_error_def
      split: put_mode.splits option.splits)

lemma mem_world_calm: "calm_circuit mem_world"
  by (simp add: calm_circuit_def mem_world_def with_clock_def word_state_def unpack_pack)

theorem answering_store_never_refused_witness:
  "Some CircuitOpen \<notin> set (fst (cs_run mem_cs
        [PutManifest ''a'' [1] (Some ''tag''), GetManifest ''b'', HeadChunkPack 0 1] mem_world))"
  using answering_store_never_refused [of mem_cs mem_world "[PutManifest ''a'' [1] (Some ''tag''), GetManifest ''b'', HeadChunkPack 0 1]"]
    mem_store_answers mem_world_calm by simp

section \<open>An open breaker\<close>

definition refusing :: "'s ContentStore \<Rightarrow> 's world \<Rightarrow> bool" where
  "refusing cs w \<longleftrightarrow> (\<exists>b. circuit w = Some b \<and> word_state (state_word b) = STATE_OPEN
     \<and> cs_now cs w - snd (snd (snd (unpack (state_word b)))) < reset_timeout (cb_config cs))"

lemma check_refusing: "refusing cs w \<Longrightarrow> check_circuit cs w = (Inl CircuitOpen, w)"
proof -
  assume "refusing cs w"
  then obtain b f p t where b: "circuit w = Some b" "unpack (state_word b) = (STATE_OPEN, f, p, t)"
      "cs_now cs w - t < reset_timeout (cb_config cs)"
    unfolding refusing_def by (metis snd_conv unpack_state)
  then have "\<not> reset_timeout (cb_config cs) \<le> cs_now cs w - t" by (simp add: not_le)
  then have "allow_rounds 2 (cb_config cs) (cs_now cs w) b = Some (False, b)"
    using b(2) by (simp add: allow_rounds_2 allow_iter_def Let_def)
  then show ?thesis using b(1) by (simp add: check_circuit_def)
qed

lemma bind_refusing: "refusing cs w \<Longrightarrow> cs_bind (check_circuit cs) f w = (Inl CircuitOpen, w)"
  by (simp add: cs_bind_def check_refusing)

lemma spawned_refusing: "refusing cs w \<Longrightarrow> get_spawned cs p r w = (Inl CircuitOpen, w)"
  unfolding get_spawned_def by (rule bind_refusing)

lemma exec_refusing: "refusing cs w \<Longrightarrow> cs_exec cs op w = (Some CircuitOpen, w)"
  by (cases op)
    (simp_all add: simple_ops checked_def bind_refusing spawned_refusing outcome_def list_snapshots_def
      list_chunk_packs_def list_all_manifests_def list_under_def delete_all_snapshots_def put_chunk_pack_def
      stream_chunk_pack_def get_chunk_block_def get_range_from_key_def get_pack_index_def get_suffix_from_key_def
      cs_bind_def [of "cs_bind _ _"] cs_bind_def [of "get_spawned _ _ _"] Let_def)

text \<open>
  an open breaker fails fast.  Until the reset timeout has elapsed every operation
  of the content store fails with \<open>CircuitOpen\<close> before it reaches the object store, so
  a run of any length leaves the store and the breaker as they were.
\<close>
theorem open_breaker_fails_fast:
  assumes "refusing cs w"
  shows "cs_run cs ops w = (replicate (length ops) (Some CircuitOpen), w)"
  by (induction ops) (simp_all add: exec_refusing [OF assms])

theorem open_breaker_fails_fast_witness:
  "cs_run mem_cs [PutManifest ''a'' [1] None, GetPackIndex 0 1] \<lparr> remote = [], circuit = Some (force_state Open 90 (with_clock 0)) \<rparr>
     = (replicate 2 (Some CircuitOpen), \<lparr> remote = [], circuit = Some (force_state Open 90 (with_clock 0)) \<rparr>)"
proof -
  have "refusing mem_cs \<lparr> remote = [], circuit = Some (force_state Open 90 (with_clock 0)) \<rparr>"
    by (simp add: refusing_def force_state_def word_state_def unpack_pack mem_store_def default_config_def)
  from open_breaker_fails_fast [OF this, of "[PutManifest ''a'' [1] None, GetPackIndex 0 1]"]
  show ?thesis by (simp add: numeral_2_eq_2)
qed

section \<open>Uploading and fetching a pack\<close>

text \<open>
  What the documentation of the object store promises of requests that succeed: \<open>obj\<close>
  reads the object under a key.  A create stores the object or reports that one
  exists, a range read returns those bytes of it, a suffix read the last ones, and a
  completed multipart upload is the concatenation of its parts.
\<close>

definition stores :: "'s object_store \<Rightarrow> ('s \<Rightarrow> string \<Rightarrow> bytes option) \<Rightarrow> bool" where
  "stores os obj \<longleftrightarrow>
     (\<forall>p d s. obj s p = None \<longrightarrow> (\<exists>t s'. os_put os p d Create s = (Inr t, s') \<and> obj s' = (obj s)(p \<mapsto> d)))
   \<and> (\<forall>p d s. obj s p \<noteq> None \<longrightarrow> (\<exists>s'. os_put os p d Create s = (Inl OsAlreadyExists, s') \<and> obj s' = obj s))
   \<and> (\<forall>p r s d. obj s p = Some d \<and> in_object r d \<longrightarrow>
        (\<exists>t s'. os_get os p r s = (Inr (t, Inr (sub_object r d)), s') \<and> obj s' = obj s))
   \<and> (\<forall>p s. \<exists>s'. os_multipart os p s = (Inr (), s') \<and> obj s' = obj s)
   \<and> (\<forall>p s. all_parts_ok (os_upload os p s) \<and> complete_ok (os_upload os p s))
   \<and> (\<forall>p d s. obj (os_settle os p (Inr d) s) = (obj s)(p \<mapsto> d))
   \<and> (\<forall>s. os_joined os s)"

lemma mem_store_stores: "stores mem_store bt_get"
  unfolding stores_def
  by (intro conjI) (auto simp: mem_store_def bt_get_insert all_parts_ok_def)

lemma issue_calm_eq:
  "\<lbrakk> calm_circuit w; req (remote w) = (r, s); polite r \<rbrakk> \<Longrightarrow>
   \<exists>w'. issue cs req w = (r, w') \<and> calm_circuit w' \<and> remote w' = s"
  by (simp add: issue_def calm_record)

lemma spawned_ok:
  assumes "stores (object_store cs) obj" "download_semaphore cs \<noteq> Some False" "calm_circuit w"
    and "obj (remote w) p = Some d" "in_object r d"
  shows "\<exists>w'. get_spawned cs p r w = (Inr (sub_object r d), w') \<and> calm_circuit w' \<and> obj (remote w') = obj (remote w)"
proof -
  obtain t s' where g: "os_get (object_store cs) p r (remote w) = (Inr (t, Inr (sub_object r d)), s')"
      "obj s' = obj (remote w)"
    using assms(1,4,5) unfolding stores_def by meson
  have "get_body (object_store cs) p r (remote w) = (Inr (sub_object r d), s')" by (simp add: get_body_def g)
  then obtain w' where "issue cs (get_body (object_store cs) p r) w = (Inr (sub_object r d), w')"
      "calm_circuit w'" "remote w' = s'"
    using issue_calm_eq [OF assms(3)] by (metis polite_simps(1))
  then show ?thesis
    using g(2) assms(1,2)
    by (simp add: get_spawned_def cs_bind_def check_calm [OF assms(3)] stores_def map_error_def)
qed

text \<open>The footer of a pack: reading back the trailer and the index from a suffix.\<close>

lemma suffix_of_footer:
  assumes "n \<ge> length es * 28 + 8" "count = of_nat (length es)"
  shows "\<exists>pre. drop (length (p @ concat (map entry_bytes es) @ pack_trailer count) - n)
      (p @ concat (map entry_bytes es) @ pack_trailer count) = pre @ concat (map entry_bytes es) @ pack_trailer count"
  using assms by (intro exI [of _ "drop (length p + length es * 28 + 8 - n) p"]) (simp add: mult.commute add.assoc)

lemma parse_too_small:
  assumes "unat count = n" "length x < n * 28" "n < 2 ^ 16"
  shows "parse_pack_index (x @ pack_trailer count) = Some (Inl SuffixTooSmall)"
proof -
  have t: "rust_slice (length x) (length x + 2) (x @ pack_trailer count) = Some (to_le_bytes count)"
      "rust_slice (length x + 4) (length x + 8) (x @ pack_trailer count) = Some TRAILER_MAGIC"
    by (simp_all add: rust_slice_def bslice_def pack_trailer_def TRAILER_MAGIC_def)
  show ?thesis
    using assms t by (simp add: parse_pack_index_def TRAILER_SIZE_def PACK_INDEX_ENTRY_SIZE_def Let_def)
qed

lemma precise_suffix_trailer:
  assumes "unat count = n"
  shows "precise_suffix (x @ pack_trailer count) = n * 28 + 8"
proof -
  have "bslice (length x) (length x + 2) (x @ pack_trailer count) = to_le_bytes count"
    by (simp add: bslice_def pack_trailer_def)
  then show ?thesis
    using assms by (simp add: precise_suffix_def Let_def TRAILER_SIZE_def PACK_INDEX_ENTRY_SIZE_def)
qed

lemma get_pack_index_ok:
  fixes cs :: "'s ContentStore"
  assumes st: "stores (object_store cs) obj" and sem: "download_semaphore cs \<noteq> Some False"
    and calm: "calm_circuit w"
    and asm: "assemble_pack blocks z = Inr (pk, es)" and ob: "obj (remote w) (pack_path cs c p) = Some pk"
  shows "\<exists>w'. get_pack_index cs c p w = (Inr es, w')"
proof -
  obtain count where cnt: "count_u16 (sort_key block_key blocks) = Some count"
      "index_entries (of_nat PACK_HEADER_SIZE) (sort_key block_key blocks) = Inr es"
    and pk: "pk = pack_header count z @ concat (map block_data (sort_key block_key blocks))
       @ concat (map entry_bytes es) @ pack_trailer count"
    using assemble_pack_cases [OF asm] by metis
  have len: "length es < 2 ^ 16" "count = of_nat (length es)"
    using cnt index_entries_length [OF cnt(2)] by (auto simp: count_u16_def split: if_splits)
  then have uc: "unat count = length es" by (simp add: unat_of_nat take_bit_nat_eq_self)
  define hd where "hd = pack_header count z @ concat (map block_data (sort_key block_key blocks))"
  have pk: "pk = hd @ concat (map entry_bytes es) @ pack_trailer count" using pk by (simp add: hd_def)
  define key where "key = os_path (object_store cs) (chunk_pack_key (base_path cs) c p)"
  have read: "\<exists>w'. get_suffix_from_key cs (chunk_pack_key (base_path cs) c p) n v
        = (Inr (drop (length pk - n) pk), w') \<and> calm_circuit w' \<and> obj (remote w') = obj (remote v)"
    if "calm_circuit v" "obj (remote v) = obj (remote w)" "0 < n" for n v
    using spawned_ok [OF st sem that(1), of _ pk "Suffix n"] that ob
    by (simp add: get_suffix_from_key_def sub_object_def in_object_def pack_path_def)
  obtain w1 where w1: "get_suffix_from_key cs (chunk_pack_key (base_path cs) c p) INITIAL_SUFFIX w
        = (Inr (drop (length pk - INITIAL_SUFFIX) pk), w1)" "calm_circuit w1" "obj (remote w1) = obj (remote w)"
    using read [OF calm refl, of INITIAL_SUFFIX] by (auto simp: INITIAL_SUFFIX_def)
  show ?thesis
  proof (cases "length es * 28 + 8 \<le> INITIAL_SUFFIX")
    case True
    then obtain pre where "drop (length pk - INITIAL_SUFFIX) pk = pre @ concat (map entry_bytes es) @ pack_trailer count"
      using suffix_of_footer [OF True len(2), of hd] pk by auto
    then show ?thesis
      using parse_footer [OF uc, of pre] w1(1) by (auto simp: get_pack_index_def cs_bind_def Let_def)
  next
    case False
    define x where "x = drop (length es * 28 + 8 - INITIAL_SUFFIX) (concat (map entry_bytes es))"
    have d: "drop (length pk - INITIAL_SUFFIX) pk = x @ pack_trailer count"
      using False by (simp add: pk x_def INITIAL_SUFFIX_def mult.commute)
    have lx: "length x < length es * 28"
      using False by (simp add: x_def INITIAL_SUFFIX_def mult.commute)
    have small: "parse_pack_index (x @ pack_trailer count) = Some (Inl SuffixTooSmall)"
      by (rule parse_too_small [OF uc lx len(1)])
    obtain w2 where w2: "get_suffix_from_key cs (chunk_pack_key (base_path cs) c p) (length es * 28 + 8) w1
        = (Inr (drop (length pk - (length es * 28 + 8)) pk), w2)"
      using read [OF w1(2,3), of "length es * 28 + 8"] by auto
    obtain pre where "drop (length pk - (length es * 28 + 8)) pk = pre @ concat (map entry_bytes es) @ pack_trailer count"
      using suffix_of_footer [OF order_refl len(2), of hd] unfolding pk by auto
    then have "\<exists>cs. parse_pack_index (drop (length pk - (length es * 28 + 8)) pk)
        = Some (Inr \<lparr> block_count = count, pi_chunk_size = cs, entries = es \<rparr>)"
      using parse_footer [OF uc, of pre] by simp
    then show ?thesis
      using w1(1) w2 small precise_suffix_trailer [OF uc, of x] d
      by (auto simp: get_pack_index_def cs_bind_def Let_def TRAILER_SIZE_def)
  qed
qed

lemma upload_ok:
  fixes cs :: "'s ContentStore"
  assumes st: "stores (object_store cs) obj" and sem: "upload_semaphore cs \<noteq> Some False"
    and calm: "calm_circuit w" and asm: "assemble_pack blocks z = Inr (pk, es)"
    and old: "obj (remote w) (pack_path cs c p) \<in> {None, Some pk}"
  shows "\<exists>w'. stream_chunk_pack cs c p blocks z w = (Inr es, w') \<and> calm_circuit w'
    \<and> obj (remote w') = (obj (remote w))(pack_path cs c p \<mapsto> pk)"
proof (cases "estimated_size blocks < MULTIPART_CUTOFF")
  case True
  let ?p = "pack_path cs c p"
  consider t s' where "os_put (object_store cs) ?p pk Create (remote w) = (Inr t, s')"
      "obj s' = (obj (remote w))(?p \<mapsto> pk)"
    | s' where "os_put (object_store cs) ?p pk Create (remote w) = (Inl OsAlreadyExists, s')"
      "obj s' = (obj (remote w))(?p \<mapsto> pk)"
  proof (cases "obj (remote w) ?p = None")
    case True
    then show ?thesis using st that(1) unfolding stores_def by meson
  next
    case False
    then obtain s' where "os_put (object_store cs) ?p pk Create (remote w) = (Inl OsAlreadyExists, s')"
        "obj s' = obj (remote w)"
      using st unfolding stores_def by meson
    then show ?thesis using that(2) False old by (metis (no_types) fun_upd_triv insertE singletonD)
  qed
  then show ?thesis
    using True asm sem calm
    by cases (simp_all add: stream_chunk_pack_def cs_bind_def check_calm put_small_pack_def Let_def calm_record calm_success)
next
  case False
  let ?p = "pack_path cs c p"
  obtain s' where mp: "os_multipart (object_store cs) ?p (remote w) = (Inr (), s')" "obj s' = obj (remote w)"
    using st unfolding stores_def by meson
  obtain w1 where w1: "issue cs (os_multipart (object_store cs) ?p) w = (Inr (), w1)" "calm_circuit w1" "remote w1 = s'"
    using issue_calm_eq [OF calm, of "os_multipart (object_store cs) ?p" "Inr ()" s' cs] mp(1) by auto
  let ?env = "os_upload (object_store cs) ?p (remote w1)"
  have env: "all_parts_ok ?env" "complete_ok ?env" using st by (simp_all add: stores_def)
  obtain wr where wr: "stream_pack_to_writer ?env blocks z (new_with_part_size PART_SIZE) = Some (Inr (es, wr))"
    using stream_pack_total [OF env(1) _ asm, of "new_with_part_size PART_SIZE"]
    by (auto simp: new_with_part_size_def PART_SIZE_def)
  have "written wr = pk"
    using stream_pack_written [OF wr] asm by (simp add: new_with_part_size_def written_def)
  then have fin: "finish ?env wr = (Inr pk, False)" using finish_total [OF env] by simp
  have "obj (os_settle (object_store cs) ?p (Inr pk) (remote w1)) = (obj (remote w))(?p \<mapsto> pk)"
    using st mp(2) w1(3) by (simp add: stores_def)
  then show ?thesis
    using False calm w1 wr fin
    by (simp add: stream_chunk_pack_def cs_bind_def check_calm put_large_pack_def Let_def calm_record)
qed

lemma extract_in_object:
  assumes "extract_block pk a l = Some d" "d \<noteq> []"
  shows "in_object (Bounded (unat a) (unat a + unat l)) pk \<and> sub_object (Bounded (unat a) (unat a + unat l)) pk = d"
  using assms by (auto simp: extract_block_def Let_def in_object_def sub_object_def bslice_def split: if_splits)

text \<open>
  C7: a pack that has been uploaded can be read.  On a store whose requests succeed, with
  the pack absent or already there, the upload (one request for small packs, a
  multipart upload for large ones) stores exactly the assembled pack and returns
  its index; fetching the index afterwards, in one suffix read or two, returns the
  same entries; and fetching the range of the i-th entry returns the compressed
  bytes of the i-th block in chunk order.
\<close>
theorem uploaded_pack_readable:
  fixes cs :: "'s ContentStore"
  assumes "stores (object_store cs) obj" "upload_semaphore cs \<noteq> Some False" "download_semaphore cs \<noteq> Some False"
    and "calm_circuit w" "assemble_pack blocks z = Inr (pk, es)"
    and "obj (remote w) (pack_path cs c p) \<in> {None, Some pk}"
    and "short_blocks blocks" "\<forall>b\<in>set blocks. block_data b \<noteq> []"
  shows "\<exists>w'. stream_chunk_pack cs c p blocks z w = (Inr es, w')
    \<and> obj (remote w') = (obj (remote w))(pack_path cs c p \<mapsto> pk)
    \<and> fst (get_pack_index cs c p w') = Inr es
    \<and> (\<forall>i<length blocks. fst (get_chunk_block cs c p (offset (es ! i)) (comp_length (es ! i)) w')
          = Inr (block_data (sort_key block_key blocks ! i)))"
proof -
  obtain w' where w': "stream_chunk_pack cs c p blocks z w = (Inr es, w')" "calm_circuit w'"
      "obj (remote w') = (obj (remote w))(pack_path cs c p \<mapsto> pk)"
    using upload_ok [OF assms(1,2,4,5,6)] by auto
  have ob: "obj (remote w') (pack_path cs c p) = Some pk" using w'(3) by simp
  have "fst (get_pack_index cs c p w') = Inr es"
    using get_pack_index_ok [OF assms(1,3) w'(2) assms(5) ob] by auto
  moreover have "fst (get_chunk_block cs c p (offset (es ! i)) (comp_length (es ! i)) w')
          = Inr (block_data (sort_key block_key blocks ! i))" if i: "i < length blocks" for i
  proof -
    have ne: "block_data (sort_key block_key blocks ! i) \<noteq> []"
      using assms(8) i by (metis length_sort nth_mem set_sort)
    have "extract_block pk (offset (es ! i)) (comp_length (es ! i)) = Some (block_data (sort_key block_key blocks ! i))"
      using pack_extract [OF assms(5,7) i] by simp
    note x = extract_in_object [OF this ne]
    show ?thesis
      using spawned_ok [OF assms(1,3) w'(2) ob conjunct1 [OF x]] conjunct2 [OF x]
      by (auto simp: get_chunk_block_def get_range_from_key_def pack_path_def)
  qed
  ultimately show ?thesis using w' by blast
qed

theorem uploaded_pack_readable_witness:
  "\<exists>w'. stream_chunk_pack mem_cs 3 77 demo_blocks 131072 mem_world
       = (Inr [\<lparr> hash = 9, chunk_offset = 2, offset = 16, comp_length = 1 \<rparr>,
               \<lparr> hash = 7, chunk_offset = 5, offset = 17, comp_length = 3 \<rparr>], w')
     \<and> fst (get_chunk_block mem_cs 3 77 17 3 w') = Inr [1, 2, 3]"
proof -
  have "bt_get (remote mem_world) (pack_path mem_cs 3 77) \<in> {None, Some pk}" for pk
    by (simp add: mem_world_def bt_get_def)
  moreover have "\<forall>b\<in>set demo_blocks. block_data b \<noteq> []" by (simp add: demo_blocks_def block_data_def)
  ultimately obtain w' where w': "stream_chunk_pack mem_cs 3 77 demo_blocks 131072 mem_world
       = (Inr [\<lparr> hash = 9, chunk_offset = 2, offset = 16, comp_length = 1 \<rparr>,
               \<lparr> hash = 7, chunk_offset = 5, offset = 17, comp_length = 3 \<rparr>], w')"
      "\<forall>i<length demo_blocks. fst (get_chunk_block mem_cs 3 77
          (offset ([\<lparr> hash = 9, chunk_offset = 2, offset = 16, comp_length = 1 \<rparr>,
               \<lparr> hash = 7, chunk_offset = 5, offset = 17, comp_length = 3 \<rparr>] ! i))
          (comp_length ([\<lparr> hash = 9, chunk_offset = 2, offset = 16, comp_length = 1 \<rparr>,
               \<lparr> hash = 7, chunk_offset = 5, offset = 17, comp_length = 3 \<rparr>] ! i)) w')
          = Inr (block_data (sort_key block_key demo_blocks ! i))"
    using uploaded_pack_readable [of mem_cs bt_get mem_world, OF _ _ _ mem_world_calm demo_assembled _ demo_short]
      mem_store_stores by (metis mem_cs_fields(1,4,5) option.distinct(1))
  have "fst (get_chunk_block mem_cs 3 77 17 3 w') = Inr [1, 2, 3]"
    using w'(2) [rule_format, of 1] by (simp add: demo_length demo_sorted block_data_def)
  then show ?thesis using w'(1) by blast
qed

end
