(* ===== verification/Gc.thy ===== *)
theory Gc
  imports ContentStore VolumeManifest
begin

text \<open>
  The garbage collector of \<open>glidefs/src/cli/gc.rs\<close>: the persistent state of packs and
  layers seen dead, discovery of the export prefixes, reconciliation of a prefix in
  two passes (live manifests, then snapshots), reconciliation of the shared layer
  pool, and the run over all prefixes under one delete budget.  Tasks that the code
  runs concurrently run one after the other here; the order in which a hash set is
  iterated, the clock and the RFC 3339 codec of chrono are parameters, as is the JSON
  decoder of image descriptors.
\<close>

section \<open>State\<close>

record GcState =
  dead_packs :: "(string, string) btree"
  dead_layers :: "(string, string) btree"

text \<open>
  \<open>check_time\<close> is the time at which a key's age is taken, \<open>mark_time\<close> the time written for
  newly dead entries (nanoseconds).
\<close>

record gc_env =
  check_time :: "string \<Rightarrow> int"
  mark_time :: int
  to_rfc3339 :: "int \<Rightarrow> string"
  parse_rfc3339 :: "string \<Rightarrow> int option"
  set_order :: "(u32 \<times> PackId) list \<Rightarrow> (u32 \<times> PackId) list"
  layer_order :: "string list \<Rightarrow> string list"
  from_json :: "bytes \<Rightarrow> string list option"

definition pack_key :: "u32 \<Rightarrow> PackId \<Rightarrow> string" where
  "pack_key chunk_idx pack_id = fmt_pad 10 4 (unat chunk_idx) @ ''/'' @ fmt_pad 16 16 (unat pack_id)"

definition is_key_eligible :: "gc_env \<Rightarrow> (string, string) btree \<Rightarrow> string \<Rightarrow> nat \<Rightarrow> bool" where
  "is_key_eligible env m key grace_period =
     (case bt_get m key of
        None \<Rightarrow> False
      | Some ts_str \<Rightarrow>
          (case parse_rfc3339 env ts_str of
             None \<Rightarrow> False
           | Some ts \<Rightarrow> max 0 (check_time env key - ts) \<ge> int grace_period))"

definition is_pack_eligible :: "gc_env \<Rightarrow> GcState \<Rightarrow> u32 \<Rightarrow> PackId \<Rightarrow> nat \<Rightarrow> bool" where
  "is_pack_eligible env st chunk_idx pack_id grace_period =
     is_key_eligible env (dead_packs st) (pack_key chunk_idx pack_id) grace_period"

definition is_layer_eligible :: "gc_env \<Rightarrow> GcState \<Rightarrow> string \<Rightarrow> nat \<Rightarrow> bool" where
  "is_layer_eligible env st digest grace_period = is_key_eligible env (dead_layers st) digest grace_period"

record GcStateDelta =
  newly_dead_packs :: "(string \<times> string) list"
  revived_packs :: "string list"
  deleted_packs :: "string list"
  newly_dead_layers :: "(string \<times> string) list"
  revived_layers :: "string list"
  deleted_layers :: "string list"

definition empty_delta :: GcStateDelta where
  "empty_delta = \<lparr> newly_dead_packs = [], revived_packs = [], deleted_packs = [],
     newly_dead_layers = [], revived_layers = [], deleted_layers = [] \<rparr>"

definition insert_new :: "string \<times> string \<Rightarrow> (string, string) btree \<Rightarrow> (string, string) btree" where
  "insert_new e m = (case bt_get m (fst e) of None \<Rightarrow> bt_insert (fst e) (snd e) m | Some _ \<Rightarrow> m)"

definition apply_delta :: "GcStateDelta \<Rightarrow> GcState \<Rightarrow> GcState" where
  "apply_delta d st =
     \<lparr> dead_packs = fold bt_remove (deleted_packs d) (fold bt_remove (revived_packs d)
          (fold insert_new (newly_dead_packs d) (dead_packs st))),
       dead_layers = fold bt_remove (deleted_layers d) (fold bt_remove (revived_layers d)
          (fold insert_new (newly_dead_layers d) (dead_layers st))) \<rparr>"

record GcStats =
  prefixes_scanned :: nat
  manifests_scanned :: nat
  manifest_errors :: nat
  live_packs :: nat
  known_packs :: nat
  dead_found :: nat
  eligible_for_deletion :: nat
  packs_deleted :: nat
  snapshots_checked :: nat
  live_layers :: nat
  dead_layers_found :: nat
  eligible_layers :: nat
  layers_deleted :: nat

definition zero_stats :: GcStats where
  "zero_stats = \<lparr> prefixes_scanned = 0, manifests_scanned = 0, manifest_errors = 0, live_packs = 0,
     known_packs = 0, dead_found = 0, eligible_for_deletion = 0, packs_deleted = 0, snapshots_checked = 0,
     live_layers = 0, dead_layers_found = 0, eligible_layers = 0, layers_deleted = 0 \<rparr>"

definition merge_stats :: "GcStats \<Rightarrow> GcStats \<Rightarrow> GcStats" where
  "merge_stats a b =
     \<lparr> prefixes_scanned = prefixes_scanned a + prefixes_scanned b,
       manifests_scanned = manifests_scanned a + manifests_scanned b,
       manifest_errors = manifest_errors a + manifest_errors b,
       live_packs = live_packs a + live_packs b,
       known_packs = known_packs a + known_packs b,
       dead_found = dead_found a + dead_found b,
       eligible_for_deletion = eligible_for_deletion a + eligible_for_deletion b,
       packs_deleted = packs_deleted a + packs_deleted b,
       snapshots_checked = snapshots_checked a + snapshots_checked b,
       live_layers = live_layers a + live_layers b,
       dead_layers_found = dead_layers_found a + dead_layers_found b,
       eligible_layers = eligible_layers a + eligible_layers b,
       layers_deleted = layers_deleted a + layers_deleted b \<rparr>"

datatype gc_error = ListError os_error | DescriptorError | DeleteError os_error

definition try_claim_delete_slot :: "nat \<Rightarrow> bool \<times> nat" where
  "try_claim_delete_slot budget = (if budget > 0 then (True, budget - 1) else (False, budget))"

section \<open>Durations\<close>

text \<open>Suffix multipliers; \<open>None\<close> is a rejected string, and the inner \<open>None\<close> an overflow of the product.\<close>

definition duration_of :: "string \<Rightarrow> nat \<Rightarrow> nat option option" where
  "duration_of digits unit_secs =
     (case parse_uint 10 (2 ^ 64) digits of
        None \<Rightarrow> None
      | Some n \<Rightarrow> Some (if n * unit_secs < 2 ^ 64 then Some (n * unit_secs) else None))"

definition is_space :: "char \<Rightarrow> bool" where
  "is_space c \<longleftrightarrow> c \<in> {CHR '' '', CHR 0x09, CHR 0x0A, CHR 0x0B, CHR 0x0C, CHR 0x0D}"

definition trim :: "string \<Rightarrow> string" where
  "trim s = rev (dropWhile is_space (rev (dropWhile is_space s)))"

definition parse_duration :: "string \<Rightarrow> nat option option" where
  "parse_duration s0 =
     (let s = trim s0
      in case strip_suffix ''h'' s of Some hours \<Rightarrow> duration_of hours 3600
       | None \<Rightarrow> case strip_suffix ''m'' s of Some minutes \<Rightarrow> duration_of minutes 60
       | None \<Rightarrow> case strip_suffix ''d'' s of Some days \<Rightarrow> duration_of days 86400
       | None \<Rightarrow> case strip_suffix ''s'' s of Some secs \<Rightarrow> duration_of secs 1
       | None \<Rightarrow> None)"

section \<open>Reconciling a prefix\<close>

text \<open>Fetch and parse one manifest; a missing object is skipped, anything else unreadable is an error.\<close>

definition fetch_pack_ids :: "'s object_store \<Rightarrow> (bytes \<Rightarrow> u32) \<Rightarrow> string \<Rightarrow> 's \<Rightarrow> (unit + (u32 \<times> PackId) list option) \<times> 's" where
  "fetch_pack_ids os crc location s =
     (case os_get os location WholeObject s of
        (Inl e, s') \<Rightarrow> (if e = OsNotFound then Inr None else Inl (), s')
      | (Inr (_, Inl e), s') \<Rightarrow> (Inl (), s')
      | (Inr (_, Inr data), s') \<Rightarrow>
          (case deserialize crc data of Inl e \<Rightarrow> (Inl (), s') | Inr vm \<Rightarrow> (Inr (Some (all_pack_ids vm)), s')))"

definition is_manifest_path :: "string \<Rightarrow> string \<Rightarrow> bool" where
  "is_manifest_path prefix_str path_str =
     (case strip_prefix prefix_str path_str of
        None \<Rightarrow> False
      | Some r \<Rightarrow> r \<noteq> [] \<and> \<not> ends_with r ''.boot-set'' \<and> \<not> ends_with r ''.hot-set'')"

fun scan_manifests :: "'s object_store \<Rightarrow> (bytes \<Rightarrow> u32) \<Rightarrow> string \<Rightarrow> (os_error + string) list \<Rightarrow> 's
    \<Rightarrow> (u32 \<times> PackId) list \<times> nat \<times> nat \<times> 's" where
  "scan_manifests os crc prefix_str [] s = ([], 0, 0, s)"
| "scan_manifests os crc prefix_str (Inl e # rs) s =
     (case scan_manifests os crc prefix_str rs s of (live, n, errs, s') \<Rightarrow> (live, n, errs + 1, s'))"
| "scan_manifests os crc prefix_str (Inr path # rs) s =
     (if is_manifest_path prefix_str path then
        (case fetch_pack_ids os crc path s of (res, s1) \<Rightarrow>
           case scan_manifests os crc prefix_str rs s1 of (live, n, errs, s2) \<Rightarrow>
             (case res of
                Inl _ \<Rightarrow> (live, n, errs + 1, s2)
              | Inr None \<Rightarrow> (live, n, errs, s2)
              | Inr (Some ids) \<Rightarrow> (ids @ live, n + 1, errs, s2)))
      else scan_manifests os crc prefix_str rs s)"

fun classify_packs :: "(u32 \<times> PackId) list \<Rightarrow> GcState \<Rightarrow> string \<Rightarrow> (os_error + string) list
    \<Rightarrow> nat \<Rightarrow> string list \<Rightarrow> (u32 \<times> PackId) list \<Rightarrow> gc_error + (nat \<times> string list \<times> (u32 \<times> PackId) list)" where
  "classify_packs live st prefix_str [] known revived maybe_dead = Inr (known, revived, maybe_dead)"
| "classify_packs live st prefix_str (Inl e # rs) known revived maybe_dead = Inl (ListError e)"
| "classify_packs live st prefix_str (Inr path # rs) known revived maybe_dead =
     (case strip_prefix prefix_str path of
        None \<Rightarrow> classify_packs live st prefix_str rs known revived maybe_dead
      | Some rel \<Rightarrow>
          (case parse_pack_path rel of
             None \<Rightarrow> classify_packs live st prefix_str rs known revived maybe_dead
           | Some pk \<Rightarrow>
               (if pk \<in> set live then
                  let key = pack_key (fst pk) (snd pk)
                  in classify_packs live st prefix_str rs (known + 1)
                       (if bt_get (dead_packs st) key \<noteq> None then revived @ [key] else revived) maybe_dead
                else classify_packs live st prefix_str rs (known + 1) revived (List.insert pk maybe_dead))))"

text \<open>Second pass; the flag is \<open>False\<close> when an unreadable snapshot makes the prefix give up.\<close>

fun check_snapshots :: "'s object_store \<Rightarrow> (bytes \<Rightarrow> u32) \<Rightarrow> (os_error + string) list \<Rightarrow> (u32 \<times> PackId) list \<Rightarrow> nat \<Rightarrow> 's
    \<Rightarrow> bool \<times> (u32 \<times> PackId) list \<times> nat \<times> 's" where
  "check_snapshots os crc [] maybe_dead n s = (True, maybe_dead, n, s)"
| "check_snapshots os crc (Inl e # rs) maybe_dead n s = (False, maybe_dead, n, s)"
| "check_snapshots os crc (Inr path # rs) maybe_dead n s =
     (case fetch_pack_ids os crc path s of
        (Inl _, s1) \<Rightarrow> (False, maybe_dead, n, s1)
      | (Inr None, s1) \<Rightarrow> check_snapshots os crc rs maybe_dead n s1
      | (Inr (Some ids), s1) \<Rightarrow>
          let rest = filter (\<lambda>pk. pk \<notin> set ids) maybe_dead
          in if rest = [] then (True, rest, n + 1, s1)
             else check_snapshots os crc rs rest (n + 1) s1)"

fun mark_dead :: "gc_env \<Rightarrow> GcState \<Rightarrow> nat \<Rightarrow> (u32 \<times> PackId) list \<Rightarrow> nat
    \<Rightarrow> (string \<times> string) list \<times> nat \<times> (u32 \<times> PackId) list \<times> nat" where
  "mark_dead env st grace_period [] budget = ([], 0, [], budget)"
| "mark_dead env st grace_period ((chunk_idx, pack_id) # ids) budget =
     (let key = pack_key chunk_idx pack_id;
          is_new = (bt_get (dead_packs st) key = None);
          new_entry = (if is_new then [(key, to_rfc3339 env (mark_time env))] else []);
          is_eligible = (is_pack_eligible env st chunk_idx pack_id grace_period \<or> (grace_period = 0 \<and> is_new))
      in if is_eligible then
           (case try_claim_delete_slot budget of (claimed, budget1) \<Rightarrow>
              case mark_dead env st grace_period ids budget1 of (newly, n, eligible, budget2) \<Rightarrow>
                (new_entry @ newly, n + 1, (if claimed then (chunk_idx, pack_id) # eligible else eligible), budget2))
         else (case mark_dead env st grace_period ids budget of (newly, n, eligible, budget2) \<Rightarrow>
                 (new_entry @ newly, n, eligible, budget2)))"

fun delete_packs :: "'s ContentStore \<Rightarrow> (u32 \<times> PackId) list \<Rightarrow> 's world \<Rightarrow> string list \<times> 's world" where
  "delete_packs cs [] w = ([], w)"
| "delete_packs cs ((chunk_idx, pack_id) # ids) w =
     (case delete_chunk_pack cs chunk_idx pack_id w of (r, w1) \<Rightarrow>
        case delete_packs cs ids w1 of (deleted, w2) \<Rightarrow>
          ((case r of Inr _ \<Rightarrow> pack_key chunk_idx pack_id # deleted | Inl _ \<Rightarrow> deleted), w2))"

definition sweep_dead :: "gc_env \<Rightarrow> 's ContentStore \<Rightarrow> GcState \<Rightarrow> nat \<Rightarrow> bool \<Rightarrow> (u32 \<times> PackId) list \<Rightarrow> GcStateDelta \<Rightarrow> GcStats
    \<Rightarrow> nat \<Rightarrow> 's world \<Rightarrow> (gc_error + GcStateDelta \<times> GcStats) \<times> nat \<times> 's world" where
  "sweep_dead env cs st grace_period dry_run maybe_dead delta stats budget w =
     (case mark_dead env st grace_period (set_order env maybe_dead) budget of
        (newly, n, eligible, budget') \<Rightarrow>
          let stats1 = stats\<lparr> dead_found := dead_found stats + length maybe_dead,
                              eligible_for_deletion := eligible_for_deletion stats + n \<rparr>;
              delta1 = delta\<lparr> newly_dead_packs := newly_dead_packs delta @ newly \<rparr>
          in if dry_run then
               (Inr (delta1, stats1\<lparr> packs_deleted := packs_deleted stats1 + length eligible,
                                     prefixes_scanned := prefixes_scanned stats1 + 1 \<rparr>), budget', w)
             else (case delete_packs cs eligible w of (deleted, w') \<Rightarrow>
                     (Inr (delta1\<lparr> deleted_packs := deleted_packs delta1 @ deleted \<rparr>,
                           stats1\<lparr> packs_deleted := packs_deleted stats1 + length deleted,
                                   prefixes_scanned := prefixes_scanned stats1 + 1 \<rparr>), budget', w')))"

definition reconcile_prefix :: "(bytes \<Rightarrow> u32) \<Rightarrow> gc_env \<Rightarrow> 's ContentStore \<Rightarrow> GcState \<Rightarrow> nat \<Rightarrow> bool \<Rightarrow> nat \<Rightarrow> 's world
    \<Rightarrow> (gc_error + GcStateDelta \<times> GcStats) \<times> nat \<times> 's world" where
  "reconcile_prefix crc env cs st grace_period dry_run budget w =
     (let os = object_store cs; base = base_path cs
      in case os_list os (os_path os (base @ ''/manifests/'')) (remote w) of (ms, s1) \<Rightarrow>
         case scan_manifests os crc (base @ ''/manifests/'') ms s1 of (live, scanned, errs, s2) \<Rightarrow>
           let stats = zero_stats\<lparr> manifests_scanned := scanned, manifest_errors := errs \<rparr>
           in if errs \<noteq> 0 then (Inr (empty_delta, stats), budget, w\<lparr> remote := s2 \<rparr>)
              else
                case os_list os (os_path os (base @ ''/chunks/'')) s2 of (ps, s3) \<Rightarrow>
                case classify_packs live st (base @ ''/chunks/'') ps 0 [] [] of
                  Inl e \<Rightarrow> (Inl e, budget, w\<lparr> remote := s3 \<rparr>)
                | Inr (known, revived, maybe_dead) \<Rightarrow>
                    let stats1 = stats\<lparr> live_packs := length (remdups live), known_packs := known \<rparr>;
                        delta = empty_delta\<lparr> revived_packs := revived \<rparr>
                    in if maybe_dead = [] then
                         (Inr (delta, stats1\<lparr> prefixes_scanned := 1 \<rparr>), budget, w\<lparr> remote := s3 \<rparr>)
                       else
                         case os_list os (os_path os (base @ ''/snapshots/'')) s3 of (ss, s4) \<Rightarrow>
                         case check_snapshots os crc ss maybe_dead 0 s4 of (complete, dead, seen, s5) \<Rightarrow>
                           let stats2 = stats1\<lparr> snapshots_checked := seen \<rparr>
                           in if \<not> complete then
                                (Inr (delta, stats2\<lparr> prefixes_scanned := 1 \<rparr>), budget, w\<lparr> remote := s5 \<rparr>)
                              else sweep_dead env cs st grace_period dry_run dead delta stats2 budget (w\<lparr> remote := s5 \<rparr>))"

section \<open>Discovering the prefixes\<close>

text \<open>One unit of fuel is one listing request; \<open>discover_terminates\<close> says how many are enough.\<close>

fun discover_loop :: "'s object_store \<Rightarrow> string \<Rightarrow> nat \<Rightarrow> string option \<Rightarrow> string list \<Rightarrow> 's
    \<Rightarrow> ((gc_error + string list) \<times> 's) option" where
  "discover_loop os prefix_str 0 off prefixes s = None"
| "discover_loop os prefix_str (Suc fuel) off prefixes s =
     (let prefix = os_path os prefix_str
      in case (case off of None \<Rightarrow> os_list os prefix s | Some k \<Rightarrow> os_list_with_offset os prefix k s) of
           ([], s') \<Rightarrow> Some (Inr prefixes, s')
         | (Inl e # _, s') \<Rightarrow> Some (Inl (ListError e), s')
         | (Inr location # _, s') \<Rightarrow>
             (case strip_prefix prefix_str location of
                None \<Rightarrow> Some (Inr prefixes, s')
              | Some rel \<Rightarrow>
                  (case split_slash rel of
                     None \<Rightarrow> discover_loop os prefix_str fuel (Some location) prefixes s'
                   | Some (name, _) \<Rightarrow>
                       discover_loop os prefix_str fuel (Some (os_path os (prefix_str @ name @ ''0'')))
                         (prefixes @ [prefix_str @ name]) s')))"

definition discover_s3_prefixes :: "nat \<Rightarrow> 's object_store \<Rightarrow> string \<Rightarrow> 's \<Rightarrow> ((gc_error + string list) \<times> 's) option" where
  "discover_s3_prefixes fuel os db_path s =
     (case discover_loop os (trim_end_slashes db_path @ ''/exports/'') fuel None [] s of
        None \<Rightarrow> None
      | Some (Inl e, s') \<Rightarrow> Some (Inl e, s')
      | Some (Inr prefixes, s') \<Rightarrow> Some (Inr (remdups_adj (sort prefixes)), s'))"

section \<open>The layer pool\<close>

definition digest_hex :: "string \<Rightarrow> string" where
  "digest_hex digest = (case strip_prefix ''sha256:'' digest of Some h \<Rightarrow> h | None \<Rightarrow> digest)"

fun image_names :: "string \<Rightarrow> (os_error + string) list \<Rightarrow> gc_error + string list" where
  "image_names prefix_str [] = Inr []"
| "image_names prefix_str (Inl e # rs) = Inl (ListError e)"
| "image_names prefix_str (Inr loc # rs) =
     sum_bind (image_names prefix_str rs) (\<lambda>names.
       Inr ((case strip_prefix prefix_str loc of Some rel \<Rightarrow> if rel \<noteq> [] then [rel] else [] | None \<Rightarrow> []) @ names))"

definition list_image_descriptors :: "'s object_store \<Rightarrow> string \<Rightarrow> 's \<Rightarrow> (gc_error + string list) \<times> 's" where
  "list_image_descriptors os db_path s =
     (let prefix_str = db_path @ ''/images/''
      in case os_list os (os_path os prefix_str) s of (rs, s') \<Rightarrow> (image_names prefix_str rs, s'))"

definition image_key :: "string \<Rightarrow> string \<Rightarrow> string" where
  "image_key db_path name = db_path @ ''/images/'' @ name"

definition get_image_descriptor :: "gc_env \<Rightarrow> 's object_store \<Rightarrow> string \<Rightarrow> string \<Rightarrow> 's \<Rightarrow> (gc_error + string list option) \<times> 's" where
  "get_image_descriptor env os db_path name s =
     (case os_get os (os_path os (image_key db_path name)) WholeObject s of
        (Inr (_, Inr data), s') \<Rightarrow>
          (case from_json env data of None \<Rightarrow> (Inl DescriptorError, s') | Some layers \<Rightarrow> (Inr (Some layers), s'))
      | (Inr (_, Inl e), s') \<Rightarrow> (Inl DescriptorError, s')
      | (Inl e, s') \<Rightarrow> (if e = OsNotFound then Inr None else Inl DescriptorError, s'))"

fun referenced_layers :: "gc_env \<Rightarrow> 's object_store \<Rightarrow> string \<Rightarrow> string list \<Rightarrow> 's \<Rightarrow> (gc_error + string list) \<times> 's" where
  "referenced_layers env os db_path [] s = (Inr [], s)"
| "referenced_layers env os db_path (name # names) s =
     (case get_image_descriptor env os db_path name s of
        (Inl e, s') \<Rightarrow> (Inl e, s')
      | (Inr desc, s') \<Rightarrow>
          (case referenced_layers env os db_path names s' of
             (Inl e, s'') \<Rightarrow> (Inl e, s'')
           | (Inr live, s'') \<Rightarrow>
               (Inr ((case desc of Some layers \<Rightarrow> map digest_hex layers | None \<Rightarrow> []) @ live), s'')))"

definition collect_referenced_layers :: "gc_env \<Rightarrow> 's object_store \<Rightarrow> string \<Rightarrow> 's \<Rightarrow> (gc_error + string list) \<times> 's" where
  "collect_referenced_layers env os db_path s =
     (case list_image_descriptors os db_path s of
        (Inl e, s') \<Rightarrow> (Inl e, s')
      | (Inr names, s') \<Rightarrow> referenced_layers env os db_path names s')"

fun layer_digests :: "string \<Rightarrow> (os_error + string) list \<Rightarrow> gc_error + string list" where
  "layer_digests prefix_str [] = Inr []"
| "layer_digests prefix_str (Inl e # rs) = Inl (ListError e)"
| "layer_digests prefix_str (Inr path # rs) =
     sum_bind (layer_digests prefix_str rs) (\<lambda>digests.
       Inr (case strip_prefix prefix_str path of
              None \<Rightarrow> digests
            | Some rel \<Rightarrow> (case split_slash rel of None \<Rightarrow> digests | Some (d, _) \<Rightarrow> List.insert d digests)))"

definition list_layer_digests :: "'s object_store \<Rightarrow> string \<Rightarrow> 's \<Rightarrow> (gc_error + string list) \<times> 's" where
  "list_layer_digests os db_path s =
     (let prefix_str = trim_end_slashes db_path @ ''/layers/''
      in case os_list os (os_path os prefix_str) s of (rs, s') \<Rightarrow> (layer_digests prefix_str rs, s'))"

fun delete_paths :: "'s object_store \<Rightarrow> string list \<Rightarrow> 's \<Rightarrow> (gc_error + nat) \<times> 's" where
  "delete_paths os [] s = (Inr 0, s)"
| "delete_paths os (p # ps) s =
     (case os_delete os p s of
        (Inr _, s') \<Rightarrow> (case delete_paths os ps s' of (Inr n, s'') \<Rightarrow> (Inr (n + 1), s'') | (Inl e, s'') \<Rightarrow> (Inl e, s''))
      | (Inl e, s') \<Rightarrow> if e = OsNotFound then delete_paths os ps s' else (Inl (DeleteError e), s'))"

fun all_listed :: "(os_error + string) list \<Rightarrow> gc_error + string list" where
  "all_listed [] = Inr []"
| "all_listed (Inl e # rs) = Inl (ListError e)"
| "all_listed (Inr p # rs) = sum_bind (all_listed rs) (\<lambda>ps. Inr (p # ps))"

definition delete_layer_subtree :: "'s object_store \<Rightarrow> string \<Rightarrow> string \<Rightarrow> 's \<Rightarrow> (gc_error + nat) \<times> 's" where
  "delete_layer_subtree os db_path digest s =
     (case os_list os (os_path os (trim_end_slashes db_path @ ''/layers/'' @ digest @ ''/'')) s of (rs, s') \<Rightarrow>
        case all_listed rs of Inl e \<Rightarrow> (Inl e, s') | Inr paths \<Rightarrow> delete_paths os paths s')"

fun sweep_layers :: "gc_env \<Rightarrow> 's object_store \<Rightarrow> string \<Rightarrow> GcState \<Rightarrow> nat \<Rightarrow> bool \<Rightarrow> string list \<Rightarrow> string list
    \<Rightarrow> GcStateDelta \<Rightarrow> GcStats \<Rightarrow> nat \<Rightarrow> 's \<Rightarrow> (gc_error + GcStateDelta \<times> GcStats) \<times> nat \<times> 's" where
  "sweep_layers env os db_path st grace_period dry_run live [] delta stats budget s = (Inr (delta, stats), budget, s)"
| "sweep_layers env os db_path st grace_period dry_run live (digest # ds) delta stats budget s =
     (if digest \<in> set live then
        sweep_layers env os db_path st grace_period dry_run live ds
          (if bt_get (dead_layers st) digest \<noteq> None
           then delta\<lparr> revived_layers := revived_layers delta @ [digest] \<rparr> else delta)
          (stats\<lparr> live_layers := live_layers stats + 1 \<rparr>) budget s
      else
        let stats1 = stats\<lparr> dead_layers_found := dead_layers_found stats + 1 \<rparr>
        in if is_layer_eligible env st digest grace_period then
             (if dry_run then
                sweep_layers env os db_path st grace_period dry_run live ds delta
                  (stats1\<lparr> eligible_layers := eligible_layers stats1 + 1 \<rparr>) budget s
              else (case try_claim_delete_slot budget of (claimed, budget1) \<Rightarrow>
                      if \<not> claimed then sweep_layers env os db_path st grace_period dry_run live ds delta stats1 budget1 s
                      else (case delete_layer_subtree os db_path digest s of
                              (Inl e, s1) \<Rightarrow> (Inl e, budget1, s1)
                            | (Inr n, s1) \<Rightarrow>
                                sweep_layers env os db_path st grace_period dry_run live ds
                                  (delta\<lparr> deleted_layers := deleted_layers delta @ [digest] \<rparr>)
                                  (stats1\<lparr> layers_deleted := layers_deleted stats1 + 1 \<rparr>) budget1 s1)))
           else sweep_layers env os db_path st grace_period dry_run live ds
                  (if bt_get (dead_layers st) digest = None
                   then delta\<lparr> newly_dead_layers := newly_dead_layers delta @ [(digest, to_rfc3339 env (check_time env digest))] \<rparr>
                   else delta) stats1 budget s)"

definition reconcile_layers :: "gc_env \<Rightarrow> 's object_store \<Rightarrow> string \<Rightarrow> GcState \<Rightarrow> nat \<Rightarrow> bool \<Rightarrow> nat \<Rightarrow> 's
    \<Rightarrow> (gc_error + GcStateDelta \<times> GcStats) \<times> nat \<times> 's" where
  "reconcile_layers env os db_path st grace_period dry_run budget s =
     (case collect_referenced_layers env os db_path s of
        (Inl e, s1) \<Rightarrow> (Inl e, budget, s1)
      | (Inr live, s1) \<Rightarrow>
          (case list_layer_digests os db_path s1 of
             (Inl e, s2) \<Rightarrow> (Inl e, budget, s2)
           | (Inr present, s2) \<Rightarrow>
               sweep_layers env os db_path st grace_period dry_run live (layer_order env present)
                 empty_delta zero_stats budget s2))"

section \<open>A whole run\<close>

text \<open>
  Every prefix is reconciled against the state at the start of the run; the results are
  then merged in order, up to the first error.
\<close>

fun reconcile_all :: "(bytes \<Rightarrow> u32) \<Rightarrow> gc_env \<Rightarrow> 's object_store \<Rightarrow> GcState \<Rightarrow> nat \<Rightarrow> bool \<Rightarrow> string list \<Rightarrow> nat \<Rightarrow> 's
    \<Rightarrow> (gc_error + GcStateDelta \<times> GcStats) list \<times> nat \<times> 's" where
  "reconcile_all crc env os st grace_period dry_run [] budget s = ([], budget, s)"
| "reconcile_all crc env os st grace_period dry_run (prefix # ps) budget s =
     (case reconcile_prefix crc env (cs_new os prefix default_config) st grace_period dry_run budget
             \<lparr> remote = s, circuit = None \<rparr> of
        (r, budget1, w) \<Rightarrow>
          (case reconcile_all crc env os st grace_period dry_run ps budget1 (remote w) of
             (rs, budget2, s') \<Rightarrow> (r # rs, budget2, s')))"

fun merge_results :: "(gc_error + GcStateDelta \<times> GcStats) list \<Rightarrow> GcState \<Rightarrow> GcStats \<Rightarrow> (gc_error + GcStats) \<times> GcState" where
  "merge_results [] st stats = (Inr stats, st)"
| "merge_results (Inl e # rs) st stats = (Inl e, st)"
| "merge_results (Inr (delta, prefix_stats) # rs) st stats =
     merge_results rs (apply_delta delta st) (merge_stats stats prefix_stats)"

definition gc_orchestrate :: "nat \<Rightarrow> (bytes \<Rightarrow> u32) \<Rightarrow> gc_env \<Rightarrow> 's object_store \<Rightarrow> string \<Rightarrow> GcState \<Rightarrow> nat \<Rightarrow> nat \<Rightarrow> bool \<Rightarrow> 's
    \<Rightarrow> ((gc_error + GcStats) \<times> GcState \<times> 's) option" where
  "gc_orchestrate fuel crc env os db_path st grace_period max_deletes dry_run s =
     (case discover_s3_prefixes fuel os db_path s of
        None \<Rightarrow> None
      | Some (Inl e, s1) \<Rightarrow> Some (Inl e, st, s1)
      | Some (Inr prefixes, s1) \<Rightarrow>
          (case reconcile_all crc env os st grace_period dry_run prefixes max_deletes s1 of
             (rs, budget, s2) \<Rightarrow>
               (case merge_results rs st zero_stats of
                  (Inl e, st1) \<Rightarrow> Some (Inl e, st1, s2)
                | (Inr stats, st1) \<Rightarrow>
                    (case reconcile_layers env os db_path st1 grace_period dry_run budget s2 of
                       (Inl e, _, s3) \<Rightarrow> Some (Inl e, st1, s3)
                     | (Inr (layer_delta, layer_stats), _, s3) \<Rightarrow>
                         Some (Inr (merge_stats stats layer_stats), apply_delta layer_delta st1, s3)))))"

section \<open>What the store promises\<close>

text \<open>
  \<open>obj\<close> reads the object under a key.  Every request may fail.  A listing that reports no
  error has every key under its prefix, and a listing has only such keys; a body that arrives is the
  object, and \<open>OsNotFound\<close> means there is none; a delete, whatever it answers, touches
  no other key; nothing but a delete changes an object.
\<close>

definition honest :: "'s object_store \<Rightarrow> ('s \<Rightarrow> string \<Rightarrow> bytes option) \<Rightarrow> bool" where
  "honest os obj \<longleftrightarrow>
     (\<forall>p s. obj (snd (os_list os p s)) = obj s
        \<and> (\<forall>k. Inr k \<in> set (fst (os_list os p s)) \<longrightarrow> obj s k \<noteq> None \<and> (\<exists>r. k = p @ ''/'' @ r))
        \<and> ((\<forall>r\<in>set (fst (os_list os p s)). is_ok r) \<longrightarrow>
             (\<forall>r. obj s (p @ ''/'' @ r) \<noteq> None \<longrightarrow> Inr (p @ ''/'' @ r) \<in> set (fst (os_list os p s)))))
   \<and> (\<forall>p off s. obj (snd (os_list_with_offset os p off s)) = obj s
        \<and> (\<forall>k. Inr k \<in> set (fst (os_list_with_offset os p off s)) \<longrightarrow>
             obj s k \<noteq> None \<and> (\<exists>r. k = p @ ''/'' @ r)))
   \<and> (\<forall>p s. obj (snd (os_get os p WholeObject s)) = obj s
        \<and> (fst (os_get os p WholeObject s) = Inl OsNotFound \<longrightarrow> obj s p = None)
        \<and> (\<forall>t d. fst (os_get os p WholeObject s) = Inr (t, Inr d) \<longrightarrow> obj s p = Some d))
   \<and> (\<forall>p s q. q \<noteq> p \<longrightarrow> obj (snd (os_delete os p s)) q = obj s q)"

lemma honest_list:
  assumes "honest os obj" "os_list os p s = (rs, s')"
  shows "obj s' = obj s" "\<And>k. Inr k \<in> set rs \<Longrightarrow> obj s k \<noteq> None \<and> (\<exists>r. k = p @ ''/'' @ r)"
    "\<lbrakk> \<forall>r\<in>set rs. is_ok r; obj s (p @ ''/'' @ r) \<noteq> None \<rbrakk> \<Longrightarrow> Inr (p @ ''/'' @ r) \<in> set rs"
  using assms unfolding honest_def by (metis fst_conv snd_conv)+

lemma honest_offset:
  assumes "honest os obj" "os_list_with_offset os p off s = (rs, s')"
  shows "obj s' = obj s" "\<And>k. Inr k \<in> set rs \<Longrightarrow> obj s k \<noteq> None \<and> (\<exists>r. k = p @ ''/'' @ r)"
  using assms unfolding honest_def by (metis fst_conv snd_conv)+

lemma honest_get:
  assumes "honest os obj" "os_get os p WholeObject s = (r, s')"
  shows "obj s' = obj s" "r = Inl OsNotFound \<Longrightarrow> obj s p = None" "r = Inr (t, Inr d) \<Longrightarrow> obj s p = Some d"
  using assms unfolding honest_def by (metis fst_conv snd_conv)+

lemma honest_delete: "\<lbrakk> honest os obj; os_delete os p s = (r, s'); q \<noteq> p \<rbrakk> \<Longrightarrow> obj s' q = obj s q"
  unfolding honest_def by (metis snd_conv)

section \<open>What the passes find\<close>

text \<open>The packs that the manifest under a key refers to.\<close>

definition refs :: "(bytes \<Rightarrow> u32) \<Rightarrow> (string \<Rightarrow> bytes option) \<Rightarrow> string \<Rightarrow> (u32 \<times> PackId) set" where
  "refs crc ob k =
     (case ob k of
        None \<Rightarrow> {}
      | Some d \<Rightarrow> (case deserialize crc d of Inl _ \<Rightarrow> {} | Inr vm \<Rightarrow> set (all_pack_ids vm)))"

definition fetched :: "unit + (u32 \<times> PackId) list option \<Rightarrow> (u32 \<times> PackId) set" where
  "fetched r = (case r of Inr (Some ids) \<Rightarrow> set ids | _ \<Rightarrow> {})"

lemma fetch_found:
  assumes "honest os obj" "fetch_pack_ids os crc p s = (r, s')"
  shows "obj s' = obj s" "is_ok r \<Longrightarrow> refs crc (obj s) p = fetched r"
proof -
  obtain g s1 where g: "os_get os p WholeObject s = (g, s1)" by force
  note h = honest_get [OF assms(1) g]
  have r: "s' = s1 \<and> r = (case g of Inl e \<Rightarrow> if e = OsNotFound then Inr None else Inl ()
      | Inr (_, Inl e) \<Rightarrow> Inl ()
      | Inr (_, Inr data) \<Rightarrow> (case deserialize crc data of Inl e \<Rightarrow> Inl () | Inr vm \<Rightarrow> Inr (Some (all_pack_ids vm))))"
    using assms(2) g by (auto simp: fetch_pack_ids_def split: sum.splits)
  then show "obj s' = obj s" using h(1) by simp
  show "refs crc (obj s) p = fetched r" if "is_ok r"
    using r that h(2,3) by (auto simp: refs_def fetched_def split: sum.splits if_splits)
qed

lemma scan_manifests_live:
  assumes "honest os obj"
  shows "scan_manifests os crc pre rs s = (live, n, 0, s') \<Longrightarrow>
     obj s' = obj s \<and> (\<forall>r\<in>set rs. is_ok r)
   \<and> (\<forall>k. Inr k \<in> set rs \<longrightarrow> is_manifest_path pre k \<longrightarrow> refs crc (obj s) k \<subseteq> set live)"
proof (induction rs arbitrary: s live n)
  case (Cons r rs)
  show ?case
  proof (cases r)
    case (Inl e)
    then show ?thesis using Cons(2) by (auto split: prod.splits)
  next
    case (Inr p)
    show ?thesis
    proof (cases "is_manifest_path pre p")
      case False
      then have sc: "scan_manifests os crc pre rs s = (live, n, 0, s')" using Cons(2) Inr by simp
      show ?thesis using Cons(1) [OF sc] Inr False by auto
    next
      case True
      obtain res s1 where f: "fetch_pack_ids os crc p s = (res, s1)" by force
      obtain live1 n1 e1 s2 where sc: "scan_manifests os crc pre rs s1 = (live1, n1, e1, s2)" by (metis prod_cases4)
      have ok: "is_ok res" "e1 = 0" "s2 = s'" "set live1 \<subseteq> set live" "fetched res \<subseteq> set live"
        using Cons(2) Inr True f sc by (auto simp: fetched_def split: sum.splits option.splits)
      have IH: "obj s' = obj s1 \<and> (\<forall>r\<in>set rs. is_ok r)
         \<and> (\<forall>k. Inr k \<in> set rs \<longrightarrow> is_manifest_path pre k \<longrightarrow> refs crc (obj s1) k \<subseteq> set live1)"
        using Cons(1) [of s1 live1 n1] sc ok(2,3) by simp
      note ff = fetch_found [OF assms f]
      have p: "refs crc (obj s) p \<subseteq> set live" using ff(2) [OF ok(1)] ok(5) by simp
      have "refs crc (obj s) k \<subseteq> set live" if "Inr k \<in> set (r # rs)" "is_manifest_path pre k" for k
      proof (cases "k = p")
        case False
        then have "Inr k \<in> set rs" using that(1) Inr by simp
        then have "refs crc (obj s1) k \<subseteq> set live1" using IH that(2) by blast
        then show ?thesis using ff(1) ok(4) by auto
      qed (use p in simp)
      then show ?thesis using IH ff(1) Inr by simp
    qed
  qed
qed simp

lemma classify_dead:
  "\<lbrakk> classify_packs live st pre rs k rv md = Inr (k', rv', md'); set md \<inter> set live = {} \<rbrakk> \<Longrightarrow>
   set md' \<inter> set live = {}"
  by (induction live st pre rs k rv md rule: classify_packs.induct)
    (auto split: option.splits if_splits simp: Let_def)

lemma check_snapshots_dead:
  assumes "honest os obj"
  shows "check_snapshots os crc rs md n s = (complete, md', n', s') \<Longrightarrow>
     obj s' = obj s \<and> set md' \<subseteq> set md
   \<and> (complete \<and> md' \<noteq> [] \<longrightarrow> (\<forall>r\<in>set rs. is_ok r)
        \<and> (\<forall>k. Inr k \<in> set rs \<longrightarrow> refs crc (obj s) k \<inter> set md' = {}))"
proof (induction rs arbitrary: s md n)
  case (Cons r rs)
  show ?case
  proof (cases r)
    case (Inl e)
    then show ?thesis using Cons(2) by auto
  next
    case (Inr p)
    obtain res s1 where f: "fetch_pack_ids os crc p s = (res, s1)" by force
    note ff = fetch_found [OF assms f]
    show ?thesis
    proof (cases res)
      case (Inl u)
      then show ?thesis using Cons(2) Inr f ff(1) by auto
    next
      case q: (Inr q)
      define rest where "rest = filter (\<lambda>pk. pk \<notin> fetched res) md"
      have p: "refs crc (obj s) p \<inter> set rest = {}" using ff(2) q by (auto simp: rest_def)
      show ?thesis
      proof (cases "rest = [] \<and> q \<noteq> None")
        case True
        then show ?thesis using Cons(2) Inr f q ff(1) by (auto simp: Let_def rest_def fetched_def)
      next
        case False
        have "\<exists>m. check_snapshots os crc rs rest m s1 = (complete, md', n', s')"
          using Cons(2) Inr f q False by (cases q) (auto simp: Let_def rest_def fetched_def)
        then obtain m where "check_snapshots os crc rs rest m s1 = (complete, md', n', s')" by blast
        note IH = Cons(1) [OF this]
        have sub: "set md' \<subseteq> set md" using IH by (auto simp: rest_def)
        have "refs crc (obj s) k \<inter> set md' = {}" if "complete" "md' \<noteq> []" "Inr k \<in> set (r # rs)" for k
        proof (cases "k = p")
          case True
          then show ?thesis using p IH by blast
        next
          case False
          then have "Inr k \<in> set rs" using that(3) Inr by simp
          then show ?thesis using IH that(1,2) ff(1) by simp
        qed
        then show ?thesis using IH ff(1) Inr sub by simp
      qed
    qed
  qed
qed simp

lemma mark_dead_facts:
  "mark_dead env st g ids b = (newly, n, el, b') \<Longrightarrow>
   set el \<subseteq> set ids \<and> length el + b' = b
   \<and> (\<forall>(c, p)\<in>set el. is_pack_eligible env st c p g \<or> (g = 0 \<and> bt_get (dead_packs st) (pack_key c p) = None))"
proof (induction ids arbitrary: b newly n el b')
  case (Cons x ids)
  obtain c p where x: "x = (c, p)" by force
  let ?el = "is_pack_eligible env st c p g \<or> (g = 0 \<and> bt_get (dead_packs st) (pack_key c p) = None)"
  obtain cl b1 where t: "(if ?el then try_claim_delete_slot b else (False, b)) = (cl, b1)" by force
  obtain newly1 n1 el1 b2 where m: "mark_dead env st g ids b1 = (newly1, n1, el1, b2)" by (metis prod_cases4)
  have el: "el = (if cl then x # el1 else el1)" "b' = b2" "cl \<longrightarrow> ?el"
    using Cons(2) t m by (auto simp: x Let_def split: if_splits prod.splits)
  have b: "b = b1 + (if cl then 1 else 0)"
    using t by (auto simp: try_claim_delete_slot_def split: if_splits)
  show ?case using Cons(1) [OF m] el b x by (auto split: if_splits)
qed simp

definition frame_on :: "string set \<Rightarrow> (string \<Rightarrow> bytes option) \<Rightarrow> (string \<Rightarrow> bytes option) \<Rightarrow> bool" where
  "frame_on K f g \<longleftrightarrow> (\<forall>q. q \<notin> K \<longrightarrow> g q = f q)"

lemma frame_on_refl [simp]: "frame_on K f f" by (simp add: frame_on_def)

lemma frame_on_trans: "\<lbrakk> frame_on K f g; frame_on K g h \<rbrakk> \<Longrightarrow> frame_on K f h"
  by (simp add: frame_on_def)

lemma frame_on_mono: "\<lbrakk> frame_on K f g; K \<subseteq> L \<rbrakk> \<Longrightarrow> frame_on L f g"
  by (auto simp: frame_on_def)

lemma delete_pack_frame:
  assumes "honest (object_store cs) obj"
  shows "frame_on {pack_path cs c p} (obj (remote w)) (obj (remote (snd (delete_chunk_pack cs c p w))))"
proof -
  have chk: "remote (snd (check_circuit cs w)) = remote w"
    by (auto simp: check_circuit_def split: option.splits bool.splits prod.splits)
  show ?thesis
    using assms honest_delete [OF assms]
    by (auto simp: delete_chunk_pack_def checked_def cs_bind_def issue_def frame_on_def
        split: prod.splits sum.splits) (metis chk snd_conv)+
qed

lemma delete_packs_frame:
  assumes "honest (object_store cs) obj"
  shows "frame_on {pack_path cs c p | c p. (c, p) \<in> set ids} (obj (remote w)) (obj (remote (snd (delete_packs cs ids w))))
    \<and> length (fst (delete_packs cs ids w)) \<le> length ids"
proof (induction ids arbitrary: w)
  case (Cons x ids)
  obtain c p where x: "x = (c, p)" by force
  obtain r w1 where d: "delete_chunk_pack cs c p w = (r, w1)" by force
  have f1: "frame_on {pack_path cs c p} (obj (remote w)) (obj (remote w1))"
    using delete_pack_frame [OF assms, of c p w] d by simp
  let ?K = "{pack_path cs c p | c p. (c, p) \<in> set (x # ids)}"
  have "frame_on ?K (obj (remote w)) (obj (remote w1))"
    by (rule frame_on_mono [OF f1]) (auto simp: x)
  moreover have "frame_on ?K (obj (remote w1)) (obj (remote (snd (delete_packs cs ids w1))))"
    by (rule frame_on_mono [OF conjunct1 [OF Cons]]) auto
  moreover have "length (fst (delete_packs cs ids w1)) \<le> length ids" using Cons by simp
  ultimately show ?case using d frame_on_trans by (auto simp: x split: prod.splits sum.splits)
qed simp

end
