(* ===== verification/GcSafety.thy ===== *)
theory GcSafety
  imports Gc
begin

text \<open>
  Properties of the garbage collector: a run never deletes a pack that a manifest or a
  snapshot refers to, whatever requests fail; it respects the grace period and the
  delete budget; prefix discovery ends and finds exactly the export directories.
\<close>

section \<open>One prefix\<close>

text \<open>
  \<open>Path::from\<close> drops the trailing slash of the listing prefixes and leaves the pack keys
  alone.
\<close>

definition plain_keys :: "'s object_store \<Rightarrow> string \<Rightarrow> bool" where
  "plain_keys os base \<longleftrightarrow>
     os_path os (base @ ''/manifests/'') = base @ ''/manifests''
   \<and> os_path os (base @ ''/chunks/'') = base @ ''/chunks''
   \<and> os_path os (base @ ''/snapshots/'') = base @ ''/snapshots''
   \<and> (\<forall>c p. os_path os (chunk_pack_key base c p) = chunk_pack_key base c p)"

text \<open>The packs some manifest (its name not ending like a sidecar) or snapshot of a prefix refers to.\<close>

definition live_set :: "(bytes \<Rightarrow> u32) \<Rightarrow> string \<Rightarrow> (string \<Rightarrow> bytes option) \<Rightarrow> (u32 \<times> PackId) set" where
  "live_set crc base ob =
     (\<Union>k\<in>{k. is_manifest_path (base @ ''/manifests/'') k \<or> (\<exists>r. k = base @ ''/snapshots/'' @ r)}. refs crc ob k)"

lemma manifest_path_under: "is_manifest_path pre k \<Longrightarrow> \<exists>r. k = pre @ r"
  by (auto simp: is_manifest_path_def strip_prefix_Some split: option.splits)

lemma refs_present: "x \<in> refs crc ob k \<Longrightarrow> ob k \<noteq> None"
  by (auto simp: refs_def split: option.splits)

lemma passes_find_live:
  assumes h: "honest os obj"
    and l1: "os_list os (base @ ''/manifests'') s = (ms, s1)"
    and sc: "scan_manifests os crc (base @ ''/manifests/'') ms s1 = (live, n, 0, s2)"
    and cl: "classify_packs live st pre ps 0 [] [] = Inr (known, revived, maybe_dead)"
    and l3: "os_list os (base @ ''/snapshots'') s3 = (ss, s4)" and s3: "obj s3 = obj s2"
    and ck: "check_snapshots os crc ss maybe_dead 0 s4 = (True, dead, seen, s5)"
  shows "obj s5 = obj s \<and> set dead \<inter> live_set crc base (obj s) = {}"
proof -
  note m = honest_list [OF h l1] and q = honest_list [OF h l3]
  note sl = scan_manifests_live [OF h sc]
  note cs = check_snapshots_dead [OF h ck]
  have o: "obj s5 = obj s" "obj s4 = obj s" "obj s1 = obj s" using m(1) q(1) sl s3 cs by simp_all
  have "(c, p) \<notin> set dead" if lv: "(c, p) \<in> live_set crc base (obj s)" for c p
  proof
    assume d: "(c, p) \<in> set dead"
    obtain k where k: "is_manifest_path (base @ ''/manifests/'') k \<or> (\<exists>r. k = base @ ''/snapshots/'' @ r)"
        "(c, p) \<in> refs crc (obj s) k"
      using lv by (auto simp: live_set_def)
    show False
    proof (cases "is_manifest_path (base @ ''/manifests/'') k")
      case True
      then obtain r where "k = (base @ ''/manifests'') @ ''/'' @ r" using manifest_path_under by fastforce
      then have "Inr k \<in> set ms" using m(3) sl refs_present [OF k(2)] by blast
      then have "refs crc (obj s1) k \<subseteq> set live" using sl True by blast
      then have "(c, p) \<in> set live" using k(2) o(3) by auto
      then show False using d cs classify_dead [OF cl] by auto
    next
      case False
      then obtain r where r: "k = (base @ ''/snapshots'') @ ''/'' @ r" using k(1) by auto
      have ne: "dead \<noteq> []" using d by auto
      have "obj s3 k \<noteq> None" using refs_present [OF k(2)] q(1) o(2) by simp
      then have "Inr k \<in> set ss" using q(3) cs ne r by blast
      then have "refs crc (obj s4) k \<inter> set dead = {}" using cs ne by blast
      then show False using k(2) d o(2) by auto
    qed
  qed
  then show ?thesis using o(1) by auto
qed

text \<open>The packs a run may delete: dead ones past the grace period, one budget slot each.\<close>

definition swept :: "gc_env \<Rightarrow> GcState \<Rightarrow> nat \<Rightarrow> (u32 \<times> PackId) set \<Rightarrow> nat \<Rightarrow> (u32 \<times> PackId) list \<Rightarrow> bool" where
  "swept env st g live slots el \<longleftrightarrow>
     set el \<inter> live = {} \<and> length el \<le> slots
   \<and> (\<forall>(c, p)\<in>set el. is_pack_eligible env st c p g \<or> (g = 0 \<and> bt_get (dead_packs st) (pack_key c p) = None))"

definition pack_keys :: "string \<Rightarrow> (u32 \<times> PackId) list \<Rightarrow> string set" where
  "pack_keys base el = {chunk_pack_key base c p | c p. (c, p) \<in> set el}"

lemma sweep_dead_swept:
  assumes h: "honest (object_store cs) obj" and o: "\<And>xs. set (set_order env xs) \<subseteq> set xs"
    and pl: "plain_keys (object_store cs) (base_path cs)"
    and sw: "sweep_dead env cs st g dry dead delta stats b w = (r, b', w')"
    and dl: "set dead \<inter> live = {}"
  shows "\<exists>el. swept env st g live (b - b') el \<and> b' \<le> b
     \<and> frame_on (pack_keys (base_path cs) el) (obj (remote w)) (obj (remote w'))
     \<and> (\<exists>d st'. r = Inr (d, st') \<and> packs_deleted st' \<le> packs_deleted stats + (b - b') \<and> layers_deleted st' = layers_deleted stats)"
proof -
  obtain newly n el b1 where m: "mark_dead env st g (set_order env dead) b = (newly, n, el, b1)" by (metis prod_cases4)
  note f = mark_dead_facts [OF m]
  obtain del w1 where d: "delete_packs cs el w = (del, w1)" by force
  have keys: "{pack_path cs c p | c p. (c, p) \<in> set el} = pack_keys (base_path cs) el"
    using pl by (simp add: plain_keys_def pack_path_def pack_keys_def)
  have fr: "frame_on (pack_keys (base_path cs) el) (obj (remote w)) (obj (remote w1)) \<and> length del \<le> length el"
    using delete_packs_frame [OF h, of el w] d by (simp add: keys)
  have len: "length el = b - b1" "b1 \<le> b" using f by auto
  have swp: "swept env st g live (b - b1) el"
    unfolding swept_def using f o [of dead] dl len by auto
  have b: "b' = b1" using sw m d by (auto simp: sweep_dead_def Let_def split: if_splits)
  have "(dry \<longrightarrow> w' = w) \<and> (\<not> dry \<longrightarrow> w' = w1)"
    using sw m d by (auto simp: sweep_dead_def Let_def split: if_splits)
  then have "frame_on (pack_keys (base_path cs) el) (obj (remote w)) (obj (remote w'))" using fr by (cases dry) auto
  moreover have "\<exists>d st'. r = Inr (d, st') \<and> packs_deleted st' \<le> packs_deleted stats + (b - b1)
      \<and> layers_deleted st' = layers_deleted stats"
    using sw m d fr len by (auto simp: sweep_dead_def Let_def split: if_splits)
  ultimately show ?thesis using swp len(2) b by blast
qed

lemma scan_manifests_obj:
  assumes "honest os obj"
  shows "scan_manifests os crc pre rs s = (live, n, errs, s') \<Longrightarrow> obj s' = obj s"
proof (induction rs arbitrary: s live n errs)
  case (Cons r rs)
  show ?case
  proof (cases r)
    case (Inl e)
    then show ?thesis using Cons by (auto split: prod.splits)
  next
    case (Inr p)
    obtain res s1 where f: "fetch_pack_ids os crc p s = (res, s1)" by force
    obtain live1 n1 e1 s2 where sc: "scan_manifests os crc pre rs s1 = (live1, n1, e1, s2)" by (metis prod_cases4)
    show ?thesis using Cons Inr f sc fetch_found(1) [OF assms f]
      by (auto split: if_splits sum.splits option.splits)
  qed
qed simp

lemma swept_nothing: "swept env st g live 0 []"
  by (simp add: swept_def)

lemma reconcile_swept:
  assumes h: "honest (object_store cs) obj" and o: "\<And>xs. set (set_order env xs) \<subseteq> set xs"
    and pl: "plain_keys (object_store cs) (base_path cs)"
    and rc: "reconcile_prefix crc env cs st g dry b w = (r, b', w')"
  shows "\<exists>el. swept env st g (live_set crc (base_path cs) (obj (remote w))) (b - b') el \<and> b' \<le> b
     \<and> frame_on (pack_keys (base_path cs) el) (obj (remote w)) (obj (remote w'))
     \<and> (\<forall>d st'. r = Inr (d, st') \<longrightarrow> packs_deleted st' \<le> b - b' \<and> layers_deleted st' = 0)"
proof -
  let ?os = "object_store cs" and ?base = "base_path cs" and ?s = "remote w"
  have pl': "os_path ?os (?base @ ''/manifests/'') = ?base @ ''/manifests''"
      "os_path ?os (?base @ ''/chunks/'') = ?base @ ''/chunks''"
      "os_path ?os (?base @ ''/snapshots/'') = ?base @ ''/snapshots''"
    using pl by (simp_all add: plain_keys_def)
  obtain ms s1 where l1: "os_list ?os (?base @ ''/manifests'') ?s = (ms, s1)" by force
  obtain live scanned errs s2 where sc: "scan_manifests ?os crc (?base @ ''/manifests/'') ms s1 = (live, scanned, errs, s2)"
    by (metis prod_cases4)
  have none: ?thesis if "obj (remote w') = obj ?s" "b' = b" "\<forall>d st'. r = Inr (d, st') \<longrightarrow> packs_deleted st' = 0 \<and> layers_deleted st' = 0"
    using that swept_nothing by (intro exI [of _ "[]"]) (simp add: swept_nothing)
  have ob1: "obj s1 = obj ?s" using honest_list(1) [OF h l1] .
  show ?thesis
  proof (cases "errs = 0")
    case False
    then have "w' = w\<lparr> remote := s2 \<rparr>" "b' = b" "r = Inr (empty_delta, zero_stats\<lparr> manifests_scanned := scanned, manifest_errors := errs \<rparr>)"
      using rc l1 sc by (auto simp: reconcile_prefix_def pl' Let_def)
    moreover have "obj s2 = obj s1" using scan_manifests_obj [OF h sc] .
    ultimately show ?thesis using ob1 by (intro none) (auto simp: zero_stats_def)
  next
    case True
    obtain ps s3 where l2: "os_list ?os (?base @ ''/chunks'') s2 = (ps, s3)" by force
    have ob3: "obj s3 = obj s2" "obj s2 = obj ?s"
      using honest_list(1) [OF h l2] scan_manifests_obj [OF h sc] ob1 by simp_all
    show ?thesis
    proof (cases "classify_packs live st (?base @ ''/chunks/'') ps 0 [] []")
      case (Inl e)
      then have "w' = w\<lparr> remote := s3 \<rparr>" "b' = b" "r = Inl e"
        using rc l1 sc l2 True by (auto simp: reconcile_prefix_def pl' Let_def)
      then show ?thesis using ob3 by (intro none) simp_all
    next
      case (Inr res)
      obtain known revived md where cl: "classify_packs live st (?base @ ''/chunks/'') ps 0 [] [] = Inr (known, revived, md)"
        using Inr by (cases res) auto
      let ?st = "zero_stats\<lparr> manifests_scanned := scanned, manifest_errors := 0,
          live_packs := length (remdups live), known_packs := known \<rparr>"
      let ?d = "empty_delta\<lparr> revived_packs := revived \<rparr>"
      obtain ss s4 where l3: "os_list ?os (?base @ ''/snapshots'') s3 = (ss, s4)" by force
      obtain complete dead seen s5 where ck: "check_snapshots ?os crc ss md 0 s4 = (complete, dead, seen, s5)"
        by (metis prod_cases4)
      have ob5: "obj s5 = obj ?s"
        using check_snapshots_dead [OF h ck] honest_list(1) [OF h l3] ob3 by simp
      have rc': "reconcile_prefix crc env cs st g dry b w =
          (if md = [] then (Inr (?d, ?st\<lparr> prefixes_scanned := 1 \<rparr>), b, w\<lparr> remote := s3 \<rparr>)
           else if \<not> complete then (Inr (?d, ?st\<lparr> snapshots_checked := seen, prefixes_scanned := 1 \<rparr>), b, w\<lparr> remote := s5 \<rparr>)
           else sweep_dead env cs st g dry dead ?d (?st\<lparr> snapshots_checked := seen \<rparr>) b (w\<lparr> remote := s5 \<rparr>))"
        using l1 sc l2 cl l3 ck True by (simp add: reconcile_prefix_def pl' Let_def)
      consider "md = []" | "md \<noteq> []" "\<not> complete" | "md \<noteq> []" complete by blast
      then show ?thesis
      proof cases
        case 1
        then show ?thesis using rc rc' ob3 by (intro none) (auto simp: zero_stats_def)
      next
        case 2
        then show ?thesis using rc rc' ob5 by (intro none) (auto simp: zero_stats_def)
      next
        case 3
        have pf: "obj s5 = obj ?s \<and> set dead \<inter> live_set crc ?base (obj ?s) = {}"
          using passes_find_live [OF h l1 _ cl l3 ob3(1)] sc ck True 3(2) by simp
        have "sweep_dead env cs st g dry dead ?d (?st\<lparr> snapshots_checked := seen \<rparr>) b (w\<lparr> remote := s5 \<rparr>) = (r, b', w')"
          using rc rc' 3 by simp
        from sweep_dead_swept [OF h o pl this conjunct2 [OF pf]]
        show ?thesis using conjunct1 [OF pf] by (auto simp: zero_stats_def)
      qed
    qed
  qed
qed

section \<open>A whole run\<close>

lemma pack_key_base_inj:
  assumes "chunk_pack_key (P @ a) c p = chunk_pack_key (P @ b) c' p'" "CHR ''/'' \<notin> set a" "CHR ''/'' \<notin> set b"
  shows "a = b \<and> c = c' \<and> p = p'"
proof -
  have e: "a @ CHR ''/'' # ''chunks/'' @ chunk_pack_rel c p = b @ CHR ''/'' # ''chunks/'' @ chunk_pack_rel c' p'"
    using assms(1) by (simp add: chunk_pack_key_def)
  then have "split_slash (a @ CHR ''/'' # ''chunks/'' @ chunk_pack_rel c p)
      = split_slash (b @ CHR ''/'' # ''chunks/'' @ chunk_pack_rel c' p')" by simp
  then have ab: "a = b" using split_slash_append assms(2,3) by (metis Pair_inject option.inject)
  then have "chunk_pack_rel c p = chunk_pack_rel c' p'" using e by simp
  then have "Some (c, p) = Some (c', p')" using pack_path_roundtrip by metis
  then show ?thesis using ab by simp
qed

text \<open>The prefixes the run works on: directories below \<open>exports/\<close>.\<close>

definition export_dirs :: "string \<Rightarrow> string list \<Rightarrow> bool" where
  "export_dirs P ps \<longleftrightarrow> (\<forall>x\<in>set ps. \<exists>name. x = P @ name \<and> CHR ''/'' \<notin> set name \<and> name \<noteq> [])"

lemma split_slash_name:
  "\<lbrakk> split_slash r = Some (name, rest); r \<noteq> []; hd r \<noteq> CHR ''/'' \<rbrakk> \<Longrightarrow> CHR ''/'' \<notin> set name \<and> name \<noteq> []"
  by (cases r) (auto simp: split_slash_def split: if_splits dest: set_takeWhileD)

lemma discover_loop_dirs:
  assumes h: "honest os obj" and P: "os_path os (P' @ ''/'') = P'"
    and ne: "\<forall>r. ob (P' @ ''/'' @ r) \<noteq> None \<longrightarrow> r \<noteq> [] \<and> hd r \<noteq> CHR ''/''"
  shows "\<lbrakk> obj s = ob; export_dirs (P' @ ''/'') ps; discover_loop os (P' @ ''/'') fuel off ps s = Some (r, s') \<rbrakk> \<Longrightarrow>
   obj s' = ob \<and> (\<forall>qs. r = Inr qs \<longrightarrow> export_dirs (P' @ ''/'') qs)"
proof (induction fuel arbitrary: off ps s)
  case (Suc fuel)
  let ?P = "P' @ ''/''"
  obtain rs s1 where l: "(case off of None \<Rightarrow> os_list os P' s | Some k \<Rightarrow> os_list_with_offset os P' k s) = (rs, s1)" by force
  have o: "obj s1 = ob" "\<And>k. Inr k \<in> set rs \<Longrightarrow> ob k \<noteq> None \<and> (\<exists>r. k = P' @ ''/'' @ r)"
    using l honest_list [OF h] honest_offset [OF h] Suc(2) by (auto split: option.splits)
  consider "rs = []" | e t where "rs = Inl e # t" | k t where "rs = Inr k # t" by (metis list.exhaust sum.exhaust)
  then show ?case
  proof cases
    case (3 k t)
    obtain rel where rel: "k = ?P @ rel" "rel \<noteq> []" "hd rel \<noteq> CHR ''/''" using o(2) [of k] 3 ne by auto
    have st: "strip_prefix ?P k = Some rel" using rel(1) by (simp add: strip_prefix_Some)
    show ?thesis
    proof (cases "split_slash rel")
      case None
      then have "discover_loop os ?P fuel (Some k) ps s1 = Some (r, s')" using Suc(4) l 3 st P by (auto simp: Let_def)
      from Suc(1) [OF o(1) Suc(3) this] show ?thesis .
    next
      case (Some nm)
      obtain name rest where nm: "nm = (name, rest)" by force
      have d: "export_dirs ?P (ps @ [?P @ name])"
        using Suc(3) split_slash_name Some nm rel by (auto simp: export_dirs_def)
      have "discover_loop os ?P fuel (Some (os_path os (?P @ name @ ''0''))) (ps @ [?P @ name]) s1 = Some (r, s')"
        using Suc(4) l 3 st Some nm P by (auto simp: Let_def)
      from Suc(1) [OF o(1) d this] show ?thesis .
    qed
  qed (use Suc(3,4) l o P in \<open>auto simp: Let_def\<close>)
qed simp

definition run_keys :: "string \<Rightarrow> string set" where
  "run_keys P = {chunk_pack_key (P @ name) c p | name c p. CHR ''/'' \<notin> set name}"

lemma first_segment:
  "\<lbrakk> a @ CHR ''/'' # x = b @ CHR ''/'' # y; CHR ''/'' \<notin> set a; CHR ''/'' \<notin> set b \<rbrakk> \<Longrightarrow> a = b \<and> x = y"
  using split_slash_append by (metis Pair_inject option.inject)

lemma run_keys_manifests:
  assumes "CHR ''/'' \<notin> set name"
  shows "P @ name @ ''/manifests/'' @ r \<notin> run_keys P" "P @ name @ ''/snapshots/'' @ r \<notin> run_keys P"
  using first_segment [of name "''manifests/'' @ r"] first_segment [of name "''snapshots/'' @ r"] assms
  by (auto simp: run_keys_def chunk_pack_key_def)

lemma live_set_frame:
  assumes "frame_on (run_keys P) ob ob'" "CHR ''/'' \<notin> set name"
  shows "live_set crc (P @ name) ob' = live_set crc (P @ name) ob"
proof -
  have "ob' k = ob k" if "is_manifest_path ((P @ name) @ ''/manifests/'') k \<or> (\<exists>r. k = (P @ name) @ ''/snapshots/'' @ r)" for k
  proof -
    have "k \<notin> run_keys P" using that manifest_path_under run_keys_manifests [OF assms(2)] by fastforce
    then show ?thesis using assms(1) by (simp add: frame_on_def)
  qed
  then show ?thesis unfolding live_set_def refs_def by (intro SUP_cong) auto
qed

lemma pack_keys_run: "CHR ''/'' \<notin> set name \<Longrightarrow> pack_keys (P @ name) el \<subseteq> run_keys P"
  by (auto simp: pack_keys_def run_keys_def)

lemma cs_new_fields [simp]:
  "object_store (cs_new os x cfg) = os" "base_path (cs_new os x cfg) = trim_end_slashes x"
  by (simp_all add: cs_new_def)

lemma trim_dir: "\<lbrakk> CHR ''/'' \<notin> set name; name \<noteq> [] \<rbrakk> \<Longrightarrow> trim_end_slashes (P @ name) = P @ name"
  by (cases name rule: rev_cases) (auto simp: trim_end_slashes_def)

definition counted :: "(GcStats \<Rightarrow> nat) \<Rightarrow> (gc_error + GcStateDelta \<times> GcStats) list \<Rightarrow> nat" where
  "counted f rs = sum_list (map (\<lambda>r. case r of Inl _ \<Rightarrow> 0 | Inr (_, st) \<Rightarrow> f st) rs)"

lemma counted_simps [simp]:
  "counted f [] = 0" "counted f (Inl e # rs) = counted f rs" "counted f (Inr (d, st) # rs) = f st + counted f rs"
  by (simp_all add: counted_def)

lemma reconcile_all_safe:
  assumes h: "honest os obj" and o: "\<And>xs. set (set_order env xs) \<subseteq> set xs"
    and pl: "\<And>name. CHR ''/'' \<notin> set name \<Longrightarrow> name \<noteq> [] \<Longrightarrow> plain_keys os (P @ name)"
  shows "\<lbrakk> export_dirs P ps; reconcile_all crc env os st g dry ps b s = (rs, b', s') \<rbrakk> \<Longrightarrow>
     frame_on (run_keys P) (obj s) (obj s') \<and> b' \<le> b \<and> counted packs_deleted rs \<le> b - b' \<and> counted layers_deleted rs = 0
   \<and> (\<forall>name c p. CHR ''/'' \<notin> set name \<and> (c, p) \<in> live_set crc (P @ name) (obj s)
        \<longrightarrow> obj s' (chunk_pack_key (P @ name) c p) = obj s (chunk_pack_key (P @ name) c p))"
proof (induction ps arbitrary: b s rs)
  case (Cons x ps)
  obtain name where x: "x = P @ name" and ns: "CHR ''/'' \<notin> set name" "name \<noteq> []" using Cons(2) by (auto simp: export_dirs_def)
  let ?cs = "cs_new os x default_config"
  have base: "base_path ?cs = P @ name" using trim_dir [OF ns] x by simp
  obtain r b1 w where rc: "reconcile_prefix crc env ?cs st g dry b \<lparr> remote = s, circuit = None \<rparr> = (r, b1, w)"
    by (metis prod_cases3)
  obtain rs1 b2 s2 where al: "reconcile_all crc env os st g dry ps b1 (remote w) = (rs1, b2, s2)" by (metis prod_cases3)
  then have al: "reconcile_all crc env os st g dry ps b1 (remote w) = (rs1, b', s')" and out: "rs = r # rs1"
    using Cons(3) rc x by auto
  obtain el where el: "swept env st g (live_set crc (P @ name) (obj s)) (b - b1) el" "b1 \<le> b"
      "frame_on (pack_keys (P @ name) el) (obj s) (obj (remote w))"
      "\<forall>d st'. r = Inr (d, st') \<longrightarrow> packs_deleted st' \<le> b - b1 \<and> layers_deleted st' = 0"
    using reconcile_swept [of ?cs obj env, OF _ o _ rc] h pl [OF ns] base by auto
  have fr: "frame_on (run_keys P) (obj s) (obj (remote w))"
    using frame_on_mono [OF el(3) pack_keys_run [OF ns(1)]] .
  have IH: "frame_on (run_keys P) (obj (remote w)) (obj s') \<and> b' \<le> b1 \<and> counted packs_deleted rs1 \<le> b1 - b'
      \<and> counted layers_deleted rs1 = 0
      \<and> (\<forall>name c p. CHR ''/'' \<notin> set name \<and> (c, p) \<in> live_set crc (P @ name) (obj (remote w))
           \<longrightarrow> obj s' (chunk_pack_key (P @ name) c p) = obj (remote w) (chunk_pack_key (P @ name) c p))"
    using Cons(1) [OF _ al] Cons(2) by (simp add: export_dirs_def)
  have "obj s' (chunk_pack_key (P @ nm) c p) = obj s (chunk_pack_key (P @ nm) c p)"
    if nm: "CHR ''/'' \<notin> set nm" and lv: "(c, p) \<in> live_set crc (P @ nm) (obj s)" for nm c p
  proof -
    have "chunk_pack_key (P @ nm) c p \<notin> pack_keys (P @ name) el"
    proof
      assume "chunk_pack_key (P @ nm) c p \<in> pack_keys (P @ name) el"
      then obtain c' p' where k: "chunk_pack_key (P @ nm) c p = chunk_pack_key (P @ name) c' p'" "(c', p') \<in> set el"
        by (auto simp: pack_keys_def)
      then have "nm = name" "(c, p) \<in> set el" using pack_key_base_inj [OF k(1) nm ns(1)] by auto
      then show False using el(1) lv by (auto simp: swept_def)
    qed
    then have "obj (remote w) (chunk_pack_key (P @ nm) c p) = obj s (chunk_pack_key (P @ nm) c p)"
      using el(3) by (simp add: frame_on_def)
    moreover have "(c, p) \<in> live_set crc (P @ nm) (obj (remote w))" using live_set_frame [OF fr nm] lv by simp
    ultimately show ?thesis using IH nm by auto
  qed
  moreover have num: "b' \<le> b1" "counted packs_deleted rs1 \<le> b1 - b'" "counted layers_deleted rs1 = 0"
    using IH by simp_all
  moreover have "counted packs_deleted rs \<le> b - b' \<and> counted layers_deleted rs = 0"
  proof (cases r)
    case (Inl e)
    then show ?thesis using num el(2) out by simp
  next
    case (Inr a)
    obtain d st' where "a = (d, st')" by force
    then have "packs_deleted st' \<le> b - b1" "layers_deleted st' = 0" using el(4) Inr by simp_all
    then show ?thesis using num el(2) out Inr \<open>a = (d, st')\<close> by simp
  qed
  moreover have "frame_on (run_keys P) (obj s) (obj s')" using frame_on_trans [OF fr conjunct1 [OF IH]] .
  moreover have "b' \<le> b" using IH el(2) by simp
  ultimately show ?case by blast
qed simp

lemma merge_results_counts:
  "merge_results rs st stats = (Inr out, st') \<Longrightarrow>
   packs_deleted out = packs_deleted stats + counted packs_deleted rs
   \<and> layers_deleted out = layers_deleted stats + counted layers_deleted rs"
  by (induction rs st stats rule: merge_results.induct) (auto simp: merge_stats_def)

definition layer_keys :: "string \<Rightarrow> string set" where
  "layer_keys db = {db @ ''/layers'' @ x | x. True}"

lemma delete_paths_frame:
  assumes "honest os obj"
  shows "\<lbrakk> set ps \<subseteq> K; delete_paths os ps s = (r, s') \<rbrakk> \<Longrightarrow> frame_on K (obj s) (obj s')"
proof (induction ps arbitrary: s r)
  case (Cons p ps)
  obtain d s1 where d: "os_delete os p s = (d, s1)" by force
  have f: "frame_on K (obj s) (obj s1)"
    unfolding frame_on_def using honest_delete [OF assms d] Cons(2) by (metis list.set_intros(1) subsetD)
  have "s' = s1 \<or> (\<exists>r'. delete_paths os ps s1 = (r', s'))"
    using Cons(3) d by (auto split: sum.splits if_splits prod.splits)
  then show ?case using Cons(1,2) f frame_on_trans by (metis insert_subset list.simps(15))
qed simp

lemma all_listed_set: "all_listed rs = Inr ps \<Longrightarrow> set ps = {p. Inr p \<in> set rs}"
  by (induction rs arbitrary: ps rule: all_listed.induct) auto

lemma delete_subtree_frame:
  assumes h: "honest os obj" and q: "os_path os (trim_end_slashes db @ ''/layers/'' @ digest @ ''/'') = trim_end_slashes db @ ''/layers'' @ q"
    and d: "delete_layer_subtree os db digest s = (r, s')"
  shows "frame_on (layer_keys (trim_end_slashes db)) (obj s) (obj s')"
proof -
  let ?q = "trim_end_slashes db @ ''/layers'' @ q"
  obtain rs s1 where l: "os_list os ?q s = (rs, s1)" by force
  note hl = honest_list [OF h l]
  show ?thesis
  proof (cases "all_listed rs")
    case (Inl e)
    then have "s' = s1" using d l q by (simp add: delete_layer_subtree_def)
    then show ?thesis using hl(1) by simp
  next
    case (Inr ps)
    have "set ps \<subseteq> layer_keys (trim_end_slashes db)"
      using all_listed_set [OF Inr] hl(2) by (fastforce simp: layer_keys_def)
    moreover have "delete_paths os ps s1 = (r, s')" using d l q Inr by (simp add: delete_layer_subtree_def)
    ultimately show ?thesis using delete_paths_frame [OF h] hl(1) by metis
  qed
qed

lemma sweep_layers_frame:
  assumes h: "honest os obj" and q: "\<And>digest. \<exists>q. os_path os (trim_end_slashes db @ ''/layers/'' @ digest @ ''/'') = trim_end_slashes db @ ''/layers'' @ q"
  shows "sweep_layers env os db st g dry live ds delta stats b s = (r, b', s') \<Longrightarrow>
    frame_on (layer_keys (trim_end_slashes db)) (obj s) (obj s') \<and> b' \<le> b
    \<and> (\<forall>d st'. r = Inr (d, st') \<longrightarrow> layers_deleted st' + b' \<le> layers_deleted stats + b \<and> packs_deleted st' = packs_deleted stats)"
proof (induction ds arbitrary: delta stats b s)
  case (Cons x ds)
  let ?st1 = "stats\<lparr> dead_layers_found := dead_layers_found stats + 1 \<rparr>"
  obtain cl b1 where t: "try_claim_delete_slot b = (cl, b1)" by force
  obtain dr s1 where d: "delete_layer_subtree os db x s = (dr, s1)" by force
  have b1: "b1 = b - (if cl then 1 else 0)" "b1 \<le> b" "cl \<longrightarrow> b > 0"
    using t by (auto simp: try_claim_delete_slot_def split: if_splits)
  have f1: "frame_on (layer_keys (trim_end_slashes db)) (obj s) (obj s1)"
    using delete_subtree_frame [OF h _ d] q [of x] by blast
  consider (skip) delta' stats' where "sweep_layers env os db st g dry live ds delta' stats' b s = (r, b', s')"
      "layers_deleted stats' = layers_deleted stats" "packs_deleted stats' = packs_deleted stats"
    | (failed) e where "cl" "dr = Inl e" "r = Inl e" "b' = b1" "s' = s1"
    | (deleted) delta' stats' where "cl" "sweep_layers env os db st g dry live ds delta' stats' b1 s1 = (r, b', s')"
      "layers_deleted stats' = layers_deleted stats + 1" "packs_deleted stats' = packs_deleted stats"
  proof (cases "x \<notin> set live \<and> is_layer_eligible env st x g \<and> \<not> dry \<and> cl")
    case True
    then show ?thesis using Cons(2) t d that(2,3) by (cases dr) (auto simp: Let_def)
  next
    case False
    have "\<not> cl \<longrightarrow> b1 = b" using b1(1) by simp
    then show ?thesis using False Cons(2) t that(1) by (auto simp: Let_def split: if_splits)
  qed
  then show ?case
  proof cases
    case skip
    then show ?thesis using Cons(1) [OF skip(1)] by simp
  next
    case failed
    then show ?thesis using f1 b1(2) by simp
  next
    case deleted
    note IH = Cons(1) [OF deleted(2)]
    have "b > 0" "b1 = b - 1" using b1 deleted(1) by simp_all
    then show ?thesis using IH f1 frame_on_trans deleted(3,4) by fastforce
  qed
qed auto

text \<open>What the run relies on: an honest store, keys without empty segments, and \<open>Path::from\<close> as documented.\<close>

definition run_ok :: "'s object_store \<Rightarrow> ('s \<Rightarrow> string \<Rightarrow> bytes option) \<Rightarrow> gc_env \<Rightarrow> string \<Rightarrow> 's \<Rightarrow> bool" where
  "run_ok os obj env db s \<longleftrightarrow>
     honest os obj \<and> (\<forall>xs. set (set_order env xs) \<subseteq> set xs)
   \<and> (\<forall>name. CHR ''/'' \<notin> set name \<longrightarrow> name \<noteq> [] \<longrightarrow> plain_keys os (trim_end_slashes db @ ''/exports/'' @ name))
   \<and> os_path os (trim_end_slashes db @ ''/exports/'') = trim_end_slashes db @ ''/exports''
   \<and> (\<forall>digest. \<exists>q. os_path os (trim_end_slashes db @ ''/layers/'' @ digest @ ''/'') = trim_end_slashes db @ ''/layers'' @ q)
   \<and> (\<forall>r. obj s (trim_end_slashes db @ ''/exports/'' @ r) \<noteq> None \<longrightarrow> r \<noteq> [] \<and> hd r \<noteq> CHR ''/'')"

lemma descriptors_obj:
  assumes "honest os obj"
  shows "referenced_layers env os db names s = (r, s') \<Longrightarrow> obj s' = obj s"
proof (induction names arbitrary: s r s')
  case (Cons n names)
  obtain d s1 where d: "get_image_descriptor env os db n s = (d, s1)" by force
  obtain g s2 where g: "os_get os (os_path os (image_key db n)) WholeObject s = (g, s2)" by force
  have "s1 = s2" using d g by (auto simp: get_image_descriptor_def split: sum.splits option.splits if_splits)
  then have o: "obj s1 = obj s" using honest_get(1) [OF assms g] by simp
  obtain q s3 where q: "referenced_layers env os db names s1 = (q, s3)" by force
  have "s' = s1 \<or> s' = s3" using Cons(2) d q by (auto split: sum.splits)
  then show ?case using Cons(1) [OF q] o by auto
qed simp

lemma layers_obj:
  assumes h: "honest os obj"
  shows "collect_referenced_layers env os db s = (r, s') \<Longrightarrow> obj s' = obj s"
    "list_layer_digests os db s = (r2, s2) \<Longrightarrow> obj s2 = obj s"
proof -
  obtain rs s1 where l: "os_list os (os_path os (db @ ''/images/'')) s = (rs, s1)" by force
  show "obj s' = obj s" if "collect_referenced_layers env os db s = (r, s')"
    using that l honest_list(1) [OF h l] descriptors_obj [OF h]
    by (auto simp: collect_referenced_layers_def list_image_descriptors_def Let_def split: sum.splits)
  obtain rs' s1' where l': "os_list os (os_path os (trim_end_slashes db @ ''/layers/'')) s = (rs', s1')" by force
  show "obj s2 = obj s" if "list_layer_digests os db s = (r2, s2)"
    using that l' honest_list(1) [OF h l'] by (auto simp: list_layer_digests_def Let_def)
qed

lemma reconcile_layers_frame:
  assumes "run_ok os obj env db s0" "reconcile_layers env os db st g dry b s = (r, b', s')"
  shows "frame_on (layer_keys (trim_end_slashes db)) (obj s) (obj s')
    \<and> (\<forall>d st'. r = Inr (d, st') \<longrightarrow> layers_deleted st' \<le> b \<and> packs_deleted st' = 0)"
proof -
  have h: "honest os obj"
    and q: "\<And>digest. \<exists>q. os_path os (trim_end_slashes db @ ''/layers/'' @ digest @ ''/'') = trim_end_slashes db @ ''/layers'' @ q"
    using assms(1) by (auto simp: run_ok_def)
  obtain lv s1 where c: "collect_referenced_layers env os db s = (lv, s1)" by force
  obtain ds s2 where l: "list_layer_digests os db s1 = (ds, s2)" by force
  have o: "obj s1 = obj s" "obj s2 = obj s" using layers_obj [OF h] c l by metis+
  consider e where "lv = Inl e" | a e where "lv = Inr a" "ds = Inl e" | a x where "lv = Inr a" "ds = Inr x"
    by (metis sum.exhaust)
  then show ?thesis
  proof cases
    case (3 a x)
    then have "sweep_layers env os db st g dry a (layer_order env x) empty_delta zero_stats b s2 = (r, b', s')"
      using assms(2) c l by (simp add: reconcile_layers_def)
    from sweep_layers_frame [OF h q this] show ?thesis using o by (auto simp: zero_stats_def)
  qed (use assms(2) c l o in \<open>auto simp: reconcile_layers_def\<close>)
qed

lemma layer_keys_exports: "db @ ''/exports/'' @ r \<notin> layer_keys db"
  by (simp add: layer_keys_def)

lemma orchestrate_phases:
  assumes ok: "run_ok os obj env db s"
    and run: "gc_orchestrate fuel crc env os db st g maxd dry s = Some (r, st', s')"
  shows "frame_on (run_keys (trim_end_slashes db @ ''/exports/'') \<union> layer_keys (trim_end_slashes db)) (obj s) (obj s')
    \<and> (\<forall>name c p. CHR ''/'' \<notin> set name \<and> (c, p) \<in> live_set crc (trim_end_slashes db @ ''/exports/'' @ name) (obj s)
        \<longrightarrow> obj s' (chunk_pack_key (trim_end_slashes db @ ''/exports/'' @ name) c p)
            = obj s (chunk_pack_key (trim_end_slashes db @ ''/exports/'' @ name) c p))
    \<and> (\<forall>stats. r = Inr stats \<longrightarrow> packs_deleted stats + layers_deleted stats \<le> maxd)"
proof -
  let ?P = "trim_end_slashes db @ ''/exports/''" and ?L = "layer_keys (trim_end_slashes db)"
  have h: "honest os obj" and so: "\<And>xs. set (set_order env xs) \<subseteq> set xs"
    and pl: "\<And>name. CHR ''/'' \<notin> set name \<Longrightarrow> name \<noteq> [] \<Longrightarrow> plain_keys os (?P @ name)"
    and P: "os_path os ((trim_end_slashes db @ ''/exports'') @ ''/'') = trim_end_slashes db @ ''/exports''"
    and ne: "\<forall>r. obj s ((trim_end_slashes db @ ''/exports'') @ ''/'' @ r) \<noteq> None \<longrightarrow> r \<noteq> [] \<and> hd r \<noteq> CHR ''/''"
    using ok by (auto simp: run_ok_def)
  obtain d s1 where dl: "discover_loop os ?P fuel None [] s = Some (d, s1)"
    using run by (auto simp: gc_orchestrate_def discover_s3_prefixes_def split: option.splits sum.splits)
  then have dl': "discover_loop os ((trim_end_slashes db @ ''/exports'') @ ''/'') fuel None [] s = Some (d, s1)" by simp
  have D: "obj s1 = obj s \<and> (\<forall>qs. d = Inr qs \<longrightarrow> export_dirs ?P qs)"
    using discover_loop_dirs [OF h P ne refl _ dl'] by (simp add: export_dirs_def)
  show ?thesis
  proof (cases d)
    case (Inl e)
    then show ?thesis using run dl D by (auto simp: gc_orchestrate_def discover_s3_prefixes_def)
  next
    case (Inr qs)
    let ?ps = "remdups_adj (sort qs)"
    obtain rs b2 s2 where al: "reconcile_all crc env os st g dry ?ps maxd s1 = (rs, b2, s2)" by (metis prod_cases3)
    have "export_dirs ?P ?ps" using D Inr by (simp add: export_dirs_def)
    note A = reconcile_all_safe [OF h so pl this al]
    obtain mr st1 where mr: "merge_results rs st zero_stats = (mr, st1)" by force
    have base: "frame_on (run_keys ?P \<union> ?L) (obj s) (obj s2)" "b2 \<le> maxd"
      using A D frame_on_mono [of "run_keys ?P"] by auto
    have live: "obj s2 (chunk_pack_key (?P @ name) c p) = obj s (chunk_pack_key (?P @ name) c p)"
      if "CHR ''/'' \<notin> set name" "(c, p) \<in> live_set crc (?P @ name) (obj s)" for name c p
      using A D that by simp
    obtain lr b3 s3 where lr: "reconcile_layers env os db st1 g dry b2 s2 = (lr, b3, s3)" by (metis prod_cases3)
    note Lf = reconcile_layers_frame [OF ok lr]
    have s': "s' = s2 \<or> s' = s3"
      using run dl Inr al mr lr by (auto simp: gc_orchestrate_def discover_s3_prefixes_def split: sum.splits)
    have fr3: "frame_on (run_keys ?P \<union> ?L) (obj s) (obj s3)"
      using frame_on_trans [OF base(1) frame_on_mono [OF conjunct1 [OF Lf]]] by blast
    have live3: "obj s3 (chunk_pack_key (?P @ name) c p) = obj s2 (chunk_pack_key (?P @ name) c p)" for name c p
      using conjunct1 [OF Lf] layer_keys_exports by (simp add: frame_on_def chunk_pack_key_def)
    have "packs_deleted stats + layers_deleted stats \<le> maxd" if eq: "r = Inr stats" for stats
    proof -
      obtain st0 ld ls where "mr = Inr st0" "lr = Inr (ld, ls)" "stats = merge_stats st0 ls"
        using run dl Inr al mr lr eq
        by (auto simp: gc_orchestrate_def discover_s3_prefixes_def split: sum.splits)
      then show ?thesis using merge_results_counts [of rs st zero_stats st0 st1] mr A Lf base(2)
        by (auto simp: merge_stats_def zero_stats_def)
    qed
    then show ?thesis using s' base(1) fr3 live live3 by auto
  qed
qed


section \<open>Budget and grace period\<close>


section \<open>Discovery\<close>

text \<open>
  A store that lists its keys in the order \<open>keys\<close> and honours the offset.  S3 lists in
  ascending order.
\<close>

definition under :: "string \<Rightarrow> string \<Rightarrow> bool" where
  "under p k \<longleftrightarrow> (\<exists>r. k = p @ ''/'' @ r)"

definition lists_in_order :: "'s object_store \<Rightarrow> ('s \<Rightarrow> string list) \<Rightarrow> bool" where
  "lists_in_order os keys \<longleftrightarrow>
     (\<forall>p s. \<exists>s'. keys s' = keys s \<and> os_list os p s = (map Inr (filter (under p) (keys s)), s'))
   \<and> (\<forall>p off s. \<exists>s'. keys s' = keys s
        \<and> os_list_with_offset os p off s = (map Inr (filter (\<lambda>k. under p k \<and> off < k) (keys s)), s'))"

text \<open>The name of the export a key below the exports directory belongs to.\<close>

definition export_of :: "string \<Rightarrow> string \<Rightarrow> string \<Rightarrow> bool" where
  "export_of P k name \<longleftrightarrow> CHR ''/'' \<notin> set name \<and> (\<exists>r. k = P @ name @ ''/'' @ r)"

lemma append_less [simp]: "p @ x < p @ y \<longleftrightarrow> x < (y :: string)" "p @ x \<le> p @ y \<longleftrightarrow> x \<le> (y :: string)"
  by (induction p) auto

lemma slash_zero: "CHR ''/'' < c \<Longrightarrow> CHR ''0'' \<le> c"
  by (simp add: less_char_def less_eq_char_def)

lemma between_dirs:
  "\<lbrakk> name @ ''/'' @ r \<le> x; x \<le> name @ ''0'' \<rbrakk> \<Longrightarrow> x = name @ ''0'' \<or> (\<exists>y. x = name @ ''/'' @ y)"
proof (induction name arbitrary: x)
  case Nil
  then obtain c x' where x: "x = c # x'" by (cases x) auto
  show ?case
  proof (cases "c = CHR ''/''")
    case False
    then have "CHR ''/'' < c" using Nil(1) x by auto
    then have "c = CHR ''0''" using Nil(2) x slash_zero by fastforce
    then show ?thesis using Nil(2) x by (cases x') auto
  qed (use x in simp)
next
  case (Cons c name)
  then obtain d x' where x: "x = d # x'" by (cases x) auto
  then have "d = c" using Cons(2,3) by auto
  then show ?case using Cons x by auto
qed

lemma split_slash_Some: "split_slash rel = Some (name, rest) \<Longrightarrow> rel = name @ ''/'' @ rest \<and> CHR ''/'' \<notin> set name"
proof -
  assume a: "split_slash rel = Some (name, rest)"
  then have "CHR ''/'' \<in> set rel" by (simp add: split_slash_def split: if_splits)
  then obtain u v where "rel = u @ CHR ''/'' # v" "CHR ''/'' \<notin> set u" by (meson split_list_first)
  then show ?thesis using a split_slash_append by auto
qed

definition pending :: "string \<Rightarrow> string option \<Rightarrow> string list \<Rightarrow> string list" where
  "pending P' off ks = filter (\<lambda>k. under P' k \<and> (case off of None \<Rightarrow> True | Some z \<Rightarrow> z < k)) ks"

lemma pending_shrinks:
  assumes "pending P' off ks = k0 # t" "k0 \<le> z'"
  shows "length (pending P' (Some z') ks) < length (pending P' off ks)"
proof -
  have k0: "k0 \<in> set (pending P' off ks)" using assms(1) by simp
  then have lt: "\<And>z. off = Some z \<Longrightarrow> z < z'" using assms(2) by (auto simp: pending_def)
  have "pending P' (Some z') ks = filter (\<lambda>k. z' < k) (pending P' off ks)"
    unfolding pending_def filter_filter
    by (rule filter_cong [OF refl]) (use lt in \<open>cases off; auto dest: less_trans\<close>)
  then show ?thesis using k0 assms(2) by (simp add: length_filter_less)
qed

lemma pending_least:
  assumes "sorted_wrt (<) ks" "pending P' off ks = k0 # t" "k \<in> set ks" "under P' k"
  shows "(\<exists>z. off = Some z \<and> k \<le> z) \<or> k0 \<le> k"
proof -
  have srt: "sorted_wrt (<) (k0 # t)" using assms(1,2) by (metis pending_def sorted_wrt_filter)
  show ?thesis
  proof (cases "\<exists>z. off = Some z \<and> k \<le> z")
    case False
    then have "case off of None \<Rightarrow> True | Some z \<Rightarrow> z < k" by (cases off) (simp_all add: not_le)
    then have "k \<in> set (pending P' off ks)" unfolding pending_def using assms(3,4) by simp
    then have "k \<in> set (k0 # t)" using assms(2) by simp
    then show ?thesis using srt by auto
  qed simp
qed

lemma discover_step:
  assumes l: "lists_in_order os keys" and P: "os_path os (P' @ ''/'') = P'"
  shows "\<exists>s'. keys s' = keys s \<and> discover_loop os (P' @ ''/'') (Suc fuel) off ps s =
     (case pending P' off (keys s) of
        [] \<Rightarrow> Some (Inr ps, s')
      | k # _ \<Rightarrow>
          (case split_slash (drop (length P' + 1) k) of
             None \<Rightarrow> discover_loop os (P' @ ''/'') fuel (Some k) ps s'
           | Some (name, _) \<Rightarrow> discover_loop os (P' @ ''/'') fuel (Some (os_path os (P' @ ''/'' @ name @ ''0'')))
               (ps @ [P' @ ''/'' @ name]) s'))"
proof -
  obtain s' where s': "keys s' = keys s"
      "(case off of None \<Rightarrow> os_list os P' s | Some k \<Rightarrow> os_list_with_offset os P' k s) = (map Inr (pending P' off (keys s)), s')"
  proof (cases off)
    case None
    have "\<exists>s'. keys s' = keys s \<and> os_list os P' s = (map Inr (filter (under P') (keys s)), s')"
      using l unfolding lists_in_order_def by blast
    then show ?thesis using that None by (auto simp: pending_def)
  next
    case (Some z)
    have "\<exists>s'. keys s' = keys s \<and> os_list_with_offset os P' z s = (map Inr (filter (\<lambda>k. under P' k \<and> z < k) (keys s)), s')"
      using l unfolding lists_in_order_def by blast
    then show ?thesis using that Some by (auto simp: pending_def)
  qed
  have strip: "strip_prefix (P' @ ''/'') k = Some (drop (length P' + 1) k)" if "under P' k" for k
    using that by (auto simp: under_def strip_prefix_Some)
  have "under P' k" if "pending P' off (keys s) = k # t" for k t
  proof -
    have "k \<in> set (pending P' off (keys s))" using that by simp
    then show ?thesis unfolding pending_def by simp
  qed
  then show ?thesis
    using s' P strip by (intro exI [of _ s']) (auto simp: Let_def split: list.splits option.splits)
qed

lemma discover_loop_complete:
  assumes l: "lists_in_order os keys" and P: "os_path os (P' @ ''/'') = P'"
    and zero: "\<And>name. os_path os (P' @ ''/'' @ name @ ''0'') = P' @ ''/'' @ name @ ''0''"
    and srt: "sorted_wrt (<) ks"
  shows "\<lbrakk> keys s = ks; length (pending P' off ks) < fuel;
     \<forall>x\<in>set ps. \<exists>k\<in>set ks. \<exists>name. export_of (P' @ ''/'') k name \<and> x = P' @ ''/'' @ name;
     \<forall>k\<in>set ks. \<forall>name. export_of (P' @ ''/'') k name \<and> (\<exists>z. off = Some z \<and> k \<le> z) \<longrightarrow> P' @ ''/'' @ name \<in> set ps \<rbrakk> \<Longrightarrow>
   \<exists>qs s'. discover_loop os (P' @ ''/'') fuel off ps s = Some (Inr qs, s') \<and> keys s' = ks
     \<and> set qs = {P' @ ''/'' @ name | name. \<exists>k\<in>set ks. export_of (P' @ ''/'') k name}"
proof (induction fuel arbitrary: off ps s)
  case (Suc fuel)
  have ex_under: "under P' k" if "export_of (P' @ ''/'') k name" for k name
    using that by (auto simp: export_of_def under_def)
  obtain s' where ks': "keys s' = ks" and step: "discover_loop os (P' @ ''/'') (Suc fuel) off ps s =
     (case pending P' off ks of
        [] \<Rightarrow> Some (Inr ps, s')
      | k # _ \<Rightarrow>
          (case split_slash (drop (length P' + 1) k) of
             None \<Rightarrow> discover_loop os (P' @ ''/'') fuel (Some k) ps s'
           | Some (name, _) \<Rightarrow> discover_loop os (P' @ ''/'') fuel (Some (os_path os (P' @ ''/'' @ name @ ''0'')))
               (ps @ [P' @ ''/'' @ name]) s'))"
    using discover_step [OF l P, of s fuel off ps] Suc(2) by auto
  show ?case
  proof (cases "pending P' off ks")
    case Nil
    have "P' @ ''/'' @ name \<in> set ps" if "k \<in> set ks" "export_of (P' @ ''/'') k name" for k name
    proof -
      have "k \<notin> set (pending P' off ks)" using Nil by simp
      then have "\<exists>z. off = Some z \<and> k \<le> z"
        using that ex_under [OF that(2)] by (cases off) (auto simp: pending_def not_less)
      then show ?thesis using Suc(5) that by blast
    qed
    then have "set ps = {P' @ ''/'' @ name | name. \<exists>k\<in>set ks. export_of (P' @ ''/'') k name}"
      using Suc(4) by blast
    then show ?thesis using step Nil ks' by simp
  next
    case (Cons k0 t)
    have k0: "k0 \<in> set ks" "under P' k0"
    proof -
      have "k0 \<in> set (pending P' off ks)" using Cons by simp
      then show "k0 \<in> set ks" "under P' k0" unfolding pending_def by simp_all
    qed
    obtain rel where rel: "k0 = P' @ ''/'' @ rel" using k0(2) by (auto simp: under_def)
    have dr: "drop (length P' + 1) k0 = rel" by (simp add: rel)
    show ?thesis
    proof (cases "split_slash rel")
      case None
      have nx: "\<not> export_of (P' @ ''/'') k0 name" for name
      proof
        assume "export_of (P' @ ''/'') k0 name"
        then obtain r where "rel = name @ ''/'' @ r" by (auto simp: export_of_def rel)
        then show False using None by (simp add: split_slash_def split: if_splits)
      qed
      have b: "\<forall>k\<in>set ks. \<forall>name. export_of (P' @ ''/'') k name \<and> (\<exists>z. Some k0 = Some z \<and> k \<le> z) \<longrightarrow> P' @ ''/'' @ name \<in> set ps"
      proof (intro ballI allI impI, elim conjE exE)
        fix k name z assume k: "k \<in> set ks" "export_of (P' @ ''/'') k name" "Some k0 = Some z" "k \<le> z"
        then have "k \<noteq> k0" using nx by auto
        then have "\<exists>z. off = Some z \<and> k \<le> z"
          using pending_least [OF srt Cons k(1) ex_under [OF k(2)]] k(3,4) by auto
        then show "P' @ ''/'' @ name \<in> set ps" using Suc(5) k by blast
      qed
      have "length (pending P' (Some k0) ks) < fuel" using pending_shrinks [OF Cons, of k0] Suc(3) by simp
      from Suc(1) [OF ks' this Suc(4) b] show ?thesis using step Cons dr None by simp
    next
      case (Some nr)
      obtain name rest where nr: "nr = (name, rest)" by force
      have nm: "rel = name @ ''/'' @ rest" "CHR ''/'' \<notin> set name" using split_slash_Some Some nr by auto
      let ?z = "P' @ ''/'' @ name @ ''0''"
      have le: "k0 \<le> ?z" by (simp add: rel nm(1) less_char_def)
      have a: "\<forall>x\<in>set (ps @ [P' @ ''/'' @ name]). \<exists>k\<in>set ks. \<exists>name. export_of (P' @ ''/'') k name \<and> x = P' @ ''/'' @ name"
      proof -
        have "export_of (P' @ ''/'') k0 name" using nm rel by (auto simp: export_of_def)
        then show ?thesis using Suc(4) k0(1) by auto
      qed
      have b: "\<forall>k\<in>set ks. \<forall>nm. export_of (P' @ ''/'') k nm \<and> (\<exists>z. Some ?z = Some z \<and> k \<le> z)
          \<longrightarrow> P' @ ''/'' @ nm \<in> set (ps @ [P' @ ''/'' @ name])"
      proof (intro ballI allI impI, elim conjE exE)
        fix k nm' z assume k: "k \<in> set ks" "export_of (P' @ ''/'') k nm'" "Some ?z = Some z" "k \<le> z"
        show "P' @ ''/'' @ nm' \<in> set (ps @ [P' @ ''/'' @ name])"
        proof (cases "\<exists>z. off = Some z \<and> k \<le> z")
          case True
          then show ?thesis using Suc(5) k by auto
        next
          case False
          then have ge: "k0 \<le> k" using pending_least [OF srt Cons k(1) ex_under [OF k(2)]] by blast
          obtain r where r: "k = P' @ ''/'' @ nm' @ ''/'' @ r" "CHR ''/'' \<notin> set nm'" using k(2) by (auto simp: export_of_def)
          have "k \<le> ?z" using k(3,4) by simp
          then have "name @ ''/'' @ rest \<le> nm' @ ''/'' @ r" "nm' @ ''/'' @ r \<le> name @ ''0''"
            using ge r(1) rel nm(1) by simp_all
          then consider "nm' @ ''/'' @ r = name @ ''0''" | y where "nm' @ ''/'' @ r = name @ ''/'' @ y"
            using between_dirs by blast
          then have "nm' = name"
          proof cases
            case 1
            then have "CHR ''/'' \<in> set (name @ ''0'')" by (metis in_set_conv_decomp append_Cons append_Nil)
            then show ?thesis using nm(2) by simp
          next
            case 2
            then show ?thesis using first_segment [of nm' r name y] r(2) nm(2) by simp
          qed
          then show ?thesis by simp
        qed
      qed
      have "length (pending P' (Some ?z) ks) < fuel" using pending_shrinks [OF Cons le] Suc(3) by simp
      from Suc(1) [OF ks' this a b] show ?thesis using step Cons dr Some nr zero by simp
    qed
  qed
qed simp

lemma strict_remdups_adj: "sorted xs \<Longrightarrow> sorted_wrt (<) (remdups_adj (xs :: 'a::linorder list))"
  by (induction xs rule: remdups_adj.induct) (auto simp: order.order_iff_strict)

lemma discover_returns:
  assumes "lists_in_order os keys" "sorted_wrt (<) (keys s)" "length (keys s) < fuel"
    and "P' = trim_end_slashes db @ ''/exports''" "os_path os (P' @ ''/'') = P'"
    and "\<And>name. os_path os (P' @ ''/'' @ name @ ''0'') = P' @ ''/'' @ name @ ''0''"
  shows "\<exists>prefixes s'. discover_s3_prefixes fuel os db s = Some (Inr prefixes, s')
     \<and> set prefixes = {P' @ ''/'' @ name | name. \<exists>k\<in>set (keys s). export_of (P' @ ''/'') k name}
     \<and> sorted_wrt (<) prefixes"
proof -
  have "length (pending P' None (keys s)) \<le> length (keys s)" unfolding pending_def by (rule length_filter_le)
  then have "length (pending P' None (keys s)) < fuel" using assms(3) by simp
  then obtain qs s' where q: "discover_loop os (P' @ ''/'') fuel None [] s = Some (Inr qs, s')"
      "set qs = {P' @ ''/'' @ name | name. \<exists>k\<in>set (keys s). export_of (P' @ ''/'') k name}"
    using discover_loop_complete [OF assms(1,5,6,2) refl, of None fuel "[]"] by auto
  have "discover_s3_prefixes fuel os db s = Some (Inr (remdups_adj (sort qs)), s')"
    using q(1) assms(4) by (simp add: discover_s3_prefixes_def)
  then show ?thesis using q(2) strict_remdups_adj [of "sort qs"] by simp
qed


lemma mem_lists_in_order: "lists_in_order mem_store (\<lambda>s. remdups (map fst s))"
  unfolding lists_in_order_def
  by (auto simp: mem_store_def keys_under_def strip_prefix_Some under_def intro!: filter_cong)

definition demo_keys :: "(string, bytes) btree" where
  "demo_keys = [(''v/exports/a-b/manifests/x'', [1]), (''v/exports/a/manifests/x'', [1]), (''v/exports/a/manifests/y'', [2]),
     (''v/exports/a0'', [3]), (''v/images/i'', [4])]"


end
