(* ===== verification/GcCollect.thy ===== *)
theory GcCollect
  imports GcSafety
begin

text \<open>
  The other direction: on a store whose requests succeed the collector does delete what is
  dead, and the circumstances under which that is wrong or never happens.
\<close>

section \<open>A store whose requests succeed\<close>

definition reliable :: "'s object_store \<Rightarrow> ('s \<Rightarrow> string \<Rightarrow> bytes option) \<Rightarrow> bool" where
  "reliable os obj \<longleftrightarrow>
     (\<forall>p s. \<exists>ks s'. os_list os p s = (map Inr ks, s') \<and> obj s' = obj s \<and> distinct ks
        \<and> set ks = {k. under p k \<and> obj s k \<noteq> None})
   \<and> (\<forall>p s. \<exists>s'. obj s' = obj s \<and> (case obj s p of
        None \<Rightarrow> os_get os p WholeObject s = (Inl OsNotFound, s')
      | Some d \<Rightarrow> \<exists>t. os_get os p WholeObject s = (Inr (t, Inr d), s')))
   \<and> (\<forall>p s. obj s p \<noteq> None \<longrightarrow> (\<exists>s'. os_delete os p s = (Inr (), s') \<and> obj s' = (obj s)(p := None)))
   \<and> (\<forall>p s. obj s p = None \<longrightarrow> (\<exists>r s'. os_delete os p s = (r, s') \<and> obj s' = obj s))"

lemma reliable_list:
  "reliable os obj \<Longrightarrow> \<exists>ks s'. os_list os p s = (map Inr ks, s') \<and> obj s' = obj s \<and> distinct ks \<and> set ks = {k. under p k \<and> obj s k \<noteq> None}"
  by (simp add: reliable_def)

lemma reliable_delete:
  assumes "reliable os obj"
  shows "\<exists>r s'. os_delete os p s = (r, s') \<and> obj s' = (obj s)(p := None)"
proof (cases "obj s p = None")
  case True
  then obtain r s' where "os_delete os p s = (r, s')" "obj s' = obj s" using assms unfolding reliable_def by blast
  then show ?thesis using True by auto
next
  case False
  then show ?thesis using assms unfolding reliable_def by blast
qed

lemma reliable_fetch:
  assumes "reliable os obj" "\<And>d. obj s p = Some d \<Longrightarrow> is_ok (deserialize crc d)"
  shows "\<exists>q s'. fetch_pack_ids os crc p s = (Inr q, s') \<and> obj s' = obj s \<and> fetched (Inr q) = refs crc (obj s) p"
proof -
  obtain s' where s': "obj s' = obj s" "case obj s p of
        None \<Rightarrow> os_get os p WholeObject s = (Inl OsNotFound, s')
      | Some d \<Rightarrow> \<exists>t. os_get os p WholeObject s = (Inr (t, Inr d), s')"
    using assms(1) unfolding reliable_def by blast
  show ?thesis
  proof (cases "obj s p")
    case None
    then show ?thesis using s' by (simp add: fetch_pack_ids_def fetched_def refs_def)
  next
    case (Some d)
    then obtain t where g: "os_get os p WholeObject s = (Inr (t, Inr d), s')" using s'(2) by auto
    obtain vm where "deserialize crc d = Inr vm" using assms(2) [OF Some] by (cases "deserialize crc d") auto
    then show ?thesis using s'(1) g Some by (simp add: fetch_pack_ids_def fetched_def refs_def)
  qed
qed

text \<open>Every manifest and snapshot of a prefix can be parsed.\<close>

definition parseable :: "(bytes \<Rightarrow> u32) \<Rightarrow> string \<Rightarrow> (string \<Rightarrow> bytes option) \<Rightarrow> bool" where
  "parseable crc base ob \<longleftrightarrow>
     (\<forall>k d. (is_manifest_path (base @ ''/manifests/'') k \<or> under (base @ ''/snapshots'') k) \<and> ob k = Some d
        \<longrightarrow> is_ok (deserialize crc d))"

lemma scan_exact:
  assumes r: "reliable os obj"
  shows "\<lbrakk> obj s = ob; \<forall>k\<in>set ks. is_manifest_path pre k \<longrightarrow> (\<forall>d. ob k = Some d \<longrightarrow> is_ok (deserialize crc d)) \<rbrakk> \<Longrightarrow>
   \<exists>live n s'. scan_manifests os crc pre (map Inr ks) s = (live, n, 0, s') \<and> obj s' = ob
     \<and> set live = (\<Union>k\<in>{k\<in>set ks. is_manifest_path pre k}. refs crc ob k)"
proof (induction ks arbitrary: s)
  case (Cons k ks)
  show ?case
  proof (cases "is_manifest_path pre k")
    case False
    then have "{x\<in>set (k # ks). is_manifest_path pre x} = {x\<in>set ks. is_manifest_path pre x}" by auto
    then show ?thesis using Cons(1) [OF Cons(2)] Cons(3) False by simp
  next
    case True
    obtain q s1 where f: "fetch_pack_ids os crc k s = (Inr q, s1)" "obj s1 = ob" "fetched (Inr q) = refs crc ob k"
      using reliable_fetch [OF r, of s k crc] Cons(2,3) True by auto
    obtain live n s' where IH: "scan_manifests os crc pre (map Inr ks) s1 = (live, n, 0, s')" "obj s' = ob"
        "set live = (\<Union>k\<in>{k\<in>set ks. is_manifest_path pre k}. refs crc ob k)"
      using Cons(1) [OF f(2)] Cons(3) by auto
    have U: "(\<Union>x\<in>{x\<in>set (k # ks). is_manifest_path pre x}. refs crc ob x) = refs crc ob k \<union> set live"
      using True IH(3) by auto
    show ?thesis
    proof (cases q)
      case None
      then show ?thesis using True f IH U by (simp add: fetched_def)
    next
      case (Some ids)
      then show ?thesis using True f IH U by (simp add: fetched_def)
    qed
  qed
qed simp

text \<open>The packs among listed keys.\<close>

definition listed_packs :: "string \<Rightarrow> string list \<Rightarrow> (u32 \<times> PackId) set" where
  "listed_packs pre ks = {x. \<exists>k\<in>set ks. \<exists>rel. strip_prefix pre k = Some rel \<and> parse_pack_path rel = Some x}"

definition pack_of :: "string \<Rightarrow> string \<Rightarrow> (u32 \<times> PackId) option" where
  "pack_of pre k = (case strip_prefix pre k of None \<Rightarrow> None | Some rel \<Rightarrow> parse_pack_path rel)"

lemma listed_packs_Cons: "listed_packs pre (k # ks) = set_option (pack_of pre k) \<union> listed_packs pre ks"
  by (auto simp: listed_packs_def pack_of_def split: option.splits)

lemma classify_Cons:
  "classify_packs live st pre (Inr k # rs) n rv md =
     (case pack_of pre k of
        None \<Rightarrow> classify_packs live st pre rs n rv md
      | Some x \<Rightarrow>
          if x \<in> set live then
            classify_packs live st pre rs (n + 1)
              (if bt_get (dead_packs st) (pack_key (fst x) (snd x)) \<noteq> None then rv @ [pack_key (fst x) (snd x)] else rv) md
          else classify_packs live st pre rs (n + 1) rv (List.insert x md))"
  by (simp add: pack_of_def Let_def split: option.splits)

lemma classify_exact:
  "\<exists>known revived md'. classify_packs live st pre (map Inr ks) n rv md = Inr (known, revived, md')
     \<and> set md' = set md \<union> (listed_packs pre ks - set live) \<and> length md' \<le> length md + length ks"
proof (induction ks arbitrary: n rv md)
  case (Cons k ks)
  show ?case
  proof (cases "pack_of pre k")
    case None
    obtain known revived md' where "classify_packs live st pre (map Inr ks) n rv md = Inr (known, revived, md')"
      "set md' = set md \<union> (listed_packs pre ks - set live)" "length md' \<le> length md + length ks"
      using Cons by blast
    then show ?thesis using None by (simp add: classify_Cons listed_packs_Cons del: classify_packs.simps)
  next
    case (Some x)
    define md1 where "md1 = (if x \<in> set live then md else List.insert x md)"
    define rv1 where "rv1 = (if x \<in> set live \<and> bt_get (dead_packs st) (pack_key (fst x) (snd x)) \<noteq> None
        then rv @ [pack_key (fst x) (snd x)] else rv)"
    have step: "classify_packs live st pre (map Inr (k # ks)) n rv md = classify_packs live st pre (map Inr ks) (n + 1) rv1 md1"
      using Some by (simp add: classify_Cons md1_def rv1_def del: classify_packs.simps)
    have m1: "set md1 = set md \<union> ({x} - set live)" "length md1 \<le> length md + 1"
      by (auto simp: md1_def List.insert_def)
    obtain known revived md' where IH: "classify_packs live st pre (map Inr ks) (n + 1) rv1 md1 = Inr (known, revived, md')"
      "set md' = set md1 \<union> (listed_packs pre ks - set live)" "length md' \<le> length md1 + length ks"
      using Cons by blast
    have "set md' = set md \<union> (listed_packs pre (k # ks) - set live)"
      using IH(2) m1(1) Some by (auto simp: listed_packs_Cons)
    then show ?thesis using step IH m1(2) by simp
  qed
qed (simp add: listed_packs_def)

lemma check_exact:
  assumes r: "reliable os obj"
  shows "\<lbrakk> obj s = ob; \<forall>k\<in>set ks. \<forall>d. ob k = Some d \<longrightarrow> is_ok (deserialize crc d) \<rbrakk> \<Longrightarrow>
   \<exists>md' n' s'. check_snapshots os crc (map Inr ks) md n s = (True, md', n', s') \<and> obj s' = ob
     \<and> set md - (\<Union>k\<in>set ks. refs crc ob k) \<subseteq> set md' \<and> length md' \<le> length md"
proof (induction ks arbitrary: s md n)
  case (Cons k ks)
  obtain q s1 where f: "fetch_pack_ids os crc k s = (Inr q, s1)" "obj s1 = ob" "fetched (Inr q) = refs crc ob k"
    using reliable_fetch [OF r, of s k crc] Cons(2,3) by auto
  define rest where "rest = filter (\<lambda>pk. pk \<notin> fetched (Inr q)) md"
  have rs: "set rest = set md - refs crc ob k" "length rest \<le> length md" using f(3) by (auto simp: rest_def)
  show ?case
  proof (cases "q \<noteq> None \<and> rest = []")
    case True
    then obtain ids where "q = Some ids" by auto
    then show ?thesis using f True rs by (auto simp: rest_def fetched_def Let_def)
  next
    case False
    define n1 where "n1 = (if q = None then n else n + 1)"
    have step: "check_snapshots os crc (map Inr (k # ks)) md n s = check_snapshots os crc (map Inr ks) rest n1 s1"
      using f False by (cases q) (auto simp: rest_def fetched_def Let_def n1_def)
    obtain md' n' s' where "check_snapshots os crc (map Inr ks) rest n1 s1 = (True, md', n', s')" "obj s' = ob"
        "set rest - (\<Union>k\<in>set ks. refs crc ob k) \<subseteq> set md'" "length md' \<le> length rest"
      using Cons(1) [OF f(2), of rest n1] Cons(3) by auto
    then show ?thesis using step rs by auto
  qed
qed simp

lemma mark_dead_claims:
  "\<lbrakk> (c, p) \<in> set ids; length ids \<le> b;
     is_pack_eligible env st c p g \<or> (g = 0 \<and> bt_get (dead_packs st) (pack_key c p) = None) \<rbrakk> \<Longrightarrow>
   \<exists>newly n el b'. mark_dead env st g ids b = (newly, n, el, b') \<and> (c, p) \<in> set el"
proof (induction ids arbitrary: b)
  case (Cons x ids)
  obtain c' p' where x: "x = (c', p')" by force
  let ?E = "\<lambda>c p. is_pack_eligible env st c p g \<or> (g = 0 \<and> bt_get (dead_packs st) (pack_key c p) = None)"
  obtain cl b1 where t: "(if ?E c' p' then try_claim_delete_slot b else (False, b)) = (cl, b1)" by force
  have b: "b > 0" "length ids \<le> b1" "?E c' p' \<longrightarrow> cl"
    using Cons(3) t by (auto simp: try_claim_delete_slot_def split: if_splits)
  obtain newly n el b' where m: "mark_dead env st g ids b1 = (newly, n, el, b')" by (metis prod_cases4)
  have e: "\<exists>newly' n'. mark_dead env st g (x # ids) b = (newly', n', (if cl then x # el else el), b')"
    using t m by (auto simp: x Let_def split: if_splits prod.splits)
  show ?case
  proof (cases "x = (c, p)")
    case True
    then have cl using b(3) Cons(4) x by simp
    then show ?thesis using e True by auto
  next
    case False
    then have "(c, p) \<in> set el" using Cons(1) [of b1] Cons(2,4) b(2) m by auto
    then show ?thesis using e by auto
  qed
qed simp

lemma delete_pack_gone:
  assumes "reliable (object_store cs) obj" "circuit w = None"
  shows "circuit (snd (delete_chunk_pack cs c p w)) = None
    \<and> obj (remote (snd (delete_chunk_pack cs c p w))) = (obj (remote w))(pack_path cs c p := None)"
proof -
  obtain r s' where d: "os_delete (object_store cs) (pack_path cs c p) (remote w) = (r, s')"
      "obj s' = (obj (remote w))(pack_path cs c p := None)"
    using reliable_delete [OF assms(1)] by blast
  have "check_circuit cs w = (Inr (), w)" using assms(2) by (simp add: check_circuit_def)
  then show ?thesis
    using d assms(2)
    by (auto simp: delete_chunk_pack_def checked_def cs_bind_def issue_def record_s3_result_def cb_success_def cb_failure_def
        split: sum.splits)
qed

lemma delete_packs_gone:
  assumes r: "reliable (object_store cs) obj"
  shows "\<lbrakk> circuit w = None; (c, p) \<in> set ids \<or> obj (remote w) (pack_path cs c p) = None \<rbrakk> \<Longrightarrow>
   obj (remote (snd (delete_packs cs ids w))) (pack_path cs c p) = None"
proof (induction ids arbitrary: w)
  case (Cons x ids)
  obtain c' p' where x: "x = (c', p')" by force
  let ?w1 = "snd (delete_chunk_pack cs c' p' w)"
  note g = delete_pack_gone [OF r Cons(2), of c' p']
  have "(c, p) \<in> set ids \<or> obj (remote ?w1) (pack_path cs c p) = None" using Cons(3) g x by auto
  from Cons(1) [OF conjunct1 [OF g] this] show ?case by (simp add: x case_prod_beta)
qed simp

lemma reconcile_collects:
  assumes "reliable (object_store cs) obj" "circuit w = None" "plain_keys (object_store cs) (base_path cs)"
    and "parseable crc (base_path cs) (obj (remote w))"
    and "\<And>xs. set (set_order env xs) = set xs" "\<And>xs. length (set_order env xs) = length xs"
    and "obj (remote w) (chunk_pack_key (base_path cs) c p) \<noteq> None"
    and "(c, p) \<notin> live_set crc (base_path cs) (obj (remote w))"
    and "is_pack_eligible env st c p grace \<or> (grace = 0 \<and> bt_get (dead_packs st) (pack_key c p) = None)"
    and "card {k. under (base_path cs @ ''/chunks'') k \<and> obj (remote w) k \<noteq> None} \<le> budget"
  shows "obj (remote (snd (snd (reconcile_prefix crc env cs st grace False budget w)))) (chunk_pack_key (base_path cs) c p) = None"
proof -
  let ?os = "object_store cs" and ?base = "base_path cs" and ?ob = "obj (remote w)" and ?key = "chunk_pack_key (base_path cs) c p"
  note r = assms(1)
  have pl: "os_path ?os (?base @ ''/manifests/'') = ?base @ ''/manifests''" "os_path ?os (?base @ ''/chunks/'') = ?base @ ''/chunks''"
      "os_path ?os (?base @ ''/snapshots/'') = ?base @ ''/snapshots''" "pack_path cs c p = ?key"
    using assms(3) by (simp_all add: plain_keys_def pack_path_def)
  obtain mks s1 where l1: "os_list ?os (?base @ ''/manifests'') (remote w) = (map Inr mks, s1)" "obj s1 = ?ob"
    using reliable_list [OF r, of "?base @ ''/manifests''" "remote w"] by auto
  have pm: "\<forall>k\<in>set mks. is_manifest_path (?base @ ''/manifests/'') k \<longrightarrow> (\<forall>d. ?ob k = Some d \<longrightarrow> is_ok (deserialize crc d))"
    using assms(4) unfolding parseable_def by blast
  obtain live n s2 where sc: "scan_manifests ?os crc (?base @ ''/manifests/'') (map Inr mks) s1 = (live, n, 0, s2)" "obj s2 = ?ob"
      "set live = (\<Union>k\<in>{k\<in>set mks. is_manifest_path (?base @ ''/manifests/'') k}. refs crc ?ob k)"
    using scan_exact [OF r l1(2) pm] by blast
  have nlive: "(c, p) \<notin> set live" using assms(8) sc(3) by (auto simp: live_set_def)
  obtain pks s3 where l2: "os_list ?os (?base @ ''/chunks'') s2 = (map Inr pks, s3)" "obj s3 = ?ob" "distinct pks"
      "set pks = {k. under (?base @ ''/chunks'') k \<and> ?ob k \<noteq> None}"
    using reliable_list [OF r, of "?base @ ''/chunks''" s2] sc(2) by auto
  obtain known revived md where cl: "classify_packs live st (?base @ ''/chunks/'') (map Inr pks) 0 [] [] = Inr (known, revived, md)"
      "set md = listed_packs (?base @ ''/chunks/'') pks - set live" "length md \<le> length pks"
    using classify_exact [of live st "?base @ ''/chunks/''" pks 0 "[]" "[]"] by auto
  have "?key \<in> set pks" using l2(4) assms(7) by (auto simp: under_def chunk_pack_key_def)
  moreover have "strip_prefix (?base @ ''/chunks/'') ?key = Some (chunk_pack_rel c p)"
    by (simp add: strip_prefix_Some chunk_pack_key_def)
  ultimately have "(c, p) \<in> listed_packs (?base @ ''/chunks/'') pks"
    using pack_path_roundtrip unfolding listed_packs_def by blast
  then have md: "(c, p) \<in> set md" using cl(2) nlive by simp
  obtain sks s4 where l3: "os_list ?os (?base @ ''/snapshots'') s3 = (map Inr sks, s4)" "obj s4 = ?ob"
      "set sks = {k. under (?base @ ''/snapshots'') k \<and> ?ob k \<noteq> None}"
    using reliable_list [OF r, of "?base @ ''/snapshots''" s3] l2(2) by auto
  have ps: "\<forall>k\<in>set sks. \<forall>d. ?ob k = Some d \<longrightarrow> is_ok (deserialize crc d)"
    using assms(4) l3(3) unfolding parseable_def by blast
  obtain dead seen s5 where ck: "check_snapshots ?os crc (map Inr sks) md 0 s4 = (True, dead, seen, s5)" "obj s5 = ?ob"
      "set md - (\<Union>k\<in>set sks. refs crc ?ob k) \<subseteq> set dead" "length dead \<le> length md"
    using check_exact [OF r l3(2) ps] by blast
  have "(c, p) \<notin> (\<Union>k\<in>set sks. refs crc ?ob k)"
    using assms(8) l3(3) by (auto simp: live_set_def under_def)
  then have d: "(c, p) \<in> set (set_order env dead)" using ck(3) md assms(5) by auto
  have "length pks \<le> budget" using distinct_card [OF l2(3)] assms(10) l2(4) by simp
  then have "length (set_order env dead) \<le> budget" using assms(6) ck(4) cl(3) by simp
  then obtain newly m el b' where mk: "mark_dead env st grace (set_order env dead) budget = (newly, m, el, b')" "(c, p) \<in> set el"
    using mark_dead_claims [OF d _ assms(9)] by blast
  have ne: "md \<noteq> []" using md by auto
  have "remote (snd (snd (reconcile_prefix crc env cs st grace False budget w)))
      = remote (snd (delete_packs cs el (w\<lparr> remote := s5 \<rparr>)))"
    using l1(1) sc(1) l2(1) cl(1) l3(1) ck(1) mk(1) ne
    by (simp add: reconcile_prefix_def pl Let_def sweep_dead_def case_prod_beta)
  then show ?thesis
    using delete_packs_gone [OF r, of "w\<lparr> remote := s5 \<rparr>" c p el] mk(2) assms(2) pl(4) by simp
qed


section \<open>The in-memory store\<close>

lemma trim_end_char: "c \<noteq> CHR ''/'' \<Longrightarrow> trim_end_slashes (x @ [c]) = x @ [c]"
  by (simp add: trim_end_slashes_def)

lemma trim_end_slash: "c \<noteq> CHR ''/'' \<Longrightarrow> trim_end_slashes (x @ [c, CHR ''/'']) = x @ [c]"
  by (simp add: trim_end_slashes_def)

lemma mem_path [simp]: "os_path mem_store = trim_end_slashes"
  by (simp add: mem_store_def)

lemma mem_plain: "plain_keys mem_store base"
proof -
  have "trim_end_slashes (base @ ''/manifests/'') = base @ ''/manifests''"
    "trim_end_slashes (base @ ''/chunks/'') = base @ ''/chunks''"
    "trim_end_slashes (base @ ''/snapshots/'') = base @ ''/snapshots''"
    using trim_end_slash [of "CHR ''s''" "base @ ''/manifest''"] trim_end_slash [of "CHR ''s''" "base @ ''/chunk''"]
      trim_end_slash [of "CHR ''s''" "base @ ''/snapshot''"] by simp_all
  moreover have "trim_end_slashes (chunk_pack_key base c p) = chunk_pack_key base c p" for c p
    using trim_end_char [of "CHR ''k''" "base @ ''/chunks/'' @ fmt_pad 10 4 (unat c) @ ''/'' @ fmt_pad 16 16 (unat p) @ ''.pac''"]
    by (simp add: chunk_pack_key_def chunk_pack_rel_def)
  ultimately show ?thesis by (simp add: plain_keys_def)
qed

lemma bt_get_keys: "k \<in> fst ` set m \<longleftrightarrow> bt_get m k \<noteq> None"
  by (simp add: bt_get_def map_of_eq_None_iff)

lemma mem_keys_under: "set (keys_under p m) = {k. under p k \<and> bt_get m k \<noteq> None}" "distinct (keys_under p m)"
proof -
  have "set (keys_under p m) = {k. under p k \<and> k \<in> fst ` set m}"
    by (auto simp: keys_under_def under_def strip_prefix_Some)
  then show "set (keys_under p m) = {k. under p k \<and> bt_get m k \<noteq> None}" by (simp add: bt_get_keys)
  show "distinct (keys_under p m)" by (simp add: keys_under_def)
qed

lemma mem_reliable: "reliable mem_store bt_get"
proof -
  have "\<exists>ks s'. os_list mem_store p s = (map Inr ks, s') \<and> bt_get s' = bt_get s \<and> distinct ks
      \<and> set ks = {k. under p k \<and> bt_get s k \<noteq> None}" for p s
    using mem_keys_under [of p s] by (simp add: mem_store_def)
  then show ?thesis
    unfolding reliable_def
    by (auto simp: mem_store_def in_object_def sub_object_def bt_get_remove split: option.splits)
qed

lemma mem_honest: "honest mem_store bt_get"
  unfolding honest_def
proof (intro conjI allI impI)
  fix p k and s :: "(string, bytes) btree" assume "Inr k \<in> set (fst (os_list mem_store p s))"
  then have "k \<in> set (keys_under p s)" by (auto simp: mem_store_def)
  then show "bt_get s k \<noteq> None" "\<exists>r. k = p @ ''/'' @ r" using mem_keys_under(1) by (auto simp: under_def)
next
  fix p r and s :: "(string, bytes) btree" assume "bt_get s (p @ ''/'' @ r) \<noteq> None"
  then have "p @ ''/'' @ r \<in> set (keys_under p s)" unfolding mem_keys_under(1) by (auto simp: under_def)
  then show "Inr (p @ ''/'' @ r) \<in> set (fst (os_list mem_store p s))" by (simp add: mem_store_def)
next
  fix p off k and s :: "(string, bytes) btree" assume "Inr k \<in> set (fst (os_list_with_offset mem_store p off s))"
  then have "k \<in> set (keys_under p s)" by (auto simp: mem_store_def)
  then show "bt_get s k \<noteq> None" "\<exists>r. k = p @ ''/'' @ r" using mem_keys_under(1) by (auto simp: under_def)
qed (auto simp: mem_store_def in_object_def sub_object_def bt_get_remove split: option.splits if_splits)

definition demo_env :: "int \<Rightarrow> gc_env" where
  "demo_env now = \<lparr> check_time = (\<lambda>_. now), mark_time = now, to_rfc3339 = (\<lambda>t. if t = 0 then ''old'' else ''new''),
     parse_rfc3339 = (\<lambda>s. if s = ''old'' then Some 0 else None), set_order = (\<lambda>xs. xs),
     layer_order = (\<lambda>xs. xs), from_json = (\<lambda>d. None) \<rparr>"

lemma demo_env_order [simp]: "set_order (demo_env t) xs = xs" by (simp add: demo_env_def)

lemma card_chunks: "card {k. under p k \<and> bt_get m k \<noteq> None} \<le> length m"
proof -
  have "card {k. under p k \<and> bt_get m k \<noteq> None} \<le> card (fst ` set m)"
    by (rule card_mono) (auto simp: bt_get_keys)
  also have "\<dots> \<le> length m" by (metis card_image_le card_length finite_set le_trans)
  finally show ?thesis .
qed

abbreviation demo_crc :: "bytes \<Rightarrow> u32" where
  "demo_crc \<equiv> (\<lambda>bs. of_nat (length bs))"

definition demo_vol :: "string \<Rightarrow> (string, bytes) btree" where
  "demo_vol name = [(chunk_pack_key ''vol'' 0 99, [1]), (chunk_pack_key ''vol'' 0 11, [2]),
     (''vol/manifests/'' @ name, projr (serialize demo_crc demo_manifest))]"

lemma demo_deserializes: "deserialize demo_crc (projr (serialize demo_crc demo_manifest)) = Inr demo_manifest"
  by (rule deserialize_serialize [OF demo_manifest_wf demo_serializes])

lemma demo_all_packs: "set (all_pack_ids demo_manifest) = {(0, 11), (0, 12), (7, 13)}"
  by (auto simp: all_pack_ids_def demo_manifest_def)

lemma demo_get:
  "bt_get (demo_vol name) (''vol/manifests/'' @ name) = Some (projr (serialize demo_crc demo_manifest))"
  "bt_get (demo_vol name) (chunk_pack_key ''vol'' 0 99) = Some [1]"
  "bt_get (demo_vol name) (chunk_pack_key ''vol'' 0 11) \<noteq> None"
  "bt_get (demo_vol name) k = Some d \<Longrightarrow> k = ''vol/manifests/'' @ name \<or> (\<exists>c p. k = chunk_pack_key ''vol'' c p)"
  by (auto simp: demo_vol_def bt_get_def chunk_pack_key_def split: if_splits)

lemma demo_live:
  "live_set demo_crc ''vol'' (bt_get (demo_vol name)) =
     (if is_manifest_path ''vol/manifests/'' (''vol/manifests/'' @ name) then {(0, 11), (0, 12), (7, 13)} else {})"
proof -
  have pk: "\<not> (is_manifest_path ''vol/manifests/'' (chunk_pack_key ''vol'' c p) \<or> (\<exists>r. chunk_pack_key ''vol'' c p = ''vol/snapshots/'' @ r))" for c p
    by (simp add: is_manifest_path_def strip_prefix_def chunk_pack_key_def)
  have ref: "refs demo_crc (bt_get (demo_vol name)) k =
      (if k = ''vol/manifests/'' @ name then {(0, 11), (0, 12), (7, 13)} else {})"
    if "is_manifest_path ''vol/manifests/'' k \<or> (\<exists>r. k = ''vol/snapshots/'' @ r)" for k
  proof (cases "bt_get (demo_vol name) k")
    case None
    then show ?thesis using demo_get(1) [of name] by (auto simp: refs_def)
  next
    case (Some d)
    then have "k = ''vol/manifests/'' @ name" using demo_get(4) [OF Some] pk that by blast
    then show ?thesis using demo_get(1) [of name] by (simp add: refs_def demo_deserializes demo_all_packs)
  qed
  show ?thesis unfolding live_set_def using ref by auto
qed

lemma demo_parseable: "parseable demo_crc ''vol'' (bt_get (demo_vol name))"
  unfolding parseable_def
proof (intro allI impI, elim conjE)
  fix k d assume k: "is_manifest_path (''vol'' @ ''/manifests/'') k \<or> under (''vol'' @ ''/snapshots'') k"
    and d: "bt_get (demo_vol name) k = Some d"
  have "\<not> (is_manifest_path ''vol/manifests/'' (chunk_pack_key ''vol'' c p) \<or> under ''vol/snapshots'' (chunk_pack_key ''vol'' c p))" for c p
    by (simp add: is_manifest_path_def strip_prefix_def chunk_pack_key_def under_def)
  then have "k = ''vol/manifests/'' @ name" using demo_get(4) [OF d] k by auto
  then show "is_ok (deserialize demo_crc d)" using d demo_get(1) [of name] demo_deserializes by simp
qed

definition demo_marked :: "PackId \<Rightarrow> GcState" where
  "demo_marked p = \<lparr> dead_packs = [(pack_key 0 p, ''old'')], dead_layers = [] \<rparr>"

lemma demo_eligible: "is_pack_eligible (demo_env 10) (demo_marked p) 0 p 5"
  by (simp add: is_pack_eligible_def is_key_eligible_def demo_marked_def demo_env_def bt_get_def)


section \<open>Live packs that are collected\<close>

text \<open>
  C38: an export can have a name that makes the collector delete its data.  A name such
  as \<open>db.boot-set\<close> passes the name check, but the collector takes the manifest of that
  export for a sidecar and does not read it: a pack that only this manifest refers to is
  deleted, and the manifest stays behind, referring to it.
\<close>
theorem sidecar_named_export_collected:
  assumes "is_valid_export_name name" "ends_with name ''.boot-set'' \<or> ends_with name ''.hot-set''"
    and "reliable (object_store cs) obj" "honest (object_store cs) obj" "circuit w = None" "plain_keys (object_store cs) (base_path cs)"
    and "parseable crc (base_path cs) (obj (remote w))" "\<And>xs. set (set_order env xs) = set xs" "\<And>xs. length (set_order env xs) = length xs"
    and "obj (remote w) (base_path cs @ ''/manifests/'' @ name) = Some d" "deserialize crc d = Inr vm" "(c, p) \<in> set (all_pack_ids vm)"
    and "\<forall>k. k \<noteq> base_path cs @ ''/manifests/'' @ name \<longrightarrow> (c, p) \<notin> refs crc (obj (remote w)) k"
    and "obj (remote w) (chunk_pack_key (base_path cs) c p) \<noteq> None" "is_pack_eligible env st c p grace"
    and "card {k. under (base_path cs @ ''/chunks'') k \<and> obj (remote w) k \<noteq> None} \<le> budget"
    and "reconcile_prefix crc env cs st grace False budget w = (r, budget', w')"
  shows "obj (remote w') (base_path cs @ ''/manifests/'' @ name) = Some d
       \<and> obj (remote w') (chunk_pack_key (base_path cs) c p) = None"
proof
  let ?k = "base_path cs @ ''/manifests/'' @ name"
  have "\<not> is_manifest_path (base_path cs @ ''/manifests/'') ?k"
    using assms(2) strip_prefix_append [of "base_path cs @ ''/manifests/''" name] by (auto simp: is_manifest_path_def)
  moreover have "\<not> (\<exists>r. ?k = base_path cs @ ''/snapshots/'' @ r)" by simp
  ultimately have "(c, p) \<notin> refs crc (obj (remote w)) k"
    if "is_manifest_path (base_path cs @ ''/manifests/'') k \<or> (\<exists>r. k = base_path cs @ ''/snapshots/'' @ r)" for k
    using assms(13) that by (cases "k = ?k") (simp_all del: append_Cons append_assoc)
  then have "(c, p) \<notin> live_set crc (base_path cs) (obj (remote w))" unfolding live_set_def by simp
  then show "obj (remote w') (chunk_pack_key (base_path cs) c p) = None"
    using reconcile_collects [OF assms(3,5,6,7,8,9,14) _ _ assms(16)] assms(15,17) by fastforce
  obtain el where "frame_on (pack_keys (base_path cs) el) (obj (remote w)) (obj (remote w'))"
    using reconcile_swept [OF assms(4) _ assms(6,17)] assms(8) by blast
  moreover have "?k \<notin> pack_keys (base_path cs) el" by (auto simp: pack_keys_def chunk_pack_key_def)
  ultimately show "obj (remote w') ?k = Some d" using assms(10) by (simp add: frame_on_def)
qed

theorem sidecar_named_export_collected_witness:
  "is_valid_export_name ''db.boot-set''
   \<and> bt_get (remote (snd (snd (reconcile_prefix demo_crc (demo_env 10) mem_cs (demo_marked 11) 5 False 3
       \<lparr> remote = demo_vol ''db.boot-set'', circuit = None \<rparr>)))) (chunk_pack_key ''vol'' 0 11) = None"
proof
  show v: "is_valid_export_name ''db.boot-set''"
    by (simp add: is_valid_export_name_def name_char_def is_ascii_alphanumeric_def)
  let ?w = "\<lparr> remote = demo_vol ''db.boot-set'', circuit = None \<rparr>"
  obtain r b w' where e: "reconcile_prefix demo_crc (demo_env 10) mem_cs (demo_marked 11) 5 False 3 ?w = (r, b, w')"
    by (metis surj_pair)
  have e1: "ends_with ''db.boot-set'' ''.boot-set''" by (simp add: ends_with_def strip_suffix_def)
  have cd: "card {k. under (base_path mem_cs @ ''/chunks'') k \<and> bt_get (remote ?w) k \<noteq> None} \<le> 3"
    using card_chunks [of "''vol/chunks''" "demo_vol ''db.boot-set''"] by (simp add: demo_vol_def)
  have rf: "\<forall>k. k \<noteq> base_path mem_cs @ ''/manifests/'' @ ''db.boot-set'' \<longrightarrow> (0, 11) \<notin> refs demo_crc (bt_get (remote ?w)) k"
    by (auto simp: refs_def demo_vol_def bt_get_def deserialize_def GLVM_HEADER_SIZE_def split: option.splits if_splits)
  have "bt_get (remote w') (base_path mem_cs @ ''/manifests/'' @ ''db.boot-set'') = Some (projr (serialize demo_crc demo_manifest))
       \<and> bt_get (remote w') (chunk_pack_key (base_path mem_cs) 0 11) = None"
    by (rule sidecar_named_export_collected [of _ mem_cs bt_get ?w demo_crc "demo_env 10" _ demo_manifest 0 11 "demo_marked 11" 5 3,
          OF v disjI1 [OF e1] _ _ _ _ _ _ _ _ demo_deserializes _ rf _ demo_eligible cd e])
      (use mem_reliable mem_honest mem_plain demo_parseable demo_get demo_all_packs in simp_all)
  then show "bt_get (remote (snd (snd (reconcile_prefix demo_crc (demo_env 10) mem_cs (demo_marked 11) 5 False 3 ?w))))
      (chunk_pack_key ''vol'' 0 11) = None" by (simp add: e)
qed

lemma not_ends_with: "\<lbrakk> length y \<ge> length z; \<not> ends_with y z \<rbrakk> \<Longrightarrow> \<not> ends_with (x @ y) z" for x y z :: string
  by (auto simp: ends_with_def strip_suffix_def split: if_splits)

lemma fetch_parses:
  assumes "honest os obj" "fetch_pack_ids os crc p s = (r, s')" "is_ok r" "obj s p = Some d"
  shows "is_ok (deserialize crc d)"
proof -
  obtain g s1 where g: "os_get os p WholeObject s = (g, s1)" by force
  note h = honest_get [OF assms(1) g]
  show ?thesis
    using assms(2,3,4) g h(2,3) by (auto simp: fetch_pack_ids_def split: sum.splits if_splits)
qed

lemma scan_clean:
  assumes h: "honest os obj"
  shows "scan_manifests os crc pre rs s = (live, n, errs, s') \<Longrightarrow>
     obj s' = obj s \<and> (errs = 0 \<longrightarrow> (\<forall>r\<in>set rs. is_ok r)
       \<and> (\<forall>k d. Inr k \<in> set rs \<and> is_manifest_path pre k \<and> obj s k = Some d \<longrightarrow> is_ok (deserialize crc d)))"
proof (induction rs arbitrary: s live n errs)
  case (Cons r rs)
  show ?case
  proof (cases "\<exists>p. r = Inr p \<and> is_manifest_path pre p")
    case True
    then obtain p where p: "r = Inr p" "is_manifest_path pre p" by blast
    obtain res s1 where f: "fetch_pack_ids os crc p s = (res, s1)" by force
    obtain live1 n1 e1 where sc: "scan_manifests os crc pre rs s1 = (live1, n1, e1, s')" "errs = 0 \<Longrightarrow> is_ok res \<and> e1 = 0"
      using Cons(2) p f by (auto split: prod.splits sum.splits option.splits)
    note o1 = fetch_found(1) [OF h f] and IH = Cons(1) [OF sc(1)]
    have "is_ok (deserialize crc d)" if e: "errs = 0" "Inr k \<in> set (r # rs)" "is_manifest_path pre k" "obj s k = Some d" for k d
    proof (cases "k = p")
      case True
      then show ?thesis using fetch_parses [OF h f] sc(2) e(1,4) by simp
    next
      case False
      then show ?thesis using IH sc(2) e o1 p(1) by simp
    qed
    then show ?thesis using IH sc(2) p(1) o1 by auto
  next
    case False
    then obtain live1 n1 e1 where sc: "scan_manifests os crc pre rs s = (live1, n1, e1, s')" "errs = 0 \<Longrightarrow> is_ok r \<and> e1 = 0"
      using Cons(2) by (cases r) (auto split: prod.splits)
    show ?thesis using Cons(1) [OF sc(1)] sc(2) False by auto
  qed
qed simp

text \<open>
  C40: one run spec stops the collection of a prefix.  A \<open>.runspec\<close> or \<open>.boot-set.meta\<close>
  object lies beside the manifests and is JSON; the collector takes it for a manifest,
  fails to parse it, and ends without marking or deleting any pack of the prefix.
\<close>
theorem runspec_stops_collection:
  assumes "honest (object_store cs) obj" "plain_keys (object_store cs) (base_path cs)"
    and "ext = ''.runspec'' \<or> ext = ''.boot-set.meta''"
    and "obj (remote w) (base_path cs @ ''/manifests/bases/'' @ name @ ext) = Some (0x7B # json)"
    and "reconcile_prefix crc env cs st grace dry budget w = (r, budget', w')"
  shows "\<exists>stats. r = Inr (empty_delta, stats) \<and> manifest_errors stats > 0 \<and> packs_deleted stats = 0
     \<and> budget' = budget \<and> obj (remote w') = obj (remote w)"
proof -
  let ?b = "base_path cs" and ?os = "object_store cs"
  let ?k = "(?b @ ''/manifests'') @ ''/'' @ (''bases/'' @ name @ ext)"
  obtain ms s1 where l: "os_list ?os (?b @ ''/manifests'') (remote w) = (ms, s1)" by force
  obtain live n errs s2 where sc: "scan_manifests ?os crc (?b @ ''/manifests/'') ms s1 = (live, n, errs, s2)"
    by (metis prod_cases4)
  note hl = honest_list [OF assms(1) l]
  have ob: "obj (remote w) ?k = Some (0x7B # json)" using assms(4) by simp
  have ns: "\<not> ends_with (x @ ext) ''.boot-set'' \<and> \<not> ends_with (x @ ext) ''.hot-set''" for x
    using assms(3) by (elim disjE) (simp_all add: not_ends_with ends_with_def strip_suffix_def)
  have "strip_prefix (?b @ ''/manifests/'') ?k = Some (''bases/'' @ name @ ext)" by (simp add: strip_prefix_Some)
  then have mp: "is_manifest_path (?b @ ''/manifests/'') ?k" using ns [of "''bases/'' @ name"] by (simp add: is_manifest_path_def)
  have ds: "\<exists>e. deserialize crc (0x7B # json) = Inl e"
    by (auto simp: deserialize_def Let_def GLVM_MAGIC_def sum_bind_def split: sum.splits)
  have "errs \<noteq> 0 \<and> obj s2 = obj s1"
  proof (rule ccontr)
    assume a: "\<not> ?thesis"
    have cl: "obj s2 = obj s1" "errs = 0 \<Longrightarrow> \<forall>r\<in>set ms. is_ok r"
        "\<And>k d. \<lbrakk> errs = 0; Inr k \<in> set ms; is_manifest_path (?b @ ''/manifests/'') k; obj s1 k = Some d \<rbrakk> \<Longrightarrow> is_ok (deserialize crc d)"
      using scan_clean [OF assms(1) sc] by blast+
    then have e: "errs = 0" using a by simp
    then have "Inr ?k \<in> set ms" using hl(3) cl(2) ob by (metis option.distinct(1))
    then have "is_ok (deserialize crc (0x7B # json))" using cl(3) [OF e _ mp] ob hl(1) by simp
    then show False using ds by auto
  qed
  then show ?thesis
    using assms(2,5) l sc hl(1) by (auto simp: reconcile_prefix_def plain_keys_def Let_def zero_stats_def)
qed

theorem runspec_stops_collection_witness:
  "\<exists>stats. fst (reconcile_prefix demo_crc (demo_env 10) mem_cs (demo_marked 99) 5 False 3
       \<lparr> remote = [(''vol/manifests/bases/web.runspec'', [0x7B, 0x7D])], circuit = None \<rparr>) = Inr (empty_delta, stats)
     \<and> manifest_errors stats > 0"
proof -
  let ?w = "\<lparr> remote = [(''vol/manifests/bases/web.runspec'', [0x7B, 0x7D :: 8 word])], circuit = None \<rparr>"
  obtain r b w' where e: "reconcile_prefix demo_crc (demo_env 10) mem_cs (demo_marked 99) 5 False 3 ?w = (r, b, w')"
    by (metis surj_pair)
  show ?thesis
    using runspec_stops_collection [of mem_cs bt_get "''.runspec''" ?w "''web''" "[0x7D]", OF _ _ _ _ e]
      mem_honest mem_plain by (auto simp: bt_get_def e)
qed

text \<open>
  C39: the grace period does not protect a pack that is uploaded again.  A writer whose
  pack already exists, condemned by an earlier run, has its upload acknowledged; a
  run that ends the grace period before the writer's manifest is stored deletes the pack.
\<close>
theorem condemned_upload_lost:
  assumes "stores (object_store cs) obj" "reliable (object_store cs) obj" "plain_keys (object_store cs) (base_path cs)"
    and "upload_semaphore cs \<noteq> Some False" "circuit w = None" "assemble_pack blocks z = Inr (pk, es)"
    and "obj (remote w) (chunk_pack_key (base_path cs) c p) = Some pk"
    and "is_pack_eligible env st c p grace"
    and "(c, p) \<notin> live_set crc (base_path cs) (obj (remote w))" "parseable crc (base_path cs) (obj (remote w))"
    and "\<And>xs. set (set_order env xs) = set xs" "\<And>xs. length (set_order env xs) = length xs"
    and "card {k. under (base_path cs @ ''/chunks'') k \<and> obj (remote w) k \<noteq> None} \<le> budget"
  shows "\<exists>w1. stream_chunk_pack cs c p blocks z w = (Inr es, w1)
     \<and> obj (remote (snd (snd (reconcile_prefix crc env cs st grace False budget (w\<lparr> remote := remote w1 \<rparr>)))))
         (chunk_pack_key (base_path cs) c p) = None"
proof -
  have pp: "pack_path cs c p = chunk_pack_key (base_path cs) c p" using assms(3) by (simp add: pack_path_def plain_keys_def)
  obtain w1 where w1: "stream_chunk_pack cs c p blocks z w = (Inr es, w1)"
      "obj (remote w1) = (obj (remote w))(pack_path cs c p \<mapsto> pk)"
    using upload_ok [OF assms(1,4) _ assms(6), of w c p] assms(5,7) pp by (auto simp: calm_circuit_def)
  have ob: "obj (remote w1) = obj (remote w)" using w1(2) assms(7) pp by auto
  have "obj (remote (snd (snd (reconcile_prefix crc env cs st grace False budget (w\<lparr> remote := remote w1 \<rparr>)))))
         (chunk_pack_key (base_path cs) c p) = None"
    by (rule reconcile_collects [OF assms(2) _ assms(3)]) (use assms ob in simp_all)
  then show ?thesis using w1(1) by blast
qed

definition condemned_vol :: "(string, bytes) btree" where
  "condemned_vol = [(chunk_pack_key ''vol'' 3 77, fst (projr (assemble_pack demo_blocks 131072)))]"

theorem condemned_upload_lost_witness:
  "\<exists>es w1. stream_chunk_pack mem_cs 3 77 demo_blocks 131072 \<lparr> remote = condemned_vol, circuit = None \<rparr> = (Inr es, w1)
     \<and> bt_get (remote (snd (snd (reconcile_prefix demo_crc (demo_env 10) mem_cs
          \<lparr> dead_packs = [(pack_key 3 77, ''old'')], dead_layers = [] \<rparr> 5 False 3 \<lparr> remote = remote w1, circuit = None \<rparr>))))
         (chunk_pack_key ''vol'' 3 77) = None"
proof -
  let ?w = "\<lparr> remote = condemned_vol, circuit = None \<rparr>"
  have only: "bt_get condemned_vol k = Some d \<Longrightarrow> k = chunk_pack_key ''vol'' 3 77" for k d
    by (auto simp: condemned_vol_def bt_get_def split: if_splits)
  have no: "\<not> is_manifest_path ''vol/manifests/'' (chunk_pack_key ''vol'' c p)" "chunk_pack_key ''vol'' c p \<noteq> ''vol/snapshots/'' @ r"
    "\<not> under ''vol/snapshots'' (chunk_pack_key ''vol'' c p)" for c p r
    by (simp_all add: is_manifest_path_def strip_prefix_def chunk_pack_key_def under_def)
  have lv: "(3, 77) \<notin> live_set demo_crc ''vol'' (bt_get condemned_vol)"
  proof
    assume "(3, 77) \<in> live_set demo_crc ''vol'' (bt_get condemned_vol)"
    then obtain k where k: "is_manifest_path ''vol/manifests/'' k \<or> (\<exists>r. k = ''vol/snapshots/'' @ r)"
        "(3, 77) \<in> refs demo_crc (bt_get condemned_vol) k" unfolding live_set_def by auto
    then have "k = chunk_pack_key ''vol'' 3 77" using only refs_present [OF k(2)] by blast
    then show False using k(1) no by auto
  qed
  have pa: "parseable demo_crc ''vol'' (bt_get condemned_vol)" using only no unfolding parseable_def by fastforce
  have cd: "card {k. under (base_path mem_cs @ ''/chunks'') k \<and> bt_get (remote ?w) k \<noteq> None} \<le> 3"
    using card_chunks [of "''vol/chunks''" condemned_vol] by (simp add: condemned_vol_def)
  have el: "is_pack_eligible (demo_env 10) \<lparr> dead_packs = [(pack_key 3 77, ''old'')], dead_layers = [] \<rparr> 3 77 5"
    by (simp add: is_pack_eligible_def is_key_eligible_def demo_env_def bt_get_def)
  have ob: "bt_get (remote ?w) (chunk_pack_key (base_path mem_cs) 3 77) = Some (fst (projr (assemble_pack demo_blocks 131072)))"
    by (simp add: condemned_vol_def bt_get_def)
  show ?thesis
    using condemned_upload_lost [of mem_cs bt_get ?w, OF _ _ _ _ _ demo_assembled ob el _ _ _ _ cd]
      mem_store_stores mem_reliable mem_plain lv pa by fastforce
qed

section \<open>A whole run on the in-memory store\<close>

lemma trim_end_append:
  "x \<noteq> [] \<Longrightarrow> last x \<noteq> CHR ''/'' \<Longrightarrow> trim_end_slashes (x @ y) = x @ trim_end_slashes y"
  by (cases x rule: rev_cases) (simp_all add: trim_end_slashes_def dropWhile_append)

lemma mem_run_ok:
  assumes "\<forall>r. bt_get s (''v/exports/'' @ r) \<noteq> None \<longrightarrow> r \<noteq> [] \<and> hd r \<noteq> CHR ''/''"
  shows "run_ok mem_store bt_get (demo_env t) ''v'' s"
proof -
  have v: "trim_end_slashes ''v'' = ''v''" "trim_end_slashes ''v/exports/'' = ''v/exports''" by (simp_all add: trim_end_slashes_def)
  have "\<exists>q. trim_end_slashes (''v/layers/'' @ d @ ''/'') = ''v/layers'' @ q" for d
    using trim_end_append [of "''v/layers''" "''/'' @ d @ ''/''"] by simp
  then show ?thesis using assms mem_honest mem_plain v by (simp add: run_ok_def)
qed

lemma orchestrate_returns:
  "discover_s3_prefixes fuel os db s = Some d \<Longrightarrow> \<exists>r st' s'. gc_orchestrate fuel crc env os db st g m dry s = Some (r, st', s')"
  unfolding gc_orchestrate_def by (auto split: sum.splits prod.splits)

definition demo_run :: "(string, bytes) btree" where
  "demo_run = [(chunk_pack_key ''v/exports/vm'' 0 11, [2]),
     (''v/exports/vm/manifests/vm'', projr (serialize demo_crc demo_manifest))]"

lemma demo_run_returns: "\<exists>r st' s'. gc_orchestrate 3 demo_crc env mem_store ''v'' st g m dry demo_run = Some (r, st', s')"
proof -
  have lt: "chunk_pack_key ''v/exports/vm'' 0 11 < ''v/exports/vm/manifests/vm''"
    by (simp add: chunk_pack_key_def less_char_def)
  then have so: "sorted_wrt (<) (remdups (map fst demo_run))" "length (remdups (map fst demo_run)) < 3"
    by (simp_all add: demo_run_def less_imp_neq)
  have v: "''v/exports'' = trim_end_slashes ''v'' @ ''/exports''" "os_path mem_store (''v/exports'' @ ''/'') = ''v/exports''"
      "os_path mem_store (''v/exports'' @ ''/'' @ name @ ''0'') = ''v/exports'' @ ''/'' @ name @ ''0''" for name
    using trim_end_char [of "CHR ''0''" "''v/exports/'' @ name"] by (simp_all add: trim_end_slashes_def)
  obtain prefixes s' where "discover_s3_prefixes 3 mem_store ''v'' demo_run = Some (Inr prefixes, s')"
    using discover_returns [OF mem_lists_in_order so v] by blast
  then show ?thesis by (rule orchestrate_returns)
qed


lemma run_finished:
  "case x of Some (Inr a, _, _) \<Rightarrow> P a | _ \<Rightarrow> False \<Longrightarrow> \<exists>a b c. x = Some (Inr a, b, c) \<and> P a"
  by (cases x; cases "fst (the x)"; cases "the x") auto

definition demo_layers :: "(string, bytes) btree" where
  "demo_layers = [(''v/layers/sha/meta'', [1])]"


end
