(* ===== verification/ReadPath.thy ===== *)
theory ReadPath
  imports WritePath ContentStore PackIndexCache
begin

text \<open>
  The read path of \<open>glidefs/src/block/write_cache/read.rs\<close>: the local reads, the
  resolution of a block through the manifest and the pack indexes, the windowed and
  the coalesced fetch from the store, the read and the read plan of the zero-copy
  device, and the prefetches.  The two caches in front of the store (the pack index
  cache and the clean block cache, both foyer) are the parameter \<open>cache_engine\<close>:
  lookups and inserts on an arbitrary state.  What the cache of the export looks like
  at each moment a read looks at it is the argument \<open>see\<close>, so that other tasks may run
  in between.  Concurrent lookups and fetches of one read run one after the other;
  \<open>pack_order\<close> is the order in which a hash map of packs is walked.
\<close>

section \<open>Caches in front of the store\<close>

record 'c cache_engine =
  index_get :: "PackId \<Rightarrow> 'c \<Rightarrow> PackIndexEntry list option \<times> 'c"
  index_insert :: "PackId \<Rightarrow> PackIndexEntry list \<Rightarrow> 'c \<Rightarrow> 'c"
  block_get :: "Blake3Hash \<Rightarrow> 'c \<Rightarrow> bytes option \<times> 'c"
  block_insert :: "Blake3Hash \<Rightarrow> bytes \<Rightarrow> 'c \<Rightarrow> 'c"

record ('s, 'c) tiers =
  tc :: 'c
  tw :: "'s world"

record read_env =
  rd_io :: io_env
  rd_codec :: codec_lib
  blake3 :: "bytes \<Rightarrow> Blake3Hash"
  pack_order :: "(u32 \<times> PackId) list \<Rightarrow> (u32 \<times> PackId) list"

type_synonym ('s, 'c, 'a) rop = "('s, 'c) tiers \<Rightarrow> (CacheError + 'a) \<times> ('s, 'c) tiers"

definition rbind :: "('s, 'c, 'a) rop \<Rightarrow> ('a \<Rightarrow> ('s, 'c, 'b) rop) \<Rightarrow> ('s, 'c, 'b) rop" where
  "rbind m f t = (case m t of (Inl e, t') \<Rightarrow> (Inl e, t') | (Inr a, t') \<Rightarrow> f a t')"

definition rreturn :: "'a \<Rightarrow> ('s, 'c, 'a) rop" where
  "rreturn a t = (Inr a, t)"

definition rfail :: "CacheError \<Rightarrow> ('s, 'c, 'a) rop" where
  "rfail e t = (Inl e, t)"

definition of_cs :: "('s, 'a) csop \<Rightarrow> ('s, 'c, 'a) rop" where
  "of_cs m t = (case m (tw t) of
      (Inl e, w) \<Rightarrow> (Inl (CacheError.ContentStore e), t\<lparr> tw := w \<rparr>) | (Inr a, w) \<Rightarrow> (Inr a, t\<lparr> tw := w \<rparr>))"

definition try_cs :: "('s, 'a) csop \<Rightarrow> ('s, 'c, ContentStoreError + 'a) rop" where
  "try_cs m t = (case m (tw t) of (r, w) \<Rightarrow> (Inr r, t\<lparr> tw := w \<rparr>))"

definition get_entries :: "'c cache_engine \<Rightarrow> PackId \<Rightarrow> ('s, 'c, PackIndexEntry list option) rop" where
  "get_entries ce p t = (case index_get ce p (tc t) of (r, s) \<Rightarrow> (Inr r, t\<lparr> tc := s \<rparr>))"

definition put_entries :: "'c cache_engine \<Rightarrow> PackId \<Rightarrow> PackIndexEntry list \<Rightarrow> ('s, 'c, unit) rop" where
  "put_entries ce p es t = (Inr (), t\<lparr> tc := index_insert ce p es (tc t) \<rparr>)"

definition clean_get :: "'c cache_engine \<Rightarrow> Blake3Hash \<Rightarrow> ('s, 'c, bytes option) rop" where
  "clean_get ce h t = (case block_get ce h (tc t) of (r, s) \<Rightarrow> (Inr r, t\<lparr> tc := s \<rparr>))"

definition clean_put :: "'c cache_engine \<Rightarrow> Blake3Hash \<Rightarrow> bytes \<Rightarrow> ('s, 'c, unit) rop" where
  "clean_put ce h d t = (Inr (), t\<lparr> tc := block_insert ce h d (tc t) \<rparr>)"

section \<open>Local reads\<close>

datatype moment = StateCheck | LocalRead | FlushRead | Recheck | ActiveRead

text \<open>\<open>None\<close> is a panic of the state map; the test stops at the first block that is not dirty.\<close>

fun all_dirty :: "CacheInner \<Rightarrow> nat list \<Rightarrow> bool option" where
  "all_dirty c [] = Some True"
| "all_dirty c (b # bs) =
     (case sm_get (state_map c) b of None \<Rightarrow> None | Some st \<Rightarrow> if st = DIRTY then all_dirty c bs else Some False)"

text \<open>The outer \<open>None\<close> tells the caller to take the full read path.\<close>

definition try_pread_local :: "io_env \<Rightarrow> CacheInner \<Rightarrow> nat \<Rightarrow> nat \<Rightarrow> (CacheError + bytes) option" where
  "try_pread_local io c off len =
     (if bsize c = 0 \<or> 2 ^ 64 \<le> off + len \<or> off + len = 0 then Some (Inl Panicked)
      else let start_block = off div bsize c; end_block = (off + len - 1) div bsize c
        in if flushing_active c then None
           else (case all_dirty c [start_block..<Suc end_block] of
                   None \<Rightarrow> Some (Inl Panicked)
                 | Some False \<Rightarrow> None
                 | Some True \<Rightarrow>
                     Some (case read_exact_at io (data_file c) len off of Inl e \<Rightarrow> Inl (Io e) | Inr d \<Rightarrow> Inr d)))"

definition zc_all_dirty :: "CacheInner \<Rightarrow> nat \<Rightarrow> nat \<Rightarrow> bool option" where
  "zc_all_dirty c start_block end_block =
     (if flushing_active c then Some False else all_dirty c [start_block..<Suc end_block])"

definition read_bounds :: "CacheInner \<Rightarrow> nat \<Rightarrow> nat \<Rightarrow> CacheError + unit" where
  "read_bounds c off len =
     (if 2 ^ 64 \<le> off + len then Inl Panicked
      else if off + len > dsize c then Inl (OffsetOutOfBounds (off + len) (dsize c)) else Inr ())"

definition read_local :: "io_env \<Rightarrow> CacheInner \<Rightarrow> nat \<Rightarrow> nat \<Rightarrow> CacheError + bytes" where
  "read_local io c off len =
     sum_bind (read_bounds c off len) (\<lambda>_.
       if len = 0 then Inr []
       else (case read_exact_at io (data_file c) len off of Inl e \<Rightarrow> Inl (Io e) | Inr d \<Rightarrow> Inr d))"

definition pad_block :: "nat \<Rightarrow> bytes \<Rightarrow> bytes" where
  "pad_block bs d = d @ replicate (bs - length d) 0"

definition sync_read_local_block :: "io_env \<Rightarrow> (moment \<Rightarrow> CacheInner) \<Rightarrow> nat \<Rightarrow> CacheError + bytes option" where
  "sync_read_local_block io see b =
     (let c = see LocalRead; bs = bsize c; off = b * bs
      in if 2 ^ 64 \<le> off then Inl Panicked
         else if dsize c \<le> off then Inr (Some (replicate bs 0))
         else let valid = min bs (dsize c - off);
                  from = (\<lambda>f. case read_exact_at io f valid off of
                      Inl e \<Rightarrow> Inl (Io e) | Inr d \<Rightarrow> Inr (Some (pad_block bs d)))
           in (case sm_get (state_map c) b of
                 None \<Rightarrow> Inl Panicked
               | Some st \<Rightarrow>
                   if st = NOT_PRESENT then Inr None
                   else if st = SYNCING then
                     (case flushing_file (see FlushRead) of
                        Some ff \<Rightarrow> from ff
                      | None \<Rightarrow>
                          (case sm_get (state_map (see Recheck)) b of
                             None \<Rightarrow> Inl Panicked
                           | Some st2 \<Rightarrow> if st2 = NOT_PRESENT then Inr None else from (data_file (see ActiveRead))))
                   else from (data_file (see ActiveRead))))"

definition read_local_block :: "io_env \<Rightarrow> (moment \<Rightarrow> CacheInner) \<Rightarrow> nat \<Rightarrow> CacheError + bytes" where
  "read_local_block io see b =
     sum_bind (sync_read_local_block io see b)
       (\<lambda>r. Inr (case r of Some d \<Rightarrow> d | None \<Rightarrow> replicate (bsize (see LocalRead)) 0))"

section \<open>Locating a block\<close>

datatype BlockLocation =
    Local bytes
  | Cached bytes
  | Zero
  | NeedsFetch PackId u32 Blake3Hash u32 u32

definition find_entry :: "PackIndexEntry list \<Rightarrow> u32 \<Rightarrow> PackIndexEntry option" where
  "find_entry es block_offset = List.find (\<lambda>e. chunk_offset e = block_offset) es"

text \<open>The first pass, newest pack first: once a pack is not cached, only collect.\<close>

fun search_cached :: "'c cache_engine \<Rightarrow> u32 \<Rightarrow> PackId list \<Rightarrow> PackId list
    \<Rightarrow> ('s, 'c, (PackId \<times> PackIndexEntry) option \<times> PackId list) rop" where
  "search_cached ce bo [] uncached = rreturn (None, uncached)"
| "search_cached ce bo (p # ps) uncached =
     (if uncached \<noteq> [] then
        rbind (get_entries ce p) (\<lambda>r.
          search_cached ce bo ps (if r = None then uncached @ [p] else uncached))
      else
        rbind (get_entries ce p) (\<lambda>r. case r of
          Some es \<Rightarrow> (case find_entry es bo of
              Some e \<Rightarrow> rreturn (Some (p, e), uncached)
            | None \<Rightarrow> search_cached ce bo ps uncached)
        | None \<Rightarrow> search_cached ce bo ps [p]))"

fun more_uncached :: "'c cache_engine \<Rightarrow> PackId list \<Rightarrow> PackId list \<Rightarrow> ('s, 'c, PackId list) rop" where
  "more_uncached ce [] uncached = rreturn uncached"
| "more_uncached ce (p # ps) uncached =
     (if p \<in> set uncached then more_uncached ce ps uncached
      else rbind (get_entries ce p) (\<lambda>r.
             more_uncached ce ps (if r = None then uncached @ [p] else uncached)))"

fun fetch_indexes :: "'s ContentStore \<Rightarrow> u32 \<Rightarrow> PackId list \<Rightarrow> ('s, 'c, (PackId \<times> (ContentStoreError + PackIndexEntry list)) list) rop" where
  "fetch_indexes cs ci [] = rreturn []"
| "fetch_indexes cs ci (p # ps) =
     rbind (try_cs (get_pack_index cs ci p)) (\<lambda>r.
     rbind (fetch_indexes cs ci ps) (\<lambda>rs. rreturn ((p, r) # rs)))"

text \<open>The failed packs and the last error; what arrived goes into the index cache.\<close>

fun record_indexes :: "'c cache_engine \<Rightarrow> (PackId \<times> (ContentStoreError + PackIndexEntry list)) list
    \<Rightarrow> PackId list \<Rightarrow> ContentStoreError option \<Rightarrow> ('s, 'c, PackId list \<times> ContentStoreError option) rop" where
  "record_indexes ce [] failed err = rreturn (failed, err)"
| "record_indexes ce ((p, Inr es) # rs) failed err =
     rbind (put_entries ce p es) (\<lambda>_. record_indexes ce rs failed err)"
| "record_indexes ce ((p, Inl e) # rs) failed err = record_indexes ce rs (failed @ [p]) (Some e)"

fun re_resolve :: "'c cache_engine \<Rightarrow> u32 \<Rightarrow> PackId list \<Rightarrow> PackId list \<Rightarrow> ContentStoreError option
    \<Rightarrow> ('s, 'c, (PackId \<times> PackIndexEntry) option) rop" where
  "re_resolve ce bo failed [] err = rreturn None"
| "re_resolve ce bo failed (p # ps) err =
     (if p \<in> set failed \<and> err \<noteq> None then rfail (CacheError.ContentStore (the err))
      else rbind (get_entries ce p) (\<lambda>r. case r of
             None \<Rightarrow> re_resolve ce bo failed ps err
           | Some es \<Rightarrow> (case find_entry es bo of
                 Some e \<Rightarrow> rreturn (Some (p, e))
               | None \<Rightarrow> re_resolve ce bo failed ps err)))"

definition fetch_and_resolve :: "'c cache_engine \<Rightarrow> 's ContentStore \<Rightarrow> u32 \<Rightarrow> u32 \<Rightarrow> PackId list \<Rightarrow> PackId list
    \<Rightarrow> ('s, 'c, (PackId \<times> PackIndexEntry) option) rop" where
  "fetch_and_resolve ce cs ci bo pack_ids uncached =
     rbind (fetch_indexes cs ci uncached) (\<lambda>results.
     rbind (record_indexes ce results [] None) (\<lambda>(failed, err).
     rbind (re_resolve ce bo failed (rev pack_ids) err) (\<lambda>resolved.
       if resolved = None \<and> err \<noteq> None then rfail (CacheError.ContentStore (the err)) else rreturn resolved)))"

definition resolve_entry :: "'c cache_engine \<Rightarrow> 's ContentStore \<Rightarrow> u32 \<Rightarrow> u32 \<Rightarrow> PackId list
    \<Rightarrow> ('s, 'c, (PackId \<times> PackIndexEntry) option) rop" where
  "resolve_entry ce cs ci bo pack_ids =
     rbind (search_cached ce bo (rev pack_ids) []) (\<lambda>(resolved, uncached).
       if uncached = [] then rreturn resolved
       else rbind (more_uncached ce pack_ids uncached) (fetch_and_resolve ce cs ci bo pack_ids))"

definition locate_block :: "read_env \<Rightarrow> 'c cache_engine \<Rightarrow> 's ContentStore \<Rightarrow> VolumeManifest
    \<Rightarrow> (moment \<Rightarrow> CacheInner) \<Rightarrow> nat \<Rightarrow> ('s, 'c, BlockLocation) rop" where
  "locate_block env ce cs vm see b =
     (case sm_get (state_map (see StateCheck)) b of
        None \<Rightarrow> rfail Panicked
      | Some st \<Rightarrow>
          let local_data = (if st = DIRTY \<or> st = SYNCING then sync_read_local_block (rd_io env) see b else Inr None)
          in (case local_data of
                Inl e \<Rightarrow> rfail e
              | Inr (Some data) \<Rightarrow> rreturn (Local data)
              | Inr None \<Rightarrow>
                  (case (chunk_idx_for_block vm (of_nat b), block_offset_in_chunk vm (of_nat b)) of
                     (Some ci, Some bo) \<Rightarrow>
                       let pack_ids = (case chunk_pack_ids vm ci of Some ids \<Rightarrow> ids | None \<Rightarrow> [])
                       in if pack_ids = [] then rreturn Zero
                          else rbind (resolve_entry ce cs ci bo pack_ids) (\<lambda>resolved. case resolved of
                                 None \<Rightarrow> rreturn Zero
                               | Some (p, e) \<Rightarrow>
                                   if comp_length e = 0 then rreturn Zero
                                   else rbind (clean_get ce (hash e)) (\<lambda>hit. case hit of
                                          Some d \<Rightarrow> rreturn (Cached d)
                                        | None \<Rightarrow> rreturn (NeedsFetch p ci (hash e) (offset e) (comp_length e))))
                   | _ \<Rightarrow> rfail Panicked)))"

section \<open>Fetching from the store\<close>

type_synonym fetch_req = "nat \<times> Blake3Hash \<times> u32 \<times> u32"
type_synonym fetch_entry = "nat \<times> PackId \<times> u32 \<times> Blake3Hash \<times> u32 \<times> u32"

definition open_block :: "read_env \<Rightarrow> Blake3Hash \<Rightarrow> bytes \<Rightarrow> CacheError + bytes" where
  "open_block env expected_hash compressed =
     (case decompress_block (rd_codec env) compressed of
        Inl _ \<Rightarrow> Inl DecompressFailed
      | Inr d \<Rightarrow> if blake3 env d \<noteq> expected_hash then Inl (HashMismatch expected_hash (blake3 env d)) else Inr d)"

definition keep_block :: "'c cache_engine \<Rightarrow> Blake3Hash \<Rightarrow> CacheError + bytes \<Rightarrow> ('s, 'c, bytes) rop" where
  "keep_block ce h r = (case r of Inl e \<Rightarrow> rfail e | Inr d \<Rightarrow> rbind (clean_put ce h d) (\<lambda>_. rreturn d))"

definition fetch_single_block :: "read_env \<Rightarrow> 'c cache_engine \<Rightarrow> 's ContentStore \<Rightarrow> u32 \<Rightarrow> PackId
    \<Rightarrow> Blake3Hash \<Rightarrow> u32 \<Rightarrow> u32 \<Rightarrow> ('s, 'c, bytes) rop" where
  "fetch_single_block env ce cs ci p h off cl =
     rbind (of_cs (get_chunk_block cs ci p off cl)) (\<lambda>compressed. keep_block ce h (open_block env h compressed))"

fun fetch_each :: "read_env \<Rightarrow> 'c cache_engine \<Rightarrow> 's ContentStore \<Rightarrow> u32 \<Rightarrow> PackId \<Rightarrow> fetch_req list
    \<Rightarrow> ('s, 'c, (nat \<times> bytes) list) rop" where
  "fetch_each env ce cs ci p [] = rreturn []"
| "fetch_each env ce cs ci p ((i, h, off, cl) # reqs) =
     rbind (fetch_single_block env ce cs ci p h off cl) (\<lambda>d.
     rbind (fetch_each env ce cs ci p reqs) (\<lambda>rs. rreturn ((i, d) # rs)))"

fun split_coalesced :: "read_env \<Rightarrow> 'c cache_engine \<Rightarrow> nat \<Rightarrow> bytes \<Rightarrow> fetch_req list
    \<Rightarrow> ('s, 'c, (nat \<times> bytes) list) rop" where
  "split_coalesced env ce range_start coalesced [] = rreturn []"
| "split_coalesced env ce range_start coalesced ((i, h, off, cl) # reqs) =
     (case rust_slice (unat off - range_start) (unat off - range_start + unat cl) coalesced of
        None \<Rightarrow> rfail Panicked
      | Some compressed \<Rightarrow>
          rbind (keep_block ce h (open_block env h compressed)) (\<lambda>d.
          rbind (split_coalesced env ce range_start coalesced reqs) (\<lambda>rs. rreturn ((i, d) # rs))))"

definition req_offset :: "fetch_req \<Rightarrow> u32" where
  "req_offset r = (case r of (i, h, off, cl) \<Rightarrow> off)"

definition req_length :: "fetch_req \<Rightarrow> u32" where
  "req_length r = (case r of (i, h, off, cl) \<Rightarrow> cl)"

definition fetch_group :: "read_env \<Rightarrow> 'c cache_engine \<Rightarrow> 's ContentStore \<Rightarrow> u32 \<Rightarrow> PackId \<Rightarrow> fetch_req list
    \<Rightarrow> ('s, 'c, (nat \<times> bytes) list) rop" where
  "fetch_group env ce cs ci p reqs =
     (let blocks = sort_key req_offset reqs;
          range_start = req_offset (hd blocks); l = last blocks
      in case checked_add (req_offset l) (req_length l) of
           None \<Rightarrow> rfail Panicked
         | Some range_end \<Rightarrow>
             let span = unat range_end - unat range_start; total_data = sum_list (map (unat \<circ> req_length) blocks)
             in if range_end < range_start \<or> span < total_data then rfail Panicked
                else if length blocks = 1 \<or> span - total_data > total_data then fetch_each env ce cs ci p blocks
                else rbind (of_cs (get_chunk_block cs ci p range_start (range_end - range_start))) (\<lambda>coalesced.
                       split_coalesced env ce (unat range_start) coalesced blocks))"

text \<open>Grouping by pack: the packs in the order of the hash map, each with its requests.\<close>

definition pack_of_entry :: "fetch_entry \<Rightarrow> u32 \<times> PackId" where
  "pack_of_entry r = (case r of (i, p, ci, h, off, cl) \<Rightarrow> (ci, p))"

definition req_of_entry :: "fetch_entry \<Rightarrow> fetch_req" where
  "req_of_entry r = (case r of (i, p, ci, h, off, cl) \<Rightarrow> (i, h, off, cl))"

definition packs_of :: "read_env \<Rightarrow> fetch_entry list \<Rightarrow> (u32 \<times> PackId) list" where
  "packs_of env es = pack_order env (remdups (map pack_of_entry es))"

definition reqs_of :: "fetch_entry list \<Rightarrow> u32 \<times> PackId \<Rightarrow> fetch_req list" where
  "reqs_of es k = map req_of_entry (filter (\<lambda>r. pack_of_entry r = k) es)"

fun fetch_groups :: "read_env \<Rightarrow> 'c cache_engine \<Rightarrow> 's ContentStore \<Rightarrow> fetch_entry list \<Rightarrow> (u32 \<times> PackId) list
    \<Rightarrow> ('s, 'c, (nat \<times> bytes) list) rop" where
  "fetch_groups env ce cs es [] = rreturn []"
| "fetch_groups env ce cs es ((ci, p) # ks) =
     rbind (fetch_group env ce cs ci p (reqs_of es (ci, p))) (\<lambda>rs.
     rbind (fetch_groups env ce cs es ks) (\<lambda>rest. rreturn (rs @ rest)))"

type_synonym block_results = "(nat, bytes) btree"

definition add_results :: "(nat \<times> bytes) list \<Rightarrow> block_results \<Rightarrow> block_results" where
  "add_results rs m = fold (\<lambda>(i, d). bt_insert i d) rs m"

definition fetch_coalesced :: "read_env \<Rightarrow> 'c cache_engine \<Rightarrow> 's ContentStore \<Rightarrow> fetch_entry list
    \<Rightarrow> ('s, 'c, block_results) rop" where
  "fetch_coalesced env ce cs es =
     (if es = [] then rreturn []
      else rbind (fetch_groups env ce cs es (packs_of env es)) (\<lambda>rs. rreturn (add_results rs [])))"

section \<open>The pack window\<close>

fun window_blocks :: "read_env \<Rightarrow> 'c cache_engine \<Rightarrow> (Blake3Hash \<Rightarrow> nat option) \<Rightarrow> nat \<Rightarrow> bytes
    \<Rightarrow> PackIndexEntry list \<Rightarrow> ('s, 'c, (nat \<times> bytes) list) rop" where
  "window_blocks env ce want range_start pack_bytes [] = rreturn []"
| "window_blocks env ce want range_start pack_bytes (e # es) =
     (let s = unat (offset e) - range_start; fin = s + unat (comp_length e)
      in if fin > length pack_bytes then window_blocks env ce want range_start pack_bytes es
         else (case decompress_block (rd_codec env) (bslice s fin pack_bytes) of
                 Inl _ \<Rightarrow> window_blocks env ce want range_start pack_bytes es
               | Inr d \<Rightarrow>
                   if blake3 env d \<noteq> hash e then window_blocks env ce want range_start pack_bytes es
                   else rbind (clean_put ce (hash e) d) (\<lambda>_.
                        rbind (window_blocks env ce want range_start pack_bytes es) (\<lambda>rs.
                          rreturn (case want (hash e) of Some i \<Rightarrow> (i, d) # rs | None \<Rightarrow> rs)))))"

definition to_entries :: "u32 \<Rightarrow> PackId \<Rightarrow> fetch_req list \<Rightarrow> fetch_entry list" where
  "to_entries ci p reqs = map (\<lambda>(i, h, off, cl). (i, p, ci, h, off, cl)) reqs"

definition in_window :: "nat \<Rightarrow> fetch_req list \<Rightarrow> PackIndexEntry list \<Rightarrow> PackIndexEntry list" where
  "in_window window reqs es =
     (let win_start = (case map req_offset reqs of [] \<Rightarrow> 0 | x # xs \<Rightarrow> fold min xs x);
          win_end = min (2 ^ 32 - 1) (unat win_start + window)
      in sort_key offset (filter (\<lambda>e. win_start \<le> offset e \<and> unat (offset e) < win_end) es))"

fun window_packs :: "read_env \<Rightarrow> 'c cache_engine \<Rightarrow> 's ContentStore \<Rightarrow> nat \<Rightarrow> fetch_entry list \<Rightarrow> (u32 \<times> PackId) list
    \<Rightarrow> block_results \<Rightarrow> fetch_entry list \<Rightarrow> ('s, 'c, block_results \<times> fetch_entry list) rop" where
  "window_packs env ce cs window es [] out leftover = rreturn (out, leftover)"
| "window_packs env ce cs window es ((ci, p) # ks) out leftover =
     (let reqs = reqs_of es (ci, p);
          fall_back = window_packs env ce cs window es ks out (leftover @ to_entries ci p reqs)
      in rbind (get_entries ce p) (\<lambda>idx. case idx of
           None \<Rightarrow> fall_back
         | Some idx_entries \<Rightarrow>
             let in_win = in_window window reqs idx_entries
             in if idx_entries = [] \<or> length in_win \<le> 1 then fall_back
                else let range_start = offset (hd in_win); l = last in_win
                  in (case checked_add (offset l) (comp_length l) of
                        None \<Rightarrow> rfail Panicked
                      | Some range_end \<Rightarrow>
                          if range_end < range_start then rfail Panicked
                          else rbind (try_cs (get_chunk_block cs ci p range_start (range_end - range_start))) (\<lambda>r. case r of
                                 Inl _ \<Rightarrow> fall_back
                               | Inr pack_bytes \<Rightarrow>
                                   let want = map_of (rev (map (\<lambda>(i, h, off, cl). (h, i)) reqs))
                                   in rbind (window_blocks env ce want (unat range_start) pack_bytes in_win) (\<lambda>got.
                                        window_packs env ce cs window es ks (add_results got out)
                                          (leftover @ to_entries ci p (filter (\<lambda>r. fst r \<notin> fst ` set got) reqs)))))))"

definition fetch_with_window :: "read_env \<Rightarrow> 'c cache_engine \<Rightarrow> 's ContentStore \<Rightarrow> nat \<Rightarrow> fetch_entry list
    \<Rightarrow> ('s, 'c, block_results) rop" where
  "fetch_with_window env ce cs window es =
     rbind (window_packs env ce cs window es (packs_of env es) [] []) (\<lambda>(out, leftover).
       if leftover = [] then rreturn out
       else rbind (fetch_coalesced env ce cs leftover) (\<lambda>fetched. rreturn (add_results fetched out)))"

section \<open>Reads\<close>

definition zero_block_bytes :: "CacheInner \<Rightarrow> bytes" where
  "zero_block_bytes c = replicate (bsize c) 0"

definition resolve_block_windowed :: "read_env \<Rightarrow> 'c cache_engine \<Rightarrow> 's ContentStore \<Rightarrow> VolumeManifest
    \<Rightarrow> (moment \<Rightarrow> CacheInner) \<Rightarrow> nat \<Rightarrow> nat \<Rightarrow> ('s, 'c, bytes) rop" where
  "resolve_block_windowed env ce cs vm see b window =
     rbind (locate_block env ce cs vm see b) (\<lambda>location. case location of
       Local data \<Rightarrow> rreturn data
     | Cached data \<Rightarrow> rreturn data
     | Zero \<Rightarrow> rreturn (zero_block_bytes (see StateCheck))
     | NeedsFetch p ci h off cl \<Rightarrow>
         rbind (fetch_with_window env ce cs window [(0, p, ci, h, off, cl)]) (\<lambda>fetched.
           case bt_get fetched 0 of Some d \<Rightarrow> rreturn d | None \<Rightarrow> rfail DecompressFailed))"

definition resolve_block :: "read_env \<Rightarrow> 'c cache_engine \<Rightarrow> 's ContentStore \<Rightarrow> VolumeManifest
    \<Rightarrow> (moment \<Rightarrow> CacheInner) \<Rightarrow> nat \<Rightarrow> ('s, 'c, bytes) rop" where
  "resolve_block env ce cs vm see b =
     resolve_block_windowed env ce cs vm see b (readahead_window_bytes (see StateCheck))"

definition resolve_block_for_backfill :: "read_env \<Rightarrow> 'c cache_engine \<Rightarrow> 's ContentStore \<Rightarrow> VolumeManifest
    \<Rightarrow> (moment \<Rightarrow> CacheInner) \<Rightarrow> nat \<Rightarrow> ('s, 'c, bytes) rop" where
  "resolve_block_for_backfill env ce cs vm see b = resolve_block env ce cs vm see b"

fun locate_all :: "read_env \<Rightarrow> 'c cache_engine \<Rightarrow> 's ContentStore \<Rightarrow> VolumeManifest
    \<Rightarrow> (nat \<Rightarrow> moment \<Rightarrow> CacheInner) \<Rightarrow> nat list \<Rightarrow> ('s, 'c, BlockLocation list) rop" where
  "locate_all env ce cs vm see [] = rreturn []"
| "locate_all env ce cs vm see (b # bs) =
     rbind (locate_block env ce cs vm (see b) b) (\<lambda>l.
     rbind (locate_all env ce cs vm see bs) (\<lambda>ls. rreturn (l # ls)))"

text \<open>What is resolved already, and what has to be fetched, by position in the request.\<close>

fun fetch_list :: "nat \<Rightarrow> BlockLocation list \<Rightarrow> fetch_entry list" where
  "fetch_list i [] = []"
| "fetch_list i (NeedsFetch p ci h off cl # ls) = (i, p, ci, h, off, cl) # fetch_list (i + 1) ls"
| "fetch_list i (l # ls) = fetch_list (i + 1) ls"

definition at_hand :: "bytes \<Rightarrow> BlockLocation \<Rightarrow> bytes option" where
  "at_hand zeros l = (case l of Local d \<Rightarrow> Some d | Cached d \<Rightarrow> Some d | Zero \<Rightarrow> Some zeros | NeedsFetch _ _ _ _ _ \<Rightarrow> None)"

definition block_slot :: "bytes \<Rightarrow> block_results \<Rightarrow> nat \<Rightarrow> BlockLocation \<Rightarrow> bytes option" where
  "block_slot zeros fetched i l = (case bt_get fetched i of Some d \<Rightarrow> Some d | None \<Rightarrow> at_hand zeros l)"

fun fill_slots :: "bytes \<Rightarrow> block_results \<Rightarrow> nat \<Rightarrow> BlockLocation list \<Rightarrow> CacheError + bytes list" where
  "fill_slots zeros fetched i [] = Inr []"
| "fill_slots zeros fetched i (l # ls) =
     (case block_slot zeros fetched i l of
        None \<Rightarrow> Inl DecompressFailed
      | Some d \<Rightarrow> sum_bind (fill_slots zeros fetched (i + 1) ls) (\<lambda>ds. Inr (d # ds)))"

definition slice_start :: "nat \<Rightarrow> nat \<Rightarrow> nat \<Rightarrow> nat" where
  "slice_start bs off b = (if b = off div bs then off - b * bs else 0)"

definition slice_end :: "nat \<Rightarrow> nat \<Rightarrow> nat \<Rightarrow> nat \<Rightarrow> nat \<Rightarrow> nat" where
  "slice_end bs off len limit b = (if b = (off + len - 1) div bs then min (off + len - b * bs) limit else limit)"

fun assemble_read :: "nat \<Rightarrow> nat \<Rightarrow> nat \<Rightarrow> nat \<Rightarrow> bytes list \<Rightarrow> CacheError + bytes" where
  "assemble_read bs off len b [] = Inr []"
| "assemble_read bs off len b (d # ds) =
     (case rust_slice (slice_start bs off b) (slice_end bs off len (length d) b) d of
        None \<Rightarrow> Inl Panicked
      | Some part \<Rightarrow> sum_bind (assemble_read bs off len (b + 1) ds) (\<lambda>rest. Inr (part @ rest)))"

definition of_sum :: "CacheError + 'a \<Rightarrow> ('s, 'c, 'a) rop" where
  "of_sum r = (case r of Inl e \<Rightarrow> rfail e | Inr a \<Rightarrow> rreturn a)"

definition fetch_located :: "read_env \<Rightarrow> 'c cache_engine \<Rightarrow> 's ContentStore \<Rightarrow> nat \<Rightarrow> BlockLocation list
    \<Rightarrow> ('s, 'c, block_results) rop" where
  "fetch_located env ce cs window ls =
     (if fetch_list 0 ls = [] then rreturn [] else fetch_with_window env ce cs window (fetch_list 0 ls))"

text \<open>\<open>read\<close>: \<open>see b\<close> is what the read sees of the cache when it looks at block \<open>b\<close>.\<close>

definition cache_read :: "read_env \<Rightarrow> 'c cache_engine \<Rightarrow> 's ContentStore \<Rightarrow> VolumeManifest
    \<Rightarrow> (nat \<Rightarrow> moment \<Rightarrow> CacheInner) \<Rightarrow> nat \<Rightarrow> nat \<Rightarrow> ('s, 'c, bytes) rop" where
  "cache_read env ce cs vm see off len =
     (let c = see 0 StateCheck; bs = bsize c
      in rbind (of_sum (read_bounds c off len)) (\<lambda>_.
           if len = 0 then rreturn []
           else if bs = 0 then rfail Panicked
           else let start_block = off div bs; end_block = (off + len - 1) div bs;
                    blocks = [start_block..<Suc end_block]; c1 = see start_block LocalRead
             in (case (if flushing_active c1 then Some False else all_dirty c1 blocks) of
                   None \<Rightarrow> rfail Panicked
                 | Some True \<Rightarrow>
                     (case read_exact_at (rd_io env) (data_file (see start_block ActiveRead)) len off of
                        Inl e \<Rightarrow> rfail (Io e) | Inr d \<Rightarrow> rreturn d)
                 | Some False \<Rightarrow>
                     if end_block = start_block then
                       rbind (resolve_block env ce cs vm (see start_block) start_block) (\<lambda>d.
                         let s = off - start_block * bs
                         in (case rust_slice s (min (s + len) (length d)) d of
                               None \<Rightarrow> rfail Panicked | Some part \<Rightarrow> rreturn part))
                     else
                       rbind (locate_all env ce cs vm see blocks) (\<lambda>ls.
                       rbind (fetch_located env ce cs (readahead_window_bytes c) ls) (\<lambda>fetched.
                       rbind (of_sum (fill_slots (zero_block_bytes c) fetched 0 ls)) (\<lambda>ds.
                         of_sum (assemble_read bs off len start_block ds)))))))"

section \<open>The read plan of the zero-copy device\<close>

datatype ChunkSource = ZeroSource | LocalSsd nat | InMemory bytes

record ChunkPlanEntry =
  source :: ChunkSource
  block_start :: nat
  entry_slice_start :: nat
  slice_len :: nat

definition source_of :: "bytes \<Rightarrow> ChunkSource" where
  "source_of d = (if list_all (\<lambda>b. b = 0) d then ZeroSource else InMemory d)"

definition source_slot :: "block_results \<Rightarrow> nat \<Rightarrow> BlockLocation \<Rightarrow> ChunkSource option" where
  "source_slot fetched i l =
     (case bt_get fetched i of
        Some d \<Rightarrow> Some (source_of d)
      | None \<Rightarrow> (case l of Local d \<Rightarrow> Some (source_of d) | Cached d \<Rightarrow> Some (source_of d)
                  | Zero \<Rightarrow> Some ZeroSource | NeedsFetch _ _ _ _ _ \<Rightarrow> None))"

fun plan_entries :: "nat \<Rightarrow> nat \<Rightarrow> nat \<Rightarrow> nat \<Rightarrow> block_results \<Rightarrow> nat \<Rightarrow> BlockLocation list
    \<Rightarrow> CacheError + ChunkPlanEntry list" where
  "plan_entries bs off len b fetched i [] = Inr []"
| "plan_entries bs off len b fetched i (l # ls) =
     (case source_slot fetched i l of
        None \<Rightarrow> Inl DecompressFailed
      | Some src \<Rightarrow>
          let s = slice_start bs off b; e = slice_end bs off len bs b
          in if e < s then Inl Panicked
             else sum_bind (plan_entries bs off len (b + 1) fetched (i + 1) ls) (\<lambda>rest.
                    Inr (\<lparr> source = src, block_start = b * bs, entry_slice_start = s, slice_len = e - s \<rparr> # rest)))"

definition resolve_read_plan_cold :: "read_env \<Rightarrow> 'c cache_engine \<Rightarrow> 's ContentStore \<Rightarrow> VolumeManifest
    \<Rightarrow> (nat \<Rightarrow> moment \<Rightarrow> CacheInner) \<Rightarrow> nat \<Rightarrow> nat \<Rightarrow> nat \<Rightarrow> nat \<Rightarrow> ('s, 'c, ChunkPlanEntry list) rop" where
  "resolve_read_plan_cold env ce cs vm see off len start_chunk end_chunk =
     (let c = see 0 StateCheck
      in rbind (locate_all env ce cs vm see [start_chunk..<Suc end_chunk]) (\<lambda>ls.
         rbind (fetch_located env ce cs (readahead_window_bytes c) ls) (\<lambda>fetched.
           of_sum (plan_entries (bsize c) off len start_chunk fetched 0 ls))))"

definition resolve_read_plan :: "read_env \<Rightarrow> 'c cache_engine \<Rightarrow> 's ContentStore \<Rightarrow> VolumeManifest
    \<Rightarrow> (nat \<Rightarrow> moment \<Rightarrow> CacheInner) \<Rightarrow> nat \<Rightarrow> nat \<Rightarrow> ('s, 'c, ChunkPlanEntry list) rop" where
  "resolve_read_plan env ce cs vm see off len =
     (let c = see 0 StateCheck; bs = bsize c
      in rbind (of_sum (read_bounds c off len)) (\<lambda>_.
           if len = 0 then rreturn []
           else if bs = 0 then rfail Panicked
           else resolve_read_plan_cold env ce cs vm see off len (off div bs) ((off + len - 1) div bs)))"

section \<open>Prefetching\<close>

fun prefetch_packs :: "'c cache_engine \<Rightarrow> 's ContentStore \<Rightarrow> u32 \<Rightarrow> PackId list \<Rightarrow> ('s, 'c, unit) rop" where
  "prefetch_packs ce cs ci [] = rreturn ()"
| "prefetch_packs ce cs ci (p # ps) =
     rbind (get_entries ce p) (\<lambda>r.
       if r \<noteq> None then prefetch_packs ce cs ci ps
       else rbind (try_cs (get_pack_index cs ci p)) (\<lambda>a. case a of
              Inr es \<Rightarrow> rbind (put_entries ce p es) (\<lambda>_. prefetch_packs ce cs ci ps)
            | Inl _ \<Rightarrow> prefetch_packs ce cs ci ps))"

definition prefetch_chunk :: "'c cache_engine \<Rightarrow> 's ContentStore \<Rightarrow> VolumeManifest \<Rightarrow> u32 \<Rightarrow> ('s, 'c, unit) rop" where
  "prefetch_chunk ce cs vm ci =
     prefetch_packs ce cs ci (case chunk_pack_ids vm ci of Some ids \<Rightarrow> ids | None \<Rightarrow> [])"

fun prefetch_chunks :: "'c cache_engine \<Rightarrow> 's ContentStore \<Rightarrow> VolumeManifest \<Rightarrow> u64 list \<Rightarrow> ('s, 'c, unit) rop" where
  "prefetch_chunks ce cs vm [] = rreturn ()"
| "prefetch_chunks ce cs vm (ci # cis) =
     rbind (prefetch_chunk ce cs vm (ucast ci)) (\<lambda>_. prefetch_chunks ce cs vm cis)"

definition try_rop :: "('s, 'c, 'a) rop \<Rightarrow> ('s, 'c, CacheError + 'a) rop" where
  "try_rop m t = (case m t of (r, t') \<Rightarrow> (Inr r, t'))"

definition PREFETCH_STEP :: nat where "PREFETCH_STEP = 4 * 1024 * 1024"

function prefetch_data_range :: "read_env \<Rightarrow> 'c cache_engine \<Rightarrow> 's ContentStore \<Rightarrow> VolumeManifest
    \<Rightarrow> (nat \<Rightarrow> moment \<Rightarrow> CacheInner) \<Rightarrow> nat \<Rightarrow> nat \<Rightarrow> ('s, 'c, unit) rop" where
  "prefetch_data_range env ce cs vm see len off =
     (if len \<le> off then rreturn ()
      else let n = min PREFETCH_STEP (len - off)
        in rbind (try_rop (cache_read env ce cs vm see off n)) (\<lambda>r. case r of
             Inl _ \<Rightarrow> rreturn ()
           | Inr _ \<Rightarrow> prefetch_data_range env ce cs vm see len (off + n)))"
  by pat_completeness auto
termination
  by (relation "measure (\<lambda>(env, ce, cs, vm, see, len, off). len - off)") (auto simp: PREFETCH_STEP_def)

fun run_entries :: "read_env \<Rightarrow> 'c cache_engine \<Rightarrow> 's ContentStore \<Rightarrow> VolumeManifest
    \<Rightarrow> (nat \<Rightarrow> moment \<Rightarrow> CacheInner) \<Rightarrow> nat \<Rightarrow> nat list \<Rightarrow> ('s, 'c, fetch_entry list) rop" where
  "run_entries env ce cs vm see start [] = rreturn []"
| "run_entries env ce cs vm see start (k # ks) =
     rbind (locate_block env ce cs vm (see (start + k)) (start + k)) (\<lambda>l.
     rbind (run_entries env ce cs vm see start ks) (\<lambda>rest.
       rreturn (case l of NeedsFetch p ci h off cl \<Rightarrow> (k, p, ci, h, off, cl) # rest | _ \<Rightarrow> rest)))"

definition prefetch_run :: "read_env \<Rightarrow> 'c cache_engine \<Rightarrow> 's ContentStore \<Rightarrow> VolumeManifest
    \<Rightarrow> (nat \<Rightarrow> moment \<Rightarrow> CacheInner) \<Rightarrow> nat \<Rightarrow> nat \<Rightarrow> ('s, 'c, unit) rop" where
  "prefetch_run env ce cs vm see start count =
     rbind (run_entries env ce cs vm see start [0..<count]) (\<lambda>es.
       if es = [] then rreturn () else rbind (fetch_with_window env ce cs 0 es) (\<lambda>_. rreturn ()))"

definition MAX_WARM_BLOCKS :: nat where "MAX_WARM_BLOCKS = 8192"
definition MAX_GAP :: nat where "MAX_GAP = 64"

text \<open>Extend the run that starts at \<open>start\<close> and ends at \<open>fin\<close> so far; the rest starts new runs.\<close>

fun coalesce_runs :: "nat \<Rightarrow> nat \<Rightarrow> nat list \<Rightarrow> (nat \<times> nat) list" where
  "coalesce_runs start fin [] = [(start, fin - start + 1)]"
| "coalesce_runs start fin (b # bs) =
     (if b \<le> fin + MAX_GAP + 1 then coalesce_runs start b bs
      else (start, fin - start + 1) # coalesce_runs b b bs)"

definition warm_runs :: "nat list \<Rightarrow> (nat \<times> nat) list" where
  "warm_runs blocks =
     (case take MAX_WARM_BLOCKS (remdups_adj (sort blocks)) of [] \<Rightarrow> [] | b # bs \<Rightarrow> coalesce_runs b b bs)"

fun prefetch_runs :: "read_env \<Rightarrow> 'c cache_engine \<Rightarrow> 's ContentStore \<Rightarrow> VolumeManifest
    \<Rightarrow> (nat \<Rightarrow> moment \<Rightarrow> CacheInner) \<Rightarrow> (nat \<times> nat) list \<Rightarrow> ('s, 'c, unit) rop" where
  "prefetch_runs env ce cs vm see [] = rreturn ()"
| "prefetch_runs env ce cs vm see ((start, count) # rs) =
     rbind (try_rop (prefetch_run env ce cs vm see start count)) (\<lambda>_. prefetch_runs env ce cs vm see rs)"

definition prefetch_data_blocks :: "read_env \<Rightarrow> 'c cache_engine \<Rightarrow> 's ContentStore \<Rightarrow> VolumeManifest
    \<Rightarrow> (nat \<Rightarrow> moment \<Rightarrow> CacheInner) \<Rightarrow> nat list \<Rightarrow> ('s, 'c, unit) rop" where
  "prefetch_data_blocks env ce cs vm see blocks = prefetch_runs env ce cs vm see (warm_runs blocks)"

end
