(* ===== verification/ReadCorrect.thy ===== *)
theory ReadCorrect
  imports ReadPath
begin

text \<open>
  What a read returns.  Operations of the read path are specified by triples over a fixed
  invariant of the caches and the store: \<open>rvalid J m Q\<close> says that \<open>m\<close> keeps \<open>J\<close>, and
  that a result it returns satisfies \<open>Q\<close>.
\<close>

section \<open>Triples\<close>

definition rspec :: "(('s, 'c) tiers \<Rightarrow> bool) \<Rightarrow> (('s, 'c) tiers \<Rightarrow> bool) \<Rightarrow> ('s, 'c, 'a) rop
    \<Rightarrow> ('a \<Rightarrow> ('s, 'c) tiers \<Rightarrow> bool) \<Rightarrow> bool" where
  "rspec J P m Q \<longleftrightarrow>
     (\<forall>t. J t \<and> P t \<longrightarrow> J (snd (m t)) \<and> (\<forall>a. fst (m t) = Inr a \<longrightarrow> Q a (snd (m t))))"

abbreviation rvalid :: "(('s, 'c) tiers \<Rightarrow> bool) \<Rightarrow> ('s, 'c, 'a) rop \<Rightarrow> ('a \<Rightarrow> bool) \<Rightarrow> bool" where
  "rvalid J m Q \<equiv> rspec J (\<lambda>_. True) m (\<lambda>a _. Q a)"

lemma rspec_return: "(\<And>t. P t \<Longrightarrow> Q a t) \<Longrightarrow> rspec J P (rreturn a) Q"
  by (simp add: rspec_def rreturn_def)

lemma rspec_fail: "rspec J P (rfail e) Q"
  by (simp add: rspec_def rfail_def)

lemma rspec_bind:
  assumes "rspec J P m R" "\<And>a. rspec J (R a) (f a) Q"
  shows "rspec J P (rbind m f) Q"
  unfolding rspec_def
proof (intro allI impI)
  fix t assume t: "J t \<and> P t"
  obtain r t' where m: "m t = (r, t')" by force
  then have "J t'" using assms(1) t unfolding rspec_def by fastforce
  moreover have "R a t'" if "r = Inr a" for a using assms(1) t m that unfolding rspec_def by fastforce
  ultimately show "J (snd (rbind m f t)) \<and> (\<forall>a. fst (rbind m f t) = Inr a \<longrightarrow> Q a (snd (rbind m f t)))"
    using assms(2) m by (cases r) (auto simp: rbind_def rspec_def)
qed

lemma rspec_conseq: "\<lbrakk> rspec J P m Q; \<And>t. P' t \<Longrightarrow> P t; \<And>a t. Q a t \<Longrightarrow> Q' a t \<rbrakk> \<Longrightarrow> rspec J P' m Q'"
  by (auto simp: rspec_def)

lemma rspec_if: "\<lbrakk> b \<Longrightarrow> rspec J P m Q; \<not> b \<Longrightarrow> rspec J P m' Q \<rbrakk> \<Longrightarrow> rspec J P (if b then m else m') Q"
  by simp

lemma rspec_of_sum: "(\<And>a t. r = Inr a \<Longrightarrow> P t \<Longrightarrow> Q a t) \<Longrightarrow> rspec J P (of_sum r) Q"
  by (cases r) (auto simp: of_sum_def intro: rspec_return rspec_fail)

lemma rvalid_bind:
  assumes "rvalid J m P" "\<And>a. P a \<Longrightarrow> rvalid J (f a) Q"
  shows "rvalid J (rbind m f) Q"
  by (rule rspec_bind [OF assms(1)]) (use assms(2) in \<open>auto simp: rspec_def\<close>)

lemma rvalid_weaken: "\<lbrakk> rvalid J m P; \<And>a. P a \<Longrightarrow> Q a \<rbrakk> \<Longrightarrow> rvalid J m Q"
  by (auto simp: rspec_def)

lemma rvalid_try: "rvalid J m Q \<Longrightarrow> rvalid J (try_rop m) (\<lambda>r. \<forall>a. r = Inr a \<longrightarrow> Q a)"
  by (auto simp: rspec_def try_rop_def split: prod.splits)

section \<open>What the caches and the store promise\<close>

text \<open>
  \<open>ix\<close> and \<open>bx\<close> are what was inserted last under a key.  A lookup in the block cache may
  miss; the index cache keeps what is inserted for the time of a read.
\<close>

definition cache_laws :: "'c cache_engine \<Rightarrow> ('c \<Rightarrow> PackId \<Rightarrow> PackIndexEntry list option)
    \<Rightarrow> ('c \<Rightarrow> Blake3Hash \<Rightarrow> bytes option) \<Rightarrow> bool" where
  "cache_laws ce ix bx \<longleftrightarrow>
     (\<forall>p s. fst (index_get ce p s) = ix s p \<and> ix (snd (index_get ce p s)) = ix s \<and> bx (snd (index_get ce p s)) = bx s)
   \<and> (\<forall>p es s. ix (index_insert ce p es s) = (ix s)(p \<mapsto> es) \<and> bx (index_insert ce p es s) = bx s)
   \<and> (\<forall>h s. (fst (block_get ce h s) = None \<or> fst (block_get ce h s) = bx s h)
        \<and> ix (snd (block_get ce h s)) = ix s \<and> bx (snd (block_get ce h s)) = bx s)
   \<and> (\<forall>h d s. ix (block_insert ce h d s) = ix s \<and> bx (block_insert ce h d s) = (bx s)(h \<mapsto> d))"

text \<open>
  A get changes no object, and a suffix that arrives is the suffix of the object.  Nothing
  is said about the bodies of range reads.
\<close>

definition suffix_true :: "'s object_store \<Rightarrow> ('s \<Rightarrow> string \<Rightarrow> bytes option) \<Rightarrow> bool" where
  "suffix_true os obj \<longleftrightarrow>
     (\<forall>p r s. obj (snd (os_get os p r s)) = obj s)
   \<and> (\<forall>p n s t d. fst (os_get os p (Suffix n) s) = Inr (t, Inr d) \<longrightarrow>
        (\<exists>ob. obj s p = Some ob \<and> d = sub_object (Suffix n) ob))"

text \<open>\<open>idx\<close> gives the index of every pack of the volume.\<close>

definition in_manifest :: "VolumeManifest \<Rightarrow> u32 \<Rightarrow> PackId \<Rightarrow> bool" where
  "in_manifest vm ci p \<longleftrightarrow> (\<exists>ids. chunk_pack_ids vm ci = Some ids \<and> p \<in> set ids)"

definition pack_stored :: "'s ContentStore \<Rightarrow> (string \<Rightarrow> bytes option) \<Rightarrow> u32 \<Rightarrow> PackId
    \<Rightarrow> PackIndexEntry list \<Rightarrow> bool" where
  "pack_stored cs ob ci p es \<longleftrightarrow>
     (\<exists>pk blocks z. ob (pack_path cs ci p) = Some pk \<and> assemble_pack blocks z = Inr (pk, es))"

text \<open>
  What a volume relies on: its packs and their indexes, and the digest of a block.
\<close>

record 's volume =
  objects :: "'s \<Rightarrow> string \<Rightarrow> bytes option"
  store :: "'s ContentStore"
  manifest :: VolumeManifest
  idx :: "PackId \<Rightarrow> PackIndexEntry list"
  digest :: "bytes \<Rightarrow> Blake3Hash"

abbreviation good :: "'s volume \<Rightarrow> Blake3Hash \<Rightarrow> bytes \<Rightarrow> bool" where
  "good v h d \<equiv> digest v d = h"

definition packs_ok :: "'s volume \<Rightarrow> 's \<Rightarrow> bool" where
  "packs_ok v s \<longleftrightarrow> (\<forall>ci p. in_manifest (manifest v) ci p \<longrightarrow> pack_stored (store v) (objects v s) ci p (idx v p))"

definition tiers_ok :: "('c \<Rightarrow> PackId \<Rightarrow> PackIndexEntry list option) \<Rightarrow> ('c \<Rightarrow> Blake3Hash \<Rightarrow> bytes option)
    \<Rightarrow> 's volume \<Rightarrow> ('s, 'c) tiers \<Rightarrow> bool" where
  "tiers_ok ix bx v t \<longleftrightarrow>
     (\<forall>ci p es. in_manifest (manifest v) ci p \<longrightarrow> ix (tc t) p = Some es \<longrightarrow> es = idx v p)
   \<and> (\<forall>h d. bx (tc t) h = Some d \<longrightarrow> good v h d)
   \<and> packs_ok v (remote (tw t))"

lemma tiers_ok_world:
  "objects v (remote w) = objects v (remote (tw t)) \<Longrightarrow> tiers_ok ix bx v t \<Longrightarrow> tiers_ok ix bx v (t\<lparr> tw := w \<rparr>)"
  by (simp add: tiers_ok_def packs_ok_def)

lemma tiers_ok_caches:
  "ix s = ix (tc t) \<Longrightarrow> bx s = bx (tc t) \<Longrightarrow> tiers_ok ix bx v t
   \<Longrightarrow> tiers_ok ix bx v (t\<lparr> tc := s \<rparr>)"
  by (simp add: tiers_ok_def)

section \<open>Index reads\<close>

lemma spawned_obj:
  assumes "suffix_true (object_store cs) obj" "get_spawned cs path rng w = (r, w')"
  shows "obj (remote w') = obj (remote w)"
    and "\<lbrakk> rng = Suffix n; r = Inr d \<rbrakk> \<Longrightarrow> \<exists>ob. obj (remote w) path = Some ob \<and> d = sub_object (Suffix n) ob"
proof -
  obtain c1 w1 where c: "check_circuit cs w = (c1, w1)" by force
  then have w1: "remote w1 = remote w"
    by (auto simp: check_circuit_def split: option.splits prod.splits bool.splits)
  have rec: "remote (record_s3_result cs x v) = remote v" for x :: "os_error + 'x" and v
    by (simp add: record_s3_result_def cb_success_def cb_failure_def split: sum.splits)
  obtain g s1 where g: "os_get (object_store cs) path rng (remote w) = (g, s1)" by force
  have s1: "obj s1 = obj (remote w)" using assms(1) g unfolding suffix_true_def by (metis snd_conv)
  show "obj (remote w') = obj (remote w)"
    using assms(2) c w1 g s1
    by (auto simp: get_spawned_def cs_bind_def issue_def get_body_def rec split: sum.splits if_splits prod.splits)
  assume a: "rng = Suffix n" "r = Inr d"
  then have "\<exists>t. g = Inr (t, Inr d)"
    using assms(2) c w1 g
    by (auto simp: get_spawned_def cs_bind_def issue_def get_body_def map_error_def split: sum.splits if_splits prod.splits)
  then show "\<exists>ob. obj (remote w) path = Some ob \<and> d = sub_object (Suffix n) ob"
    using assms(1) g a(1) unfolding suffix_true_def by (metis fst_conv)
qed

lemma index_suffixes:
  assumes asm: "assemble_pack blocks z = Inr (pk, es)"
  shows "(\<exists>i. parse_pack_index (drop (length pk - INITIAL_SUFFIX) pk) = Some (Inr i) \<and> entries i = es)
    \<or> parse_pack_index (drop (length pk - INITIAL_SUFFIX) pk) = Some (Inl SuffixTooSmall)
      \<and> TRAILER_SIZE \<le> length (drop (length pk - INITIAL_SUFFIX) pk)
      \<and> 0 < precise_suffix (drop (length pk - INITIAL_SUFFIX) pk)
      \<and> (\<exists>i. parse_pack_index (drop (length pk - precise_suffix (drop (length pk - INITIAL_SUFFIX) pk)) pk) = Some (Inr i)
           \<and> entries i = es)"
proof -
  obtain count where cnt: "count_u16 (sort_key block_key blocks) = Some count"
      "index_entries (of_nat PACK_HEADER_SIZE) (sort_key block_key blocks) = Inr es"
    and pk: "pk = pack_header count z @ concat (map block_data (sort_key block_key blocks))
       @ concat (map entry_bytes es) @ pack_trailer count"
    using assemble_pack_cases [OF asm] by metis
  have len: "length es < 2 ^ 16" "count = of_nat (length es)"
    using cnt index_entries_length [OF cnt(2)] by (auto simp: count_u16_def split: if_splits)
  then have uc: "unat count = length es" by (simp add: unat_of_nat take_bit_nat_eq_self)
  define hd where "hd = pack_header count z @ concat (map block_data (sort_key block_key blocks))"
  have pk: "pk = hd @ concat (map entry_bytes es) @ pack_trailer count" using pk by (simp add: hd_def)
  have parsed: "\<exists>i. parse_pack_index (drop (length pk - n) pk) = Some (Inr i) \<and> entries i = es"
    if "length es * 28 + 8 \<le> n" for n
    using suffix_of_footer [OF that len(2), of hd] parse_footer [OF uc] unfolding pk by force
  show ?thesis
  proof (cases "length es * 28 + 8 \<le> INITIAL_SUFFIX")
    case False
    define x where "x = drop (length es * 28 + 8 - INITIAL_SUFFIX) (concat (map entry_bytes es))"
    have d: "drop (length pk - INITIAL_SUFFIX) pk = x @ pack_trailer count"
      using False by (simp add: pk x_def INITIAL_SUFFIX_def mult.commute)
    have "length x < length es * 28"
      using False by (simp add: x_def INITIAL_SUFFIX_def mult.commute)
    then have "parse_pack_index (x @ pack_trailer count) = Some (Inl SuffixTooSmall)"
      by (rule parse_too_small [OF uc _ len(1)])
    then show ?thesis
      using precise_suffix_trailer [OF uc, of x] parsed [of "length es * 28 + 8"] by (simp add: d TRAILER_SIZE_def)
  qed (use parsed in blast)
qed

lemma index_read_true:
  assumes law: "suffix_true (object_store cs) obj" and st: "pack_stored cs (obj (remote w)) ci p es"
    and run: "get_pack_index cs ci p w = (r, w')"
  shows "obj (remote w') = obj (remote w) \<and> (\<forall>es'. r = Inr es' \<longrightarrow> es' = es)"
proof -
  obtain pk blocks z where pk: "obj (remote w) (pack_path cs ci p) = Some pk" "assemble_pack blocks z = Inr (pk, es)"
    using st by (auto simp: pack_stored_def)
  let ?key = "chunk_pack_key (base_path cs) ci p"
  have read: "obj (remote w2) = obj (remote w1) \<and> (\<forall>d. a = Inr d \<longrightarrow> d = drop (length pk - n) pk)"
    if "get_suffix_from_key cs ?key n w1 = (a, w2)" "obj (remote w1) = obj (remote w)" for a n w1 w2
    using spawned_obj [OF law that(1) [unfolded get_suffix_from_key_def]] that(2) pk(1)
    by (auto simp: sub_object_def pack_path_def)
  obtain a w1 where a: "get_suffix_from_key cs ?key INITIAL_SUFFIX w = (a, w1)" by force
  note ra = read [OF a refl]
  show ?thesis
  proof (cases a)
    case (Inl e)
    then show ?thesis using a ra run by (auto simp: get_pack_index_def cs_bind_def Let_def)
  next
    case (Inr d)
    then have d: "d = drop (length pk - INITIAL_SUFFIX) pk" using ra by simp
    obtain b w2 where b: "get_suffix_from_key cs ?key (precise_suffix d) w1 = (b, w2)" by force
    note rb = read [OF b]
    from index_suffixes [OF pk(2), folded d] show ?thesis
    proof (elim disjE exE conjE)
      fix i assume "parse_pack_index d = Some (Inr i)" "entries i = es"
      then show ?thesis using a ra run Inr by (auto simp: get_pack_index_def cs_bind_def Let_def)
    next
      fix i assume i: "parse_pack_index d = Some (Inl SuffixTooSmall)" "TRAILER_SIZE \<le> length d"
        "parse_pack_index (drop (length pk - precise_suffix d) pk) = Some (Inr i)" "entries i = es"
      then have r: "(r, w') = (case b of Inl e \<Rightarrow> (Inl e, w2) | Inr data2 \<Rightarrow> (case parse_pack_index data2 of
                         Some (Inr index) \<Rightarrow> (Inr (entries index), w2)
                       | _ \<Rightarrow> (Inl (ObjectStoreError OsOther), w2)))"
        using a run Inr b by (simp add: get_pack_index_def cs_bind_def Let_def split: sum.splits)
      show ?thesis using r rb ra i(3,4) by (cases b) auto
    qed
  qed
qed

section \<open>Resolving the newest entry\<close>

definition held :: "('c \<Rightarrow> PackId \<Rightarrow> PackIndexEntry list option) \<Rightarrow> PackId set \<Rightarrow> ('s, 'c) tiers \<Rightarrow> bool" where
  "held ix A t \<longleftrightarrow> (\<forall>p\<in>A. ix (tc t) p \<noteq> None)"

lemma find_entry_pack_find: "find_entry = pack_find"
  by (auto simp: fun_eq_iff find_entry_def pack_find_def)

lemma get_entries_spec:
  assumes "cache_laws ce ix bx" "in_manifest (manifest v) ci p"
  shows "rspec (tiers_ok ix bx v) (held ix A) (get_entries ce p)
     (\<lambda>r t. case r of Some es \<Rightarrow> es = idx v p \<and> held ix (insert p A) t | None \<Rightarrow> held ix A t \<and> p \<notin> A)"
proof -
  have law: "fst (index_get ce p s) = ix s p" "ix (snd (index_get ce p s)) = ix s" "bx (snd (index_get ce p s)) = bx s" for s
    using assms(1) by (simp_all add: cache_laws_def)
  show ?thesis
    unfolding rspec_def
  proof (intro allI impI, elim conjE)
    fix t assume t: "tiers_ok ix bx v t" "held ix A t"
    obtain r s where g: "index_get ce p (tc t) = (r, s)" by force
    have l: "r = ix (tc t) p" "ix s = ix (tc t)" "bx s = bx (tc t)" using law [of "tc t"] g by simp_all
    have "es = idx v p" if "r = Some es" for es
      using t(1) assms(2) l(1) that unfolding tiers_ok_def by metis
    then show "tiers_ok ix bx v (snd (get_entries ce p t)) \<and>
        (\<forall>a. fst (get_entries ce p t) = Inr a \<longrightarrow>
          (case a of Some es \<Rightarrow> es = idx v p \<and> held ix (insert p A) (snd (get_entries ce p t))
           | None \<Rightarrow> held ix A (snd (get_entries ce p t)) \<and> p \<notin> A))"
      using t l g by (auto simp: get_entries_def held_def intro: tiers_ok_caches split: option.splits)
  qed
qed

lemma get_entries_valid:
  assumes "cache_laws ce ix bx" "in_manifest (manifest v) ci p"
  shows "rvalid (tiers_ok ix bx v) (get_entries ce p) (\<lambda>r. r = None \<or> r = Some (idx v p))"
  by (rule rspec_conseq [OF get_entries_spec [OF assms, of "{}"]]) (auto simp: held_def split: option.splits)

lemma put_entries_spec:
  assumes "cache_laws ce ix bx"
  shows "rspec (tiers_ok ix bx v) (held ix A) (put_entries ce p (idx v p)) (\<lambda>_. held ix (insert p A))"
  using assms
  by (auto simp: rspec_def put_entries_def tiers_ok_def packs_ok_def held_def cache_laws_def split: if_splits)

lemma get_index_spec:
  assumes "suffix_true (object_store (store v)) (objects v)" "in_manifest (manifest v) ci p"
  shows "rspec (tiers_ok ix bx v) (held ix A) (try_cs (get_pack_index (store v) ci p))
     (\<lambda>r t. held ix A t \<and> (\<forall>es. r = Inr es \<longrightarrow> es = idx v p))"
  unfolding rspec_def
proof (intro allI impI, elim conjE)
  fix t assume t: "tiers_ok ix bx v t" "held ix A t"
  obtain r w where g: "get_pack_index (store v) ci p (tw t) = (r, w)" by force
  have "pack_stored (store v) (objects v (remote (tw t))) ci p (idx v p)" using t(1) assms(2) by (simp add: tiers_ok_def packs_ok_def)
  note q = index_read_true [OF assms(1) this g]
  show "tiers_ok ix bx v (snd (try_cs (get_pack_index (store v) ci p) t)) \<and>
      (\<forall>a. fst (try_cs (get_pack_index (store v) ci p) t) = Inr a \<longrightarrow>
         held ix A (snd (try_cs (get_pack_index (store v) ci p) t)) \<and> (\<forall>es. a = Inr es \<longrightarrow> es = idx v p))"
    using q t g by (auto simp: try_cs_def held_def intro: tiers_ok_world)
qed

lemma search_cached_spec:
  assumes laws: "cache_laws ce ix bx"
  shows "(\<forall>p\<in>set ps. in_manifest (manifest v) ci p) \<Longrightarrow> rvalid (tiers_ok ix bx v)
     (search_cached ce bo ps unc)
     (\<lambda>(r, unc'). (unc' = [] \<longrightarrow> unc = [] \<and> r = newest_first (idx v) ps bo) \<and> set unc' \<subseteq> set unc \<union> set ps)"
proof (induction ps arbitrary: unc)
  case (Cons p ps)
  let ?J = "tiers_ok ix bx v"
  have m: "in_manifest (manifest v) ci p" using Cons(2) by simp
  have IH: "rvalid ?J (search_cached ce bo ps u)
     (\<lambda>(r, unc'). (unc' = [] \<longrightarrow> u = [] \<and> r = newest_first (idx v) ps bo) \<and> set unc' \<subseteq> set u \<union> set ps)" for u
    using Cons by simp
  show ?case
  proof (cases "unc = []")
    case False
    then show ?thesis
      unfolding search_cached.simps if_P [OF False]
      by (intro rvalid_bind [OF get_entries_valid [OF laws m]] rvalid_weaken [OF IH]) (auto split: if_splits)
  next
    case True
    have "rvalid ?J (case r of None \<Rightarrow> search_cached ce bo ps [p]
          | Some es \<Rightarrow> (case find_entry es bo of None \<Rightarrow> search_cached ce bo ps unc | Some e \<Rightarrow> rreturn (Some (p, e), unc)))
       (\<lambda>(r, unc'). (unc' = [] \<longrightarrow> unc = [] \<and> r = newest_first (idx v) (p # ps) bo) \<and> set unc' \<subseteq> set unc \<union> set (p # ps))"
      if "r = None \<or> r = Some (idx v p)" for r
      using that
    proof
      assume "r = None"
      then show ?thesis by simp (rule rvalid_weaken [OF IH]; auto)
    next
      assume r: "r = Some (idx v p)"
      show ?thesis
      proof (cases "pack_find (idx v p) bo")
        case None
        then show ?thesis using True r
          by (simp add: find_entry_pack_find) (rule rvalid_weaken [OF IH]; auto)
      next
        case (Some e)
        then show ?thesis using True r by (auto intro!: rspec_return simp: find_entry_pack_find)
      qed
    qed
    then show ?thesis
      unfolding search_cached.simps using True
      by (simp only: if_False not_not simp_thms) (rule rvalid_bind [OF get_entries_valid [OF laws m]])
  qed
qed (auto intro: rspec_return)

lemma more_uncached_spec:
  assumes laws: "cache_laws ce ix bx"
  shows "(\<forall>p\<in>set ps. in_manifest (manifest v) ci p) \<Longrightarrow> rspec (tiers_ok ix bx v) (held ix A)
     (more_uncached ce ps unc)
     (\<lambda>unc' t. set unc \<subseteq> set unc' \<and> set unc' \<subseteq> set unc \<union> set ps \<and> held ix (A \<union> (set ps - set unc')) t)"
proof (induction ps arbitrary: unc A)
  case (Cons p ps)
  have m: "in_manifest (manifest v) ci p" using Cons(2) by simp
  have IH: "rspec (tiers_ok ix bx v) (held ix B) (more_uncached ce ps u)
     (\<lambda>unc' t. set u \<subseteq> set unc' \<and> set unc' \<subseteq> set u \<union> set ps \<and> held ix (B \<union> (set ps - set unc')) t)" for B u
    using Cons by simp
  show ?case
  proof (cases "p \<in> set unc")
    case True
    then show ?thesis by simp (rule rspec_conseq [OF IH]; auto simp: held_def)
  next
    case False
    have "rspec (tiers_ok ix bx v)
        (\<lambda>t. case r of Some es \<Rightarrow> es = idx v p \<and> held ix (insert p A) t | None \<Rightarrow> held ix A t \<and> p \<notin> A)
        (more_uncached ce ps (if r = None then unc @ [p] else unc))
        (\<lambda>unc' t. set unc \<subseteq> set unc' \<and> set unc' \<subseteq> set unc \<union> set (p # ps) \<and> held ix (A \<union> (set (p # ps) - set unc')) t)" for r
    proof (cases r)
      case None
      then show ?thesis by simp (rule rspec_conseq [OF IH]; auto simp: held_def)
    next
      case (Some es)
      then show ?thesis by simp (rule rspec_conseq [OF IH [of "insert p A"]]; auto simp: held_def)
    qed
    then show ?thesis using False by simp (rule rspec_bind [OF get_entries_spec [OF laws m]])
  qed
qed (auto intro!: rspec_return)

lemma fetch_indexes_spec:
  assumes law: "suffix_true (object_store (store v)) (objects v)"
  shows "(\<forall>p\<in>set ps. in_manifest (manifest v) ci p) \<Longrightarrow> rspec (tiers_ok ix bx v) (held ix A) (fetch_indexes (store v) ci ps)
     (\<lambda>rs t. held ix A t \<and> map fst rs = ps \<and> (\<forall>p es. (p, Inr es) \<in> set rs \<longrightarrow> es = idx v p))"
proof (induction ps)
  case (Cons p ps)
  have m: "in_manifest (manifest v) ci p" using Cons(2) by simp
  have IH: "rspec (tiers_ok ix bx v) (held ix A) (fetch_indexes (store v) ci ps)
     (\<lambda>rs t. held ix A t \<and> map fst rs = ps \<and> (\<forall>p es. (p, Inr es) \<in> set rs \<longrightarrow> es = idx v p))"
    using Cons by simp
  have "rspec (tiers_ok ix bx v) (\<lambda>t. held ix A t \<and> (\<forall>es. r = Inr es \<longrightarrow> es = idx v p))
     (rbind (fetch_indexes (store v) ci ps) (\<lambda>rs. rreturn ((p, r) # rs)))
     (\<lambda>rs t. held ix A t \<and> map fst rs = p # ps \<and> (\<forall>p es. (p, Inr es) \<in> set rs \<longrightarrow> es = idx v p))" for r
  proof (cases "\<forall>es. r = Inr es \<longrightarrow> es = idx v p")
    case True
    have "rspec (tiers_ok ix bx v) (held ix A)
     (rbind (fetch_indexes (store v) ci ps) (\<lambda>rs. rreturn ((p, r) # rs)))
     (\<lambda>rs t. held ix A t \<and> map fst rs = p # ps \<and> (\<forall>p es. (p, Inr es) \<in> set rs \<longrightarrow> es = idx v p))"
      by (rule rspec_bind [OF IH], rule rspec_return) (use True in auto)
    then show ?thesis by (rule rspec_conseq) auto
  qed (auto simp: rspec_def)
  then show ?case by simp (rule rspec_bind [OF get_index_spec [OF law m]])
qed (auto intro: rspec_return)

lemma record_indexes_spec:
  assumes laws: "cache_laws ce ix bx"
  shows "\<lbrakk> \<forall>p es. (p, Inr es) \<in> set rs \<longrightarrow> es = idx v p; failed \<noteq> [] \<longrightarrow> err \<noteq> None \<rbrakk> \<Longrightarrow>
     rspec (tiers_ok ix bx v) (held ix A) (record_indexes ce rs failed err)
     (\<lambda>(f, e) t. held ix (A \<union> (fst ` set rs - set f)) t \<and> set failed \<subseteq> set f \<and> (f \<noteq> [] \<longrightarrow> e \<noteq> None))"
proof (induction rs arbitrary: failed err A)
  case (Cons x rs)
  obtain p r where x: "x = (p, r)" by force
  show ?case
  proof (cases r)
    case (Inr es)
    have es: "es = idx v p" using Cons(2) x Inr by simp
    have "rspec (tiers_ok ix bx v) (held ix (insert p A)) (record_indexes ce rs failed err)
       (\<lambda>(f, e) t. held ix (insert p A \<union> (fst ` set rs - set f)) t \<and> set failed \<subseteq> set f \<and> (f \<noteq> [] \<longrightarrow> e \<noteq> None))"
      by (rule Cons(1)) (use Cons(2,3) in auto)
    then have "rspec (tiers_ok ix bx v) (held ix (insert p A)) (record_indexes ce rs failed err)
       (\<lambda>(f, e) t. held ix (A \<union> (fst ` set (x # rs) - set f)) t \<and> set failed \<subseteq> set f \<and> (f \<noteq> [] \<longrightarrow> e \<noteq> None))"
      by (rule rspec_conseq) (auto simp: held_def x)
    then show ?thesis unfolding x Inr es record_indexes.simps by (intro rspec_bind [OF put_entries_spec [OF laws]])
  next
    case (Inl e)
    have "rspec (tiers_ok ix bx v) (held ix A) (record_indexes ce rs (failed @ [p]) (Some e))
       (\<lambda>(f, e) t. held ix (A \<union> (fst ` set rs - set f)) t \<and> set (failed @ [p]) \<subseteq> set f \<and> (f \<noteq> [] \<longrightarrow> e \<noteq> None))"
      by (rule Cons(1)) (use Cons(2) in auto)
    then show ?thesis unfolding x Inl record_indexes.simps by (rule rspec_conseq) (auto simp: held_def)
  qed
qed (auto intro!: rspec_return simp: held_def)

lemma re_resolve_spec:
  assumes laws: "cache_laws ce ix bx" and err: "f \<noteq> [] \<longrightarrow> err \<noteq> None"
  shows "\<lbrakk> \<forall>p\<in>set ps. in_manifest (manifest v) ci p; set ps \<subseteq> A \<union> set f \<rbrakk> \<Longrightarrow>
     rspec (tiers_ok ix bx v) (held ix A) (re_resolve ce bo f ps err) (\<lambda>r _. r = newest_first (idx v) ps bo)"
proof (induction ps)
  case (Cons p ps)
  have m: "in_manifest (manifest v) ci p" using Cons(2) by simp
  have IH: "rspec (tiers_ok ix bx v) (held ix A) (re_resolve ce bo f ps err) (\<lambda>r _. r = newest_first (idx v) ps bo)"
    using Cons by simp
  show ?case
  proof (cases "p \<in> set f")
    case True
    then have "err \<noteq> None" using err by auto
    then show ?thesis using True by (simp add: rspec_fail)
  next
    case False
    then have A: "p \<in> A" using Cons(3) by auto
    have "rspec (tiers_ok ix bx v)
        (\<lambda>t. case r of Some es \<Rightarrow> es = idx v p \<and> held ix (insert p A) t | None \<Rightarrow> held ix A t \<and> p \<notin> A)
        (case r of None \<Rightarrow> re_resolve ce bo f ps err
           | Some es \<Rightarrow> (case find_entry es bo of None \<Rightarrow> re_resolve ce bo f ps err | Some e \<Rightarrow> rreturn (Some (p, e))))
        (\<lambda>r _. r = newest_first (idx v) (p # ps) bo)" for r
    proof (cases r)
      case None
      then show ?thesis using A by (simp add: rspec_def)
    next
      case (Some es)
      show ?thesis
      proof (cases "pack_find (idx v p) bo")
        case None
        then show ?thesis using Some A IH
          by (cases "es = idx v p") (auto simp: rspec_def find_entry_pack_find insert_absorb)
      next
        case e: (Some e)
        then show ?thesis using Some by (cases "es = idx v p") (auto simp: rspec_def rreturn_def find_entry_pack_find)
      qed
    qed
    then show ?thesis using False by simp (rule rspec_bind [OF get_entries_spec [OF laws m]])
  qed
qed (auto intro: rspec_return)

lemma rspec_pure: "(b \<Longrightarrow> rspec J P m Q) \<Longrightarrow> rspec J (\<lambda>t. P t \<and> b) m Q"
  by (cases b) (simp_all add: rspec_def)

lemma fetch_and_resolve_newest:
  assumes laws: "cache_laws ce ix bx" "suffix_true (object_store (store v)) (objects v)"
    and m: "\<forall>p\<in>set ids. in_manifest (manifest v) ci p" and u: "set unc \<subseteq> set ids"
  shows "rspec (tiers_ok ix bx v) (held ix (set ids - set unc)) (fetch_and_resolve ce (store v) ci bo ids unc)
     (\<lambda>r _. r = newest (idx v) ids bo)"
  unfolding fetch_and_resolve_def
proof (rule rspec_bind)
  let ?J = "tiers_ok ix bx v" and ?n = "newest (idx v) ids bo"
  have mu: "\<forall>p\<in>set unc. in_manifest (manifest v) ci p" using m u by auto
  show "rspec ?J (held ix (set ids - set unc)) (fetch_indexes (store v) ci unc)
     (\<lambda>rs t. held ix (set ids - set unc) t \<and> (map fst rs = unc \<and> (\<forall>p es. (p, Inr es) \<in> set rs \<longrightarrow> es = idx v p)))"
    by (rule fetch_indexes_spec [OF laws(2) mu])
  fix rs :: "(PackId \<times> (ContentStoreError + PackIndexEntry list)) list"
  show "rspec ?J (\<lambda>t. held ix (set ids - set unc) t \<and> (map fst rs = unc \<and> (\<forall>p es. (p, Inr es) \<in> set rs \<longrightarrow> es = idx v p)))
     (rbind (record_indexes ce rs [] None) (\<lambda>(failed, err).
      rbind (re_resolve ce bo failed (rev ids) err) (\<lambda>resolved.
       if resolved = None \<and> err \<noteq> None then rfail (CacheError.ContentStore (the err)) else rreturn resolved)))
     (\<lambda>r _. r = ?n)"
  proof (rule rspec_pure, elim conjE)
    assume rs: "map fst rs = unc" "\<forall>p es. (p, Inr es) \<in> set rs \<longrightarrow> es = idx v p"
    have su: "fst ` set rs = set unc" using rs(1) by (metis set_map)
    have rec: "rspec ?J (held ix (set ids - set unc)) (record_indexes ce rs [] None)
       (\<lambda>(f, e) t. held ix (set ids - set f) t \<and> (f \<noteq> [] \<longrightarrow> e \<noteq> None))"
      by (rule rspec_conseq [OF record_indexes_spec [OF laws(1) rs(2)]]) (use su u in \<open>auto simp: held_def\<close>)
    have re: "rspec ?J (\<lambda>t. held ix (set ids - set f) t \<and> (f \<noteq> [] \<longrightarrow> e \<noteq> None)) (re_resolve ce bo f (rev ids) e) (\<lambda>r _. r = ?n)" for f e
      by (rule rspec_pure, rule rspec_conseq [OF re_resolve_spec [OF laws(1)]]) (use m in \<open>auto simp: newest_def\<close>)
    have "rspec ?J (\<lambda>t. held ix (set ids - set f) t \<and> (f \<noteq> [] \<longrightarrow> e \<noteq> None))
       (rbind (re_resolve ce bo f (rev ids) e) (\<lambda>resolved.
         if resolved = None \<and> e \<noteq> None then rfail (CacheError.ContentStore (the e)) else rreturn resolved))
       (\<lambda>r _. r = ?n)" for f e
      by (rule rspec_bind [OF re]) (auto intro!: rspec_if rspec_fail rspec_return)
    then show "rspec ?J (held ix (set ids - set unc)) (rbind (record_indexes ce rs [] None) (\<lambda>(failed, err).
      rbind (re_resolve ce bo failed (rev ids) err) (\<lambda>resolved.
       if resolved = None \<and> err \<noteq> None then rfail (CacheError.ContentStore (the err)) else rreturn resolved)))
     (\<lambda>r _. r = ?n)"
      by (intro rspec_bind [OF rec]) (simp add: case_prod_beta)
  qed
qed

lemma resolve_entry_newest:
  assumes laws: "cache_laws ce ix bx" "suffix_true (object_store (store v)) (objects v)"
    and m: "\<forall>p\<in>set ids. in_manifest (manifest v) ci p"
  shows "rvalid (tiers_ok ix bx v) (resolve_entry ce (store v) ci bo ids) (\<lambda>r. r = newest (idx v) ids bo)"
  unfolding resolve_entry_def
proof (rule rvalid_bind)
  have "\<forall>p\<in>set (rev ids). in_manifest (manifest v) ci p" using m by simp
  from search_cached_spec [OF laws(1) this, of bo "[]"]
  show "rvalid (tiers_ok ix bx v) (search_cached ce bo (rev ids) [])
     (\<lambda>(r, unc). (unc = [] \<longrightarrow> r = newest (idx v) ids bo) \<and> set unc \<subseteq> set ids)"
    by (rule rvalid_weaken) (auto simp: newest_def)
  fix a :: "(PackId \<times> PackIndexEntry) option \<times> PackId list"
  assume a: "case a of (r, unc) \<Rightarrow> (unc = [] \<longrightarrow> r = newest (idx v) ids bo) \<and> set unc \<subseteq> set ids"
  have more: "rspec (tiers_ok ix bx v) (\<lambda>_. True) (more_uncached ce ids (snd a))
      (\<lambda>unc t. held ix (set ids - set unc) t \<and> set unc \<subseteq> set ids)"
  proof (rule rspec_conseq [OF more_uncached_spec [OF laws(1) m, of "{}"]])
    fix unc and t :: "('b, 'a) tiers"
    assume "set (snd a) \<subseteq> set unc \<and> set unc \<subseteq> set (snd a) \<union> set ids \<and> held ix ({} \<union> (set ids - set unc)) t"
    moreover have "set (snd a) \<subseteq> set ids" using a by auto
    ultimately show "held ix (set ids - set unc) t \<and> set unc \<subseteq> set ids" by auto
  qed (simp add: held_def)
  have "rvalid (tiers_ok ix bx v) (rbind (more_uncached ce ids (snd a)) (fetch_and_resolve ce (store v) ci bo ids))
      (\<lambda>r. r = newest (idx v) ids bo)"
    by (rule rspec_bind [OF more], rule rspec_pure, rule fetch_and_resolve_newest [OF laws m])
  then show "rvalid (tiers_ok ix bx v) (case a of (resolved, uncached) \<Rightarrow>
       if uncached = [] then rreturn resolved
       else rbind (more_uncached ce ids uncached) (fetch_and_resolve ce (store v) ci bo ids)) (\<lambda>r. r = newest (idx v) ids bo)"
    using a by (auto split: prod.splits intro: rspec_return)
qed

section \<open>Locating a block\<close>

definition remote_entry :: "VolumeManifest \<Rightarrow> (PackId \<Rightarrow> PackIndexEntry list) \<Rightarrow> nat \<Rightarrow> (PackId \<times> PackIndexEntry) option" where
  "remote_entry vm ix b =
     (case (chunk_idx_for_block vm (of_nat b), block_offset_in_chunk vm (of_nat b)) of
        (Some ci, Some bo) \<Rightarrow> newest ix (case chunk_pack_ids vm ci of Some ids \<Rightarrow> ids | None \<Rightarrow> []) bo
      | _ \<Rightarrow> None)"

abbreviation has_local :: "CacheInner \<Rightarrow> nat \<Rightarrow> bool" where
  "has_local c b \<equiv> states c ! b = DIRTY \<or> states c ! b = SYNCING"

text \<open>The contents a block may be served with.\<close>

definition served :: "'s volume \<Rightarrow> CacheInner \<Rightarrow> nat \<Rightarrow> bytes \<Rightarrow> bool" where
  "served v c b d \<longleftrightarrow>
     (if has_local c b then d = pad_block (bsize c) (blk c (src_file c) b)
      else case remote_entry (manifest v) (idx v) b of
             None \<Rightarrow> d = zero_block_bytes c
           | Some (p, e) \<Rightarrow> if comp_length e = 0 then d = zero_block_bytes c else good v (hash e) d)"

definition valid_req :: "'s volume \<Rightarrow> fetch_entry \<Rightarrow> bool" where
  "valid_req v r \<longleftrightarrow> (case r of (i, p, ci, h, off, cl) \<Rightarrow>
     in_manifest (manifest v) ci p \<and> (\<exists>e\<in>set (idx v p). h = hash e \<and> off = offset e \<and> cl = comp_length e))"

definition located :: "'s volume \<Rightarrow> CacheInner \<Rightarrow> nat \<Rightarrow> BlockLocation \<Rightarrow> bool" where
  "located v c b l \<longleftrightarrow>
     (case l of
        Local d \<Rightarrow> served v c b d
      | Cached d \<Rightarrow> served v c b d
      | Zero \<Rightarrow> served v c b (zero_block_bytes c)
      | NeedsFetch p ci h off cl \<Rightarrow>
          valid_req v (0, p, ci, h, off, cl) \<and> (\<forall>d. good v h d \<longrightarrow> served v c b d))"

lemma bslice_block:
  assumes "geometry_ok c" "b < num_blocks c" "length f = dsize c"
    and "\<And>k. k < dsize c \<Longrightarrow> k div bsize c = b \<Longrightarrow> src_file c ! k = f ! k"
  shows "bslice (b * bsize c) (b * bsize c + valid_bytes c b) f = blk c (src_file c) b"
  unfolding blk_def
proof (rule bslice_eqI)
  fix i assume i: "b * bsize c \<le> i" "i < b * bsize c + valid_bytes c b"
  then have "i < dsize c" using valid_bytes_bounds(2) [OF assms(1,2)] by simp
  then show "f ! i = src_file c ! i" using in_block_iff [OF assms(1)] i assms(4) by metis
qed (use assms(3) valid_bytes_bounds(2) [OF assms(1,2)] in simp_all)

lemma sync_read_quiet:
  assumes wf: "ci_wf c" "b < num_blocks c" "has_local c b"
    and r: "sync_read_local_block io (\<lambda>_. c) b = Inr r"
  shows "r = Some (pad_block (bsize c) (blk c (src_file c) b))"
proof -
  have g: "geometry_ok c" using wf(1) by (simp add: ci_wf_def)
  have off: "b * bsize c < dsize c" by (rule block_start_less [OF g wf(2)])
  then have off64: "b * bsize c < 2 ^ 64" using g by (simp add: geometry_ok_def)
  have st: "sm_get (state_map c) b = Some (states c ! b)" by (rule ci_get [OF wf(1,2)])
  have got: "d = blk c (src_file c) b"
    if "read_exact_at io f (valid_bytes c b) (b * bsize c) = Inr d" "length f = dsize c"
      "\<And>k. k < dsize c \<Longrightarrow> k div bsize c = b \<Longrightarrow> src_file c ! k = f ! k" for f d
    using that bslice_block [OF g wf(2)] by (auto simp: read_exact_at_def split: if_splits)
  have len: "length (data_file c) = dsize c" "\<And>ff. flushing_file c = Some ff \<Longrightarrow> length ff = dsize c"
    using wf(1) by (simp_all add: ci_wf_def)
  define f where "f = (if states c ! b = SYNCING \<and> flushing_file c \<noteq> None then the (flushing_file c) else data_file c)"
  have "src_file c ! k = f ! k" if "k < dsize c" "k div bsize c = b" for k
    using that wf(3) by (auto simp: nth_src_file promoted_def promotable_def f_def split: option.splits)
  moreover have "length f = dsize c" using len by (auto simp: f_def)
  moreover have "\<exists>d. read_exact_at io f (valid_bytes c b) (b * bsize c) = Inr d \<and> r = Some (pad_block (bsize c) d)"
    using r off off64 st wf(3) unfolding f_def valid_bytes_def
    by (auto simp: sync_read_local_block_def Let_def split: sum.splits option.splits if_splits)
  ultimately show ?thesis using got by blast
qed

lemma clean_get_valid:
  assumes "cache_laws ce ix bx"
  shows "rvalid (tiers_ok ix bx v) (clean_get ce h) (\<lambda>r. \<forall>d. r = Some d \<longrightarrow> good v h d)"
  unfolding rspec_def
proof (intro allI impI, elim conjE)
  fix t assume t: "tiers_ok ix bx v t"
  obtain r s where g: "block_get ce h (tc t) = (r, s)" by force
  then have "r = None \<or> r = bx (tc t) h" "ix s = ix (tc t)" "bx s = bx (tc t)"
    using assms unfolding cache_laws_def by (metis fst_conv snd_conv)+
  then show "tiers_ok ix bx v (snd (clean_get ce h t)) \<and>
      (\<forall>a. fst (clean_get ce h t) = Inr a \<longrightarrow> (\<forall>d. a = Some d \<longrightarrow> good v h d))"
    using t g by (auto simp: clean_get_def tiers_ok_def)
qed

lemma newest_first_mem: "newest_first f ps co = Some (p, e) \<Longrightarrow> p \<in> set ps \<and> e \<in> set (f p)"
  by (induction ps) (auto simp: pack_find_def find_Some_iff split: option.splits)

lemma locate_block_valid:
  assumes laws: "cache_laws ce ix bx" "suffix_true (object_store (store v)) (objects v)"
    and wf: "ci_wf c" "b < num_blocks c"
  shows "rvalid (tiers_ok ix bx v) (locate_block env ce (store v) (manifest v) (\<lambda>_. c) b) (located v c b)"
proof -
  have st: "sm_get (state_map c) b = Some (states c ! b)" by (rule ci_get [OF wf])
  show ?thesis
  proof (cases "has_local c b")
    case True
    then show ?thesis
      using sync_read_quiet [OF wf True, of "rd_io env"]
      by (cases "sync_read_local_block (rd_io env) (\<lambda>_. c) b")
        (auto simp: locate_block_def st Let_def located_def served_def intro!: rspec_fail rspec_return)
  next
    case False
    show ?thesis
    proof (cases "chunk_idx_for_block (manifest v) (of_nat b) = None \<or> block_offset_in_chunk (manifest v) (of_nat b) = None")
      case True
      then show ?thesis using False
        by (auto simp: locate_block_def st Let_def intro!: rspec_fail split: option.splits)
    next
      case False': False
      then obtain ci bo where a: "chunk_idx_for_block (manifest v) (of_nat b) = Some ci"
          "block_offset_in_chunk (manifest v) (of_nat b) = Some bo" by auto
      define ids where "ids = (case chunk_pack_ids (manifest v) ci of Some ids \<Rightarrow> ids | None \<Rightarrow> [])"
      have re: "remote_entry (manifest v) (idx v) b = newest (idx v) ids bo" by (simp add: remote_entry_def a ids_def)
      have m: "\<forall>p\<in>set ids. in_manifest (manifest v) ci p"
        by (cases "chunk_pack_ids (manifest v) ci") (auto simp: ids_def in_manifest_def)
      have srv: "served v c b d \<longleftrightarrow> (case newest (idx v) ids bo of None \<Rightarrow> d = zero_block_bytes c
           | Some (p, e) \<Rightarrow> if comp_length e = 0 then d = zero_block_bytes c else good v (hash e) d)" for d
        using False by (simp add: served_def re)
      have body: "locate_block env ce (store v) (manifest v) (\<lambda>_. c) b =
          (if ids = [] then rreturn Zero else rbind (resolve_entry ce (store v) ci bo ids) (\<lambda>resolved. case resolved of
                                 None \<Rightarrow> rreturn Zero
                               | Some (p, e) \<Rightarrow>
                                   if comp_length e = 0 then rreturn Zero
                                   else rbind (clean_get ce (hash e)) (\<lambda>hit. case hit of
                                          Some d \<Rightarrow> rreturn (Cached d)
                                        | None \<Rightarrow> rreturn (NeedsFetch p ci (hash e) (offset e) (comp_length e)))))"
        using False by (simp add: locate_block_def st Let_def a ids_def)
      have fetch: "located v c b (NeedsFetch p ci (hash e) (offset e) (comp_length e))"
        if n: "newest (idx v) ids bo = Some (p, e)" "comp_length e \<noteq> 0" for p e
      proof -
        have "p \<in> set ids" "e \<in> set (idx v p)" using newest_first_mem n(1) unfolding newest_def by fastforce+
        then show ?thesis using n m by (auto simp: located_def valid_req_def srv)
      qed
      have cached: "rvalid (tiers_ok ix bx v) (rbind (clean_get ce (hash e)) (\<lambda>hit. case hit of
                Some d \<Rightarrow> rreturn (Cached d) | None \<Rightarrow> rreturn (NeedsFetch p ci (hash e) (offset e) (comp_length e)))) (located v c b)"
        if n: "newest (idx v) ids bo = Some (p, e)" "comp_length e \<noteq> 0" for p e
        by (rule rvalid_bind [OF clean_get_valid [OF laws(1)]])
          (use n fetch in \<open>auto intro!: rspec_return simp: located_def srv split: option.splits\<close>)
      show ?thesis
        unfolding body
        by (intro rspec_if rspec_return rvalid_bind [OF resolve_entry_newest [OF laws m]])
          (use cached in \<open>auto simp: located_def srv intro!: rspec_return split: option.splits\<close>)
    qed
  qed
qed

section \<open>Fetching\<close>

lemma of_cs_valid:
  assumes "\<And>w r w'. m w = (r, w') \<Longrightarrow> objects v (remote w') = objects v (remote w)"
  shows "rvalid (tiers_ok ix bx v) (of_cs m) (\<lambda>_. True)" "rvalid (tiers_ok ix bx v) (try_cs m) (\<lambda>_. True)"
  using assms by (auto simp: rspec_def of_cs_def try_cs_def intro!: tiers_ok_world split: prod.splits sum.splits)

lemma get_chunk_block_keeps:
  assumes "suffix_true (object_store cs) obj" "get_chunk_block cs ci p off cl w = (r, w')"
  shows "obj (remote w') = obj (remote w)"
  using spawned_obj(1) [OF assms(1)] assms(2) by (auto simp: get_chunk_block_def get_range_from_key_def)

lemma clean_put_valid:
  assumes "cache_laws ce ix bx" "good v h d"
  shows "rvalid (tiers_ok ix bx v) (clean_put ce h d) (\<lambda>_. True)"
  using assms by (auto simp: rspec_def clean_put_def tiers_ok_def cache_laws_def)

lemma open_block_digest: "open_block env h x = Inr d \<Longrightarrow> blake3 env d = h"
  by (auto simp: open_block_def split: sum.splits if_splits)

lemma keep_block_valid:
  assumes "cache_laws ce ix bx" "digest v = blake3 env"
  shows "rvalid (tiers_ok ix bx v) (keep_block ce h (open_block env h x)) (good v h)"
proof (cases "open_block env h x")
  case (Inr d)
  then have "good v h d" using open_block_digest assms(2) by simp
  then show ?thesis
    by (auto simp: keep_block_def Inr intro!: rvalid_bind [OF clean_put_valid [OF assms(1)]] rspec_return)
qed (simp add: keep_block_def rspec_fail)

definition req_answered :: "'s volume \<Rightarrow> fetch_req list \<Rightarrow> nat \<times> bytes \<Rightarrow> bool" where
  "req_answered v reqs r \<longleftrightarrow> (\<exists>h off cl. (fst r, h, off, cl) \<in> set reqs \<and> good v h (snd r))"

definition answered :: "'s volume \<Rightarrow> fetch_entry list \<Rightarrow> nat \<times> bytes \<Rightarrow> bool" where
  "answered v es r \<longleftrightarrow> (\<exists>p ci h off cl. (fst r, p, ci, h, off, cl) \<in> set es \<and> good v h (snd r))"

lemma req_answered_mono: "req_answered v reqs r \<Longrightarrow> set reqs \<subseteq> set reqs' \<Longrightarrow> req_answered v reqs' r"
  by (auto simp: req_answered_def)

lemma req_answered_Cons:
  "\<lbrakk> good v h d; list_all (req_answered v reqs) rs \<rbrakk>
   \<Longrightarrow> list_all (req_answered v ((i, h, off, cl) # reqs)) ((i, d) # rs)"
  by (auto simp: list_all_iff intro: req_answered_mono) (auto simp: req_answered_def)

lemma answered_mono: "answered v es r \<Longrightarrow> set es \<subseteq> set es' \<Longrightarrow> answered v es' r"
  unfolding answered_def by blast

lemma answered_reqs: "req_answered v (reqs_of es k) r \<Longrightarrow> answered v es r"
  by (force simp: req_answered_def answered_def reqs_of_def req_of_entry_def)

lemma to_entries_reqs: "set (to_entries ci p (reqs_of es (ci, p))) \<subseteq> set es"
  by (auto simp: to_entries_def reqs_of_def req_of_entry_def pack_of_entry_def)

lemma set_bt_insert: "set (bt_insert k x m) \<subseteq> insert (k, x) (set m)"
  by (induction m) (auto split: if_splits)

lemma set_add_results: "set (add_results rs m) \<subseteq> set rs \<union> set m"
proof (induction rs arbitrary: m)
  case (Cons r rs)
  then show ?case using set_bt_insert [of "fst r" "snd r" m] by (fastforce simp: add_results_def split_beta)
qed (simp add: add_results_def)

lemma bt_get_set: "bt_get m i = Some d \<Longrightarrow> (i, d) \<in> set m"
  by (simp add: bt_get_def map_of_SomeD)

lemma fetch_single_block_valid:
  assumes "cache_laws ce ix bx" "suffix_true (object_store (store v)) (objects v)" "digest v = blake3 env"
  shows "rvalid (tiers_ok ix bx v) (fetch_single_block env ce (store v) ci p h off cl) (good v h)"
  unfolding fetch_single_block_def
  by (rule rvalid_bind [OF of_cs_valid(1) [OF get_chunk_block_keeps [OF assms(2)]] keep_block_valid [OF assms(1,3)]])

lemma fetch_each_valid:
  assumes "cache_laws ce ix bx" "suffix_true (object_store (store v)) (objects v)" "digest v = blake3 env"
  shows "rvalid (tiers_ok ix bx v) (fetch_each env ce (store v) ci p reqs) (list_all (req_answered v reqs))"
proof (induction reqs)
  case (Cons r reqs)
  obtain i h off cl where r: "r = (i, h, off, cl)" by (cases r)
  show ?case
    unfolding r fetch_each.simps
    by (rule rvalid_bind [OF fetch_single_block_valid [OF assms]], rule rvalid_bind [OF Cons.IH])
      (rule rspec_return, rule req_answered_Cons)
qed (auto intro: rspec_return)

lemma split_coalesced_valid:
  assumes "cache_laws ce ix bx" "digest v = blake3 env"
  shows "rvalid (tiers_ok ix bx v) (split_coalesced env ce s b reqs) (list_all (req_answered v reqs))"
proof (induction reqs)
  case (Cons r reqs)
  obtain i h off cl where r: "r = (i, h, off, cl)" by (cases r)
  have "rvalid (tiers_ok ix bx v) (rbind (keep_block ce h (open_block env h x)) (\<lambda>d.
          rbind (split_coalesced env ce s b reqs) (\<lambda>rs. rreturn ((i, d) # rs)))) (list_all (req_answered v (r # reqs)))" for x
    by (rule rvalid_bind [OF keep_block_valid [OF assms]], rule rvalid_bind [OF Cons.IH])
      (unfold r, rule rspec_return, rule req_answered_Cons)
  then show ?case by (auto simp: r split: option.splits intro: rspec_fail)
qed (auto intro: rspec_return)

lemma fetch_group_valid:
  assumes "cache_laws ce ix bx" "suffix_true (object_store (store v)) (objects v)" "digest v = blake3 env"
  shows "rvalid (tiers_ok ix bx v) (fetch_group env ce (store v) ci p reqs) (list_all (req_answered v reqs))"
proof -
  have sub: "list_all (req_answered v (sort_key req_offset reqs)) rs \<Longrightarrow> list_all (req_answered v reqs) rs" for rs
    by (auto simp: list_all_iff intro: req_answered_mono)
  have "rvalid (tiers_ok ix bx v) (fetch_each env ce (store v) ci p (sort_key req_offset reqs)) (list_all (req_answered v reqs))"
    by (rule rvalid_weaken [OF fetch_each_valid [OF assms] sub])
  moreover have "rvalid (tiers_ok ix bx v) (rbind (of_cs (get_chunk_block (store v) ci p x y)) (\<lambda>b.
      split_coalesced env ce s b (sort_key req_offset reqs))) (list_all (req_answered v reqs))" for x y s
    by (rule rvalid_bind [OF of_cs_valid(1) [OF get_chunk_block_keeps [OF assms(2)]]
          rvalid_weaken [OF split_coalesced_valid [OF assms(1,3)] sub]])
  ultimately show ?thesis
    by (auto simp: fetch_group_def Let_def split: option.splits intro!: rspec_if rspec_fail)
qed

lemma fetch_groups_valid:
  assumes "cache_laws ce ix bx" "suffix_true (object_store (store v)) (objects v)" "digest v = blake3 env"
  shows "rvalid (tiers_ok ix bx v) (fetch_groups env ce (store v) es ks) (list_all (answered v es))"
proof (induction ks)
  case (Cons k ks)
  obtain ci p where k: "k = (ci, p)" by (cases k)
  show ?case
    unfolding k fetch_groups.simps
    by (rule rvalid_bind [OF fetch_group_valid [OF assms]], rule rvalid_bind [OF Cons.IH])
      (rule rspec_return, auto simp: list_all_iff dest: answered_reqs)
qed (auto intro: rspec_return)

lemma fetch_coalesced_valid:
  assumes "cache_laws ce ix bx" "suffix_true (object_store (store v)) (objects v)" "digest v = blake3 env"
  shows "rvalid (tiers_ok ix bx v) (fetch_coalesced env ce (store v) es) (list_all (answered v es))"
proof -
  have "rvalid (tiers_ok ix bx v) (rbind (fetch_groups env ce (store v) es ks) (\<lambda>rs. rreturn (add_results rs [])))
      (list_all (answered v es))" for ks
    by (rule rvalid_bind [OF fetch_groups_valid [OF assms]])
      (use set_add_results in \<open>fastforce simp: list_all_iff intro!: rspec_return\<close>)
  then show ?thesis by (auto simp: fetch_coalesced_def intro: rspec_return)
qed

lemma window_blocks_valid:
  assumes "cache_laws ce ix bx" "digest v = blake3 env" "\<And>h i. want h = Some i \<Longrightarrow> \<exists>off cl. (i, h, off, cl) \<in> set reqs"
  shows "rvalid (tiers_ok ix bx v) (window_blocks env ce want s b es) (list_all (req_answered v reqs))"
proof (induction es)
  case (Cons e es)
  have kept: "rvalid (tiers_ok ix bx v) (rbind (clean_put ce h d) (\<lambda>_. rbind (window_blocks env ce want s b es)
      (\<lambda>rs. rreturn (case want h of Some i \<Rightarrow> (i, d) # rs | None \<Rightarrow> rs)))) (list_all (req_answered v reqs))"
    if "blake3 env d = h" for d h
  proof (rule rvalid_bind [OF clean_put_valid [OF assms(1)]], simp add: assms(2) that, rule rvalid_bind [OF Cons.IH])
    fix rs assume "list_all (req_answered v reqs) rs"
    moreover have "req_answered v reqs (i, d)" if "want h = Some i" for i
      using assms(3) [OF that] \<open>blake3 env d = h\<close> by (simp add: req_answered_def assms(2))
    ultimately show "rvalid (tiers_ok ix bx v) (rreturn (case want h of Some i \<Rightarrow> (i, d) # rs | None \<Rightarrow> rs))
        (list_all (req_answered v reqs))"
      by (intro rspec_return) (auto split: option.splits)
  qed
  show ?case using Cons.IH by (auto simp: Let_def split: sum.splits intro!: rspec_if kept)
qed (auto intro: rspec_return)

lemma want_sound:
  "map_of (rev (map (\<lambda>(i, h, off, cl). (h, i)) reqs)) h = Some i \<Longrightarrow> \<exists>off cl. (i, h, off, cl) \<in> set reqs"
  by (drule map_of_SomeD) auto

lemma get_entries_keeps:
  assumes "cache_laws ce ix bx"
  shows "rvalid (tiers_ok ix bx v) (get_entries ce p) (\<lambda>_. True)"
  using assms by (auto simp: rspec_def get_entries_def cache_laws_def tiers_ok_def split: prod.splits) (metis fst_conv snd_conv)+

definition window_done :: "'s volume \<Rightarrow> fetch_entry list \<Rightarrow> block_results \<times> fetch_entry list \<Rightarrow> bool" where
  "window_done v es r \<longleftrightarrow> list_all (answered v es) (fst r) \<and> set (snd r) \<subseteq> set es"

lemma window_packs_valid:
  assumes "cache_laws ce ix bx" "suffix_true (object_store (store v)) (objects v)" "digest v = blake3 env"
    and "window_done v es (out, leftover)"
  shows "rvalid (tiers_ok ix bx v) (window_packs env ce (store v) window es ks out leftover) (window_done v es)"
  using assms(4)
proof (induction ks arbitrary: out leftover)
  case (Cons k ks)
  obtain ci p where k: "k = (ci, p)" by (cases k)
  let ?J = "tiers_ok ix bx v" and ?reqs = "reqs_of es (ci, p)"
  let ?next = "\<lambda>out rest. window_packs env ce (store v) window es ks out (leftover @ to_entries ci p rest)"
  let ?want = "map_of (rev (map (\<lambda>(i, h, off, cl). (h, i)) ?reqs))"
  have rest: "set (leftover @ to_entries ci p rest) \<subseteq> set es" if "set rest \<subseteq> set ?reqs" for rest
  proof -
    have "set (to_entries ci p rest) \<subseteq> set (to_entries ci p ?reqs)" using that by (simp add: to_entries_def image_mono)
    then show ?thesis using to_entries_reqs [of ci p es] Cons.prems by (auto simp: window_done_def)
  qed
  have fall: "rvalid ?J (?next out ?reqs) (window_done v es)"
    by (rule Cons.IH) (use Cons.prems rest [of ?reqs] in \<open>simp add: window_done_def\<close>)
  have more: "rvalid ?J (?next (add_results got out) (filter (\<lambda>r. fst r \<notin> fst ` set got) ?reqs)) (window_done v es)"
    if "list_all (req_answered v ?reqs) got" for got
  proof (rule Cons.IH)
    have "list_all (answered v es) (add_results got out)"
      using set_add_results [of got out] that Cons.prems answered_reqs
      unfolding window_done_def list_all_iff fst_conv by blast
    then show "window_done v es (add_results got out, leftover @ to_entries ci p (filter (\<lambda>r. fst r \<notin> fst ` set got) ?reqs))"
      using rest [of "filter (\<lambda>r. fst r \<notin> fst ` set got) ?reqs"] by (simp add: window_done_def)
  qed
  have got: "rvalid ?J (rbind (window_blocks env ce ?want s b in_win) (\<lambda>got.
      ?next (add_results got out) (filter (\<lambda>r. fst r \<notin> fst ` set got) ?reqs))) (window_done v es)" for s b in_win
    by (rule rvalid_bind [OF window_blocks_valid [OF assms(1,3) want_sound] more])
  have fetch: "rvalid ?J (rbind (try_cs (get_chunk_block (store v) ci p x y)) (\<lambda>r. case r of
      Inl _ \<Rightarrow> ?next out ?reqs
    | Inr pack_bytes \<Rightarrow> rbind (window_blocks env ce ?want s pack_bytes in_win) (\<lambda>got.
        ?next (add_results got out) (filter (\<lambda>r. fst r \<notin> fst ` set got) ?reqs)))) (window_done v es)" for x y s in_win
    by (rule rvalid_bind [OF of_cs_valid(2) [OF get_chunk_block_keeps [OF assms(2)]]])
      (auto intro: fall got split: sum.splits)
  show ?case
    unfolding k window_packs.simps Let_def
    by (rule rvalid_bind [OF get_entries_keeps [OF assms(1)]])
      (auto intro!: rspec_if rspec_fail fall fetch split: option.splits)
qed (auto intro: rspec_return)

lemma fetch_with_window_valid:
  assumes "cache_laws ce ix bx" "suffix_true (object_store (store v)) (objects v)" "digest v = blake3 env"
  shows "rvalid (tiers_ok ix bx v) (fetch_with_window env ce (store v) window es) (list_all (answered v es))"
  unfolding fetch_with_window_def
proof (rule rvalid_bind [OF window_packs_valid [OF assms]])
  show "window_done v es ([], [])" by (simp add: window_done_def)
next
  fix r assume r: "window_done v es r"
  obtain out leftover where o: "r = (out, leftover)" by (cases r)
  have "rvalid (tiers_ok ix bx v) (rbind (fetch_coalesced env ce (store v) leftover) (\<lambda>fetched.
      rreturn (add_results fetched out))) (list_all (answered v es))"
  proof (rule rvalid_bind [OF fetch_coalesced_valid [OF assms]], rule rspec_return)
    fix fetched assume "list_all (answered v leftover) fetched"
    then show "list_all (answered v es) (add_results fetched out)"
      using set_add_results [of fetched out] r answered_mono [of v leftover _ es]
      unfolding window_done_def list_all_iff o fst_conv snd_conv by blast
  qed
  then show "rvalid (tiers_ok ix bx v) (case r of (out, leftover) \<Rightarrow>
       if leftover = [] then rreturn out
       else rbind (fetch_coalesced env ce (store v) leftover) (\<lambda>fetched. rreturn (add_results fetched out))) (list_all (answered v es))"
    using r by (auto simp: o window_done_def intro!: rspec_if rspec_return)
qed

section \<open>Reads of one block\<close>

lemma answered_one: "list_all (answered v [(0, p, ci, h, off, cl)]) m \<Longrightarrow> bt_get m 0 = Some d \<Longrightarrow> good v h d"
  using bt_get_set [of m 0 d] by (auto simp: list_all_iff answered_def)

lemma resolve_block_windowed_valid:
  assumes "cache_laws ce ix bx" "suffix_true (object_store (store v)) (objects v)" "digest v = blake3 env"
    and "ci_wf c" "b < num_blocks c"
  shows "rvalid (tiers_ok ix bx v) (resolve_block_windowed env ce (store v) (manifest v) (\<lambda>_. c) b window) (served v c b)"
  unfolding resolve_block_windowed_def
proof (rule rvalid_bind [OF locate_block_valid [OF assms(1,2,4,5)]])
  fix l assume l: "located v c b l"
  show "rvalid (tiers_ok ix bx v) (case l of Local d \<Rightarrow> rreturn d | Cached d \<Rightarrow> rreturn d | Zero \<Rightarrow> rreturn (zero_block_bytes c)
     | NeedsFetch p ci h off cl \<Rightarrow> rbind (fetch_with_window env ce (store v) window [(0, p, ci, h, off, cl)]) (\<lambda>fetched.
           case bt_get fetched 0 of Some d \<Rightarrow> rreturn d | None \<Rightarrow> rfail DecompressFailed)) (served v c b)"
  proof (cases l)
    case (NeedsFetch p ci h off cl)
    then show ?thesis
      using l answered_one
      by (auto simp: located_def intro!: rspec_return rspec_fail rvalid_bind [OF fetch_with_window_valid [OF assms(1-3)]]
          split: option.splits) blast
  qed (use l in \<open>auto simp: located_def intro: rspec_return\<close>)
qed

section \<open>Reads of a range\<close>

lemma locate_all_valid:
  assumes "cache_laws ce ix bx" "suffix_true (object_store (store v)) (objects v)"
    and "ci_wf c" "\<forall>b\<in>set bs. b < num_blocks c"
  shows "rvalid (tiers_ok ix bx v) (locate_all env ce (store v) (manifest v) (\<lambda>_ _. c) bs) (list_all2 (located v c) bs)"
  using assms(4)
proof (induction bs)
  case (Cons b bs)
  then show ?case
    by (auto intro!: rspec_return rvalid_bind [OF locate_block_valid [OF assms(1-3)]] rvalid_bind [OF Cons.IH])
qed (auto intro: rspec_return)

lemma fetch_list_index: "(i, p, ci, h, off, cl) \<in> set (fetch_list n ls) \<Longrightarrow> n \<le> i \<and> i < n + length ls
    \<and> ls ! (i - n) = NeedsFetch p ci h off cl"
  by (induction n ls rule: fetch_list.induct) (auto simp: nth_Cons' )

lemma block_slot_served:
  assumes f: "list_all (answered v (fetch_list 0 ls)) fetched" and "i < length ls" "located v c b (ls ! i)"
    and "block_slot (zero_block_bytes c) fetched i (ls ! i) = Some d"
  shows "served v c b d"
proof (cases "bt_get fetched i")
  case None
  then show ?thesis using assms(3,4) by (auto simp: block_slot_def at_hand_def located_def split: BlockLocation.splits)
next
  case (Some x)
  then obtain p ci h off cl where "(i, p, ci, h, off, cl) \<in> set (fetch_list 0 ls)" "good v h x"
    using f bt_get_set [OF Some] by (fastforce simp: list_all_iff answered_def)
  then show ?thesis using fetch_list_index assms(3,4) Some by (fastforce simp: block_slot_def located_def)
qed

lemma fill_slots_nth:
  "fill_slots zeros fetched n ls = Inr ds \<Longrightarrow>
   length ds = length ls \<and> (\<forall>i<length ls. block_slot zeros fetched (n + i) (ls ! i) = Some (ds ! i))"
proof (induction n ls arbitrary: ds rule: fill_slots.induct)
  case (2 zeros fetched n l ls)
  then obtain d ds' where d: "block_slot zeros fetched n l = Some d" "fill_slots zeros fetched (n + 1) ls = Inr ds'" "ds = d # ds'"
    by (auto simp: sum_bind_def split: option.splits sum.splits)
  show ?case using "2.IH" [OF d(1,2)] d by (auto simp: nth_Cons' less_Suc_eq_0_disj)
qed simp

lemma blocks_served:
  assumes ls: "list_all2 (located v c) bs ls" "list_all (answered v (fetch_list 0 ls)) fetched"
    and "fill_slots (zero_block_bytes c) fetched 0 ls = Inr ds"
  shows "list_all2 (served v c) bs ds"
  using fill_slots_nth [OF assms(3)] ls(1) block_slot_served [OF ls(2)]
  by (auto simp: list_all2_conv_all_nth)

text \<open>
  The image of the packs: \<open>plain\<close> gives the contents of a hash.  \<open>identifies\<close> says that a hash
  of the volume has no other preimage.
\<close>

definition remote_image :: "'s volume \<Rightarrow> (Blake3Hash \<Rightarrow> bytes) \<Rightarrow> nat \<Rightarrow> nat \<Rightarrow> byte" where
  "remote_image v plain bs k =
     (case remote_entry (manifest v) (idx v) (k div bs) of
        None \<Rightarrow> 0
      | Some (p, e) \<Rightarrow> if comp_length e = 0 then 0 else plain (hash e) ! (k mod bs))"

definition identifies :: "'s volume \<Rightarrow> (Blake3Hash \<Rightarrow> bytes) \<Rightarrow> nat \<Rightarrow> bool" where
  "identifies v plain bs \<longleftrightarrow>
     (\<forall>ci p. in_manifest (manifest v) ci p \<longrightarrow> (\<forall>e\<in>set (idx v p). comp_length e \<noteq> 0 \<longrightarrow>
        length (plain (hash e)) = bs \<and> (\<forall>d. digest v d = hash e \<longrightarrow> d = plain (hash e))))"

lemma remote_entry_mem:
  assumes "remote_entry vm ix b = Some (p, e)"
  shows "e \<in> set (ix p) \<and> (\<exists>ci. in_manifest vm ci p)"
proof -
  obtain ci bo ids where "chunk_pack_ids vm ci = Some ids" "newest ix ids bo = Some (p, e)"
    using assms by (auto simp: remote_entry_def newest_def split: option.splits)
  then have "p \<in> set ids" "e \<in> set (ix p)" using newest_first_mem [of ix "rev ids" bo p e] by (simp_all add: newest_def)
  then show ?thesis using \<open>chunk_pack_ids vm ci = Some ids\<close> unfolding in_manifest_def by blast
qed

lemma served_view:
  assumes wf: "ci_wf c" "b < num_blocks c" and u: "identifies v plain (bsize c)" and s: "served v c b d"
  shows "length d = bsize c"
    and "\<And>k. k < dsize c \<Longrightarrow> k div bsize c = b \<Longrightarrow> d ! (k mod bsize c) = view (remote_image v plain (bsize c)) c k"
proof -
  have g: "geometry_ok c" "0 < bsize c" using wf(1) by (simp_all add: ci_wf_def geometry_ok_def)
  have lb: "length (blk c (src_file c) b) = valid_bytes c b"
    using valid_bytes_bounds(2) [OF g(1) wf(2)] by (simp add: blk_def length_slice src_file_def)
  have r: "length d = bsize c \<and> (k < dsize c \<longrightarrow> k div bsize c = b \<longrightarrow> d ! (k mod bsize c) = remote_image v plain (bsize c) k)"
    if l: "\<not> has_local c b" for k
  proof (cases "remote_entry (manifest v) (idx v) b")
    case None
    then show ?thesis using s l g(2) by (auto simp: served_def remote_image_def zero_block_bytes_def)
  next
    case (Some q)
    obtain p e where q: "q = (p, e)" by (cases q)
    have "length (plain (hash e)) = bsize c \<and> (\<forall>d. digest v d = hash e \<longrightarrow> d = plain (hash e))" if "comp_length e \<noteq> 0"
      using remote_entry_mem [OF Some [unfolded q]] u that by (auto simp: identifies_def)
    then show ?thesis using s l g(2) Some q by (auto simp: served_def remote_image_def zero_block_bytes_def split: if_splits)
  qed
  show "length d = bsize c"
    using r s lb valid_bytes_bounds(1) [OF g(1) wf(2)]
    by (cases "has_local c b") (auto simp: served_def pad_block_def valid_bytes_def)
  fix k assume k: "k < dsize c" "k div bsize c = b"
  show "d ! (k mod bsize c) = view (remote_image v plain (bsize c)) c k"
  proof (cases "has_local c b")
    case True
    have m: "k mod bsize c = k - b * bsize c" using k(2) by (simp add: modulo_nat_def)
    moreover have "k mod bsize c < valid_bytes c b"
      using in_block_iff [OF g(1) k(1), of b] k(2) unfolding m by linarith
    ultimately have "d ! (k mod bsize c) = src_file c ! k"
      using nth_blk [OF g(1) k(1), of "src_file c"] s True k(2) lb
      by (simp add: served_def pad_block_def nth_append src_file_def)
    then show ?thesis using True k(2) by (simp add: view_def)
  qed (use r k in \<open>auto simp: view_def\<close>)
qed

definition covers :: "(nat \<Rightarrow> byte) \<Rightarrow> nat \<Rightarrow> nat \<Rightarrow> nat \<Rightarrow> bytes \<Rightarrow> bool" where
  "covers f bs n b d \<longleftrightarrow> length d = bs \<and> (\<forall>k<n. k div bs = b \<longrightarrow> d ! (k mod bs) = f k)"

lemma covers_slice:
  assumes "covers f bs n b d" "0 < bs" "s \<le> e" "e \<le> bs" "b * bs + e \<le> n"
  shows "bslice s e d = map f [b * bs + s..<b * bs + e]"
proof (rule nth_equalityI)
  fix i assume "i < length (bslice s e d)"
  then have i: "i < e - s" using assms by (simp add: covers_def length_slice)
  then have "(b * bs + (s + i)) div bs = b" "(b * bs + (s + i)) mod bs = s + i" using assms(4) by simp_all
  then have "d ! (s + i) = f (b * bs + (s + i))" using assms i unfolding covers_def by (metis add.commute less_diff_conv nat_add_left_cancel_less order_less_le_trans)
  then show "bslice s e d ! i = map f [b * bs + s..<b * bs + e] ! i"
    using assms i by (simp add: nth_bslice covers_def add.assoc)
qed (use assms in \<open>simp add: covers_def length_slice\<close>)

lemma assemble_read_image:
  assumes "0 < bs" "0 < len" "off + len \<le> n"
  shows "\<lbrakk> list_all2 (covers f bs n) [b..<b + length ds] ds; off div bs \<le> b; b + length ds = Suc ((off + len - 1) div bs);
     assemble_read bs off len b ds = Inr out \<rbrakk> \<Longrightarrow> out = map f [max off (b * bs)..<off + len]"
proof (induction ds arbitrary: b out)
  case Nil
  have "off + len - 1 < b * bs" using Nil.prems(3) assms(1) by (simp add: dividend_less_times_div mult.commute)
  then show ?case using Nil.prems(4) by simp
next
  case (Cons d ds)
  let ?lb = "(off + len - 1) div bs" and ?s = "slice_start bs off b" and ?e = "slice_end bs off len (length d) b"
  obtain rest where r: "?s \<le> ?e" "?e \<le> length d" "out = bslice ?s ?e d @ rest" "assemble_read bs off len (b + 1) ds = Inr rest"
    using Cons.prems(4) by (auto simp: rust_slice_def split: option.splits if_splits)
  have cov: "covers f bs n b d" "list_all2 (covers f bs n) [b + 1..<b + 1 + length ds] ds"
    using Cons.prems(1) upt_conv_Cons [of b "b + length (d # ds)"] by (simp_all del: upt_Suc)
  have len: "length d = bs" using cov(1) by (simp add: covers_def)
  have "off div bs * bs \<le> off" by (simp add: div_times_less_eq_dividend)
  moreover have "off < b * bs + bs"
    using Cons.prems(2) assms(1) by (metis add.commute div_less_iff_less_mult le_imp_less_Suc mult_Suc)
  moreover have "off \<le> b * bs" if "off div bs < b"
    using that assms(1) by (metis div_less_iff_less_mult less_imp_le)
  ultimately have s: "b * bs + ?s = max off (b * bs)" "off \<le> b * bs + bs"
    using Cons.prems(2) by (auto simp: slice_start_def)
  have bl: "b \<le> ?lb" using Cons.prems(3) by simp
  have low: "?lb * bs \<le> off + len - 1" by (simp add: div_times_less_eq_dividend)
  have up: "off + len - 1 < ?lb * bs + bs" using assms(1) by (metis add.commute dividend_less_div_times)
  have e: "b * bs + ?e = min (off + len) (b * bs + bs)"
  proof (cases "b = ?lb")
    case True
    have "x + min (off + len - x) bs = min (off + len) (x + bs)" if "x \<le> off + len" for x using that by linarith
    moreover have "b * bs \<le> off + len" using low unfolding True by (rule le_trans) simp
    ultimately show ?thesis using True by (simp add: slice_end_def len)
  next
    case False
    then have "b * bs + bs \<le> ?lb * bs" using bl by (metis Suc_leI add.commute le_neq_implies_less mult_Suc mult_le_mono1)
    also have "\<dots> \<le> off + len" using low by (rule le_trans) simp
    finally show ?thesis using False by (simp add: slice_end_def len)
  qed
  have "bslice ?s ?e d = map f [max off (b * bs)..<min (off + len) (b * bs + bs)]"
    using covers_slice [OF cov(1) assms(1) r(1)] r(2) e assms(3) by (simp add: len s(1))
  moreover have "rest = map f [max off (b * bs + bs)..<off + len]"
    using Cons.IH [OF cov(2) _ _ r(4)] Cons.prems(2,3) by (simp add: add.commute)
  moreover have "[max off (b * bs)..<min (off + len) (b * bs + bs)] @ [max off (b * bs + bs)..<off + len] = [max off (b * bs)..<off + len]"
    using s(2) upt_add_eq_append [of "max off (b * bs)" "b * bs + bs" "off + len - (b * bs + bs)"]
    by (cases "off + len \<le> b * bs + bs") (simp_all add: max_absorb2)
  ultimately show ?case using r(3) by (metis map_append)
qed

lemma served_covers:
  assumes "ci_wf c" "identifies v plain (bsize c)" "b < num_blocks c" "served v c b d"
  shows "covers (view (remote_image v plain (bsize c)) c) (bsize c) (dsize c) b d"
  using served_view [OF assms(1,3,2,4)] by (simp add: covers_def)

lemma all_dirty_states: "all_dirty c bs = Some True \<Longrightarrow> \<forall>b\<in>set bs. sm_get (state_map c) b = Some DIRTY"
  by (induction bs) (auto split: option.splits if_splits)

lemma dirty_range_view:
  assumes wf: "ci_wf c" and d: "all_dirty c [off div bsize c..<Suc ((off + len - 1) div bsize c)] = Some True"
    and n: "off + len \<le> dsize c"
  shows "bslice off (off + len) (data_file c) = map (view R c) [off..<off + len]"
proof (rule nth_equalityI)
  have g: "geometry_ok c" "length (data_file c) = dsize c" using wf by (simp_all add: ci_wf_def)
  then show "length (bslice off (off + len) (data_file c)) = length (map (view R c) [off..<off + len])"
    using n by (simp add: length_slice)
  fix i assume "i < length (bslice off (off + len) (data_file c))"
  then have i: "i < len" "off + i < dsize c" using g n by (simp_all add: length_slice)
  let ?b = "(off + i) div bsize c"
  have "?b \<in> set [off div bsize c..<Suc ((off + len - 1) div bsize c)]" 
    using i(1) div_le_mono [of "off + i" "off + len - 1" "bsize c"] div_le_mono [of off "off + i" "bsize c"]
    by (simp add: less_Suc_eq_le del: upt_Suc)
  then have "sm_get (state_map c) ?b = Some DIRTY" using all_dirty_states [OF d] by blast
  then have "states c ! ?b = DIRTY" using ci_get [OF wf block_of_byte [OF g(1) i(2)]] by simp
  then have "view R c (off + i) = data_file c ! (off + i)"
    using i(2) by (auto simp: view_def nth_src_file promoted_def promotable_def split: option.splits)
  then show "bslice off (off + len) (data_file c) ! i = map (view R c) [off..<off + len] ! i"
    using i n g by (simp add: nth_bslice)
qed

lemma fetch_located_valid:
  assumes "cache_laws ce ix bx" "suffix_true (object_store (store v)) (objects v)" "digest v = blake3 env"
  shows "rvalid (tiers_ok ix bx v) (fetch_located env ce (store v) window ls) (list_all (answered v (fetch_list 0 ls)))"
  using fetch_with_window_valid [OF assms] by (auto simp: fetch_located_def intro: rspec_return)

lemma read_blocks_valid:
  assumes laws: "cache_laws ce ix bx" "suffix_true (object_store (store v)) (objects v)" "digest v = blake3 env"
    and wf: "ci_wf c" "identifies v plain (bsize c)" and n: "0 < len" "off + len \<le> dsize c"
  shows "rvalid (tiers_ok ix bx v)
    (rbind (locate_all env ce (store v) (manifest v) (\<lambda>_ _. c) [off div bsize c..<Suc ((off + len - 1) div bsize c)]) (\<lambda>ls.
     rbind (fetch_located env ce (store v) window ls) (\<lambda>fetched.
     rbind (of_sum (fill_slots (zero_block_bytes c) fetched 0 ls)) (\<lambda>ds.
       of_sum (assemble_read (bsize c) off len (off div bsize c) ds)))))
    (\<lambda>d. d = map (view (remote_image v plain (bsize c)) c) [off..<off + len])"
proof -
  let ?f = "view (remote_image v plain (bsize c)) c" and ?bs = "bsize c"
  let ?blocks = "[off div ?bs..<Suc ((off + len - 1) div ?bs)]"
  have g: "geometry_ok c" "0 < ?bs" using wf(1) by (simp_all add: ci_wf_def geometry_ok_def)
  have "(off + len - 1) div ?bs < num_blocks c" by (rule block_of_byte [OF g(1)]) (use n in simp)
  then have inb: "\<forall>b\<in>set ?blocks. b < num_blocks c" by auto
  have le: "off div ?bs \<le> (off + len - 1) div ?bs" by (rule div_le_mono) (use n in simp)
  have fin: "out = map ?f [off..<off + len]"
    if "list_all2 (served v c) ?blocks ds" "assemble_read ?bs off len (off div ?bs) ds = Inr out" for ds out
  proof -
    have l: "length ds = Suc ((off + len - 1) div ?bs) - off div ?bs" using that(1) by (metis length_upt list_all2_lengthD)
    then have e: "off div ?bs + length ds = Suc ((off + len - 1) div ?bs)" using le by simp
    have "list_all2 (covers ?f ?bs (dsize c)) ?blocks ds"
      using that(1) inb served_covers [OF wf] by (auto simp: list_all2_conv_all_nth nth_append simp del: upt_Suc)
    then show ?thesis
      using assemble_read_image [OF g(2) n, of ?f "off div ?bs" ds out] that(2) e
      by (simp add: max_absorb1 del: upt_Suc)
  qed
  show ?thesis
    by (rule rvalid_bind [OF locate_all_valid [OF laws(1,2) wf(1) inb]], rule rvalid_bind [OF fetch_located_valid [OF laws]],
        rule rvalid_bind [OF rspec_of_sum, where P = "list_all2 (served v c) ?blocks"])
      (erule blocks_served, assumption, assumption, rule rspec_of_sum, erule fin)
qed

lemma read_one_valid:
  assumes laws: "cache_laws ce ix bx" "suffix_true (object_store (store v)) (objects v)" "digest v = blake3 env"
    and wf: "ci_wf c" "identifies v plain (bsize c)" and n: "0 < len" "off + len \<le> dsize c"
    and one: "(off + len - 1) div bsize c = off div bsize c"
  shows "rvalid (tiers_ok ix bx v)
    (rbind (resolve_block env ce (store v) (manifest v) (\<lambda>_. c) (off div bsize c)) (\<lambda>d.
       let s = off - off div bsize c * bsize c
       in (case rust_slice s (min (s + len) (length d)) d of None \<Rightarrow> rfail Panicked | Some part \<Rightarrow> rreturn part)))
    (\<lambda>d. d = map (view (remote_image v plain (bsize c)) c) [off..<off + len])"
proof -
  let ?b = "off div bsize c" and ?f = "view (remote_image v plain (bsize c)) c"
  have g: "geometry_ok c" "0 < bsize c" using wf(1) by (simp_all add: ci_wf_def geometry_ok_def)
  have b: "?b < num_blocks c" by (rule block_of_byte [OF g(1)]) (use n in simp)
  have up: "off + len - 1 < ?b * bsize c + bsize c" using g(2) one by (metis add.commute dividend_less_div_times)
  let ?s = "off - ?b * bsize c"
  have s: "?b * bsize c \<le> off" "?s + len \<le> bsize c" using up n(1) div_times_less_eq_dividend [of off "bsize c"] by linarith+
  have "bslice ?s (?s + len) d = map ?f [off..<off + len]" if "served v c ?b d" for d
    using covers_slice [OF served_covers [OF wf b that] g(2), of ?s "?s + len"] s n(2) by simp
  moreover have "length d = bsize c" if "served v c ?b d" for d
    using served_covers [OF wf b that] by (simp add: covers_def)
  ultimately have "rust_slice ?s (min (?s + len) (length d)) d = Some (map ?f [off..<off + len])" if "served v c ?b d" for d
    unfolding rust_slice_def using that s(2) by (simp only: min_absorb1) simp
  then show ?thesis
    unfolding resolve_block_def Let_def
    by (intro rvalid_bind [OF resolve_block_windowed_valid [OF laws wf(1) b]]) (simp add: rspec_return)
qed

lemma rvalid_fast:
  assumes "x = None \<Longrightarrow> rvalid J m1 Q" "x = Some True \<Longrightarrow> rvalid J m2 Q" "x = Some False \<Longrightarrow> rvalid J m3 Q"
  shows "rvalid J (case x of None \<Rightarrow> m1 | Some True \<Rightarrow> m2 | Some False \<Rightarrow> m3) Q"
  using assms by (auto split: option.splits bool.splits)

lemma cache_read_valid:
  assumes laws: "cache_laws ce ix bx" "suffix_true (object_store (store v)) (objects v)" "digest v = blake3 env"
    and wf: "ci_wf c" "identifies v plain (bsize c)"
  shows "rvalid (tiers_ok ix bx v) (cache_read env ce (store v) (manifest v) (\<lambda>_ _. c) off len)
     (\<lambda>d. d = map (view (remote_image v plain (bsize c)) c) [off..<off + len])"
proof -
  let ?f = "view (remote_image v plain (bsize c)) c"
  have bs: "bsize c \<noteq> 0" using wf(1) by (simp add: ci_wf_def geometry_ok_def)
  have io: "rvalid (tiers_ok ix bx v) (case read_exact_at (rd_io env) (data_file c) len off of
      Inl e \<Rightarrow> rfail (Io e) | Inr d \<Rightarrow> rreturn d) (\<lambda>d. d = map ?f [off..<off + len])"
    if "all_dirty c [off div bsize c..<Suc ((off + len - 1) div bsize c)] = Some True" "off + len \<le> dsize c"
    using dirty_range_view [OF wf(1) that, of "remote_image v plain (bsize c)"]
    by (auto simp: read_exact_at_def intro!: rspec_return rspec_fail)
  show ?thesis
    unfolding cache_read_def Let_def
  proof (rule rvalid_bind [OF rspec_of_sum, where P = "\<lambda>_. off + len \<le> dsize c"])
    fix a assume "read_bounds c off len = Inr a"
    then show "off + len \<le> dsize c" by (auto simp: read_bounds_def split: if_splits)
  next
    assume n: "off + len \<le> dsize c"
    let ?blocks = "[off div bsize c..<Suc ((off + len - 1) div bsize c)]"
    let ?fast = "if flushing_active c then Some False else all_dirty c ?blocks"
    show "rvalid (tiers_ok ix bx v) (if len = 0 then rreturn [] else if bsize c = 0 then rfail Panicked
       else (case ?fast of None \<Rightarrow> rfail Panicked
         | Some True \<Rightarrow> (case read_exact_at (rd_io env) (data_file c) len off of Inl e \<Rightarrow> rfail (Io e) | Inr d \<Rightarrow> rreturn d)
         | Some False \<Rightarrow>
             if (off + len - 1) div bsize c = off div bsize c then
               rbind (resolve_block env ce (store v) (manifest v) (\<lambda>_. c) (off div bsize c)) (\<lambda>d.
                 case rust_slice (off - off div bsize c * bsize c) (min (off - off div bsize c * bsize c + len) (length d)) d of
                   None \<Rightarrow> rfail Panicked | Some part \<Rightarrow> rreturn part)
             else rbind (locate_all env ce (store v) (manifest v) (\<lambda>_ _. c) ?blocks) (\<lambda>ls.
                  rbind (fetch_located env ce (store v) (readahead_window_bytes c) ls) (\<lambda>fetched.
                  rbind (of_sum (fill_slots (zero_block_bytes c) fetched 0 ls)) (\<lambda>ds.
                    of_sum (assemble_read (bsize c) off len (off div bsize c) ds))))))
       (\<lambda>d. d = map ?f [off..<off + len])"
    proof (intro rspec_if rvalid_fast rspec_fail)
      assume "?fast = Some True"
      then have "all_dirty c ?blocks = Some True" by (cases "flushing_active c") (simp_all del: upt_Suc)
      then show "rvalid (tiers_ok ix bx v) (case read_exact_at (rd_io env) (data_file c) len off of
          Inl e \<Rightarrow> rfail (Io e) | Inr d \<Rightarrow> rreturn d) (\<lambda>d. d = map ?f [off..<off + len])"
        using io n by blast
    next
      assume "len \<noteq> 0"
      then have "0 < len" by simp
      note slow = read_one_valid [OF laws wf this n, unfolded Let_def] read_blocks_valid [OF laws wf this n]
      show "rvalid (tiers_ok ix bx v) (rbind (resolve_block env ce (store v) (manifest v) (\<lambda>_. c) (off div bsize c)) (\<lambda>d.
          case rust_slice (off - off div bsize c * bsize c) (min (off - off div bsize c * bsize c + len) (length d)) d of
            None \<Rightarrow> rfail Panicked | Some part \<Rightarrow> rreturn part)) (\<lambda>d. d = map ?f [off..<off + len])"
        if "(off + len - 1) div bsize c = off div bsize c"
        using slow(1) [OF that] .
      show "rvalid (tiers_ok ix bx v) (rbind (locate_all env ce (store v) (manifest v) (\<lambda>_ _. c) ?blocks) (\<lambda>ls.
          rbind (fetch_located env ce (store v) (readahead_window_bytes c) ls) (\<lambda>fetched.
          rbind (of_sum (fill_slots (zero_block_bytes c) fetched 0 ls)) (\<lambda>ds.
            of_sum (assemble_read (bsize c) off len (off div bsize c) ds))))) (\<lambda>d. d = map ?f [off..<off + len])"
        by (rule slow(2))
    qed (use bs in \<open>auto intro: rspec_return\<close>)
  qed
qed

text \<open>
  C0: a read returns what the guest wrote.  Whatever bodies the object store delivers for
  range reads, a read that returns yields, over its whole range, the bytes of the guest's
  view: the local copy of a block that is dirty or being flushed, otherwise the newest
  version of the block in the packs of the manifest, otherwise zeros.
\<close>

theorem read_returns_view:
  assumes "cache_laws ce ix bx" "suffix_true (object_store (store v)) (objects v)" "digest v = blake3 env"
    and "ci_wf c" "identifies v plain (bsize c)" "tiers_ok ix bx v t"
    and "fst (cache_read env ce (store v) (manifest v) (\<lambda>_ _. c) off len t) = Inr d"
  shows "d = map (view (remote_image v plain (bsize c)) c) [off..<off + len]"
  using cache_read_valid [OF assms(1-5), of off len] assms(6,7) by (auto simp: rspec_def)

end
