(* ===== verification/LiveCount.thy ===== *)
theory LiveCount
  imports ReadCorrect
begin

text \<open>
  Live-block counts, from \<open>glidefs/src/block/live_count.rs\<close>: the merged view of a chunk's
  packs with the indexes the cache lacks fetched from the store, the computation of
  unknown counts, and the exact stored size of an export or a snapshot.  Chunks are
  processed one after the other; \<open>others\<close> is what other tasks do to the manifest while the
  indexes of a chunk are loaded.  An outer \<open>None\<close> is a panic.
\<close>

section \<open>Operations\<close>

fun load_from :: "'c cache_engine \<Rightarrow> 's ContentStore \<Rightarrow> u32 \<Rightarrow> PackId list \<Rightarrow> ExistingBlocks
    \<Rightarrow> ('s, 'c, ExistingBlocks) rop" where
  "load_from ce cs ci [] m = rreturn m"
| "load_from ce cs ci (p # ps) m =
     rbind (get_entries ce p) (\<lambda>r. case r of
       Some es \<Rightarrow> load_from ce cs ci ps (insert_entries es m)
     | None \<Rightarrow>
         rbind (of_cs (get_pack_index cs ci p)) (\<lambda>fetched.
         rbind (put_entries ce p fetched) (\<lambda>_.
           load_from ce cs ci ps (insert_entries fetched m))))"

definition load_existing :: "'c cache_engine \<Rightarrow> 's ContentStore \<Rightarrow> u32 \<Rightarrow> PackId list
    \<Rightarrow> ('s, 'c, ExistingBlocks) rop" where
  "load_existing ce cs ci pack_ids = load_from ce cs ci pack_ids []"

definition needs_backfill :: "VolumeManifest \<Rightarrow> bool" where
  "needs_backfill vm = list_ex (\<lambda>(_, e). live_blocks e = None) (chunks vm)"

text \<open>One chunk of \<open>ensure_once\<close>: load its view, then record the count under the lock.\<close>

definition ensure_chunk :: "'c cache_engine \<Rightarrow> 's ContentStore \<Rightarrow> (u32 \<Rightarrow> VolumeManifest \<Rightarrow> VolumeManifest)
    \<Rightarrow> u32 \<Rightarrow> PackId list \<Rightarrow> VolumeManifest \<times> ('s, 'c) tiers
    \<Rightarrow> (CacheError + unit) \<times> VolumeManifest \<times> ('s, 'c) tiers" where
  "ensure_chunk ce cs others ci pack_ids = (\<lambda>(vm, t).
     case load_existing ce cs ci pack_ids t of
       (Inl e, t') \<Rightarrow> (Inl e, others ci vm, t')
     | (Inr existing, t') \<Rightarrow>
         (Inr (), set_live_blocks_if_unknown ci pack_ids (live_blocks_after existing []) (others ci vm), t'))"

fun ensure_chunks :: "'c cache_engine \<Rightarrow> 's ContentStore \<Rightarrow> (u32 \<Rightarrow> VolumeManifest \<Rightarrow> VolumeManifest)
    \<Rightarrow> (u32 \<times> PackId list) list \<Rightarrow> VolumeManifest \<times> ('s, 'c) tiers
    \<Rightarrow> (CacheError + unit) \<times> VolumeManifest \<times> ('s, 'c) tiers" where
  "ensure_chunks ce cs others [] st = (Inr (), st)"
| "ensure_chunks ce cs others ((ci, pack_ids) # rest) st =
     (case ensure_chunk ce cs others ci pack_ids st of
        (r, st') \<Rightarrow> (case ensure_chunks ce cs others rest st' of
           (r', st'') \<Rightarrow> (case r of Inl e \<Rightarrow> Inl e | Inr _ \<Rightarrow> r', st'')))"

definition ensure_once :: "'c cache_engine \<Rightarrow> 's ContentStore \<Rightarrow> (u32 \<Rightarrow> VolumeManifest \<Rightarrow> VolumeManifest)
    \<Rightarrow> VolumeManifest \<times> ('s, 'c) tiers \<Rightarrow> (CacheError + unit) \<times> VolumeManifest \<times> ('s, 'c) tiers" where
  "ensure_once ce cs others st = ensure_chunks ce cs others (unknown_live_chunks (fst st)) st"

definition ENSURE_ROUNDS :: nat where "ENSURE_ROUNDS = 3"

fun exact_rounds :: "nat \<Rightarrow> 'c cache_engine \<Rightarrow> 's ContentStore \<Rightarrow> (u32 \<Rightarrow> VolumeManifest \<Rightarrow> VolumeManifest)
    \<Rightarrow> VolumeManifest \<times> ('s, 'c) tiers \<Rightarrow> (u64 option \<times> VolumeManifest \<times> ('s, 'c) tiers) option" where
  "exact_rounds 0 ce cs others st = map_option (\<lambda>r. (r, st)) (stored_bytes (fst st))"
| "exact_rounds (Suc n) ce cs others st =
     (case stored_bytes (fst st) of
        None \<Rightarrow> None
      | Some (Some bytes) \<Rightarrow> Some (Some bytes, st)
      | Some None \<Rightarrow>
          (case ensure_once ce cs others st of
             (Inl _, st') \<Rightarrow> Some (None, st')
           | (Inr _, st') \<Rightarrow> exact_rounds n ce cs others st'))"

definition stored_bytes_exact :: "'c cache_engine \<Rightarrow> 's ContentStore \<Rightarrow> (u32 \<Rightarrow> VolumeManifest \<Rightarrow> VolumeManifest)
    \<Rightarrow> VolumeManifest \<times> ('s, 'c) tiers \<Rightarrow> (u64 option \<times> VolumeManifest \<times> ('s, 'c) tiers) option" where
  "stored_bytes_exact = exact_rounds ENSURE_ROUNDS"

datatype SnapshotSizeError = SnapshotNotFound | SnapshotCorrupt | SnapshotStore ContentStoreError

text \<open>A snapshot's manifest is private to the call, so nobody else changes it.\<close>

definition snapshot_stored_bytes :: "(bytes \<Rightarrow> u32) \<Rightarrow> 'c cache_engine \<Rightarrow> 's ContentStore \<Rightarrow> string \<Rightarrow> u64
    \<Rightarrow> ('s, 'c) tiers \<Rightarrow> ((SnapshotSizeError + u64 option) \<times> ('s, 'c) tiers) option" where
  "snapshot_stored_bytes crc ce cs name seq t =
     (case get_snapshot cs name seq (tw t) of
        (Inl e, w) \<Rightarrow> Some (Inl (SnapshotStore e), t\<lparr> tw := w \<rparr>)
      | (Inr None, w) \<Rightarrow> Some (Inl SnapshotNotFound, t\<lparr> tw := w \<rparr>)
      | (Inr (Some data), w) \<Rightarrow>
          (case deserialize crc data of
             Inl _ \<Rightarrow> Some (Inl SnapshotCorrupt, t\<lparr> tw := w \<rparr>)
           | Inr vm \<Rightarrow>
               map_option (\<lambda>(r, st). (Inr r, snd st)) (stored_bytes_exact ce cs (\<lambda>_ m. m) (vm, t\<lparr> tw := w \<rparr>))))"

definition backfill_live_counts :: "'c cache_engine \<Rightarrow> 's ContentStore \<Rightarrow> (u32 \<Rightarrow> VolumeManifest \<Rightarrow> VolumeManifest)
    \<Rightarrow> VolumeManifest \<times> ('s, 'c) tiers \<Rightarrow> (VolumeManifest \<times> ('s, 'c) tiers) option" where
  "backfill_live_counts ce cs others st =
     (if \<not> needs_backfill (fst st) then Some st else map_option snd (stored_bytes_exact ce cs others st))"

section \<open>The merged view\<close>

lemma rvalid_of_cs_index:
  assumes "suffix_true (object_store (store v)) (objects v)" "in_manifest (manifest v) ci p"
  shows "rvalid (tiers_ok ix bx v) (of_cs (get_pack_index (store v) ci p)) (\<lambda>es. es = idx v p)"
  using get_index_spec [OF assms, of ix bx "{}"]
  by (auto simp: rspec_def try_cs_def of_cs_def held_def split: prod.splits sum.splits)

lemma rvalid_put_entries:
  assumes "cache_laws ce ix bx"
  shows "rvalid (tiers_ok ix bx v) (put_entries ce p (idx v p)) (\<lambda>_. True)"
  using assms by (auto simp: rspec_def put_entries_def tiers_ok_def cache_laws_def split: if_splits)

lemma load_from_valid:
  assumes "cache_laws ce ix bx" "suffix_true (object_store (store v)) (objects v)"
  shows "\<forall>p\<in>set ps. in_manifest (manifest v) ci p \<Longrightarrow> rvalid (tiers_ok ix bx v) (load_from ce (store v) ci ps m)
     (\<lambda>m'. existing_loop (\<lambda>p. Some (idx v p)) ps m = Some m')"
proof (induction ps arbitrary: m)
  case (Cons p ps)
  let ?J = "tiers_ok ix bx v" and ?Q = "\<lambda>m'. existing_loop (\<lambda>p. Some (idx v p)) (p # ps) m = Some m'"
  have IH: "rvalid ?J (load_from ce (store v) ci ps (insert_entries (idx v p) m)) ?Q" using Cons by simp
  have p: "in_manifest (manifest v) ci p" using Cons.prems by simp
  have miss: "rvalid ?J (rbind (of_cs (get_pack_index (store v) ci p)) (\<lambda>fetched. rbind (put_entries ce p fetched) (\<lambda>_.
      load_from ce (store v) ci ps (insert_entries fetched m)))) ?Q"
    by (rule rvalid_bind [OF rvalid_of_cs_index [OF assms(2) p]])
      (auto intro!: rvalid_bind [OF rvalid_put_entries [OF assms(1)]] IH [simplified])
  show ?case
    unfolding load_from.simps
    by (rule rvalid_bind [OF get_entries_valid [OF assms(1) p]]) (use IH miss in \<open>auto split: option.splits\<close>)
qed (auto intro: rspec_return)

section \<open>Counts are exact\<close>

definition live_offsets :: "(PackId \<Rightarrow> PackIndexEntry list) \<Rightarrow> PackId list \<Rightarrow> u32 set" where
  "live_offsets ix ps = {co. \<exists>p e. newest ix ps co = Some (p, e) \<and> comp_length e > 0}"

definition entry_ok :: "'s volume \<Rightarrow> u32 \<Rightarrow> ChunkEntry \<Rightarrow> bool" where
  "entry_ok v ci e \<longleftrightarrow>
     (\<forall>p\<in>set (packs e). in_manifest (manifest v) ci p \<and> offsets_distinct (idx v p))
   \<and> card (live_offsets (idx v) (packs e)) < 2 ^ 32
   \<and> (\<forall>n. live_blocks e = Some n \<longrightarrow> unat n = card (live_offsets (idx v) (packs e)))"

text \<open>Every count that is known is right.\<close>

definition counts_ok :: "'s volume \<Rightarrow> VolumeManifest \<Rightarrow> bool" where
  "counts_ok v vm \<longleftrightarrow> bt_wf (chunks vm) \<and> (\<forall>(ci, e)\<in>set (chunks vm). entry_ok v ci e)"

definition live_bytes :: "'s volume \<Rightarrow> VolumeManifest \<Rightarrow> nat" where
  "live_bytes v vm = (\<Sum>(ci, e)\<leftarrow>chunks vm. card (live_offsets (idx v) (packs e))) * unat (block_size vm)"

lemma live_length:
  assumes "bt_wf m" "\<And>co. bt_get m co = (case newest ix ps co of Some (p, e) \<Rightarrow> Some (view_pair e) | None \<Rightarrow> None)"
  shows "length (filter (\<lambda>(_, e). is_live e) m) = card (live_offsets ix ps)"
proof -
  have d: "distinct (map fst m)" using assms(1) by (simp add: bt_wf_def strict_sorted_iff)
  let ?l = "filter (\<lambda>(_, e). is_live e) m"
  have "live_offsets ix ps = fst ` set ?l"
  proof (intro set_eqI iffI)
    fix co assume "co \<in> live_offsets ix ps"
    then obtain p e where "newest ix ps co = Some (p, e)" "comp_length e > 0" by (auto simp: live_offsets_def)
    then have "(co, view_pair e) \<in> set m" "is_live (view_pair e)"
      using assms(2) [of co] by (auto simp: bt_get_def is_live_def view_pair_def dest: map_of_SomeD)
    then show "co \<in> fst ` set ?l" by force
  next
    fix co assume "co \<in> fst ` set ?l"
    then obtain x where x: "(co, x) \<in> set m" "is_live x" by auto
    then have "bt_get m co = Some x" using d by (simp add: bt_get_def)
    then show "co \<in> live_offsets ix ps"
      using assms(2) [of co] x(2) by (auto simp: live_offsets_def is_live_def view_pair_def split: option.splits)
  qed
  moreover have "distinct (map fst ?l)" using d by (simp add: distinct_map_filter)
  ultimately show ?thesis by (metis distinct_card length_map list.set_map)
qed

lemma load_existing_count:
  assumes "cache_laws ce ix bx" "suffix_true (object_store (store v)) (objects v)" "entry_ok v ci e"
    and "tiers_ok ix bx v t" "load_existing ce (store v) ci (packs e) t = (Inr m, t')"
  shows "tiers_ok ix bx v t'" "unat (live_blocks_after m []) = card (live_offsets (idx v) (packs e))"
proof -
  let ?get = "\<lambda>p. Some (idx v p)"
  have ok: "\<forall>p\<in>set (packs e). in_manifest (manifest v) ci p" "\<forall>p\<in>set (packs e). ?get p = Some (idx v p) \<and> offsets_distinct (idx v p)"
    using assms(3) by (simp_all add: entry_ok_def)
  have r: "tiers_ok ix bx v t' \<and> existing_loop ?get (packs e) [] = Some m"
    using load_from_valid [OF assms(1,2) ok(1), of "[]"] assms(4,5) by (auto simp: load_existing_def rspec_def)
  then show "tiers_ok ix bx v t'" by simp
  obtain m' where "existing_loop ?get (packs e) [] = Some m'" "bt_wf m'"
      "\<forall>co. bt_get m' co = (case newest (idx v) (packs e) co of Some (p, e) \<Rightarrow> Some (view_pair e) | None \<Rightarrow> bt_get [] co)"
    using existing_loop_newest [OF ok(2), of "[]"] by (auto simp: bt_wf_def)
  then have "length (filter (\<lambda>(_, e). is_live e) m) = card (live_offsets (idx v) (packs e))"
    using r by (intro live_length) (auto simp: bt_get_def split: option.splits)
  then show "unat (live_blocks_after m []) = card (live_offsets (idx v) (packs e))"
    using assms(3) by (simp add: live_blocks_after_def entry_ok_def unat_of_nat take_bit_nat_eq_self)
qed

lemma load_existing_keeps:
  assumes "cache_laws ce ix bx" "suffix_true (object_store (store v)) (objects v)" "\<forall>p\<in>set ps. in_manifest (manifest v) ci p"
    and "tiers_ok ix bx v t" "load_existing ce (store v) ci ps t = (r, t')"
  shows "tiers_ok ix bx v t'"
  using load_from_valid [OF assms(1-3), of "[]"] assms(4,5) by (auto simp: load_existing_def rspec_def)

lemma set_live_counts_ok:
  assumes "counts_ok v vm" "entry_ok v ci \<lparr> packs = ps, live_blocks = Some n \<rparr>"
  shows "counts_ok v (set_live_blocks_if_unknown ci ps n vm)"
proof (cases "bt_get (chunks vm) ci")
  case None
  then show ?thesis using assms(1) by (simp add: set_live_blocks_if_unknown_def)
next
  case (Some e)
  have wf: "bt_wf (chunks vm)" using assms(1) by (simp add: counts_ok_def)
  show ?thesis
  proof (cases "live_blocks e = None \<and> packs e = ps")
    case True
    then have "entry_ok v ci (e\<lparr> live_blocks := Some n \<rparr>)" using assms(2) by (simp add: entry_ok_def)
    then show ?thesis
      using True assms(1) Some wf set_bt_insert [of ci "e\<lparr> live_blocks := Some n \<rparr>" "chunks vm"] bt_wf_insert [OF wf]
      by (auto simp: counts_ok_def set_live_blocks_if_unknown_def)
  qed (use Some assms(1) in \<open>auto simp: set_live_blocks_if_unknown_def\<close>)
qed

text \<open>What other tasks may do to the manifest: keep the geometry and every known count right.\<close>

definition careful :: "'s volume \<Rightarrow> (u32 \<Rightarrow> VolumeManifest \<Rightarrow> VolumeManifest) \<Rightarrow> bool" where
  "careful v others \<longleftrightarrow> (\<forall>ci vm. counts_ok v vm \<longrightarrow> counts_ok v (others ci vm) \<and> block_size (others ci vm) = block_size vm)"

definition counted :: "('c \<Rightarrow> PackId \<Rightarrow> PackIndexEntry list option) \<Rightarrow> ('c \<Rightarrow> Blake3Hash \<Rightarrow> bytes option) \<Rightarrow> 's volume
    \<Rightarrow> u32 \<Rightarrow> VolumeManifest \<times> ('s, 'c) tiers \<Rightarrow> bool" where
  "counted ix bx v bs st \<longleftrightarrow> counts_ok v (fst st) \<and> block_size (fst st) = bs \<and> tiers_ok ix bx v (snd st)"

lemma ensure_chunk_counted:
  assumes laws: "cache_laws ce ix bx" "suffix_true (object_store (store v)) (objects v)" "careful v others"
    and e: "entry_ok v ci e" and st: "counted ix bx v bs st" "ensure_chunk ce (store v) others ci (packs e) st = (r, st')"
  shows "counted ix bx v bs st'"
proof -
  obtain vm t where s: "st = (vm, t)" by (cases st)
  obtain l t' where l: "load_existing ce (store v) ci (packs e) t = (l, t')" by force
  have vm: "counts_ok v (others ci vm)" "block_size (others ci vm) = bs" "tiers_ok ix bx v t"
    using st(1) laws(3) by (auto simp: counted_def s careful_def)
  have t': "tiers_ok ix bx v t'"
    using load_existing_keeps [OF laws(1,2) _ vm(3) l] e by (simp add: entry_ok_def)
  show ?thesis
  proof (cases l)
    case (Inl a)
    then show ?thesis using st(2) vm t' by (auto simp: ensure_chunk_def s l counted_def)
  next
    case (Inr m)
    have "entry_ok v ci \<lparr> packs = packs e, live_blocks = Some (live_blocks_after m []) \<rparr>"
      using e load_existing_count(2) [OF laws(1,2) e vm(3) l [unfolded Inr]] by (simp add: entry_ok_def)
    from set_live_counts_ok [OF vm(1) this] show ?thesis
      using st(2) vm t' Inr
      by (auto simp: ensure_chunk_def s l counted_def) (auto simp: set_live_blocks_if_unknown_def split: option.splits)
  qed
qed

lemma ensure_chunks_counted:
  assumes laws: "cache_laws ce ix bx" "suffix_true (object_store (store v)) (objects v)" "careful v others"
  shows "\<lbrakk> \<forall>(ci, ps)\<in>set us. \<exists>e. packs e = ps \<and> entry_ok v ci e; counted ix bx v bs st;
     ensure_chunks ce (store v) others us st = (r, st') \<rbrakk> \<Longrightarrow> counted ix bx v bs st'"
proof (induction us arbitrary: st r st')
  case (Cons u us)
  obtain ci ps where u: "u = (ci, ps)" by (cases u)
  obtain e where e: "packs e = ps" "entry_ok v ci e" using Cons.prems(1) u by auto
  obtain r1 st1 where 1: "ensure_chunk ce (store v) others ci ps st = (r1, st1)" by (meson surj_pair)
  obtain r2 st2 where 2: "ensure_chunks ce (store v) others us st1 = (r2, st2)" by (meson surj_pair)
  have "counted ix bx v bs st1" by (rule ensure_chunk_counted [OF laws e(2) Cons.prems(2) 1 [folded e(1)]])
  then have "counted ix bx v bs st2" using Cons.IH [OF _ _ 2] Cons.prems(1) by simp
  then show ?case using Cons.prems(3) 1 2 u by simp
qed simp

lemma ensure_once_counted:
  assumes "cache_laws ce ix bx" "suffix_true (object_store (store v)) (objects v)" "careful v others"
    and "counted ix bx v bs st" "ensure_once ce (store v) others st = (r, st')"
  shows "counted ix bx v bs st'"
proof (rule ensure_chunks_counted [OF assms(1-3) _ assms(4) assms(5) [unfolded ensure_once_def]])
  show "\<forall>(ci, ps)\<in>set (unknown_live_chunks (fst st)). \<exists>e. packs e = ps \<and> entry_ok v ci e"
    using assms(4) by (auto simp: unknown_live_chunks_def counted_def counts_ok_def)
qed

lemma sum_live_exact:
  assumes "\<forall>(ci, e)\<in>set m. entry_ok v ci e" "sum_live b m = Some (Some n)"
  shows "n = b + (\<Sum>(ci, e)\<leftarrow>m. card (live_offsets (idx v) (packs e)))"
  using assms
proof (induction b m arbitrary: n rule: sum_live.induct)
  case (2 b ci e rest)
  obtain k where k: "live_blocks e = Some k" "sum_live (b + unat k) rest = Some (Some n)" "b + unat k < 2 ^ 64"
    using "2.prems"(2) by (auto split: option.splits if_splits)
  then show ?case using "2.IH" [OF k(1,3)] "2.prems"(1) by (auto simp: entry_ok_def)
qed simp

lemma stored_bytes_live:
  assumes "counts_ok v vm" "stored_bytes vm = Some (Some n)"
  shows "unat n = live_bytes v vm"
proof -
  obtain b where "sum_live 0 (chunks vm) = Some (Some b)" "b * unat (block_size vm) < 2 ^ 64" "n = of_nat (b * unat (block_size vm))"
    using assms(2) by (auto simp: stored_bytes_def split: option.splits if_splits)
  then show ?thesis
    using sum_live_exact [of "chunks vm" v 0 b] assms(1)
    by (simp add: live_bytes_def counts_ok_def unat_of_nat take_bit_nat_eq_self del: of_nat_mult)
qed

text \<open>
  C0: a stored size is never a partial sum.  The figure \<open>stored_bytes_exact\<close> returns is the
  number of blocks of the manifest whose newest entry is live, over all chunks, times the
  block size, whatever other tasks do to the manifest meanwhile as long as they keep the
  counts that are known right.
\<close>

theorem stored_bytes_exact_live:
  assumes "cache_laws ce ix bx" "suffix_true (object_store (store v)) (objects v)" "careful v others"
    and "counts_ok v vm" "tiers_ok ix bx v t"
    and "stored_bytes_exact ce (store v) others (vm, t) = Some (Some n, vm', t')"
  shows "unat n = live_bytes v vm' \<and> counts_ok v vm'"
proof -
  have "exact_rounds k ce (store v) others st = Some (Some n, st') \<Longrightarrow> counted ix bx v (block_size vm) st
    \<Longrightarrow> unat n = live_bytes v (fst st') \<and> counts_ok v (fst st')" for k st st'
  proof (induction k arbitrary: st)
    case 0
    then show ?case using stored_bytes_live by (auto simp: counted_def)
  next
    case (Suc k)
    consider b where "stored_bytes (fst st) = Some (Some b)" | "stored_bytes (fst st) = Some None"
      using Suc.prems(1) by (cases "stored_bytes (fst st)") (auto split: option.splits)
    then show ?case
    proof cases
      case 1
      then show ?thesis using Suc.prems stored_bytes_live by (auto simp: counted_def)
    next
      case 2
      obtain r st1 where e: "ensure_once ce (store v) others st = (r, st1)" by (meson surj_pair)
      then have "counted ix bx v (block_size vm) st1" by (rule ensure_once_counted [OF assms(1-3) Suc.prems(2)])
      then show ?thesis using Suc 2 e by (cases r) auto
    qed
  qed
  from this [of ENSURE_ROUNDS "(vm, t)" "(vm', t')"] show ?thesis
    using assms(4-6) by (simp add: stored_bytes_exact_def counted_def)
qed

end
