(* ===== verification/FlushPath.thy ===== *)
theory FlushPath
  imports Rotation Fence LiveCount
begin

text \<open>
  The flush of \<open>glidefs/src/block/write_cache/flush.rs\<close>: the batch computation over the
  claimed blocks, the selection of what goes into a chunk's pack, the uploads, the manifest
  sync with its fence, eviction, checkpoint and cleanup, the recovery of a failed flush,
  and the operations built on it.  A flush acts on the cache, on the manifest in memory and
  on the tiers below.  \<open>others\<close> is what other tasks do to the cache at each point where the
  code awaits or releases the data file lock.  An outer \<open>None\<close> is a panic of the flush task;
  a panic of the compute task arrives as an error.
\<close>

section \<open>State and environment\<close>

record ('s, 'c) flush_state =
  fc :: CacheInner
  fm :: VolumeManifest
  ft :: "('s, 'c) tiers"

datatype flush_point =
    AfterCrcDrain | AfterRotation | ComputeBlock nat | AfterChunk u32 | AfterUploads | BeforeEvict
  | AfterEvict | CheckpointWriters | CheckpointLate | BeforeRecovery

text \<open>
  \<open>upload_ready\<close> says which of the pending uploads have completed when a chunk is done;
  \<open>upload_order\<close> is the order in which the rest complete.  \<open>sync_io\<close> is the file access of
  the copies back to the active file.
\<close>

record flush_env =
  reading :: read_env
  sync_io :: io_env
  arch :: target_arch
  misalign :: nat
  pack_hash :: "bytes \<Rightarrow> bytes"
  page_crc :: "bytes \<Rightarrow> u32"
  meta_crc :: "bytes \<Rightarrow> u32"
  vm_crc :: "bytes \<Rightarrow> u32"
  rotating :: rotate_env
  unlink_fails :: bool
  joined :: "u32 \<Rightarrow> bool"
  ckpt_fault :: "io_error option"
  ckpt_trunc_ok :: bool
  export_name :: string
  others :: "flush_point \<Rightarrow> CacheInner \<Rightarrow> CacheInner"
  upload_ready :: "u32 \<Rightarrow> u32 \<Rightarrow> bool"
  upload_order :: "u32 list \<Rightarrow> u32 list"

type_synonym ('s, 'c, 'a) fop = "('s, 'c) flush_state \<Rightarrow> ((CacheError + 'a) \<times> ('s, 'c) flush_state) option"

definition fbind :: "('s, 'c, 'a) fop \<Rightarrow> ('a \<Rightarrow> ('s, 'c, 'b) fop) \<Rightarrow> ('s, 'c, 'b) fop" where
  "fbind m f s = (case m s of None \<Rightarrow> None | Some (Inl e, s') \<Rightarrow> Some (Inl e, s') | Some (Inr a, s') \<Rightarrow> f a s')"

definition freturn :: "'a \<Rightarrow> ('s, 'c, 'a) fop" where
  "freturn a s = Some (Inr a, s)"

definition ffail :: "CacheError \<Rightarrow> ('s, 'c, 'a) fop" where
  "ffail e s = Some (Inl e, s)"

definition on_cache :: "'a act \<Rightarrow> ('s, 'c, 'a) fop" where
  "on_cache m s = map_option (\<lambda>(r, c). (r, s\<lparr> fc := c \<rparr>)) (m (fc s))"

definition on_tiers :: "('s, 'c, 'a) rop \<Rightarrow> ('s, 'c, 'a) fop" where
  "on_tiers m s = (case m (ft s) of (r, t) \<Rightarrow> Some (r, s\<lparr> ft := t \<rparr>))"

definition pause :: "flush_env \<Rightarrow> flush_point \<Rightarrow> ('s, 'c, unit) fop" where
  "pause env p s = Some (Inr (), s\<lparr> fc := others env p (fc s) \<rparr>)"

record FlushStats =
  blocks_claimed :: nat
  blocks_deduped :: nat
  blocks_cas_failed :: nat
  blocks_crc_mismatched :: nat
  blocks_crc_raced :: nat
  blocks_cross_deduped :: nat
  packs_uploaded :: nat
  packs_skipped :: nat
  bytes_uploaded :: nat
  touched_chunks :: "u32 list"

definition no_stats :: FlushStats where
  "no_stats = \<lparr> blocks_claimed = 0, blocks_deduped = 0, blocks_cas_failed = 0, blocks_crc_mismatched = 0,
     blocks_crc_raced = 0, blocks_cross_deduped = 0, packs_uploaded = 0, packs_skipped = 0, bytes_uploaded = 0,
     touched_chunks = [] \<rparr>"

section \<open>Computing a batch\<close>

datatype BlockResult =
    Computed nat Blake3Hash "bytes option"
  | Skipped nat bool bool

text \<open>A page is checked when its baseline is not zero; \<open>None\<close> is a slice out of range.\<close>

fun page_mismatch :: "(bytes \<Rightarrow> u32) \<Rightarrow> bytes \<Rightarrow> nat \<Rightarrow> u32 list \<Rightarrow> bool option" where
  "page_mismatch crc buf page [] = Some False"
| "page_mismatch crc buf page (stored # rest) =
     (if stored = 0 then page_mismatch crc buf (page + 1) rest
      else case rust_slice (page * PAGE_SIZE) (min (page * PAGE_SIZE + PAGE_SIZE) (length buf)) buf of
             None \<Rightarrow> None
           | Some p \<Rightarrow> if crc p \<noteq> stored then Some True else page_mismatch crc buf (page + 1) rest)"

definition read_flushing :: "io_env \<Rightarrow> CacheInner \<Rightarrow> bytes \<Rightarrow> nat \<Rightarrow> CacheError + bytes" where
  "read_flushing io c ff b =
     (let valid = valid_bytes c b
      in if valid = 0 then Inr (replicate (bsize c) 0)
         else case read_exact_at io ff valid (b * bsize c) of
                Inl e \<Rightarrow> Inl (Io e) | Inr d \<Rightarrow> Inr (pad_block (bsize c) d))"

text \<open>
  One block of the batch, with the insert into the block cache of what it computed.  The
  state and the baselines are those the block sees when it is processed.
\<close>

definition hash_block :: "flush_env \<Rightarrow> 'c cache_engine \<Rightarrow> bool \<Rightarrow> CacheInner \<Rightarrow> nat \<Rightarrow> bytes
    \<Rightarrow> 'c \<Rightarrow> (CacheError + BlockResult) option \<times> 'c" where
  "hash_block env ce warm c b buf s =
     (if is_zero_block (arch env) (misalign env) buf then (Some (Inr (Computed b (zero_block_hash c) None)), s)
      else let h = blake3 (reading env) buf
        in case compress_block (rd_codec (reading env)) buf (compression_level c) of
             None \<Rightarrow> (None, s)
           | Some z \<Rightarrow> (Some (Inr (Computed b h (Some z))), if warm then block_insert ce h buf s else s))"

definition compute_block :: "flush_env \<Rightarrow> 'c cache_engine \<Rightarrow> bool \<Rightarrow> bytes \<Rightarrow> (nat \<times> u32 list) list \<Rightarrow> CacheInner
    \<Rightarrow> nat \<Rightarrow> 'c \<Rightarrow> (CacheError + BlockResult) option \<times> 'c" where
  "compute_block env ce warm ff crcs c b s =
     (case read_flushing (rd_io (reading env)) c ff b of
        Inl e \<Rightarrow> (Some (Inl e), s)
      | Inr buf \<Rightarrow>
          (case (case map_of crcs b of None \<Rightarrow> Some False | Some pages \<Rightarrow> page_mismatch (page_crc env) buf 0 pages) of
             None \<Rightarrow> (None, s)
           | Some True \<Rightarrow>
               (case sm_get (state_map c) b of
                  None \<Rightarrow> (None, s)
                | Some st \<Rightarrow>
                    if st \<noteq> SYNCING then (Some (Inr (Skipped b True True)), s)
                    else (Some (Inr (Skipped b (bt_get (page_crcs c) (of_nat b) \<noteq> None) True)), s))
           | Some False \<Rightarrow> hash_block env ce warm c b buf s))"

fun compute_blocks :: "flush_env \<Rightarrow> 'c cache_engine \<Rightarrow> bool \<Rightarrow> bytes \<Rightarrow> (nat \<times> u32 list) list \<Rightarrow> nat list
    \<Rightarrow> CacheInner \<times> 'c \<Rightarrow> (CacheError + BlockResult) option list \<times> CacheInner \<times> 'c" where
  "compute_blocks env ce warm ff crcs [] (c, s) = ([], c, s)"
| "compute_blocks env ce warm ff crcs (b # bs) (c, s) =
     (let c = others env (ComputeBlock b) c; (r, s) = compute_block env ce warm ff crcs c b s;
          (rs, st) = compute_blocks env ce warm ff crcs bs (c, s)
      in (r # rs, st))"

record FlushBatch =
  to_upload :: "(Blake3Hash \<times> bytes) list"
  computed :: "(nat \<times> Blake3Hash) list"
  skipped :: "nat list"
  batch_stats :: FlushStats

definition count_skip :: "bool \<Rightarrow> bool \<Rightarrow> FlushStats \<Rightarrow> FlushStats" where
  "count_skip cas_failed crc_mismatched st =
     st\<lparr> blocks_claimed := blocks_claimed st + 1,
         blocks_cas_failed := blocks_cas_failed st + of_bool cas_failed,
         blocks_crc_mismatched := blocks_crc_mismatched st + of_bool crc_mismatched,
         blocks_crc_raced := blocks_crc_raced st + of_bool (crc_mismatched \<and> cas_failed) \<rparr>"

definition count_deduped :: "FlushStats \<Rightarrow> FlushStats" where
  "count_deduped st = st\<lparr> blocks_claimed := blocks_claimed st + 1, blocks_deduped := blocks_deduped st + 1 \<rparr>"

definition count_claimed :: "FlushStats \<Rightarrow> FlushStats" where
  "count_claimed st = st\<lparr> blocks_claimed := blocks_claimed st + 1 \<rparr>"

text \<open>The aggregation stops at the first error; a panic of any block fails the whole task.\<close>

fun aggregate :: "(CacheError + BlockResult) list \<Rightarrow> FlushBatch \<Rightarrow> CacheError + FlushBatch" where
  "aggregate [] acc = Inr acc"
| "aggregate (Inl e # rs) acc = Inl e"
| "aggregate (Inr (Skipped b cas crc) # rs) acc =
     aggregate rs (acc\<lparr> skipped := skipped acc @ [b], batch_stats := count_skip cas crc (batch_stats acc) \<rparr>)"
| "aggregate (Inr (Computed b h z) # rs) acc =
     (let acc = acc\<lparr> computed := computed acc @ [(b, h)] \<rparr>
      in case z of
           None \<Rightarrow> aggregate rs (acc\<lparr> batch_stats := count_deduped (batch_stats acc) \<rparr>)
         | Some data \<Rightarrow>
             if h \<in> fst ` set (to_upload acc)
             then aggregate rs (acc\<lparr> batch_stats := count_deduped (batch_stats acc) \<rparr>)
             else aggregate rs (acc\<lparr> to_upload := to_upload acc @ [(h, data)],
                                   batch_stats := count_claimed (batch_stats acc) \<rparr>))"

definition empty_batch :: FlushBatch where
  "empty_batch = \<lparr> to_upload = [], computed = [], skipped = [], batch_stats = no_stats \<rparr>"

definition compute_flush_batch :: "flush_env \<Rightarrow> 'c cache_engine \<Rightarrow> bool \<Rightarrow> (nat \<times> u32 list) list \<Rightarrow> u32 \<Rightarrow> nat list
    \<Rightarrow> ('s, 'c, FlushBatch) fop" where
  "compute_flush_batch env ce warm crcs ci bs st =
     (case flushing_file (fc st) of
        None \<Rightarrow> Some (Inl (Io OtherError), st)
      | Some ff \<Rightarrow>
          (case compute_blocks env ce warm ff crcs bs (fc st, tc (ft st)) of
             (rs, c, s) \<Rightarrow>
               let st = st\<lparr> fc := c, ft := (ft st)\<lparr> tc := s \<rparr> \<rparr>
               in if None \<in> set rs \<or> \<not> joined env ci then Some (Inl (Io OtherError), st)
                  else Some (aggregate (map the rs) empty_batch, st)))"

definition add_batch_stats :: "FlushStats \<Rightarrow> FlushStats \<Rightarrow> FlushStats" where
  "add_batch_stats acc b =
     acc\<lparr> blocks_claimed := blocks_claimed acc + blocks_claimed b,
            blocks_deduped := blocks_deduped acc + blocks_deduped b,
            blocks_cas_failed := blocks_cas_failed acc + blocks_cas_failed b,
            blocks_crc_mismatched := blocks_crc_mismatched acc + blocks_crc_mismatched b,
            blocks_crc_raced := blocks_crc_raced acc + blocks_crc_raced b \<rparr>"

section \<open>Giving skipped blocks back\<close>

text \<open>
  The copy of a block from the flushing file to the active file under the data file lock;
  the flag says whether it succeeded.
\<close>

definition copy_back :: "io_env \<Rightarrow> bytes \<Rightarrow> nat \<Rightarrow> CacheInner \<Rightarrow> bool \<times> CacheInner" where
  "copy_back io ff b c =
     (let valid = valid_bytes c b
      in if valid = 0 then (True, c)
         else case read_exact_at io ff valid (b * bsize c) of
                Inl _ \<Rightarrow> (False, c)
              | Inr buf \<Rightarrow> (case write_all_at io (data_file c) buf (b * bsize c) of
                  (r, f) \<Rightarrow> (is_ok r, c\<lparr> data_file := f \<rparr>)))"

fun restore_skipped :: "io_env \<Rightarrow> nat list \<Rightarrow> CacheInner \<Rightarrow> CacheInner option" where
  "restore_skipped io [] c = Some c"
| "restore_skipped io (b # bs) c =
     (case sm_get (state_map c) b of
        None \<Rightarrow> None
      | Some st \<Rightarrow>
          (case (case flushing_file c of Some ff \<Rightarrow> if st = SYNCING then copy_back io ff b c else (True, c)
                                       | None \<Rightarrow> (True, c)) of
             (False, c) \<Rightarrow> restore_skipped io bs c
           | (True, c) \<Rightarrow>
               (case ci_transition_to_dirty c b of
                  None \<Rightarrow> None | Some (_, c) \<Rightarrow> restore_skipped io bs c)))"

section \<open>Selecting the blocks of a pack\<close>

definition dominated :: "ExistingBlocks \<Rightarrow> Blake3Hash \<Rightarrow> u32 \<Rightarrow> Blake3Hash \<Rightarrow> bool" where
  "dominated existing zero_hash co h =
     (case bt_get existing co of Some (existing_hash, _) \<Rightarrow> existing_hash = h | None \<Rightarrow> h = zero_hash)"

record selection =
  blocks_for_pack :: "pack_block list"
  packed_indices :: "nat list"
  cross_deduped :: nat

fun select_blocks :: "VolumeManifest \<Rightarrow> ExistingBlocks \<Rightarrow> (Blake3Hash \<times> bytes) list \<Rightarrow> (nat \<times> Blake3Hash) list
    \<Rightarrow> selection \<Rightarrow> CacheInner \<Rightarrow> (selection \<times> CacheInner) option" where
  "select_blocks vm existing by_hash [] sel c = Some (sel, c)"
| "select_blocks vm existing by_hash ((b, h) # rest) sel c =
     (case block_offset_in_chunk vm (of_nat b) of
        None \<Rightarrow> None
      | Some co \<Rightarrow>
          if dominated existing (zero_block_hash c) co h then
            select_blocks vm existing by_hash rest
              (sel\<lparr> packed_indices := packed_indices sel @ [b], cross_deduped := cross_deduped sel + 1 \<rparr>) c
          else (case (if h = zero_block_hash c then Some [] else map_of by_hash h) of
                  Some data \<Rightarrow>
                    select_blocks vm existing by_hash rest
                      (sel\<lparr> blocks_for_pack := blocks_for_pack sel @ [(h, co, data)],
                            packed_indices := packed_indices sel @ [b] \<rparr>) c
                | None \<Rightarrow>
                    (case ci_transition_to_dirty c b of
                       None \<Rightarrow> None
                     | Some (_, c) \<Rightarrow> select_blocks vm existing by_hash rest sel c)))"

definition empty_selection :: selection where
  "empty_selection = \<lparr> blocks_for_pack = [], packed_indices = [], cross_deduped = 0 \<rparr>"

section \<open>Uploads\<close>

record upload =
  up_chunk :: u32
  up_pack :: PackId
  up_live :: "u32 option"
  up_blocks :: "pack_block list"

record progress =
  tally :: FlushStats
  flushed :: "nat list"
  pending :: "upload list"
  staged :: "(u32 \<times> PackId \<times> u32 option) list"

definition finish_upload :: "'c cache_engine \<Rightarrow> 's ContentStore \<Rightarrow> u32 \<Rightarrow> upload \<Rightarrow> progress \<Rightarrow> ('s, 'c, progress) rop" where
  "finish_upload ce cs bpc u pr =
     rbind (of_cs (stream_chunk_pack cs (up_chunk u) (up_pack u) (up_blocks u) bpc)) (\<lambda>es.
     rbind (put_entries ce (up_pack u) es) (\<lambda>_.
       rreturn (pr\<lparr> tally := (tally pr)\<lparr> packs_uploaded := packs_uploaded (tally pr) + 1,
                      bytes_uploaded := bytes_uploaded (tally pr) + sum_list (map (unat \<circ> comp_length) es) \<rparr>,
                    staged := staged pr @ [(up_chunk u, up_pack u, up_live u)] \<rparr>)))"

fun finish_uploads :: "'c cache_engine \<Rightarrow> 's ContentStore \<Rightarrow> u32 \<Rightarrow> upload list \<Rightarrow> progress \<Rightarrow> ('s, 'c, progress) rop" where
  "finish_uploads ce cs bpc [] pr = rreturn pr"
| "finish_uploads ce cs bpc (u # us) pr =
     rbind (finish_upload ce cs bpc u pr) (finish_uploads ce cs bpc us)"

definition drain_ready :: "flush_env \<Rightarrow> 'c cache_engine \<Rightarrow> 's ContentStore \<Rightarrow> u32 \<Rightarrow> u32 \<Rightarrow> progress \<Rightarrow> ('s, 'c, progress) rop" where
  "drain_ready env ce cs bpc ci pr =
     (let ready = (\<lambda>u. upload_ready env ci (up_chunk u))
      in finish_uploads ce cs bpc (filter ready (pending pr)) (pr\<lparr> pending := filter (\<lambda>u. \<not> ready u) (pending pr) \<rparr>))"

text \<open>Each chunk has at most one pending upload, so an order of chunks is an order of uploads.\<close>

definition drain_all :: "flush_env \<Rightarrow> 'c cache_engine \<Rightarrow> 's ContentStore \<Rightarrow> u32 \<Rightarrow> progress \<Rightarrow> ('s, 'c, progress) rop" where
  "drain_all env ce cs bpc pr =
     finish_uploads ce cs bpc
       (concat (map (\<lambda>ci. filter (\<lambda>u. up_chunk u = ci) (pending pr)) (upload_order env (map up_chunk (pending pr)))))
       (pr\<lparr> pending := [] \<rparr>)"

section \<open>One chunk\<close>

definition chunk_packs :: "VolumeManifest \<Rightarrow> u32 \<Rightarrow> PackId list" where
  "chunk_packs vm ci = (case chunk_pack_ids vm ci of Some ids \<Rightarrow> ids | None \<Rightarrow> [])"

definition act_of :: "(CacheInner \<Rightarrow> CacheInner option) \<Rightarrow> unit act" where
  "act_of f c = map_option (\<lambda>c'. (Inr (), c')) (f c)"

definition load_for_flush :: "'c cache_engine \<Rightarrow> 's ContentStore \<Rightarrow> u32 \<Rightarrow> PackId list \<Rightarrow> ('s, 'c, ExistingBlocks) rop" where
  "load_for_flush ce cs ci ids t =
     (case load_existing ce cs ci ids t of (Inl _, t') \<Rightarrow> (Inl (Io OtherError), t') | (Inr m, t') \<Rightarrow> (Inr m, t'))"

definition enqueue_pack :: "flush_env \<Rightarrow> 'c cache_engine \<Rightarrow> 's ContentStore \<Rightarrow> u32 \<Rightarrow> u32 \<Rightarrow> ExistingBlocks \<Rightarrow> selection
    \<Rightarrow> progress \<Rightarrow> ('s, 'c, progress) fop" where
  "enqueue_pack env ce cs bpc ci existing sel pr s =
     (let blocks = blocks_for_pack sel; zero = zero_block_hash (fc s);
          pid = content_pack_id (pack_hash env) blocks;
          live = live_blocks_after existing (map (\<lambda>(h, co, _). (co, h \<noteq> zero)) blocks)
      in if blocks = [] then freturn pr s
         else if pid \<in> set (chunk_packs (fm s) ci)
              then freturn (pr\<lparr> tally := (tally pr)\<lparr> packs_skipped := packs_skipped (tally pr) + 1 \<rparr> \<rparr>) s
         else on_tiers (drain_ready env ce cs bpc ci
                (pr\<lparr> pending := pending pr
                       @ [\<lparr> up_chunk = ci, up_pack = pid, up_live = Some live, up_blocks = blocks \<rparr>] \<rparr>)) s)"

definition flush_chunk :: "flush_env \<Rightarrow> 'c cache_engine \<Rightarrow> 's ContentStore \<Rightarrow> bool \<Rightarrow> (nat \<times> u32 list) list \<Rightarrow> u32
    \<Rightarrow> u32 \<Rightarrow> nat list \<Rightarrow> progress \<Rightarrow> ('s, 'c, progress) fop" where
  "flush_chunk env ce cs warm crcs bpc ci bs pr =
     fbind (compute_flush_batch env ce warm crcs ci bs) (\<lambda>batch.
     fbind (on_cache (act_of (restore_skipped (sync_io env) (skipped batch)))) (\<lambda>_.
     fbind (\<lambda>s. on_tiers (load_for_flush ce cs ci (chunk_packs (fm s) ci)) s) (\<lambda>existing.
     fbind (pause env (AfterChunk ci)) (\<lambda>_ s.
       case select_blocks (fm s) existing (rev (to_upload batch)) (computed batch) empty_selection (fc s) of
         None \<Rightarrow> None
       | Some (sel, c) \<Rightarrow>
           enqueue_pack env ce cs bpc ci existing sel
             (pr\<lparr> tally := (add_batch_stats (tally pr) (batch_stats batch))
                    \<lparr> blocks_cross_deduped := blocks_cross_deduped (tally pr) + cross_deduped sel \<rparr>,
                  flushed := flushed pr @ packed_indices sel \<rparr>) (s\<lparr> fc := c \<rparr>)))))"

fun flush_chunks :: "flush_env \<Rightarrow> 'c cache_engine \<Rightarrow> 's ContentStore \<Rightarrow> bool \<Rightarrow> (nat \<times> u32 list) list \<Rightarrow> u32
    \<Rightarrow> (u32, nat list) btree \<Rightarrow> progress \<Rightarrow> ('s, 'c, progress) fop" where
  "flush_chunks env ce cs warm crcs bpc [] pr = freturn pr"
| "flush_chunks env ce cs warm crcs bpc ((ci, bs) # rest) pr =
     fbind (flush_chunk env ce cs warm crcs bpc ci bs pr) (flush_chunks env ce cs warm crcs bpc rest)"

fun partition_chunks :: "VolumeManifest \<Rightarrow> nat list \<Rightarrow> (u32, nat list) btree \<Rightarrow> (u32, nat list) btree option" where
  "partition_chunks vm [] m = Some m"
| "partition_chunks vm (b # bs) m =
     (case chunk_idx_for_block vm (of_nat b) of
        None \<Rightarrow> None
      | Some ci \<Rightarrow>
          partition_chunks vm bs (bt_insert ci ((case bt_get m ci of Some xs \<Rightarrow> xs | None \<Rightarrow> []) @ [b]) m))"

fun warm_indexes :: "'c cache_engine \<Rightarrow> 's ContentStore \<Rightarrow> (u32 \<times> PackId) list \<Rightarrow> ('s, 'c, unit) rop" where
  "warm_indexes ce cs [] = rreturn ()"
| "warm_indexes ce cs ((ci, p) # ps) =
     rbind (get_entries ce p) (\<lambda>r.
       if r \<noteq> None then warm_indexes ce cs ps
       else rbind (try_cs (get_pack_index cs ci p)) (\<lambda>a. case a of
              Inr es \<Rightarrow> rbind (put_entries ce p es) (\<lambda>_. warm_indexes ce cs ps)
            | Inl _ \<Rightarrow> warm_indexes ce cs ps))"

section \<open>Manifest sync\<close>

text \<open>
  \<open>None\<close> means a transient race or an unreadable manifest.  Decoding never panics, so its
  result is an error or a manifest.
\<close>

definition fenced_by_newer_token :: "flush_env \<Rightarrow> 's ContentStore \<Rightarrow> ('s, 'c, CacheError option) fop" where
  "fenced_by_newer_token env cs s =
     (let held = current_generation (fc s); held_token = compose_token held (current_lease_revision (fc s))
      in if held_token = 0 then freturn None s
         else case get_manifest cs (export_name env) (tw (ft s)) of
                (r, w) \<Rightarrow>
                  let s = s\<lparr> ft := (ft s)\<lparr> tw := w \<rparr> \<rparr>
                  in (case r of
                        Inr (Some (data, _)) \<Rightarrow>
                          (case deserialize (vm_crc env) data of
                             Inl _ \<Rightarrow> freturn None s
                           | Inr vm \<Rightarrow>
                               if compose_token (generation vm) (lease_revision vm) \<le> held_token then freturn None s
                               else freturn (Some (Fenced held (generation vm))) (s\<lparr> fc := (fc s)\<lparr> fenced := True \<rparr> \<rparr>))
                      | _ \<Rightarrow> freturn None s))"

definition fence_or :: "flush_env \<Rightarrow> 's ContentStore \<Rightarrow> ContentStoreError \<Rightarrow> ('s, 'c, 'a) fop" where
  "fence_or env cs e =
     fbind (fenced_by_newer_token env cs) (\<lambda>r. ffail (case r of Some f \<Rightarrow> f | None \<Rightarrow> CacheError.ContentStore e))"

definition put_manifest_now :: "flush_env \<Rightarrow> 's ContentStore \<Rightarrow> bytes \<Rightarrow> string option
    \<Rightarrow> ('s, 'c, ContentStoreError + string option) fop" where
  "put_manifest_now env cs data etag s =
     (case put_manifest cs (export_name env) data etag (tw (ft s)) of
        (r, w) \<Rightarrow> Some (Inr r, s\<lparr> ft := (ft s)\<lparr> tw := w \<rparr> \<rparr>))"

fun put_attempts :: "flush_env \<Rightarrow> 's ContentStore \<Rightarrow> bytes \<Rightarrow> string option \<Rightarrow> nat \<Rightarrow> ContentStoreError option
    \<Rightarrow> ('s, 'c, unit) fop" where
  "put_attempts env cs data etag 0 last_err =
     (case last_err of Some e \<Rightarrow> ffail (CacheError.ContentStore e) | None \<Rightarrow> freturn ())"
| "put_attempts env cs data etag (Suc n) last_err =
     fbind (put_manifest_now env cs data etag) (\<lambda>r s. case r of
       Inr new_etag \<Rightarrow> freturn () (s\<lparr> fc := (fc s)\<lparr> manifest_etag := new_etag \<rparr> \<rparr>)
     | Inl e \<Rightarrow> if e = PreconditionFailed then fence_or env cs e s
                else put_attempts env cs data etag n (Some e) s)"

definition serialized :: "flush_env \<Rightarrow> ('s, 'c, bytes) fop" where
  "serialized env s =
     (case serialize (vm_crc env) (fm s) of Inl e \<Rightarrow> ffail (ManifestFailed e) s | Inr data \<Rightarrow> freturn data s)"

definition sync_staged :: "flush_env \<Rightarrow> 's ContentStore \<Rightarrow> ('s, 'c, unit) fop" where
  "sync_staged env cs =
     fbind (serialized env) (\<lambda>data s. put_attempts env cs data (manifest_etag (fc s)) 3 None s)"

definition apply_staged :: "progress \<Rightarrow> ('s, 'c, progress) fop" where
  "apply_staged pr s =
     (if staged pr = [] then freturn pr s
      else freturn (pr\<lparr> tally := (tally pr)\<lparr> touched_chunks := remdups (map fst (staged pr)) \<rparr> \<rparr>)
             (s\<lparr> fm := (fold (\<lambda>(ci, pid, live). append_pack ci pid live) (staged pr) (fm s))
                    \<lparr> generation := current_generation (fc s), lease_revision := current_lease_revision (fc s) \<rparr> \<rparr>))"

section \<open>Eviction and cleanup\<close>

fun evict_blocks :: "nat list \<Rightarrow> CacheInner \<Rightarrow> (nat \<times> CacheInner) option" where
  "evict_blocks [] c = Some (0, c)"
| "evict_blocks (b # bs) c =
     (case ci_transition_syncing_to_not_present c b of
        None \<Rightarrow> None
      | Some (won, c) \<Rightarrow> map_option (\<lambda>(n, c). (n + of_bool (\<not> won), c)) (evict_blocks bs c))"

definition end_rotation :: "CacheInner \<Rightarrow> CacheInner" where
  "end_rotation c = c\<lparr> flushing_active := False, rotation_seq := 0, flushing_file := None \<rparr>"

definition unlink_flushing :: "flush_env \<Rightarrow> CacheInner \<Rightarrow> CacheInner" where
  "unlink_flushing env c = (if unlink_fails env then c else c\<lparr> flushing_disk := None \<rparr>)"

text \<open>A failed checkpoint keeps the flushing file on disk.\<close>

definition checkpoint_and_clean :: "flush_env \<Rightarrow> ('s, 'c, unit) fop" where
  "checkpoint_and_clean env s =
     (case checkpoint (meta_crc env) (ckpt_fault env) (ckpt_trunc_ok env) (others env CheckpointWriters)
             (others env CheckpointLate) (fc s) of
        None \<Rightarrow> None
      | Some (Inl _, c) \<Rightarrow> freturn () (s\<lparr> fc := end_rotation c \<rparr>)
      | Some (Inr _, c) \<Rightarrow> freturn () (s\<lparr> fc := unlink_flushing env (end_rotation c) \<rparr>))"

definition evict_flushed :: "progress \<Rightarrow> ('s, 'c, FlushStats) fop" where
  "evict_flushed pr s =
     (case evict_blocks (flushed pr) (fc s) of
        None \<Rightarrow> None
      | Some (lost, c) \<Rightarrow>
          freturn ((tally pr)\<lparr> blocks_cas_failed := blocks_cas_failed (tally pr) + lost \<rparr>) (s\<lparr> fc := c \<rparr>))"

section \<open>The flush\<close>

definition start_progress :: progress where
  "start_progress = \<lparr> tally = no_stats, flushed = [], pending = [], staged = [] \<rparr>"

definition flush_dirty_body :: "flush_env \<Rightarrow> 'c cache_engine \<Rightarrow> 's ContentStore \<Rightarrow> bool \<Rightarrow> (nat \<times> u32 list) list
    \<Rightarrow> nat list \<Rightarrow> ('s, 'c, FlushStats) fop" where
  "flush_dirty_body env ce cs warm crcs snapshot s =
     (case partition_chunks (fm s) snapshot [] of
        None \<Rightarrow> None
      | Some per_chunk \<Rightarrow>
          (case blocks_per_chunk (fm s) of
             None \<Rightarrow> None
           | Some bpc \<Rightarrow>
               fbind (on_tiers (warm_indexes ce cs
                        (concat (map (\<lambda>(ci, _). map (Pair ci) (chunk_packs (fm s) ci)) per_chunk)))) (\<lambda>_.
               fbind (flush_chunks env ce cs warm crcs bpc per_chunk start_progress) (\<lambda>pr.
               fbind (on_tiers (drain_all env ce cs bpc pr)) (\<lambda>pr.
               fbind (apply_staged pr) (\<lambda>pr.
               fbind (pause env AfterUploads) (\<lambda>_.
               fbind (if staged pr = [] then freturn () else sync_staged env cs) (\<lambda>_.
               fbind (pause env BeforeEvict) (\<lambda>_.
               fbind (evict_flushed pr) (\<lambda>stats.
               fbind (pause env AfterEvict) (\<lambda>_.
               fbind (checkpoint_and_clean env) (\<lambda>_. freturn stats)))))))))) s))"

text \<open>
  The recovery of a failed flush: under the data file lock every claimed block is copied
  back, unless it has left the syncing state already.
\<close>

fun recover_blocks_back :: "io_env \<Rightarrow> nat list \<Rightarrow> CacheInner \<Rightarrow> (nat list \<times> CacheInner) option" where
  "recover_blocks_back io [] c = Some ([], c)"
| "recover_blocks_back io (b # bs) c =
     (case sm_get (state_map c) b of
        None \<Rightarrow> None
      | Some st \<Rightarrow>
          (case (if st \<noteq> SYNCING then (True, c)
                 else case flushing_file c of Some ff \<Rightarrow> copy_back io ff b c | None \<Rightarrow> (False, c)) of
             (ok, c) \<Rightarrow>
               map_option (\<lambda>(recovered, c). (if ok then b # recovered else recovered, c)) (recover_blocks_back io bs c)))"

fun drop_stranded :: "nat list \<Rightarrow> CacheInner \<Rightarrow> CacheInner option" where
  "drop_stranded [] c = Some c"
| "drop_stranded (b # bs) c =
     (case sm_get (state_map c) b of
        None \<Rightarrow> None
      | Some st \<Rightarrow>
          if st = SYNCING then
            (case ci_transition_syncing_to_not_present c b of None \<Rightarrow> None | Some (_, c) \<Rightarrow> drop_stranded bs c)
          else drop_stranded bs c)"

fun all_to_dirty :: "nat list \<Rightarrow> CacheInner \<Rightarrow> CacheInner option" where
  "all_to_dirty [] c = Some c"
| "all_to_dirty (b # bs) c =
     (case ci_transition_to_dirty c b of None \<Rightarrow> None | Some (_, c) \<Rightarrow> all_to_dirty bs c)"

definition recover_flush :: "flush_env \<Rightarrow> nat list \<Rightarrow> CacheInner \<Rightarrow> CacheInner option" where
  "recover_flush env snapshot c =
     (case recover_blocks_back (sync_io env) snapshot c of
        None \<Rightarrow> None
      | Some (recovered, c) \<Rightarrow>
          let c = c\<lparr> flushing_active := False, rotation_seq := 0 \<rparr>
          in (case drop_stranded (filter (\<lambda>b. b \<notin> set recovered) snapshot) c of
                None \<Rightarrow> None
              | Some c \<Rightarrow> all_to_dirty recovered (unlink_flushing env (c\<lparr> flushing_file := None \<rparr>))))"

text \<open>What \<open>flush_dirty_inner\<close> does first; the flag says whether the flush goes on.\<close>

definition clear_stale :: "flush_env \<Rightarrow> bool act" where
  "clear_stale env c =
     (if flushing_disk c = None then Some (Inr True, c)
      else let active = (flushing_active c \<or> flushing_file c \<noteq> None); stale = (active \<and> \<not> has_any_syncing c)
        in if \<not> active \<or> stale then
             let c = (if stale then end_rotation c else c)
             in if unlink_fails env then Some (Inr False, c) else Some (Inr True, c\<lparr> flushing_disk := None \<rparr>)
           else Some (Inr False, c))"

definition drain_crcs :: "(nat \<times> u32 list) list act" where
  "drain_crcs c = (case drain_page_crcs (page_crcs c) of (crcs, m) \<Rightarrow> Some (Inr crcs, c\<lparr> page_crcs := m \<rparr>))"

definition flush_dirty_inner :: "flush_env \<Rightarrow> 'c cache_engine \<Rightarrow> 's ContentStore \<Rightarrow> bool
    \<Rightarrow> ('s, 'c, FlushStats \<times> u64) fop" where
  "flush_dirty_inner env ce cs warm s =
     (let seq = seq_current (sequence (fc s))
      in fbind (on_cache (clear_stale env)) (\<lambda>go.
           if \<not> go then freturn (no_stats, seq)
           else fbind (on_cache drain_crcs) (\<lambda>crcs.
                fbind (pause env AfterCrcDrain) (\<lambda>_.
                fbind (on_cache (rotate_and_snapshot (rotating env))) (\<lambda>snapshot.
                fbind (pause env AfterRotation) (\<lambda>_ s.
                  if snapshot = [] then
                    freturn (no_stats, seq) (s\<lparr> fc := unlink_flushing env (end_rotation (fc s)) \<rparr>)
                  else (case flush_dirty_body env ce cs warm crcs snapshot s of
                          None \<Rightarrow> None
                        | Some (Inr stats, s) \<Rightarrow> Some (Inr (stats, seq), s)
                        | Some (Inl e, s) \<Rightarrow>
                            map_option (\<lambda>c. (Inl e, s\<lparr> fc := c \<rparr>))
                              (recover_flush env snapshot (others env BeforeRecovery (fc s))))))))) s)"

section \<open>Operations built on the flush\<close>

definition flush_packs :: "flush_env \<Rightarrow> 'c cache_engine \<Rightarrow> 's ContentStore \<Rightarrow> bool \<Rightarrow> ('s, 'c, FlushStats \<times> u64) fop" where
  "flush_packs env ce cs warm s =
     (if handoff_active (fc s) then freturn (no_stats, 0) s else flush_dirty_inner env ce cs warm s)"

definition sync_manifest :: "flush_env \<Rightarrow> 's ContentStore \<Rightarrow> ('s, 'c, unit) fop" where
  "sync_manifest env cs =
     fbind (serialized env) (\<lambda>data s.
     fbind (put_manifest_now env cs data (manifest_etag (fc s))) (\<lambda>r s. case r of
       Inl e \<Rightarrow> ffail (CacheError.ContentStore e) s
     | Inr new_etag \<Rightarrow>
         fbind (on_cache (checkpoint (meta_crc env) (ckpt_fault env) (ckpt_trunc_ok env)
                  (others env CheckpointWriters) (others env CheckpointLate))) (\<lambda>_ s.
           freturn () (s\<lparr> fc := unlink_flushing env (fc s) \<rparr>))
         (s\<lparr> fc := (fc s)\<lparr> manifest_etag := new_etag \<rparr> \<rparr>)) s)"

definition PUBLISH_FLUSH_PASSES :: nat where "PUBLISH_FLUSH_PASSES = 3"

text \<open>The passes left; the environment of a pass is that of its number.\<close>

fun flush_passes :: "(nat \<Rightarrow> flush_env) \<Rightarrow> 'c cache_engine \<Rightarrow> 's ContentStore \<Rightarrow> nat \<Rightarrow> ('s, 'c, FlushStats \<times> u64) fop" where
  "flush_passes envs ce cs 0 = ffail Panicked"
| "flush_passes envs ce cs (Suc n) =
     fbind (flush_dirty_inner (envs n) ce cs False) (\<lambda>(stats, seq).
       if blocks_crc_mismatched stats = 0 then freturn (stats, seq)
       else if blocks_crc_mismatched stats - blocks_crc_raced stats > 0 \<or> n = 0
            then ffail (FlushSkippedBlocks (blocks_crc_mismatched stats))
       else flush_passes envs ce cs n)"

definition flush_until_no_skips :: "(nat \<Rightarrow> flush_env) \<Rightarrow> 'c cache_engine \<Rightarrow> 's ContentStore \<Rightarrow> nat
    \<Rightarrow> ('s, 'c, FlushStats \<times> u64) fop" where
  "flush_until_no_skips envs ce cs max_passes = flush_passes envs ce cs (max 1 max_passes)"

definition flush_to_s3 :: "(nat \<Rightarrow> flush_env) \<Rightarrow> 'c cache_engine \<Rightarrow> 's ContentStore \<Rightarrow> ('s, 'c, FlushStats) fop" where
  "flush_to_s3 envs ce cs =
     fbind (flush_until_no_skips envs ce cs PUBLISH_FLUSH_PASSES) (\<lambda>(stats, _).
       if packs_uploaded stats \<noteq> 0 then freturn stats
       else fbind (serialized (envs 0)) (\<lambda>data s.
            fbind (put_manifest_now (envs 0) cs data (manifest_etag (fc s))) (\<lambda>r s. case r of
              Inr new_etag \<Rightarrow> freturn stats (s\<lparr> fc := (fc s)\<lparr> manifest_etag := new_etag \<rparr> \<rparr>)
            | Inl e \<Rightarrow> if e = PreconditionFailed then fence_or (envs 0) cs e s
                       else ffail (CacheError.ContentStore e) s) s))"

record SnapshotResult =
  sr_manifest_etag :: "string option"
  sr_sequence :: u64
  snapshot_persisted :: bool
  sr_stats :: FlushStats
  sr_manifest_bytes :: bytes

fun put_snapshot_attempts :: "string \<Rightarrow> 's ContentStore \<Rightarrow> u64 \<Rightarrow> bytes \<Rightarrow> nat \<Rightarrow> 's world \<Rightarrow> bool \<times> 's world" where
  "put_snapshot_attempts name cs seq data 0 w = (False, w)"
| "put_snapshot_attempts name cs seq data (Suc n) w =
     (case put_snapshot cs name seq data w of
        (Inr _, w') \<Rightarrow> (True, w') | (Inl _, w') \<Rightarrow> put_snapshot_attempts name cs seq data n w')"

definition snapshot :: "(nat \<Rightarrow> flush_env) \<Rightarrow> 'c cache_engine \<Rightarrow> 's ContentStore \<Rightarrow> ('s, 'c, SnapshotResult) fop" where
  "snapshot envs ce cs =
     fbind (flush_until_no_skips envs ce cs PUBLISH_FLUSH_PASSES) (\<lambda>(stats, seq).
     fbind (serialized (envs 0)) (\<lambda>data s.
       case put_snapshot_attempts (export_name (envs 0)) cs seq data 3 (tw (ft s)) of
         (persisted, w) \<Rightarrow>
           freturn \<lparr> sr_manifest_etag = manifest_etag (fc s), sr_sequence = seq, snapshot_persisted = persisted,
                     sr_stats = stats, sr_manifest_bytes = data \<rparr>
             (s\<lparr> ft := (ft s)\<lparr> tw := w \<rparr> \<rparr>)))"

end
