(* ===== verification/FlushSafe.thy ===== *)
theory FlushSafe
  imports FlushPath
begin

text \<open>
  A flush is invisible to the guest: whatever the object store answers and wherever the
  flush fails, the bytes the guest sees change only by what other tasks do meanwhile.
\<close>

section \<open>What the store promises\<close>

text \<open>
  A request touches no object but the one it names; an acknowledged create has stored the
  object, and one that is refused because the object exists has found it there.
\<close>

definition put_laws :: "'s object_store \<Rightarrow> ('s \<Rightarrow> string \<Rightarrow> bytes option) \<Rightarrow> bool" where
  "put_laws os obj \<longleftrightarrow>
     (\<forall>p d m s q. q \<noteq> p \<longrightarrow> obj (snd (os_put os p d m s)) q = obj s q)
   \<and> (\<forall>p d s t. fst (os_put os p d Create s) = Inr t \<longrightarrow> obj (snd (os_put os p d Create s)) p = Some d)
   \<and> (\<forall>p d s. fst (os_put os p d Create s) = Inl OsAlreadyExists \<longrightarrow>
        obj s p \<noteq> None \<and> obj (snd (os_put os p d Create s)) p = obj s p)
   \<and> (\<forall>p s. obj (snd (os_multipart os p s)) = obj s)
   \<and> (\<forall>p r s q. q \<noteq> p \<longrightarrow> obj (os_settle os p r s) q = obj s q)
   \<and> (\<forall>p d s. obj (os_settle os p (Inr d) s) p = Some d)"

lemma check_circuit_remote: "check_circuit cs w = (r, w') \<Longrightarrow> remote w' = remote w"
  by (auto simp: check_circuit_def split: option.splits prod.splits bool.splits)

lemma record_remote [simp]: "remote (record_s3_result cs r w) = remote w" "remote (cb_success cs w) = remote w"
  by (simp_all add: record_s3_result_def cb_success_def cb_failure_def split: sum.splits)

lemma small_pack_stored:
  assumes law: "put_laws (object_store cs) obj" and run: "put_small_pack cs path blocks z w = (r, w')"
  shows "q \<noteq> path \<Longrightarrow> obj (remote w') q = obj (remote w) q"
    and "r = Inr es \<Longrightarrow> \<exists>pk. assemble_pack blocks z = Inr (pk, es)
       \<and> (obj (remote w') path = Some pk \<or> obj (remote w) path \<noteq> None \<and> obj (remote w') path = obj (remote w) path)"
proof -
  obtain a s where p: "os_put (object_store cs) path (fst (projr (assemble_pack blocks z))) Create (remote w) = (a, s)"
    by force
  have law': "\<And>q. q \<noteq> path \<Longrightarrow> obj s q = obj (remote w) q"
    "\<And>t. a = Inr t \<Longrightarrow> obj s path = Some (fst (projr (assemble_pack blocks z)))"
    "a = Inl OsAlreadyExists \<Longrightarrow> obj (remote w) path \<noteq> None \<and> obj s path = obj (remote w) path"
    using law p unfolding put_laws_def by (metis fst_conv snd_conv)+
  show "q \<noteq> path \<Longrightarrow> obj (remote w') q = obj (remote w) q"
    using run p law'(1) by (auto simp: put_small_pack_def Let_def split: sum.splits prod.splits if_splits)
  show "\<exists>pk. assemble_pack blocks z = Inr (pk, es)
       \<and> (obj (remote w') path = Some pk \<or> obj (remote w) path \<noteq> None \<and> obj (remote w') path = obj (remote w) path)"
    if "r = Inr es"
    using run p law'(2,3) that by (auto simp: put_small_pack_def Let_def split: sum.splits prod.splits if_splits)
qed

lemma large_pack_stored:
  assumes law: "put_laws (object_store cs) obj" and run: "put_large_pack cs path blocks z w = (r, w')"
  shows "q \<noteq> path \<Longrightarrow> obj (remote w') q = obj (remote w) q"
    and "r = Inr es \<Longrightarrow> \<exists>pk. assemble_pack blocks z = Inr (pk, es) \<and> obj (remote w') path = Some pk"
proof -
  obtain a s where m: "os_multipart (object_store cs) path (remote w) = (a, s)" by force
  then have s: "obj s = obj (remote w)" using law unfolding put_laws_def by (metis snd_conv)
  obtain w1 where w1: "issue cs (os_multipart (object_store cs) path) w = (a, w1)" "obj (remote w1) = obj (remote w)"
    using m s by (simp add: issue_def)
  have set: "\<And>q r v. q \<noteq> path \<Longrightarrow> obj (os_settle (object_store cs) path r v) q = obj v q"
    "\<And>d v. obj (os_settle (object_store cs) path (Inr d) v) path = Some d"
    using law by (simp_all add: put_laws_def)
  show "q \<noteq> path \<Longrightarrow> obj (remote w') q = obj (remote w) q"
    using run w1 set(1) by (auto simp: put_large_pack_def Let_def split: sum.splits option.splits)
  assume r: "r = Inr es"
  let ?env = "os_upload (object_store cs) path (remote w1)"
  obtain wr d where wr: "stream_pack_to_writer ?env blocks z (new_with_part_size PART_SIZE) = Some (Inr (es, wr))"
      "fst (finish ?env wr) = Inr d" "remote w' = os_settle (object_store cs) path (Inr d) (remote w1)"
    using run w1 r by (auto simp: put_large_pack_def Let_def split: sum.splits option.splits)
  obtain pk where pk: "assemble_pack blocks z = Inr (pk, es)" "written wr = written (new_with_part_size PART_SIZE) @ pk"
    using stream_pack_written [OF wr(1)] by blast
  have "finish ?env wr = (Inr d, snd (finish ?env wr))" using wr(2) by (metis prod.collapse)
  from finish_object [OF this] have "d = pk" using pk(2) by (simp add: new_with_part_size_def written_def)
  then show "\<exists>pk. assemble_pack blocks z = Inr (pk, es) \<and> obj (remote w') path = Some pk"
    using pk(1) wr(3) set(2) by simp
qed

lemma chunk_pack_stored:
  assumes law: "put_laws (object_store cs) obj" and run: "stream_chunk_pack cs ci p blocks z w = (r, w')"
  shows "q \<noteq> pack_path cs ci p \<Longrightarrow> obj (remote w') q = obj (remote w) q"
    and "r = Inr es \<Longrightarrow> \<exists>pk. assemble_pack blocks z = Inr (pk, es)
       \<and> (obj (remote w') (pack_path cs ci p) = Some pk
          \<or> obj (remote w) (pack_path cs ci p) \<noteq> None \<and> obj (remote w') (pack_path cs ci p) = obj (remote w) (pack_path cs ci p))"
proof -
  obtain a w1 where c: "check_circuit cs w = (a, w1)" by force
  have w1: "remote w1 = remote w" by (rule check_circuit_remote [OF c])
  have cases: "w' = w1 \<and> \<not> is_ok r
    \<or> put_small_pack cs (pack_path cs ci p) blocks z w1 = (r, w')
    \<or> put_large_pack cs (pack_path cs ci p) blocks z w1 = (r, w')"
    using run c by (cases a) (auto simp: stream_chunk_pack_def cs_bind_def Let_def split: if_splits)
  then show "q \<noteq> pack_path cs ci p \<Longrightarrow> obj (remote w') q = obj (remote w) q"
    using w1 small_pack_stored(1) [OF law] large_pack_stored(1) [OF law] by auto
  assume r: "r = Inr es"
  from cases show "\<exists>pk. assemble_pack blocks z = Inr (pk, es)
       \<and> (obj (remote w') (pack_path cs ci p) = Some pk
          \<or> obj (remote w) (pack_path cs ci p) \<noteq> None \<and> obj (remote w') (pack_path cs ci p) = obj (remote w) (pack_path cs ci p))"
  proof (elim disjE)
    assume "put_small_pack cs (pack_path cs ci p) blocks z w1 = (r, w')"
    from small_pack_stored(2) [OF law this r] show ?thesis unfolding w1 .
  next
    assume "put_large_pack cs (pack_path cs ci p) blocks z w1 = (r, w')"
    from large_pack_stored(2) [OF law this r] show ?thesis by blast
  qed (use r in simp)
qed

section \<open>The guest's image\<close>

definition gimg :: "(nat \<Rightarrow> byte) \<Rightarrow> CacheInner \<Rightarrow> bytes" where
  "gimg R c = map (view R c) [0..<dsize c]"

text \<open>
  What other tasks may do during a flush: they leave the flushing file alone, start no
  flush of their own and drop no block that only the cache holds.
\<close>

definition rely :: "CacheInner \<Rightarrow> CacheInner \<Rightarrow> bool" where
  "rely c c' \<longleftrightarrow> ci_wf c' \<and> config c' = config c \<and> flushing_file c' = flushing_file c
     \<and> zero_block_hash c' = zero_block_hash c \<and> compression_level c' = compression_level c
     \<and> (\<forall>i<num_blocks c. (states c' ! i = SYNCING \<longrightarrow> states c ! i = SYNCING) \<and> (has_local c i \<longrightarrow> has_local c' i))"

definition ext :: "(bytes \<Rightarrow> bytes \<Rightarrow> bool) \<Rightarrow> CacheInner \<Rightarrow> CacheInner \<Rightarrow> bool" where
  "ext V c c' \<longleftrightarrow> rely c c' \<and> (\<forall>R. V (gimg R c) (gimg R c'))"

definition tolerant :: "flush_env \<Rightarrow> (bytes \<Rightarrow> bytes \<Rightarrow> bool) \<Rightarrow> bool" where
  "tolerant env V \<longleftrightarrow> reflp V \<and> transp V \<and> (\<forall>p c. ci_wf c \<longrightarrow> ext V c (others env p c))"

lemma ci_wf_blocks: "ci_wf c \<Longrightarrow> num_blocks c = cfg_num_blocks (config c)"
  by (simp add: ci_wf_def geometry_ok_def)

lemma rely_refl: "ci_wf c \<Longrightarrow> rely c c"
  by (simp add: rely_def)

lemma rely_trans: "\<lbrakk> ci_wf a; rely a b; rely b c \<rbrakk> \<Longrightarrow> rely a c"
  using ci_wf_blocks [of a] ci_wf_blocks [of b] by (auto simp: rely_def)

lemma ext_refl: "\<lbrakk> tolerant env V; ci_wf c \<rbrakk> \<Longrightarrow> ext V c c"
  by (simp add: ext_def rely_refl tolerant_def reflp_def)

lemma ext_trans:
  assumes "tolerant env V" "ci_wf a" "ext V a b" "ext V b c"
  shows "ext V a c"
proof -
  have "V (gimg R a) (gimg R c)" for R
    using assms unfolding ext_def tolerant_def by (meson transpD)
  then show ?thesis using assms rely_trans by (auto simp: ext_def)
qed

lemma ext_wf: "ext V c c' \<Longrightarrow> ci_wf c'"
  by (simp add: ext_def rely_def)

lemma ext_same: "\<lbrakk> tolerant env V; rely c c'; \<And>R. gimg R c' = gimg R c \<rbrakk> \<Longrightarrow> ext V c c'"
  by (simp add: ext_def tolerant_def reflp_def)

lemma ext_others: "\<lbrakk> tolerant env V; ci_wf c \<rbrakk> \<Longrightarrow> ext V c (others env p c)"
  by (simp add: tolerant_def)

lemma gimg_cong:
  assumes "dsize c' = dsize c" "\<And>k. k < dsize c \<Longrightarrow> view R' c' k = view R c k"
  shows "gimg R' c' = gimg R c"
  using assms by (simp add: gimg_def)

lemma restored_img:
  assumes wf: "ci_wf c" and ff: "flushing_file c = Some ff" and b: "b < num_blocks c" "states c ! b = SYNCING"
    and c': "config c' = config c" "flushing_file c' = flushing_file c" "states c' = (states c)[b := DIRTY]"
      "data_file c' = overwrite (data_file c) (b * bsize c) (blk c ff b)"
  shows "gimg R c' = gimg R c"
proof (rule gimg_cong)
  show "dsize c' = dsize c" using c'(1) by simp
  fix k assume k: "k < dsize c"
  have g: "geometry_ok c" and len: "length (data_file c) = dsize c" "length ff = dsize c"
    using wf ff by (simp_all add: ci_wf_def)
  have i: "k div bsize c < length (states c)" using block_of_byte [OF g k] length_states [OF wf] by simp
  note vb = valid_bytes_bounds [OF g b(1)] and lb = length_blk [OF g b(1) len(2)]
  have data: "data_file c' ! k = (if k div bsize c = b then ff ! k else data_file c ! k)"
    using nth_overwrite [of "b * bsize c" "blk c ff b" "data_file c" k] in_block_iff [OF g k, of b]
      nth_blk [OF g k len(2)] lb vb(2) len(1) k c'(4) by auto
  show "view R c' k = view R c k"
  proof (cases "k div bsize c = b")
    case True
    then show ?thesis
      using k data b(2) ff c' i by (simp add: view_def nth_src_file promoted_def promotable_def)
  next
    case False
    then have "states c' ! (k div bsize c) = states c ! (k div bsize c)" using c'(3) by simp
    moreover have "promoted c' (k div bsize c) = promoted c (k div bsize c)"
      by (rule promoted_cong [OF c'(1,2) calculation])
    ultimately show ?thesis using k data False c'(1,2) by (simp add: view_def nth_src_file)
  qed
qed

lemma copy_back_ok:
  assumes io: "io_works io" and wf: "ci_wf c" and ff: "flushing_file c = Some ff" and b: "b < num_blocks c"
  shows "copy_back io ff b c = (True, c\<lparr> data_file := overwrite (data_file c) (b * bsize c) (blk c ff b) \<rparr>)"
proof -
  have g: "geometry_ok c" and len: "length ff = dsize c" using wf ff by (simp_all add: ci_wf_def)
  note vb = valid_bytes_bounds [OF g b]
  show ?thesis
    using io vb len by (simp add: copy_back_def Let_def read_exact_at_def write_all_at_def blk_def)
qed

lemma overwrite_wf:
  assumes wf: "ci_wf c" and ff: "flushing_file c = Some ff" and b: "b < num_blocks c"
  shows "ci_wf (c\<lparr> data_file := overwrite (data_file c) (b * bsize c) (blk c ff b) \<rparr>)"
proof -
  have g: "geometry_ok c" and len: "length (data_file c) = dsize c" "length ff = dsize c"
    using wf ff by (simp_all add: ci_wf_def)
  then show ?thesis
    using wf length_blk [OF g b len(2)] valid_bytes_bounds(2) [OF g b]
    by (simp add: ci_wf_def counters_ok_def geometry_ok_def states_def)
qed

lemma to_dirty_rely:
  assumes wf: "ci_wf c" "b < num_blocks c" "has_local c b" and t: "ci_transition_to_dirty c b = Some (w, c')"
  shows "rely c c'" "states c' = (states c)[b := DIRTY]" "same_rest c c'"
proof -
  obtain c1 where c1: "ci_transition_to_dirty c b = Some (states c ! b \<noteq> DIRTY, c1)" "ci_wf c1"
      "states c1 = (states c)[b := DIRTY]" "same_rest c c1"
    using ci_transition_to_dirty_ok [OF wf(1,2)] by blast
  then show "states c' = (states c)[b := DIRTY]" "same_rest c c'" using t by simp_all
  show "rely c c'"
    using c1 t wf same_rest_simps(1,3,16,17) [OF c1(4)] length_states [OF wf(1)]
    by (auto simp: rely_def nth_list_update)
qed

lemma restore_one:
  assumes tol: "tolerant env V" and io: "io_works io" and wf: "ci_wf c" and ff: "flushing_file c = Some ff"
    and b: "b < num_blocks c" "has_local c b"
  shows "\<exists>c'. restore_skipped io (b # bs) c = restore_skipped io bs c' \<and> ext V c c' \<and> states c' ! b = DIRTY"
proof (cases "states c ! b = SYNCING")
  case True
  let ?d = "c\<lparr> data_file := overwrite (data_file c) (b * bsize c) (blk c ff b) \<rparr>"
  have d: "ci_wf ?d" "b < num_blocks ?d" "has_local ?d b"
    using overwrite_wf [OF wf ff b(1)] b by (simp_all add: states_def)
  obtain w c' where t: "ci_transition_to_dirty ?d b = Some (w, c')"
    using ci_transition_to_dirty_ok [OF d(1,2)] by blast
  note r = to_dirty_rely [OF d t]
  note f = same_rest_simps [OF r(3)]
  have st: "states c' = (states c)[b := DIRTY]" using r(2) by (simp add: states_def)
  have "rely c c'" using r(1) by (simp add: rely_def states_def)
  moreover have "gimg R c' = gimg R c" for R
    by (rule restored_img [OF wf ff b(1) True]) (use f st in simp_all)
  moreover have "restore_skipped io (b # bs) c = restore_skipped io bs c'"
    using ci_get [OF wf b(1)] True copy_back_ok [OF io wf ff b(1)] t ff by simp
  ultimately show ?thesis using st length_states [OF wf] b(1) ext_same [OF tol] by auto
next
  case False
  then have dd: "states c ! b = DIRTY" using b(2) by simp
  obtain w c' where t: "ci_transition_to_dirty c b = Some (w, c')"
    using ci_transition_to_dirty_ok [OF wf b(1)] by blast
  note r = to_dirty_rely [OF wf b t]
  note f = same_rest_simps [OF r(3)]
  have st: "states c' = states c" using r(2) dd by (metis list_update_id)
  have "gimg R c' = gimg R c" for R
    using f st by (intro gimg_cong) (auto simp: view_def nth_src_file promoted_cong [OF f(1,3)])
  moreover have "restore_skipped io (b # bs) c = restore_skipped io bs c'"
    using ci_get [OF wf b(1)] dd t ff by (simp add: DIRTY_def SYNCING_def)
  ultimately show ?thesis using r(1) st dd ext_same [OF tol] by auto
qed

lemma rely_keeps:
  assumes "ci_wf c" "rely c c'"
  shows "flushing_file c' = flushing_file c" "num_blocks c' = num_blocks c" "ci_wf c'"
    and "\<And>b. b < num_blocks c \<Longrightarrow> has_local c b \<Longrightarrow> has_local c' b"
    and "\<And>b. b < num_blocks c \<Longrightarrow> states c ! b \<noteq> SYNCING \<Longrightarrow> states c' ! b \<noteq> SYNCING"
  using assms ci_wf_blocks [of c] ci_wf_blocks [of c'] by (auto simp: rely_def)

lemma restore_skipped_ext:
  assumes tol: "tolerant env V" and io: "io_works io"
  shows "\<lbrakk> ci_wf c; flushing_file c = Some ff; \<forall>b\<in>set bs. b < num_blocks c \<and> has_local c b \<rbrakk>
    \<Longrightarrow> \<exists>c'. restore_skipped io bs c = Some c' \<and> ext V c c' \<and> (\<forall>b\<in>set bs. states c' ! b \<noteq> SYNCING)"
proof (induction bs arbitrary: c)
  case Nil
  then show ?case using ext_refl [OF tol] by auto
next
  case (Cons b bs)
  obtain c1 where c1: "restore_skipped io (b # bs) c = restore_skipped io bs c1" "ext V c c1" "states c1 ! b = DIRTY"
    using restore_one [OF tol io Cons.prems(1,2)] Cons.prems(3) by fastforce
  note k = rely_keeps [OF Cons.prems(1), of c1]
  have r: "rely c c1" using c1(2) by (simp add: ext_def)
  have "\<forall>b\<in>set bs. b < num_blocks c1 \<and> has_local c1 b" using Cons.prems(3) k [OF r] by auto
  then obtain c2 where c2: "restore_skipped io bs c1 = Some c2" "ext V c1 c2" "\<forall>b\<in>set bs. states c2 ! b \<noteq> SYNCING"
    using Cons.IH [OF k(3) [OF r]] Cons.prems(2) k(1) [OF r] by auto
  have "states c2 ! b \<noteq> SYNCING"
    using rely_keeps(5) [OF k(3) [OF r], of c2 b] c1(3) c2(2) Cons.prems(3) k(2) [OF r]
    by (auto simp: ext_def DIRTY_def SYNCING_def)
  then show ?case using c1 c2 ext_trans [OF tol Cons.prems(1) c1(2) c2(2)] by auto
qed

section \<open>The batch\<close>

definition content :: "CacheInner \<Rightarrow> bytes \<Rightarrow> nat \<Rightarrow> bytes" where
  "content c ff b = pad_block (bsize c) (blk c ff b)"

definition hash_of :: "flush_env \<Rightarrow> CacheInner \<Rightarrow> bytes \<Rightarrow> nat \<Rightarrow> Blake3Hash" where
  "hash_of env c ff b = (if all_zero (content c ff b) then zero_block_hash c else blake3 (reading env) (content c ff b))"

definition data_of :: "flush_env \<Rightarrow> CacheInner \<Rightarrow> bytes \<Rightarrow> nat \<Rightarrow> bytes option" where
  "data_of env c ff b =
     (if all_zero (content c ff b) then Some []
      else compress_block (rd_codec (reading env)) (content c ff b) (compression_level c))"

text \<open>The blocks whose baselines match the flushing file.\<close>

definition pages_ok :: "flush_env \<Rightarrow> CacheInner \<Rightarrow> bytes \<Rightarrow> (nat \<times> u32 list) list \<Rightarrow> nat \<Rightarrow> bool" where
  "pages_ok env c ff crcs b =
     (case map_of crcs b of None \<Rightarrow> True | Some pages \<Rightarrow> page_mismatch (page_crc env) (content c ff b) 0 pages = Some False)"

definition block_outcome :: "flush_env \<Rightarrow> CacheInner \<Rightarrow> bytes \<Rightarrow> (nat \<times> u32 list) list \<Rightarrow> nat
    \<Rightarrow> (CacheError + BlockResult) option \<Rightarrow> bool" where
  "block_outcome env c ff crcs b r =
     (case r of
        Some (Inr (Skipped b' _ _)) \<Rightarrow> b' = b \<and> \<not> pages_ok env c ff crcs b
      | Some (Inr (Computed b' h z)) \<Rightarrow>
          b' = b \<and> pages_ok env c ff crcs b \<and> h = hash_of env c ff b
          \<and> (if all_zero (content c ff b) then z = None else z = data_of env c ff b \<and> z \<noteq> None)
      | _ \<Rightarrow> True)"

lemma spec_cong:
  assumes "rely c c'"
  shows "content c' = content c" "hash_of env c' = hash_of env c" "data_of env c' = data_of env c"
    "pages_ok env c' = pages_ok env c"
proof -
  show c: "content c' = content c" using assms by (auto simp: rely_def content_def blk_def valid_bytes_def fun_eq_iff)
  show "hash_of env c' = hash_of env c" "data_of env c' = data_of env c" "pages_ok env c' = pages_ok env c"
    using assms unfolding hash_of_def data_of_def pages_ok_def c by (simp_all add: rely_def fun_eq_iff)
qed

lemma outcome_cong:
  assumes "rely c c'"
  shows "block_outcome env c' = block_outcome env c"
  unfolding block_outcome_def spec_cong [OF assms] ..

lemma read_flushing_content:
  assumes "geometry_ok c" "b < num_blocks c" "read_flushing io c ff b = Inr d"
  shows "d = content c ff b"
  using assms valid_bytes_bounds(1) [OF assms(1,2)]
  by (auto simp: read_flushing_def Let_def content_def blk_def read_exact_at_def split: sum.splits if_splits)

lemma is_zero_block_all_zero: "is_zero_block a k d = all_zero d"
  by (simp add: is_zero_block_def avx2_eq neon_eq u64_eq split: target_arch.splits)

lemma hash_block_outcome:
  assumes "hash_block env ce warm c b (content c ff b) s = (r, s')" "pages_ok env c ff crcs b"
  shows "block_outcome env c ff crcs b r"
    and "s' = s \<or> s' = block_insert ce (blake3 (reading env) (content c ff b)) (content c ff b) s"
  using assms
  by (auto simp: hash_block_def is_zero_block_all_zero block_outcome_def hash_of_def data_of_def Let_def
      split: if_splits option.splits)

lemma compute_block_outcome:
  assumes g: "geometry_ok c" "b < num_blocks c" and run: "compute_block env ce warm ff crcs c b s = (r, s')"
  shows "block_outcome env c ff crcs b r"
    and "s' = s \<or> (\<exists>d. s' = block_insert ce (blake3 (reading env) d) d s)"
proof -
  have "block_outcome env c ff crcs b r \<and> (s' = s \<or> (\<exists>d. s' = block_insert ce (blake3 (reading env) d) d s))"
  proof (cases "read_flushing (rd_io (reading env)) c ff b")
    case (Inl e)
    then show ?thesis using run by (auto simp: compute_block_def block_outcome_def)
  next
    case (Inr d)
    have d: "d = content c ff b" by (rule read_flushing_content [OF g Inr])
    let ?m = "case map_of crcs b of None \<Rightarrow> Some False | Some pages \<Rightarrow> page_mismatch (page_crc env) d 0 pages"
    consider "?m = None" | "?m = Some True" | "?m = Some False" by (cases ?m) auto
    then show ?thesis
    proof cases
      case 1
      then show ?thesis using run Inr by (auto simp: compute_block_def block_outcome_def)
    next
      case 2
      then have "\<not> pages_ok env c ff crcs b" by (auto simp: pages_ok_def d split: option.splits)
      then show ?thesis using run Inr 2 by (auto simp: compute_block_def block_outcome_def split: option.splits if_splits)
    next
      case 3
      then have p: "pages_ok env c ff crcs b" by (auto simp: pages_ok_def d split: option.splits)
      have "hash_block env ce warm c b (content c ff b) s = (r, s')" using run Inr 3 unfolding d by (simp add: compute_block_def)
      from hash_block_outcome [OF this p] show ?thesis by blast
    qed
  qed
  then show "block_outcome env c ff crcs b r" "s' = s \<or> (\<exists>d. s' = block_insert ce (blake3 (reading env) d) d s)" by simp_all
qed

lemma insert_digest_ok:
  assumes "cache_laws ce ix bx" "digest v = blake3 (reading env)" "tiers_ok ix bx v (t\<lparr> tc := s \<rparr>)"
    and "s' = s \<or> (\<exists>d. s' = block_insert ce (blake3 (reading env) d) d s)"
  shows "tiers_ok ix bx v (t\<lparr> tc := s' \<rparr>)"
  using assms by (auto simp: tiers_ok_def cache_laws_def split: if_splits)

lemma compute_blocks_ok:
  assumes tol: "tolerant env V" and laws: "cache_laws ce ix bx" "digest v = blake3 (reading env)"
  shows "\<lbrakk> ci_wf c; \<forall>b\<in>set bs. b < num_blocks c; tiers_ok ix bx v (t\<lparr> tc := s \<rparr>);
      compute_blocks env ce warm ff crcs bs (c, s) = (rs, c', s') \<rbrakk>
    \<Longrightarrow> ext V c c' \<and> list_all2 (block_outcome env c ff crcs) bs rs \<and> tiers_ok ix bx v (t\<lparr> tc := s' \<rparr>)"
proof (induction bs arbitrary: c s rs)
  case Nil
  then show ?case using ext_refl [OF tol] by auto
next
  case (Cons b bs)
  let ?c = "others env (ComputeBlock b) c"
  have e: "ext V c ?c" by (rule ext_others [OF tol Cons.prems(1)])
  then have r: "rely c ?c" by (simp add: ext_def)
  note k = rely_keeps [OF Cons.prems(1) r]
  obtain x s1 where x: "compute_block env ce warm ff crcs ?c b s = (x, s1)" by force
  obtain rs1 where rs1: "compute_blocks env ce warm ff crcs bs (?c, s1) = (rs1, c', s')" "rs = x # rs1"
    using Cons.prems(4) x by (auto simp: Let_def split: prod.splits)
  have g: "geometry_ok ?c" "b < num_blocks ?c" using k(2,3) Cons.prems(2) by (simp_all add: ci_wf_def)
  note o = compute_block_outcome [OF g x]
  have t1: "tiers_ok ix bx v (t\<lparr> tc := s1 \<rparr>)" by (rule insert_digest_ok [OF laws Cons.prems(3) o(2)])
  have "ext V ?c c' \<and> list_all2 (block_outcome env ?c ff crcs) bs rs1 \<and> tiers_ok ix bx v (t\<lparr> tc := s' \<rparr>)"
    using Cons.IH [OF k(3) _ t1 rs1(1)] Cons.prems(2) k(2) by simp
  then show ?case
    using ext_trans [OF tol Cons.prems(1) e] o(1) rs1(2) unfolding outcome_cong [OF r] by simp
qed

definition batch_ok :: "flush_env \<Rightarrow> CacheInner \<Rightarrow> bytes \<Rightarrow> (nat \<times> u32 list) list \<Rightarrow> nat list \<Rightarrow> FlushBatch \<Rightarrow> bool" where
  "batch_ok env c ff crcs bs batch \<longleftrightarrow>
     computed batch = map (\<lambda>b. (b, hash_of env c ff b)) (filter (pages_ok env c ff crcs) bs)
   \<and> skipped batch = filter (\<lambda>b. \<not> pages_ok env c ff crcs b) bs
   \<and> (\<forall>(h, z)\<in>set (to_upload batch). \<exists>b\<in>set bs. \<not> all_zero (content c ff b) \<and> h = hash_of env c ff b \<and> data_of env c ff b = Some z)
   \<and> (\<forall>b\<in>set bs. pages_ok env c ff crcs b \<and> \<not> all_zero (content c ff b) \<longrightarrow> hash_of env c ff b \<in> fst ` set (to_upload batch))"

lemma batch_ok_snoc:
  assumes "batch_ok env c ff crcs bs acc"
  shows "\<not> pages_ok env c ff crcs b \<Longrightarrow>
      batch_ok env c ff crcs (bs @ [b]) (acc\<lparr> skipped := skipped acc @ [b], batch_stats := st \<rparr>)"
    and "\<lbrakk> pages_ok env c ff crcs b; all_zero (content c ff b) \<or> hash_of env c ff b \<in> fst ` set (to_upload acc) \<rbrakk> \<Longrightarrow>
      batch_ok env c ff crcs (bs @ [b]) (acc\<lparr> computed := computed acc @ [(b, hash_of env c ff b)], batch_stats := st \<rparr>)"
    and "\<lbrakk> pages_ok env c ff crcs b; \<not> all_zero (content c ff b); data_of env c ff b = Some z \<rbrakk> \<Longrightarrow>
      batch_ok env c ff crcs (bs @ [b]) (acc\<lparr> computed := computed acc @ [(b, hash_of env c ff b)],
        to_upload := to_upload acc @ [(hash_of env c ff b, z)], batch_stats := st \<rparr>)"
  using assms unfolding batch_ok_def by auto

lemma aggregate_ok:
  "\<lbrakk> batch_ok env c ff crcs done acc; list_all2 (\<lambda>b r. block_outcome env c ff crcs b (Some r)) bs rs;
     aggregate rs acc = Inr batch \<rbrakk> \<Longrightarrow> batch_ok env c ff crcs (done @ bs) batch"
proof (induction rs acc arbitrary: "done" bs rule: aggregate.induct)
  case (3 b' cas crc rs acc)
  obtain b bs' where bs: "bs = b # bs'" "b' = b" "\<not> pages_ok env c ff crcs b"
      "list_all2 (\<lambda>b r. block_outcome env c ff crcs b (Some r)) bs' rs"
    using "3.prems"(2) by (auto simp: list_all2_Cons2 block_outcome_def)
  from "3.IH" [unfolded bs(2), OF batch_ok_snoc(1) [OF "3.prems"(1) bs(3)] bs(4)] show ?case using "3.prems"(3) bs by simp
next
  case (4 b' h z rs acc)
  obtain b bs' where bs: "bs = b # bs'" "b' = b" "pages_ok env c ff crcs b" "h = hash_of env c ff b"
      "if all_zero (content c ff b) then z = None else z = data_of env c ff b \<and> z \<noteq> None"
      "list_all2 (\<lambda>b r. block_outcome env c ff crcs b (Some r)) bs' rs"
    using "4.prems"(2) by (auto simp: list_all2_Cons2 block_outcome_def)
  show ?case
  proof (cases z)
    case None
    then have "all_zero (content c ff b)" using bs(5) by (auto split: if_splits)
    then show ?thesis
      using "4.IH"(1) [unfolded bs(2,4), OF refl None batch_ok_snoc(2) [OF "4.prems"(1) bs(3)] bs(6)] "4.prems"(3) bs None by (simp add: Let_def)
  next
    case (Some data)
    then have nz: "\<not> all_zero (content c ff b)" "data_of env c ff b = Some data" using bs(5) by (auto split: if_splits)
    show ?thesis
    proof (cases "h \<in> fst ` set (to_upload acc)")
      case True
      then show ?thesis
        using "4.IH"(2) [unfolded bs(2,4), OF refl Some _ batch_ok_snoc(2) [OF "4.prems"(1) bs(3)] bs(6)] "4.prems"(3) bs Some by (simp add: Let_def)
    next
      case False
      then show ?thesis
        using "4.IH"(3) [unfolded bs(2,4), OF refl Some _ _ bs(6), of "done @ [b]"]
          batch_ok_snoc(3) [OF "4.prems"(1) bs(3) nz] "4.prems"(3) bs Some by (simp add: Let_def)
    qed
  qed
qed (auto simp: list_all2_Cons2)

lemma compute_flush_batch_ok:
  assumes tol: "tolerant env V" and laws: "cache_laws ce ix bx" "digest v = blake3 (reading env)"
    and wf: "ci_wf (fc s)" "flushing_file (fc s) = Some ff" "\<forall>b\<in>set bs. b < num_blocks (fc s)" "tiers_ok ix bx v (ft s)"
    and run: "compute_flush_batch env ce warm crcs ci bs s = Some (r, s')"
  shows "ext V (fc s) (fc s') \<and> tiers_ok ix bx v (ft s') \<and> fm s' = fm s \<and> tw (ft s') = tw (ft s)
    \<and> (\<forall>batch. r = Inr batch \<longrightarrow> batch_ok env (fc s) ff crcs bs batch)"
proof -
  obtain rs c t where cb: "compute_blocks env ce warm ff crcs bs (fc s, tc (ft s)) = (rs, c, t)" by (metis prod_cases3)
  have t0: "tiers_ok ix bx v ((ft s)\<lparr> tc := tc (ft s) \<rparr>)" using wf(4) by simp
  note k = compute_blocks_ok [OF tol laws wf(1,3) t0 cb]
  have s': "s' = s\<lparr> fc := c, ft := (ft s)\<lparr> tc := t \<rparr> \<rparr>"
    and r: "r = (if None \<in> set rs \<or> \<not> joined env ci then Inl (Io OtherError) else aggregate (map the rs) empty_batch)"
    using run cb wf(2) by (auto simp: compute_flush_batch_def Let_def split: if_splits)
  have "batch_ok env (fc s) ff crcs bs batch" if b: "r = Inr batch" for batch
  proof -
    have "None \<notin> set rs" "aggregate (map the rs) empty_batch = Inr batch" using r b by (auto split: if_splits)
    moreover have "list_all2 (\<lambda>b r. block_outcome env (fc s) ff crcs b (Some r)) bs (map the rs)"
      using k calculation(1) by (auto simp: list_all2_conv_all_nth in_set_conv_nth)
    moreover have "batch_ok env (fc s) ff crcs [] empty_batch" by (simp add: batch_ok_def empty_batch_def)
    ultimately show ?thesis using aggregate_ok [of env "fc s" ff crcs "[]"] by fastforce
  qed
  then show ?thesis using k s' by simp
qed

section \<open>What goes into the packs\<close>

definition vm_geometry :: "VolumeManifest \<Rightarrow> CacheInner \<Rightarrow> bool" where
  "vm_geometry m c \<longleftrightarrow> unat (block_size m) = bsize c \<and> bsize c dvd unat (chunk_size m) \<and> chunk_size m \<noteq> 0
     \<and> unat (chunk_size m) < 2 ^ 32 \<and> unat (vm_size m) \<le> 2 ^ 32 * unat (chunk_size m) \<and> dsize c \<le> unat (vm_size m)"

definition chunk_of :: "VolumeManifest \<Rightarrow> nat \<Rightarrow> u32" where
  "chunk_of m b = the (chunk_idx_for_block m (of_nat b))"

definition offset_of :: "VolumeManifest \<Rightarrow> nat \<Rightarrow> u32" where
  "offset_of m b = the (block_offset_in_chunk m (of_nat b))"

lemma block_u64:
  assumes "ci_wf c" "b < num_blocks c"
  shows "unat (of_nat b :: u64) = b" "b * bsize c < dsize c"
proof -
  have g: "geometry_ok c" using assms(1) by (simp add: ci_wf_def)
  show "b * bsize c < dsize c" by (rule block_start_less [OF g assms(2)])
  have "b < 2 ^ 32" using g assms(2) by (simp add: geometry_ok_def)
  then show "unat (of_nat b :: u64) = b" by (simp add: unat_of_nat take_bit_nat_eq_self)
qed

lemma block_addressed:
  assumes wf: "ci_wf c" "b < num_blocks c" and m: "vm_geometry m c"
  shows "chunk_idx_for_block m (of_nat b) = Some (chunk_of m b)" "block_offset_in_chunk m (of_nat b) = Some (offset_of m b)"
proof -
  note u = block_u64 [OF wf]
  have "dsize c < 2 ^ 64" "0 < bsize c" using wf(1) by (simp_all add: ci_wf_def geometry_ok_def)
  then have lt: "b * bsize c < 2 ^ 64" using u(2) by simp
  then show "chunk_idx_for_block m (of_nat b) = Some (chunk_of m b)"
    using m u(1) by (simp add: chunk_of_def chunk_idx_for_block_def vm_geometry_def Let_def)
  have ne: "block_size m \<noteq> 0" using m \<open>0 < bsize c\<close> by (auto simp: vm_geometry_def)
  have cs: "0 < unat (chunk_size m)" using m by (simp add: vm_geometry_def unat_gt_0)
  obtain q where q: "unat (chunk_size m) = bsize c * q" using m by (auto simp: vm_geometry_def)
  have "0 < q" "q < 2 ^ 32" using cs q \<open>0 < bsize c\<close> m by (auto simp: vm_geometry_def) (metis le_less_trans mult_le_mono1 nat_mult_1 Suc_leI One_nat_def)
  then have "unat (of_nat q :: u32) = q" by (simp add: unat_of_nat take_bit_nat_eq_self)
  then have "(of_nat q :: u32) \<noteq> 0" using \<open>0 < q\<close> by (metis unsigned_0 less_irrefl)
  then show "block_offset_in_chunk m (of_nat b) = Some (offset_of m b)"
    using m ne q \<open>0 < bsize c\<close> by (simp add: offset_of_def block_offset_in_chunk_def blocks_per_chunk_def vm_geometry_def)
qed

lemma address_inj:
  assumes wf: "ci_wf c" "b < num_blocks c" "b' < num_blocks c" and m: "vm_geometry m c"
    and eq: "chunk_of m b = chunk_of m b'" "offset_of m b = offset_of m b'"
  shows "b = b'"
proof -
  have bs: "0 < bsize c" using wf(1) by (simp add: ci_wf_def geometry_ok_def)
  have ne: "block_size m \<noteq> 0" using m bs by (auto simp: vm_geometry_def)
  note u = block_u64 [OF wf(1,2)] and u' = block_u64 [OF wf(1,3)]
  have "unat (of_nat b :: u64) * unat (block_size m) < unat (vm_size m)" "unat (of_nat b' :: u64) * unat (block_size m) < unat (vm_size m)"
    using u u' m by (simp_all add: vm_geometry_def)
  from block_address_injective [OF ne _ _ _ _ this] have "(of_nat b :: u64) = of_nat b'"
    using m eq block_addressed [OF wf(1,2) m] block_addressed [OF wf(1,3) m] by (simp add: vm_geometry_def)
  then show ?thesis using u(1) u'(1) by metis
qed

definition newest_at :: "'s volume \<Rightarrow> VolumeManifest \<Rightarrow> nat \<Rightarrow> (PackId \<times> PackIndexEntry) option" where
  "newest_at v m b = newest (idx v) (chunk_packs m (chunk_of m b)) (offset_of m b)"

text \<open>The packs already hold this block's contents as the newest version.\<close>

definition held_already :: "flush_env \<Rightarrow> 's volume \<Rightarrow> VolumeManifest \<Rightarrow> CacheInner \<Rightarrow> bytes \<Rightarrow> nat \<Rightarrow> bool" where
  "held_already env v m c ff b =
     (case newest_at v m b of
        Some (p, e) \<Rightarrow> hash e = hash_of env c ff b
      | None \<Rightarrow> hash_of env c ff b = zero_block_hash c)"

definition pack_block_of :: "flush_env \<Rightarrow> VolumeManifest \<Rightarrow> CacheInner \<Rightarrow> bytes \<Rightarrow> nat \<Rightarrow> pack_block" where
  "pack_block_of env m c ff b = (hash_of env c ff b, offset_of m b, the (data_of env c ff b))"

definition new_blocks :: "flush_env \<Rightarrow> 's volume \<Rightarrow> VolumeManifest \<Rightarrow> CacheInner \<Rightarrow> bytes \<Rightarrow> (nat \<times> u32 list) list
    \<Rightarrow> nat list \<Rightarrow> nat list" where
  "new_blocks env v m c ff crcs bs =
     filter (\<lambda>b. \<not> held_already env v m c ff b) (filter (pages_ok env c ff crcs) bs)"

definition pack_contents :: "flush_env \<Rightarrow> 's volume \<Rightarrow> VolumeManifest \<Rightarrow> CacheInner \<Rightarrow> bytes \<Rightarrow> (nat \<times> u32 list) list
    \<Rightarrow> nat list \<Rightarrow> pack_block list" where
  "pack_contents env v m c ff crcs bs = map (pack_block_of env m c ff) (new_blocks env v m c ff crcs bs)"

text \<open>
  The hypotheses on hashes: no block of the cache collides with the zero hash or with another
  block of the volume, \<open>plain\<close> being the contents of a hash; compressed blocks are not empty.
\<close>

definition unambiguous :: "flush_env \<Rightarrow> (Blake3Hash \<Rightarrow> bytes) \<Rightarrow> CacheInner \<Rightarrow> bytes \<Rightarrow> bool" where
  "unambiguous env plain c ff \<longleftrightarrow>
     (\<forall>b<num_blocks c. \<not> all_zero (content c ff b) \<longrightarrow>
        blake3 (reading env) (content c ff b) \<noteq> zero_block_hash c
      \<and> plain (blake3 (reading env) (content c ff b)) = content c ff b
      \<and> (\<forall>z. data_of env c ff b = Some z \<longrightarrow> z \<noteq> [] \<and> length z < 2 ^ 32))"

lemma hash_of_zero:
  assumes "unambiguous env plain c ff" "b < num_blocks c"
  shows "hash_of env c ff b = zero_block_hash c \<longleftrightarrow> all_zero (content c ff b)"
  using assms by (auto simp: unambiguous_def hash_of_def)

lemma hash_of_same_data:
  assumes "unambiguous env plain c ff" "b < num_blocks c" "b' < num_blocks c"
    and "\<not> all_zero (content c ff b)" "\<not> all_zero (content c ff b')" "hash_of env c ff b = hash_of env c ff b'"
  shows "data_of env c ff b = data_of env c ff b'"
proof -
  have "content c ff b = content c ff b'" using assms unfolding unambiguous_def hash_of_def by metis
  then show ?thesis by (simp add: data_of_def)
qed

lemma batch_lookup:
  assumes "batch_ok env c ff crcs bs batch" "unambiguous env plain c ff" "\<forall>b\<in>set bs. b < num_blocks c"
    and b: "b \<in> set bs" "pages_ok env c ff crcs b"
  shows "(if hash_of env c ff b = zero_block_hash c then Some [] else map_of (rev (to_upload batch)) (hash_of env c ff b))
     = data_of env c ff b" "data_of env c ff b \<noteq> None"
proof -
  have "(if hash_of env c ff b = zero_block_hash c then Some [] else map_of (rev (to_upload batch)) (hash_of env c ff b))
      = data_of env c ff b \<and> data_of env c ff b \<noteq> None"
  proof (cases "all_zero (content c ff b)")
    case True
    then show ?thesis using hash_of_zero assms(2,3) b(1) by (simp add: data_of_def)
  next
    case False
    have nz: "hash_of env c ff b \<noteq> zero_block_hash c" using hash_of_zero [OF assms(2)] assms(3) b(1) False by blast
    have "hash_of env c ff b \<in> fst ` set (rev (to_upload batch))" using assms(1) b False by (simp add: batch_ok_def)
    then obtain z where z: "map_of (rev (to_upload batch)) (hash_of env c ff b) = Some z"
      by (metis map_of_eq_None_iff not_None_eq)
    then have "(hash_of env c ff b, z) \<in> set (to_upload batch)" using map_of_SomeD by fastforce
    then obtain b' where b': "b' \<in> set bs" "\<not> all_zero (content c ff b')" "hash_of env c ff b = hash_of env c ff b'"
        "data_of env c ff b' = Some z"
      using assms(1) unfolding batch_ok_def by blast
    then show ?thesis using hash_of_same_data [OF assms(2), of b b'] assms(3) b(1) False z nz by simp
  qed
  then show "(if hash_of env c ff b = zero_block_hash c then Some [] else map_of (rev (to_upload batch)) (hash_of env c ff b))
     = data_of env c ff b" "data_of env c ff b \<noteq> None" by blast+
qed

lemma select_ok:
  assumes "\<forall>b\<in>set xs. block_offset_in_chunk m (of_nat b) = Some (offset_of m b)
      \<and> dominated existing (zero_block_hash c) (offset_of m b) (hash_of env c ff b) = held_already env v m c ff b
      \<and> (if hash_of env c ff b = zero_block_hash c then Some [] else map_of by_hash (hash_of env c ff b))
          = Some (the (data_of env c ff b))"
  shows "\<exists>n. select_blocks m existing by_hash (map (\<lambda>b. (b, hash_of env c ff b)) xs) sel c
     = Some (sel\<lparr> blocks_for_pack := blocks_for_pack sel
                   @ map (pack_block_of env m c ff) (filter (\<lambda>b. \<not> held_already env v m c ff b) xs),
                 packed_indices := packed_indices sel @ xs, cross_deduped := n \<rparr>, c)"
  using assms
proof (induction xs arbitrary: sel)
  case Nil
  show ?case by (rule exI [of _ "cross_deduped sel"]) simp
next
  case (Cons b xs)
  note b = Cons.prems [THEN bspec, of b, simplified]
  show ?case
  proof (cases "held_already env v m c ff b")
    case True
    then show ?thesis
      using b Cons.IH [of "sel\<lparr> packed_indices := packed_indices sel @ [b], cross_deduped := cross_deduped sel + 1 \<rparr>"] Cons.prems
      by simp
  next
    case False
    have "select_blocks m existing by_hash (map (\<lambda>b. (b, hash_of env c ff b)) (b # xs)) sel c
      = select_blocks m existing by_hash (map (\<lambda>b. (b, hash_of env c ff b)) xs)
          (sel\<lparr> blocks_for_pack := blocks_for_pack sel @ [pack_block_of env m c ff b], packed_indices := packed_indices sel @ [b] \<rparr>) c"
      using b False by (simp add: pack_block_of_def split: if_splits)
    then show ?thesis
      using False Cons.prems
        Cons.IH [of "sel\<lparr> blocks_for_pack := blocks_for_pack sel @ [pack_block_of env m c ff b], packed_indices := packed_indices sel @ [b] \<rparr>"]
      by simp
  qed
qed

lemma dominated_newest:
  assumes "bt_get existing co = (case newest (idx v) ids co of Some (p, e) \<Rightarrow> Some (view_pair e) | None \<Rightarrow> None)"
  shows "dominated existing zero co h = (case newest (idx v) ids co of Some (p, e) \<Rightarrow> hash e = h | None \<Rightarrow> h = zero)"
  using assms by (auto simp: dominated_def view_pair_def split: option.splits)

lemma load_for_flush_ok:
  assumes laws: "cache_laws ce ix bx" "suffix_true (object_store (store v)) (objects v)"
    and ids: "\<forall>p\<in>set ids. in_manifest (manifest v) ci p \<and> offsets_distinct (idx v p)"
    and t: "tiers_ok ix bx v t" "load_for_flush ce (store v) ci ids t = (r, t')"
  shows "tiers_ok ix bx v t'"
    and "r = Inr m \<Longrightarrow> bt_get m co = (case newest (idx v) ids co of Some (p, e) \<Rightarrow> Some (view_pair e) | None \<Rightarrow> None)"
proof -
  obtain l where l: "load_from ce (store v) ci ids [] t = (l, t')" "r = Inr m \<longrightarrow> l = Inr m"
    using t(2) by (auto simp: load_for_flush_def load_existing_def split: prod.splits sum.splits)
  have k: "tiers_ok ix bx v t' \<and> (\<forall>a. l = Inr a \<longrightarrow> existing_loop (\<lambda>p. Some (idx v p)) ids [] = Some a)"
    using load_from_valid [OF laws, of ids ci "[]"] ids t(1) l(1) by (auto simp: rspec_def)
  then show "tiers_ok ix bx v t'" by simp
  assume "r = Inr m"
  then have "existing_loop (\<lambda>p. Some (idx v p)) ids [] = Some m" using k l(2) by simp
  moreover obtain m' where "existing_loop (\<lambda>p. Some (idx v p)) ids [] = Some m'"
      "\<forall>co. bt_get m' co = (case newest (idx v) ids co of Some (p, e) \<Rightarrow> Some (view_pair e) | None \<Rightarrow> bt_get [] co)"
    using existing_loop_newest [of ids "\<lambda>p. Some (idx v p)" "idx v" "[]"] ids by (auto simp: bt_wf_def)
  ultimately show "bt_get m co = (case newest (idx v) ids co of Some (p, e) \<Rightarrow> Some (view_pair e) | None \<Rightarrow> None)"
    by (simp add: bt_get_def split: option.splits)
qed

section \<open>Uploads\<close>

definition appended :: "(u32 \<times> PackId \<times> u32 option) list \<Rightarrow> VolumeManifest \<Rightarrow> VolumeManifest" where
  "appended S m = fold (\<lambda>(ci, pid, live). append_pack ci pid live) S m"

lemma chunk_packs_append:
  "chunk_packs (append_pack ci p l m) ci' = (if ci' = ci then chunk_packs m ci @ [p] else chunk_packs m ci')"
  by (simp add: chunk_packs_def chunk_pack_ids_def append_pack_def Let_def bt_get_insert split: option.splits)

lemma in_manifest_packs: "in_manifest m ci p \<longleftrightarrow> p \<in> set (chunk_packs m ci)"
  by (cases "chunk_pack_ids m ci") (simp_all add: in_manifest_def chunk_packs_def)

lemma in_manifest_append: "in_manifest (append_pack ci p l m) ci' p' \<longleftrightarrow> in_manifest m ci' p' \<or> ci' = ci \<and> p' = p"
  by (auto simp: in_manifest_packs chunk_packs_append)

lemma in_manifest_appended:
  "in_manifest (appended S m) ci p \<longleftrightarrow> in_manifest m ci p \<or> (\<exists>l. (ci, p, l) \<in> set S)"
proof (induction S arbitrary: m)
  case (Cons x S)
  then show ?case by (cases x) (auto simp: appended_def in_manifest_append)
qed (simp add: appended_def)

lemma appended_snoc: "appended (S @ [(ci, p, l)]) m = append_pack ci p l (appended S m)"
  by (simp add: appended_def)

definition paths_apart :: "'s ContentStore \<Rightarrow> bool" where
  "paths_apart cs \<longleftrightarrow> (\<forall>ci p ci' p'. pack_path cs ci p = pack_path cs ci' p' \<longrightarrow> ci = ci' \<and> p = p')"

lemma tiers_ok_mono:
  "\<lbrakk> tiers_ok ix bx (v\<lparr> manifest := m' \<rparr>) t; \<And>ci p. in_manifest m ci p \<Longrightarrow> in_manifest m' ci p \<rbrakk>
   \<Longrightarrow> tiers_ok ix bx (v\<lparr> manifest := m \<rparr>) t"
  unfolding tiers_ok_def packs_ok_def by simp blast

definition stage_of :: "upload \<Rightarrow> u32 \<times> PackId \<times> u32 option" where
  "stage_of u = (up_chunk u, up_pack u, up_live u)"

lemma fst_stage_of [simp]: "fst (stage_of u) = up_chunk u"
  by (simp add: stage_of_def)

lemma appended_Cons: "appended (stage_of u # S) m = appended S (append_pack (up_chunk u) (up_pack u) (up_live u) m)"
  by (simp add: appended_def stage_of_def)

text \<open>An upload that may go ahead: what its identifier names is its contents, also in the store.\<close>

definition upload_ok_in :: "'s volume \<Rightarrow> u32 \<Rightarrow> VolumeManifest \<Rightarrow> (string \<Rightarrow> bytes option) \<Rightarrow> upload \<Rightarrow> bool" where
  "upload_ok_in v bpc m ob u \<longleftrightarrow> \<not> in_manifest m (up_chunk u) (up_pack u)
     \<and> (\<forall>pk es. assemble_pack (up_blocks u) bpc = Inr (pk, es) \<longrightarrow>
          idx v (up_pack u) = es \<and> ob (pack_path (store v) (up_chunk u) (up_pack u)) \<in> {None, Some pk})"

lemma finish_upload_ok:
  assumes laws: "cache_laws ce ix bx" "put_laws (object_store (store v)) (objects v)" "paths_apart (store v)"
    and t: "tiers_ok ix bx (v\<lparr> manifest := m \<rparr>) t" and u: "upload_ok_in v bpc m (objects v (remote (tw t))) u"
    and run: "finish_upload ce (store v) bpc u pr t = (r, t')"
  shows "\<And>q. q \<noteq> pack_path (store v) (up_chunk u) (up_pack u) \<Longrightarrow> objects v (remote (tw t')) q = objects v (remote (tw t)) q"
    and "tiers_ok ix bx (v\<lparr> manifest := m \<rparr>) t'"
    and "r = Inr pr' \<Longrightarrow> (\<exists>st. pr' = pr\<lparr> tally := st, staged := staged pr @ [stage_of u] \<rparr> \<and> packs_skipped st = packs_skipped (tally pr))
        \<and> (\<exists>pk. assemble_pack (up_blocks u) bpc = Inr (pk, idx v (up_pack u)))
        \<and> tiers_ok ix bx (v\<lparr> manifest := append_pack (up_chunk u) (up_pack u) (up_live u) m \<rparr>) t'"
proof -
  let ?path = "pack_path (store v) (up_chunk u) (up_pack u)"
  obtain a w where a: "stream_chunk_pack (store v) (up_chunk u) (up_pack u) (up_blocks u) bpc (tw t) = (a, w)" by force
  note st = chunk_pack_stored [OF laws(2) a]
  have run': "tw t' = w \<and> (case a of Inl e \<Rightarrow> tc t' = tc t \<and> r = Inl (CacheError.ContentStore e)
      | Inr es \<Rightarrow> tc t' = index_insert ce (up_pack u) es (tc t)
          \<and> r = Inr (pr\<lparr> tally := (tally pr)\<lparr> packs_uploaded := packs_uploaded (tally pr) + 1,
               bytes_uploaded := bytes_uploaded (tally pr) + sum_list (map (unat \<circ> comp_length) es) \<rparr>, staged := staged pr @ [stage_of u] \<rparr>))"
    using run a by (auto simp: finish_upload_def rbind_def of_cs_def put_entries_def rreturn_def stage_of_def split: sum.splits)
  show other: "objects v (remote (tw t')) q = objects v (remote (tw t)) q" if "q \<noteq> ?path" for q
    using st(1) [OF that] run' by simp
  have ix: "\<And>p es s. ix (index_insert ce p es s) = (ix s)(p \<mapsto> es)" "\<And>p es s. bx (index_insert ce p es s) = bx s"
    using laws(1) by (simp_all add: cache_laws_def)
  have pk: "\<exists>pk. assemble_pack (up_blocks u) bpc = Inr (pk, es) \<and> idx v (up_pack u) = es \<and> objects v (remote w) ?path = Some pk"
    if "a = Inr es" for es
    using st(2) [OF that] u unfolding upload_ok_in_def by auto
  have old: "packs_ok (v\<lparr> manifest := m \<rparr>) (remote (tw t'))"
    unfolding packs_ok_def
  proof (intro allI impI)
    fix ci p assume p: "in_manifest (manifest (v\<lparr> manifest := m \<rparr>)) ci p"
    then have "pack_path (store v) ci p \<noteq> ?path" using u laws(3) by (auto simp: upload_ok_in_def paths_apart_def)
    then show "pack_stored (store (v\<lparr> manifest := m \<rparr>)) (objects (v\<lparr> manifest := m \<rparr>) (remote (tw t'))) ci p (idx (v\<lparr> manifest := m \<rparr>) p)"
      using p t other by (simp add: tiers_ok_def packs_ok_def pack_stored_def)
  qed
  show ok: "tiers_ok ix bx (v\<lparr> manifest := m \<rparr>) t'"
    using t old run' ix pk by (auto simp: tiers_ok_def split: sum.splits if_splits)
  assume r: "r = Inr pr'"
  then obtain es where es: "a = Inr es" using run' by (cases a) auto
  obtain pk where pk': "assemble_pack (up_blocks u) bpc = Inr (pk, es)" "idx v (up_pack u) = es" "objects v (remote (tw t')) ?path = Some pk"
    using pk [OF es] run' by auto
  have "pack_stored (store v) (objects v (remote (tw t'))) (up_chunk u) (up_pack u) es"
    using pk' by (auto simp: pack_stored_def)
  then have "tiers_ok ix bx (v\<lparr> manifest := append_pack (up_chunk u) (up_pack u) (up_live u) m \<rparr>) t'"
    using ok run' es ix pk'(2) by (auto simp: tiers_ok_def packs_ok_def in_manifest_append)
  then show "(\<exists>st. pr' = pr\<lparr> tally := st, staged := staged pr @ [stage_of u] \<rparr> \<and> packs_skipped st = packs_skipped (tally pr))
        \<and> (\<exists>pk. assemble_pack (up_blocks u) bpc = Inr (pk, idx v (up_pack u)))
        \<and> tiers_ok ix bx (v\<lparr> manifest := append_pack (up_chunk u) (up_pack u) (up_live u) m \<rparr>) t'"
    using run' es r pk'(1,2) by fastforce
qed

lemma finish_uploads_ok:
  assumes laws: "cache_laws ce ix bx" "put_laws (object_store (store v)) (objects v)" "paths_apart (store v)"
  shows "\<lbrakk> tiers_ok ix bx (v\<lparr> manifest := m \<rparr>) t; distinct (map up_chunk us);
      \<forall>u\<in>set us. upload_ok_in v bpc m (objects v (remote (tw t))) u;
      finish_uploads ce (store v) bpc us pr t = (r, t') \<rbrakk>
    \<Longrightarrow> tiers_ok ix bx (v\<lparr> manifest := m \<rparr>) t'
      \<and> (\<forall>q. q \<notin> (\<lambda>u. pack_path (store v) (up_chunk u) (up_pack u)) ` set us \<longrightarrow>
            objects v (remote (tw t')) q = objects v (remote (tw t)) q)
      \<and> (\<forall>pr'. r = Inr pr' \<longrightarrow>
            (\<exists>st. pr' = pr\<lparr> tally := st, staged := staged pr @ map stage_of us \<rparr> \<and> packs_skipped st = packs_skipped (tally pr))
          \<and> (\<forall>u\<in>set us. \<exists>pk. assemble_pack (up_blocks u) bpc = Inr (pk, idx v (up_pack u)))
          \<and> tiers_ok ix bx (v\<lparr> manifest := appended (map stage_of us) m \<rparr>) t')"
proof (induction us arbitrary: m t pr)
  case Nil
  then show ?case by (auto simp: rreturn_def appended_def intro!: exI [of _ "tally pr"])
next
  case (Cons u us)
  obtain a t1 where a: "finish_upload ce (store v) bpc u pr t = (a, t1)" by force
  have u: "upload_ok_in v bpc m (objects v (remote (tw t))) u" using Cons.prems(3) by simp
  note k = finish_upload_ok [OF laws Cons.prems(1) u a]
  show ?case
  proof (cases a)
    case (Inl e)
    then have "r = Inl e" "t' = t1" using Cons.prems(4) a by (auto simp: rbind_def)
    then show ?thesis using k(1,2) by auto
  next
    case (Inr pr1)
    let ?m = "append_pack (up_chunk u) (up_pack u) (up_live u) m"
    obtain st where pr1: "pr1 = pr\<lparr> tally := st, staged := staged pr @ [stage_of u] \<rparr>" "packs_skipped st = packs_skipped (tally pr)"
      and t1: "tiers_ok ix bx (v\<lparr> manifest := ?m \<rparr>) t1"
      and asm: "\<exists>pk. assemble_pack (up_blocks u) bpc = Inr (pk, idx v (up_pack u))"
      using k(3) [OF Inr] by auto
    have run: "finish_uploads ce (store v) bpc us pr1 t1 = (r, t')" using Cons.prems(4) a Inr by (simp add: rbind_def)
    have "\<forall>w\<in>set us. upload_ok_in v bpc ?m (objects v (remote (tw t1))) w"
    proof
      fix w assume w: "w \<in> set us"
      then have "up_chunk w \<noteq> up_chunk u" using Cons.prems(2) by (auto simp: image_iff)
      moreover have "upload_ok_in v bpc m (objects v (remote (tw t))) w" using Cons.prems(3) w by simp
      moreover have "objects v (remote (tw t1)) (pack_path (store v) (up_chunk w) (up_pack w))
          = objects v (remote (tw t)) (pack_path (store v) (up_chunk w) (up_pack w))"
        by (rule k(1)) (use calculation(1) laws(3) in \<open>auto simp: paths_apart_def\<close>)
      ultimately show "upload_ok_in v bpc ?m (objects v (remote (tw t1))) w"
        by (simp add: upload_ok_in_def in_manifest_append)
    qed
    note ih = Cons.IH [OF t1 _ this run]
    have d: "distinct (map up_chunk us)" using Cons.prems(2) by simp
    have m: "tiers_ok ix bx (v\<lparr> manifest := m \<rparr>) t'"
      by (rule tiers_ok_mono [OF conjunct1 [OF ih [OF d]]]) (simp add: in_manifest_append)
    moreover have "objects v (remote (tw t')) q = objects v (remote (tw t)) q"
      if "q \<notin> (\<lambda>u. pack_path (store v) (up_chunk u) (up_pack u)) ` set (u # us)" for q
      using ih [OF d] k(1) that by simp
    moreover have "(\<exists>st. pr' = pr\<lparr> tally := st, staged := staged pr @ map stage_of (u # us) \<rparr> \<and> packs_skipped st = packs_skipped (tally pr))
          \<and> (\<forall>w\<in>set (u # us). \<exists>pk. assemble_pack (up_blocks w) bpc = Inr (pk, idx v (up_pack w)))
          \<and> tiers_ok ix bx (v\<lparr> manifest := appended (map stage_of (u # us)) m \<rparr>) t'" if "r = Inr pr'" for pr'
      using ih [OF d] that pr1 asm by (auto simp: appended_Cons)
    ultimately show ?thesis by blast
  qed
qed

section \<open>The hypotheses of a flush\<close>

text \<open>What the surroundings of a flush promise.\<close>

definition flush_laws :: "flush_env \<Rightarrow> 'c cache_engine \<Rightarrow> ('c \<Rightarrow> PackId \<Rightarrow> PackIndexEntry list option)
    \<Rightarrow> ('c \<Rightarrow> Blake3Hash \<Rightarrow> bytes option) \<Rightarrow> 's volume \<Rightarrow> (bytes \<Rightarrow> bytes \<Rightarrow> bool) \<Rightarrow> bool" where
  "flush_laws env ce ix bx v V \<longleftrightarrow>
     tolerant env V \<and> cache_laws ce ix bx \<and> suffix_true (object_store (store v)) (objects v)
   \<and> put_laws (object_store (store v)) (objects v) \<and> paths_apart (store v)
   \<and> digest v = blake3 (reading env) \<and> io_works (sync_io env) \<and> (\<forall>xs. distinct xs \<longrightarrow>
        distinct (upload_order env xs) \<and> set (upload_order env xs) = set xs)
   \<and> (\<forall>ci p. pack_path (store v) ci p \<noteq> cs_key (store v) (manifest_s3_key (export_name env)))"

text \<open>The indexes of the packs: distinct offsets, and a tombstone is an entry with the zero hash.\<close>

definition index_ok :: "'s volume \<Rightarrow> VolumeManifest \<Rightarrow> Blake3Hash \<Rightarrow> bool" where
  "index_ok v m zero \<longleftrightarrow> (\<forall>ci p. in_manifest m ci p \<longrightarrow>
     offsets_distinct (idx v p) \<and> (\<forall>e\<in>set (idx v p). comp_length e = 0 \<longleftrightarrow> hash e = zero))"

definition blocks_in :: "VolumeManifest \<Rightarrow> nat list \<Rightarrow> u32 \<Rightarrow> nat list" where
  "blocks_in m D ci = filter (\<lambda>b. chunk_of m b = ci) D"

definition new_pack :: "flush_env \<Rightarrow> 's volume \<Rightarrow> VolumeManifest \<Rightarrow> CacheInner \<Rightarrow> bytes \<Rightarrow> (nat \<times> u32 list) list
    \<Rightarrow> nat list \<Rightarrow> u32 \<Rightarrow> pack_block list" where
  "new_pack env v m c ff crcs D ci = pack_contents env v m c ff crcs (blocks_in m D ci)"

definition new_id :: "flush_env \<Rightarrow> 's volume \<Rightarrow> VolumeManifest \<Rightarrow> CacheInner \<Rightarrow> bytes \<Rightarrow> (nat \<times> u32 list) list
    \<Rightarrow> nat list \<Rightarrow> u32 \<Rightarrow> PackId" where
  "new_id env v m c ff crcs D ci = content_pack_id (pack_hash env) (new_pack env v m c ff crcs D ci)"

text \<open>
  The identifiers of the packs a flush forms are new to their chunk, and each names one pack:
  the index under it is that of the pack, and so is an object already stored under it.
\<close>

definition ids_name_packs :: "flush_env \<Rightarrow> 's volume \<Rightarrow> VolumeManifest \<Rightarrow> CacheInner \<Rightarrow> bytes \<Rightarrow> (nat \<times> u32 list) list
    \<Rightarrow> nat list \<Rightarrow> (string \<Rightarrow> bytes option) \<Rightarrow> bool" where
  "ids_name_packs env v m c ff crcs D ob \<longleftrightarrow>
     (\<forall>ci. new_pack env v m c ff crcs D ci \<noteq> [] \<longrightarrow>
        new_id env v m c ff crcs D ci \<notin> set (chunk_packs m ci)
      \<and> (\<forall>pk es. assemble_pack (new_pack env v m c ff crcs D ci) (the (blocks_per_chunk m)) = Inr (pk, es) \<longrightarrow>
           idx v (new_id env v m c ff crcs D ci) = es
         \<and> ob (pack_path (store v) ci (new_id env v m c ff crcs D ci)) \<in> {None, Some pk}))"

text \<open>The state after the rotation, with the claimed blocks \<open>D\<close> and the drained baselines.\<close>

definition rotated :: "flush_env \<Rightarrow> 's volume \<Rightarrow> (Blake3Hash \<Rightarrow> bytes) \<Rightarrow> VolumeManifest \<Rightarrow> CacheInner \<Rightarrow> bytes
    \<Rightarrow> (nat \<times> u32 list) list \<Rightarrow> nat list \<Rightarrow> (string \<Rightarrow> bytes option) \<Rightarrow> bool" where
  "rotated env v plain m c ff crcs D ob \<longleftrightarrow>
     ci_wf c \<and> flushing_file c = Some ff \<and> distinct D
   \<and> (\<forall>b\<in>set D. b < num_blocks c \<and> has_local c b) \<and> (\<forall>b<num_blocks c. states c ! b = SYNCING \<longrightarrow> b \<in> set D)
   \<and> vm_geometry m c \<and> index_ok v m (zero_block_hash c) \<and> unambiguous env plain c ff
   \<and> ids_name_packs env v m c ff crcs D ob"

section \<open>The chunks\<close>

text \<open>The uploads of the chunks \<open>cs\<close>, done or pending.\<close>

definition up_inv :: "flush_env \<Rightarrow> ('c \<Rightarrow> PackId \<Rightarrow> PackIndexEntry list option)
    \<Rightarrow> ('c \<Rightarrow> Blake3Hash \<Rightarrow> bytes option) \<Rightarrow> 's volume \<Rightarrow> VolumeManifest
    \<Rightarrow> CacheInner \<Rightarrow> bytes \<Rightarrow> (nat \<times> u32 list) list \<Rightarrow> nat list \<Rightarrow> (string \<Rightarrow> bytes option) \<Rightarrow> u32 set \<Rightarrow> progress
    \<Rightarrow> ('s, 'c) tiers \<Rightarrow> bool" where
  "up_inv env ix bx v m c ff crcs D ob cs pr t \<longleftrightarrow>
     tiers_ok ix bx (v\<lparr> manifest := appended (staged pr) m \<rparr>) t
   \<and> distinct (map fst (staged pr) @ map up_chunk (pending pr))
   \<and> (\<lambda>(ci, p, _). (ci, p)) ` set (staged pr) \<union> (\<lambda>u. (up_chunk u, up_pack u)) ` set (pending pr)
       = {(ci, new_id env v m c ff crcs D ci) | ci. ci \<in> cs \<and> new_pack env v m c ff crcs D ci \<noteq> []}
   \<and> (\<forall>u\<in>set (pending pr). up_blocks u = new_pack env v m c ff crcs D (up_chunk u))
   \<and> (\<forall>(ci, p, _)\<in>set (staged pr). \<exists>pk.
        assemble_pack (new_pack env v m c ff crcs D ci) (the (blocks_per_chunk m)) = Inr (pk, idx v p))
   \<and> (\<forall>ci. ci \<notin> fst ` set (staged pr) \<longrightarrow>
        objects v (remote (tw t)) (pack_path (store v) ci (new_id env v m c ff crcs D ci))
          = ob (pack_path (store v) ci (new_id env v m c ff crcs D ci)))"

text \<open>
  Between two chunks: the cache has changed as other tasks may, and the blocks of the chunks
  that are done are in \<open>flushed\<close> unless they were given back.
\<close>

definition chunk_inv :: "flush_env \<Rightarrow> ('c \<Rightarrow> PackId \<Rightarrow> PackIndexEntry list option)
    \<Rightarrow> ('c \<Rightarrow> Blake3Hash \<Rightarrow> bytes option) \<Rightarrow> 's volume \<Rightarrow> (bytes \<Rightarrow> bytes \<Rightarrow> bool) \<Rightarrow> VolumeManifest
    \<Rightarrow> CacheInner \<Rightarrow> bytes \<Rightarrow> (nat \<times> u32 list) list \<Rightarrow> nat list \<Rightarrow> (string \<Rightarrow> bytes option) \<Rightarrow> u32 set \<Rightarrow> progress
    \<Rightarrow> ('s, 'c) flush_state \<Rightarrow> bool" where
  "chunk_inv env ix bx v V m c ff crcs D ob cs pr s \<longleftrightarrow>
     ext V c (fc s) \<and> fm s = m \<and> up_inv env ix bx v m c ff crcs D ob cs pr (ft s)
   \<and> set (flushed pr) = {b \<in> set D. chunk_of m b \<in> cs \<and> pages_ok env c ff crcs b}
   \<and> (\<forall>b\<in>set D. chunk_of m b \<in> cs \<and> \<not> pages_ok env c ff crcs b \<longrightarrow> states (fc s) ! b \<noteq> SYNCING)
   \<and> (\<forall>b\<in>set (flushed pr). data_of env c ff b \<noteq> None)"

text \<open>What holds when a flush stops with an error.\<close>

definition stopped :: "('c \<Rightarrow> PackId \<Rightarrow> PackIndexEntry list option) \<Rightarrow> ('c \<Rightarrow> Blake3Hash \<Rightarrow> bytes option)
    \<Rightarrow> 's volume \<Rightarrow> (bytes \<Rightarrow> bytes \<Rightarrow> bool) \<Rightarrow> VolumeManifest \<Rightarrow> CacheInner \<Rightarrow> ('s, 'c) flush_state \<Rightarrow> bool" where
  "stopped ix bx v V m c s \<longleftrightarrow> ext V c (fc s) \<and> fm s = m \<and> tiers_ok ix bx (v\<lparr> manifest := m \<rparr>) (ft s)"

lemma tiers_ok_base: "tiers_ok ix bx (v\<lparr> manifest := appended S m \<rparr>) t \<Longrightarrow> tiers_ok ix bx (v\<lparr> manifest := m \<rparr>) t"
  by (erule tiers_ok_mono) (simp add: in_manifest_appended)

lemma up_inv_upload_ok:
  assumes "ids_name_packs env v m c ff crcs D ob" "up_inv env ix bx v m c ff crcs D ob cs pr t" "u \<in> set (pending pr)"
  shows "upload_ok_in v (the (blocks_per_chunk m)) (appended (staged pr) m) (objects v (remote (tw t))) u"
proof -
  have "(up_chunk u, up_pack u) \<in> {(ci, new_id env v m c ff crcs D ci) | ci. ci \<in> cs \<and> new_pack env v m c ff crcs D ci \<noteq> []}"
    using assms(2,3) unfolding up_inv_def by blast
  then have id: "up_pack u = new_id env v m c ff crcs D (up_chunk u)" "new_pack env v m c ff crcs D (up_chunk u) \<noteq> []" by auto
  have ns: "up_chunk u \<notin> fst ` set (staged pr)" using assms(2,3) by (auto simp: up_inv_def)
  have bl: "up_blocks u = new_pack env v m c ff crcs D (up_chunk u)" using assms(2,3) by (simp add: up_inv_def)
  have ob: "objects v (remote (tw t)) (pack_path (store v) (up_chunk u) (up_pack u)) = ob (pack_path (store v) (up_chunk u) (up_pack u))"
    using assms(2) ns id(1) by (simp add: up_inv_def)
  have "up_pack u \<notin> set (chunk_packs m (up_chunk u))" using assms(1) id by (simp add: ids_name_packs_def)
  moreover have "(up_chunk u, up_pack u, l) \<notin> set (staged pr)" for l using ns by (metis fst_conv image_eqI)
  ultimately have "\<not> in_manifest (appended (staged pr) m) (up_chunk u) (up_pack u)"
    unfolding in_manifest_appended by (simp add: in_manifest_packs)
  then show ?thesis using assms(1) id ob bl by (simp add: upload_ok_in_def ids_name_packs_def)
qed

lemma up_inv_finish:
  assumes laws: "flush_laws env ce ix bx v V" and ids: "ids_name_packs env v m c ff crcs D ob"
    and inv: "up_inv env ix bx v m c ff crcs D ob cs pr t"
    and split: "set (pending pr) = set us \<union> set rest" "distinct (map up_chunk (us @ rest))"
    and run: "finish_uploads ce (store v) (the (blocks_per_chunk m)) us (pr\<lparr> pending := rest \<rparr>) t = (r, t')"
  shows "tiers_ok ix bx (v\<lparr> manifest := m \<rparr>) t'"
    and "r = Inr pr' \<Longrightarrow> up_inv env ix bx v m c ff crcs D ob cs pr' t' \<and> flushed pr' = flushed pr \<and> pending pr' = rest"
proof -
  let ?m = "appended (staged pr) m" and ?bpc = "the (blocks_per_chunk m)"
  have l: "cache_laws ce ix bx" "put_laws (object_store (store v)) (objects v)" "paths_apart (store v)"
    using laws by (simp_all add: flush_laws_def)
  have t: "tiers_ok ix bx (v\<lparr> manifest := ?m \<rparr>) t" using inv by (simp add: up_inv_def)
  have "\<forall>u\<in>set us. upload_ok_in v ?bpc ?m (objects v (remote (tw t))) u"
    using up_inv_upload_ok [OF ids inv] split(1) by blast
  moreover have "distinct (map up_chunk us)" using split(2) by simp
  ultimately have k: "tiers_ok ix bx (v\<lparr> manifest := ?m \<rparr>) t'"
      "\<And>q. q \<notin> (\<lambda>u. pack_path (store v) (up_chunk u) (up_pack u)) ` set us \<Longrightarrow> objects v (remote (tw t')) q = objects v (remote (tw t)) q"
      "\<And>pr'. r = Inr pr' \<Longrightarrow> (\<exists>st. pr' = (pr\<lparr> pending := rest \<rparr>)\<lparr> tally := st, staged := staged pr @ map stage_of us \<rparr>)
          \<and> (\<forall>u\<in>set us. \<exists>pk. assemble_pack (up_blocks u) ?bpc = Inr (pk, idx v (up_pack u)))
          \<and> tiers_ok ix bx (v\<lparr> manifest := appended (map stage_of us) ?m \<rparr>) t'"
    using finish_uploads_ok [OF l t _ _ run] by auto
  show "tiers_ok ix bx (v\<lparr> manifest := m \<rparr>) t'" by (rule tiers_ok_base [OF k(1)])
  assume "r = Inr pr'"
  from k(3) [OF this] obtain st where pr': "pr' = (pr\<lparr> pending := rest \<rparr>)\<lparr> tally := st, staged := staged pr @ map stage_of us \<rparr>"
    and t': "tiers_ok ix bx (v\<lparr> manifest := appended (staged pr @ map stage_of us) m \<rparr>) t'"
    and asm: "\<forall>u\<in>set us. \<exists>pk. assemble_pack (up_blocks u) ?bpc = Inr (pk, idx v (up_pack u))"
    by (auto simp: appended_def)
  have named: "\<forall>(ci, p, _)\<in>set (staged pr @ map stage_of us). \<exists>pk. assemble_pack (new_pack env v m c ff crcs D ci) ?bpc = Inr (pk, idx v p)"
    using asm inv split(1) by (auto simp: up_inv_def stage_of_def)
  have fst: "fst ` set (staged pr @ map stage_of us) = fst ` set (staged pr) \<union> up_chunk ` set us"
    by (force simp: stage_of_def image_Un image_image)
  have pairs: "(\<lambda>(ci, p, _). (ci, p)) ` set (staged pr @ map stage_of us) \<union> (\<lambda>u. (up_chunk u, up_pack u)) ` set rest
     = (\<lambda>(ci, p, _). (ci, p)) ` set (staged pr) \<union> (\<lambda>u. (up_chunk u, up_pack u)) ` set (pending pr)"
    unfolding split(1) by (force simp: stage_of_def image_Un image_image)
  have dist: "distinct (map fst (staged pr @ map stage_of us) @ map up_chunk rest)"
  proof -
    have "distinct (map fst (staged pr))" "fst ` set (staged pr) \<inter> up_chunk ` set (pending pr) = {}"
      using inv by (simp_all add: up_inv_def)
    then show ?thesis using split by (simp add: comp_def image_Un image_image)
  qed
  have obs: "objects v (remote (tw t')) (pack_path (store v) ci (new_id env v m c ff crcs D ci))
          = ob (pack_path (store v) ci (new_id env v m c ff crcs D ci))" if "ci \<notin> fst ` set (staged pr @ map stage_of us)" for ci
  proof -
    have "pack_path (store v) ci (new_id env v m c ff crcs D ci) \<notin> (\<lambda>u. pack_path (store v) (up_chunk u) (up_pack u)) ` set us"
    proof
      assume "pack_path (store v) ci (new_id env v m c ff crcs D ci) \<in> (\<lambda>u. pack_path (store v) (up_chunk u) (up_pack u)) ` set us"
      then obtain u where "u \<in> set us" "ci = up_chunk u" using l(3) unfolding paths_apart_def by blast
      then show False using that fst by blast
    qed
    then show ?thesis using k(2) inv that fst by (simp add: up_inv_def)
  qed
  show "up_inv env ix bx v m c ff crcs D ob cs pr' t' \<and> flushed pr' = flushed pr \<and> pending pr' = rest"
    using inv split(1) t' dist obs pairs named unfolding up_inv_def pr' by simp
qed

lemma get_pack_index_keeps:
  assumes "suffix_true (object_store cs) obj" "get_pack_index cs ci p w = (r, w')"
  shows "obj (remote w') = obj (remote w)"
proof -
  let ?key = "chunk_pack_key (base_path cs) ci p"
  have k: "obj (remote w2) = obj (remote w1)" if "get_suffix_from_key cs ?key n w1 = (a, w2)" for n w1 w2 a
    using spawned_obj(1) [OF assms(1)] that by (simp add: get_suffix_from_key_def)
  obtain a w1 where a: "get_suffix_from_key cs ?key INITIAL_SUFFIX w = (a, w1)" by force
  note k1 = k [OF a]
  show ?thesis
  proof (cases a)
    case (Inl e)
    then show ?thesis using assms(2) a k1 by (auto simp: get_pack_index_def cs_bind_def Let_def)
  next
    case (Inr d)
    obtain b w2 where b: "get_suffix_from_key cs ?key (precise_suffix d) w1 = (b, w2)" by force
    have "w' = w1 \<or> w' = w2"
      using assms(2) a Inr b 
      by (auto simp: get_pack_index_def cs_bind_def Let_def split: option.splits sum.splits if_splits pack_error.splits)
    then show ?thesis using k1 k [OF b] by auto
  qed
qed

lemma load_from_keeps:
  assumes "suffix_true (object_store cs) obj"
  shows "load_from ce cs ci ps m t = (r, t') \<Longrightarrow> obj (remote (tw t')) = obj (remote (tw t))"
proof (induction ps arbitrary: m t)
  case (Cons p ps)
  obtain e s where e: "index_get ce p (tc t) = (e, s)" by force
  obtain a w where a: "get_pack_index cs ci p (tw t) = (a, w)" by force
  have w: "obj (remote w) = obj (remote (tw t))" by (rule get_pack_index_keeps [OF assms a])
  show ?case
  proof (cases e)
    case None
    then show ?thesis
      using Cons.prems Cons.IH w e a
      by (cases a) (auto simp: rbind_def get_entries_def of_cs_def put_entries_def dest!: Cons.IH)
  qed (use Cons.prems Cons.IH e in \<open>auto simp: rbind_def get_entries_def dest!: Cons.IH\<close>)
qed (simp add: rreturn_def)

lemma enqueue_pack_ok:
  assumes laws: "flush_laws env ce ix bx v V" and ids: "ids_name_packs env v m c ff crcs D ob"
    and inv: "up_inv env ix bx v m c ff crcs D ob cs pr (ft s)" "ci \<notin> cs" "fm s = m"
    and sel: "blocks_for_pack sel = new_pack env v m c ff crcs D ci"
    and run: "enqueue_pack env ce (store v) (the (blocks_per_chunk m)) ci existing sel pr s = Some (r, s')"
  shows "fc s' = fc s \<and> fm s' = m \<and> tiers_ok ix bx (v\<lparr> manifest := m \<rparr>) (ft s')
    \<and> (\<forall>pr'. r = Inr pr' \<longrightarrow> up_inv env ix bx v m c ff crcs D ob (insert ci cs) pr' (ft s') \<and> flushed pr' = flushed pr)"
proof (cases "new_pack env v m c ff crcs D ci = []")
  case True
  then have "s' = s" "r = Inr pr" using run sel by (auto simp: enqueue_pack_def freturn_def)
  moreover have "{(x, new_id env v m c ff crcs D x) | x. x \<in> insert ci cs \<and> new_pack env v m c ff crcs D x \<noteq> []}
     = {(x, new_id env v m c ff crcs D x) | x. x \<in> cs \<and> new_pack env v m c ff crcs D x \<noteq> []}"
    using True by auto
  ultimately show ?thesis using inv tiers_ok_base by (auto simp: up_inv_def)
next
  case False
  let ?id = "new_id env v m c ff crcs D ci" and ?bpc = "the (blocks_per_chunk m)"
  have fresh: "content_pack_id (pack_hash env) (blocks_for_pack sel) \<notin> set (chunk_packs (fm s) ci)"
    using ids False sel inv(3) by (simp add: ids_name_packs_def new_id_def)
  obtain live where run': "drain_ready env ce (store v) ?bpc ci (pr\<lparr> pending := pending pr
      @ [\<lparr> up_chunk = ci, up_pack = ?id, up_live = Some live, up_blocks = new_pack env v m c ff crcs D ci \<rparr>] \<rparr>) (ft s) = (r, ft s')"
      "fc s' = fc s" "fm s' = m"
    using run False sel fresh inv(3) by (auto simp: enqueue_pack_def Let_def on_tiers_def new_id_def split: prod.splits)
  define u where "u = \<lparr> up_chunk = ci, up_pack = ?id, up_live = Some live, up_blocks = new_pack env v m c ff crcs D ci \<rparr>"
  define pr1 where "pr1 = pr\<lparr> pending := pending pr @ [u] \<rparr>"
  have pend: "fst ` set (staged pr) \<union> up_chunk ` set (pending pr) \<subseteq> cs"
  proof -
    have "(\<lambda>(ci, p, _). (ci, p)) ` set (staged pr) \<union> (\<lambda>u. (up_chunk u, up_pack u)) ` set (pending pr) \<subseteq> cs \<times> UNIV"
      using inv(1) unfolding up_inv_def by auto
    then show ?thesis by auto
  qed
  have eq: "{(x, new_id env v m c ff crcs D x) | x. x \<in> insert ci cs \<and> new_pack env v m c ff crcs D x \<noteq> []}
     = insert (ci, ?id) {(x, new_id env v m c ff crcs D x) | x. x \<in> cs \<and> new_pack env v m c ff crcs D x \<noteq> []}"
    using False by auto
  have inv1: "up_inv env ix bx v m c ff crcs D ob (insert ci cs) pr1 (ft s)"
    using inv(1,2) pend eq unfolding up_inv_def pr1_def by (auto simp: u_def)
  let ?ready = "\<lambda>w. upload_ready env ci (up_chunk w)"
  have "set (pending pr1) = set (filter ?ready (pending pr1)) \<union> set (filter (\<lambda>w. \<not> ?ready w) (pending pr1))" by auto
  moreover have "distinct (map up_chunk (filter ?ready (pending pr1) @ filter (\<lambda>w. \<not> ?ready w) (pending pr1)))"
  proof -
    have d: "distinct (map up_chunk (pending pr1))" using inv1 by (simp add: up_inv_def)
    then have "up_chunk ` set (filter ?ready (pending pr1)) \<inter> up_chunk ` set (filter (\<lambda>w. \<not> ?ready w) (pending pr1)) = {}"
      by auto
    then show ?thesis using d by (simp add: distinct_map_filter)
  qed
  moreover have "finish_uploads ce (store v) ?bpc (filter ?ready (pending pr1)) (pr1\<lparr> pending := filter (\<lambda>w. \<not> ?ready w) (pending pr1) \<rparr>) (ft s) = (r, ft s')"
    using run'(1) by (simp add: drain_ready_def Let_def pr1_def u_def)
  ultimately have "tiers_ok ix bx (v\<lparr> manifest := m \<rparr>) (ft s')
      \<and> (\<forall>pr'. r = Inr pr' \<longrightarrow> up_inv env ix bx v m c ff crcs D ob (insert ci cs) pr' (ft s') \<and> flushed pr' = flushed pr1)"
    using up_inv_finish [OF laws ids inv1] by blast
  then show ?thesis using run' by (simp add: pr1_def)
qed

lemma enqueue_pack_total: "\<exists>r s'. enqueue_pack env ce cs bpc ci existing sel pr s = Some (r, s')"
  by (simp add: enqueue_pack_def Let_def freturn_def on_tiers_def split: prod.splits)

lemma fbind_cases:
  assumes "fbind m f s = Some (r, s')"
  obtains (stop) e where "m s = Some (Inl e, s')" "r = Inl e"
    | (go) a s1 where "m s = Some (Inr a, s1)" "f a s1 = Some (r, s')"
  using assms by (auto simp: fbind_def split: option.splits prod.splits sum.splits)

lemma batch_ok_cong: "rely c c' \<Longrightarrow> batch_ok env c' = batch_ok env c"
  unfolding batch_ok_def by (simp add: fun_eq_iff spec_cong)

lemma ext_rely: "ext V c c' \<Longrightarrow> rely c c'"
  by (simp add: ext_def)

lemma blocks_in_ok:
  assumes "rotated env v plain m c ff crcs D ob" "b \<in> set (blocks_in m D ci)"
  shows "b < num_blocks c" "has_local c b" "chunk_of m b = ci" "b \<in> set D"
  using assms by (auto simp: rotated_def blocks_in_def)

lemma compute_flush_batch_total: "\<exists>r s'. compute_flush_batch env ce warm crcs ci bs s = Some (r, s')"
  by (simp add: compute_flush_batch_def Let_def split: option.splits prod.splits)

text \<open>The part of a chunk up to the selection: the batch, the blocks given back, the merged view.\<close>

lemma chunk_prepared:
  assumes laws: "flush_laws env ce ix bx v V" and rot: "rotated env v plain m c ff crcs D ob"
    and inv: "ext V c (fc s)" "fm s = m" "up_inv env ix bx v m c ff crcs D ob cs pr (ft s)"
    and run: "fbind (compute_flush_batch env ce warm crcs ci (blocks_in m D ci)) (\<lambda>batch.
       fbind (on_cache (act_of (restore_skipped (sync_io env) (skipped batch)))) (\<lambda>_.
       fbind (\<lambda>s. on_tiers (load_for_flush ce (store v) ci (chunk_packs (fm s) ci)) s) (\<lambda>existing.
       fbind (pause env (AfterChunk ci)) (\<lambda>_. K batch existing)))) s = res"
  obtains (fail) e s' where "res = Some (Inl e, s')" "stopped ix bx v V m c s'"
    | (ok) batch existing s1 where "K batch existing s1 = res" "ext V (fc s) (fc s1)" "fm s1 = m"
        "up_inv env ix bx v m c ff crcs D ob cs pr (ft s1)" "batch_ok env c ff crcs (blocks_in m D ci) batch"
        "\<forall>b\<in>set (blocks_in m D ci). \<not> pages_ok env c ff crcs b \<longrightarrow> states (fc s1) ! b \<noteq> SYNCING"
        "\<forall>co. bt_get existing co = (case newest (idx v) (chunk_packs m ci) co of Some (p, e) \<Rightarrow> Some (view_pair e) | None \<Rightarrow> None)"
proof -
  let ?bs = "blocks_in m D ci" and ?v = "v\<lparr> manifest := appended (staged pr) m \<rparr>"
  have tol: "tolerant env V" and cl: "cache_laws ce ix bx" and st: "suffix_true (object_store (store v)) (objects v)"
    and dg: "digest v = blake3 (reading env)" and io: "io_works (sync_io env)"
    using laws by (simp_all add: flush_laws_def)
  have wf: "ci_wf c" "flushing_file c = Some ff" using rot by (simp_all add: rotated_def)
  note k = rely_keeps [OF wf(1) ext_rely [OF inv(1)]]
  have bs: "\<forall>b\<in>set ?bs. b < num_blocks (fc s)" using blocks_in_ok [OF rot] k(2) by auto
  have ff: "flushing_file (fc s) = Some ff" using k(1) wf(2) by simp
  have t: "tiers_ok ix bx ?v (ft s)" using inv(3) by (simp add: up_inv_def)
  have dg': "digest ?v = blake3 (reading env)" using dg by simp
  have stop: "stopped ix bx v V m c s'" if "ext V (fc s) (fc s')" "fm s' = m" "tiers_ok ix bx ?v (ft s')" for s'
    using that ext_trans [OF tol wf(1) inv(1)] tiers_ok_base [where S = "staged pr" and m = m] by (simp add: stopped_def)
  obtain x sa where x: "compute_flush_batch env ce warm crcs ci ?bs s = Some (x, sa)"
    using compute_flush_batch_total by blast
  note a0 = compute_flush_batch_ok [OF tol cl dg' k(3) ff bs t x]
  show ?thesis
  proof (cases x)
    case (Inl e)
    have "res = Some (Inl e, sa)" using run x Inl by (simp add: fbind_def)
    then show ?thesis using that(1) stop a0 inv(2) by auto
  next
    case (Inr batch)
    note a = a0 [unfolded Inr]
    have go: "fbind (on_cache (act_of (restore_skipped (sync_io env) (skipped batch)))) (\<lambda>_.
       fbind (\<lambda>s. on_tiers (load_for_flush ce (store v) ci (chunk_packs (fm s) ci)) s) (\<lambda>existing.
       fbind (pause env (AfterChunk ci)) (\<lambda>_. K batch existing))) sa = res"
      using run x Inr by (simp add: fbind_def)
    have ra: "rely c (fc sa)"
      by (rule rely_trans [OF wf(1) ext_rely [OF inv(1)]]) (use a ext_rely in blast)
    note ka = rely_keeps [OF wf(1) ra]
    have batch: "batch_ok env c ff crcs ?bs batch" using a batch_ok_cong [OF ext_rely [OF inv(1)]] by simp
    have "b < num_blocks (fc sa) \<and> has_local (fc sa) b" if "b \<in> set (skipped batch)" for b
    proof -
      have "b \<in> set ?bs" using that batch by (simp add: batch_ok_def)
      note b = blocks_in_ok(1,2) [OF rot this]
      show ?thesis using ka(4) [OF b] ka(2) b(1) by simp
    qed
    then obtain cb where cb: "restore_skipped (sync_io env) (skipped batch) (fc sa) = Some cb" "ext V (fc sa) cb"
        "\<forall>b\<in>set (skipped batch). states cb ! b \<noteq> SYNCING"
      using restore_skipped_ext [OF tol io ka(3)] ka(1) wf(2) by metis
    have eb: "ext V (fc s) cb" using ext_trans [OF tol k(3)] a cb(2) by blast
    define sb where "sb = sa\<lparr> fc := cb \<rparr>"
    have sb: "fm sb = m" "tiers_ok ix bx ?v (ft sb)" "tw (ft sb) = tw (ft s)" using a inv(2) by (simp_all add: sb_def)
    have restore: "on_cache (act_of (restore_skipped (sync_io env) (skipped batch))) sa = Some (Inr (), sb)"
      using cb(1) by (simp add: on_cache_def act_of_def sb_def)
    obtain l tl where l: "load_for_flush ce (store v) ci (chunk_packs m ci) (ft sb) = (l, tl)" by force
    have ids: "\<forall>p\<in>set (chunk_packs m ci). in_manifest (manifest ?v) ci p \<and> offsets_distinct (idx ?v p)"
      using rot by (auto simp: rotated_def index_ok_def in_manifest_packs [symmetric] in_manifest_appended)
    note ll = load_for_flush_ok [of ce ix bx ?v, OF cl _ ids sb(2)]
    have tl: "tiers_ok ix bx ?v tl" using ll(1) st l by simp
    obtain l0 where l0: "load_from ce (store v) ci (chunk_packs m ci) [] (ft sb) = (l0, tl)"
      using l by (auto simp: load_for_flush_def load_existing_def split: prod.splits sum.splits)
    have tlw: "objects v (remote (tw tl)) = objects v (remote (tw (ft s)))"
      using load_from_keeps [OF st l0] sb(3) by simp
    have rest: "fbind (\<lambda>s. on_tiers (load_for_flush ce (store v) ci (chunk_packs (fm s) ci)) s) (\<lambda>existing.
       fbind (pause env (AfterChunk ci)) (\<lambda>_. K batch existing)) sb = res"
      using go restore by (simp add: fbind_def)
    show ?thesis
    proof (cases l)
      case (Inl e)
      then have "res = Some (Inl e, sb\<lparr> ft := tl \<rparr>)" using rest l sb(1) by (auto simp: fbind_def on_tiers_def)
      then show ?thesis using that(1) stop eb sb(1) tl by (simp add: sb_def)
    next
      case (Inr existing)
      define s1 where "s1 = sb\<lparr> ft := tl, fc := others env (AfterChunk ci) cb \<rparr>"
      have run1: "K batch existing s1 = res"
        using rest l sb(1) Inr by (simp add: fbind_def on_tiers_def pause_def s1_def sb_def)
      have e1: "ext V cb (fc s1)" using ext_others [OF tol ext_wf [OF eb]] by (simp add: s1_def)
      have "up_inv env ix bx v m c ff crcs D ob cs pr (ft s1)" using inv(3) tl tlw by (simp add: up_inv_def s1_def)
      moreover have "states (fc s1) ! b \<noteq> SYNCING" if "b \<in> set ?bs" "\<not> pages_ok env c ff crcs b" for b
      proof -
        have "b \<in> set (skipped batch)" using batch that by (simp add: batch_ok_def)
        then have "states cb ! b \<noteq> SYNCING" using cb(3) by blast
        moreover have "b < num_blocks cb" using rely_keeps(2) [OF k(3) ext_rely [OF eb]] bs that(1) by simp
        ultimately show ?thesis using rely_keeps(5) [OF ext_wf [OF eb] ext_rely [OF e1]] by blast
      qed
      moreover have "bt_get existing co = (case newest (idx v) (chunk_packs m ci) co of Some (p, e) \<Rightarrow> Some (view_pair e) | None \<Rightarrow> None)" for co
        using ll(2) st l Inr by simp
      ultimately show ?thesis
        using that(2) [OF run1 ext_trans [OF tol k(3) eb e1]] batch sb(1) by (simp add: s1_def)
    qed
  qed
qed

lemma selected:
  assumes rot: "rotated env v plain m c ff crcs D ob" and r: "rely c c'"
    and batch: "batch_ok env c ff crcs (blocks_in m D ci) batch"
    and ex: "\<forall>co. bt_get existing co = (case newest (idx v) (chunk_packs m ci) co of Some (p, e) \<Rightarrow> Some (view_pair e) | None \<Rightarrow> None)"
  shows "\<exists>sel. select_blocks m existing (rev (to_upload batch)) (computed batch) empty_selection c' = Some (sel, c')
     \<and> blocks_for_pack sel = new_pack env v m c ff crcs D ci
     \<and> packed_indices sel = filter (pages_ok env c ff crcs) (blocks_in m D ci)"
proof -
  let ?xs = "filter (pages_ok env c ff crcs) (blocks_in m D ci)"
  have wf: "ci_wf c" "vm_geometry m c" and un: "unambiguous env plain c ff" using rot by (simp_all add: rotated_def)
  have z: "zero_block_hash c' = zero_block_hash c" using r by (simp add: rely_def)
  note sp = spec_cong [OF r]
  have held: "held_already env v m c' ff = held_already env v m c ff"
    unfolding held_already_def sp z by (rule refl)
  have one: "block_offset_in_chunk m (of_nat b) = Some (offset_of m b)
      \<and> dominated existing (zero_block_hash c') (offset_of m b) (hash_of env c' ff b) = held_already env v m c' ff b
      \<and> (if hash_of env c' ff b = zero_block_hash c' then Some [] else map_of (rev (to_upload batch)) (hash_of env c' ff b))
          = Some (the (data_of env c' ff b))" if b: "b \<in> set ?xs" for b
  proof -
    have bb: "b \<in> set (blocks_in m D ci)" "pages_ok env c ff crcs b" using b by auto
    note k = blocks_in_ok [OF rot bb(1)]
    have "\<forall>b\<in>set (blocks_in m D ci). b < num_blocks c" using blocks_in_ok(1) [OF rot] by blast
    from batch_lookup [OF batch un this bb] block_addressed(2) [OF wf(1) k(1) wf(2)]
      dominated_newest [of existing "offset_of m b" v "chunk_packs m ci", OF ex [rule_format]]
    show ?thesis unfolding sp z held_already_def newest_at_def k(3) by simp
  qed
  from select_ok [of ?xs m existing c' env ff v "rev (to_upload batch)" empty_selection] one
  obtain n where "select_blocks m existing (rev (to_upload batch)) (map (\<lambda>b. (b, hash_of env c' ff b)) ?xs) empty_selection c'
     = Some (empty_selection\<lparr> blocks_for_pack := blocks_for_pack empty_selection
                   @ map (pack_block_of env m c' ff) (filter (\<lambda>b. \<not> held_already env v m c' ff b) ?xs),
                 packed_indices := packed_indices empty_selection @ ?xs, cross_deduped := n \<rparr>, c')"
    by blast
  moreover have "pack_block_of env m c' ff = pack_block_of env m c ff"
    unfolding pack_block_of_def sp by (rule refl)
  ultimately show ?thesis
    using batch unfolding sp held
    by (simp add: batch_ok_def empty_selection_def new_pack_def pack_contents_def new_blocks_def)
qed

lemma flush_chunk_ok:
  assumes laws: "flush_laws env ce ix bx v V" and rot: "rotated env v plain m c ff crcs D ob"
    and inv: "chunk_inv env ix bx v V m c ff crcs D ob cs pr s" and ci: "ci \<notin> cs"
  shows "\<exists>r s'. flush_chunk env ce (store v) warm crcs (the (blocks_per_chunk m)) ci (blocks_in m D ci) pr s = Some (r, s')
     \<and> stopped ix bx v V m c s' \<and> (\<forall>pr'. r = Inr pr' \<longrightarrow> chunk_inv env ix bx v V m c ff crcs D ob (insert ci cs) pr' s')"
    (is "?goal")
proof -
  define res where "res = flush_chunk env ce (store v) warm crcs (the (blocks_per_chunk m)) ci (blocks_in m D ci) pr s"
  have tol: "tolerant env V" using laws by (simp add: flush_laws_def)
  have wf: "ci_wf c" using rot by (simp add: rotated_def)
  have i: "ext V c (fc s)" "fm s = m" "up_inv env ix bx v m c ff crcs D ob cs pr (ft s)"
    using inv by (simp_all add: chunk_inv_def)
  note k = rely_keeps [OF wf ext_rely [OF i(1)]]
  show ?goal
  proof (rule chunk_prepared [OF laws rot i res_def [symmetric, unfolded flush_chunk_def]])
    fix e s' assume "res = Some (Inl e, s')" "stopped ix bx v V m c s'"
    then show ?thesis by (simp add: res_def)
  next
    fix batch existing s1
    assume ok: "(case select_blocks (fm s1) existing (rev (to_upload batch)) (computed batch) empty_selection (fc s1) of
         None \<Rightarrow> None
       | Some (sel, c) \<Rightarrow>
           enqueue_pack env ce (store v) (the (blocks_per_chunk m)) ci existing sel
             (pr\<lparr> tally := (add_batch_stats (tally pr) (batch_stats batch))
                    \<lparr> blocks_cross_deduped := blocks_cross_deduped (tally pr) + cross_deduped sel \<rparr>,
                  flushed := flushed pr @ packed_indices sel \<rparr>) (s1\<lparr> fc := c \<rparr>)) = res"
      "ext V (fc s) (fc s1)" "fm s1 = m" "up_inv env ix bx v m c ff crcs D ob cs pr (ft s1)"
      "batch_ok env c ff crcs (blocks_in m D ci) batch"
      "\<forall>b\<in>set (blocks_in m D ci). \<not> pages_ok env c ff crcs b \<longrightarrow> states (fc s1) ! b \<noteq> SYNCING"
      "\<forall>co. bt_get existing co = (case newest (idx v) (chunk_packs m ci) co of Some (p, e) \<Rightarrow> Some (view_pair e) | None \<Rightarrow> None)"
    have e1: "ext V c (fc s1)" by (rule ext_trans [OF tol wf i(1) ok(2)])
    obtain sel where sel: "select_blocks m existing (rev (to_upload batch)) (computed batch) empty_selection (fc s1) = Some (sel, fc s1)"
        "blocks_for_pack sel = new_pack env v m c ff crcs D ci"
        "packed_indices sel = filter (pages_ok env c ff crcs) (blocks_in m D ci)"
      using selected [OF rot ext_rely [OF e1] ok(5) ok(7)] by blast
    define pr1 where "pr1 = pr\<lparr> tally := (add_batch_stats (tally pr) (batch_stats batch))
                    \<lparr> blocks_cross_deduped := blocks_cross_deduped (tally pr) + cross_deduped sel \<rparr>,
                  flushed := flushed pr @ packed_indices sel \<rparr>"
    obtain r s' where run1: "enqueue_pack env ce (store v) (the (blocks_per_chunk m)) ci existing sel pr1 s1 = Some (r, s')"
      using enqueue_pack_total by blast
    have res: "res = Some (r, s')" using ok(1,3) sel(1) run1 by (simp add: pr1_def)
    have "up_inv env ix bx v m c ff crcs D ob cs pr1 (ft s1)" using ok(4) by (simp add: up_inv_def pr1_def)
    note q = enqueue_pack_ok [OF laws _ this ci ok(3) sel(2) run1]
    have ids: "ids_name_packs env v m c ff crcs D ob" using rot by (simp add: rotated_def)
    have "stopped ix bx v V m c s'" using q [OF ids] e1 by (simp add: stopped_def)
    moreover have "chunk_inv env ix bx v V m c ff crcs D ob (insert ci cs) pr' s'" if "r = Inr pr'" for pr'
    proof -
      have u: "up_inv env ix bx v m c ff crcs D ob (insert ci cs) pr' (ft s')" "flushed pr' = flushed pr1" "fc s' = fc s1" "fm s' = m"
        using q [OF ids] that by simp_all
      have fl: "set (flushed pr') = {b \<in> set D. chunk_of m b \<in> insert ci cs \<and> pages_ok env c ff crcs b}"
        using inv u(2) sel(3) by (auto simp: chunk_inv_def pr1_def blocks_in_def)
      have "states (fc s1) ! b \<noteq> SYNCING"
        if b: "b \<in> set D" "chunk_of m b \<in> insert ci cs" "\<not> pages_ok env c ff crcs b" for b
      proof (cases "chunk_of m b = ci")
        case True
        then show ?thesis using ok(6) b by (simp add: blocks_in_def)
      next
        case False
        then have "states (fc s) ! b \<noteq> SYNCING" using inv b by (simp add: chunk_inv_def)
        moreover have "b < num_blocks (fc s)" using rot b(1) k(2) by (simp add: rotated_def)
        ultimately show ?thesis using rely_keeps(5) [OF k(3) ext_rely [OF ok(2)]] by blast
      qed
      moreover have "data_of env c ff b \<noteq> None" if b: "b \<in> set (flushed pr')" for b
      proof (cases "b \<in> set (flushed pr)")
        case False
        then have bb: "b \<in> set (blocks_in m D ci)" "pages_ok env c ff crcs b"
          using b u(2) sel(3) by (simp_all add: pr1_def)
        have un: "unambiguous env plain c ff" using rot by (simp add: rotated_def)
        have "\<forall>b\<in>set (blocks_in m D ci). b < num_blocks c" using blocks_in_ok(1) [OF rot] by blast
        from batch_lookup(2) [OF ok(5) un this bb] show ?thesis .
      qed (use inv in \<open>simp add: chunk_inv_def\<close>)
      ultimately show ?thesis using u e1 fl by (simp add: chunk_inv_def)
    qed
    ultimately show ?thesis using res by (auto simp: res_def)
  qed
qed

end
