(* ===== verification/FlushImage.thy ===== *)
theory FlushImage
  imports FlushSafe
begin

text \<open>
  The body of a flush after the chunks: all uploads finish, the manifest gets the new packs,
  and what the packs now hold is what the guest saw in the claimed blocks.
\<close>

section \<open>All chunks\<close>

lemma partition_chunks_ok:
  assumes "\<forall>b\<in>set bs. chunk_idx_for_block m (of_nat b) = Some (chunk_of m b)" "bt_wf acc"
  shows "\<exists>pc. partition_chunks m bs acc = Some pc \<and> bt_wf pc
    \<and> (\<forall>ci. bt_get pc ci = (case bt_get acc ci of
          Some ys \<Rightarrow> Some (ys @ blocks_in m bs ci)
        | None \<Rightarrow> if blocks_in m bs ci = [] then None else Some (blocks_in m bs ci)))"
  using assms
proof (induction bs arbitrary: acc)
  case Nil
  then show ?case by (auto simp: blocks_in_def split: option.splits)
next
  case (Cons b bs)
  let ?acc = "bt_insert (chunk_of m b) ((case bt_get acc (chunk_of m b) of Some xs \<Rightarrow> xs | None \<Rightarrow> []) @ [b]) acc"
  have wf: "bt_wf ?acc" by (rule bt_wf_insert [OF Cons.prems(2)])
  from Cons.IH [OF _ wf] Cons.prems(1) obtain pc where pc: "partition_chunks m bs ?acc = Some pc" "bt_wf pc"
      "\<forall>ci. bt_get pc ci = (case bt_get ?acc ci of
          Some ys \<Rightarrow> Some (ys @ blocks_in m bs ci)
        | None \<Rightarrow> if blocks_in m bs ci = [] then None else Some (blocks_in m bs ci))"
    by auto
  have "bt_get pc ci = (case bt_get acc ci of
          Some ys \<Rightarrow> Some (ys @ blocks_in m (b # bs) ci)
        | None \<Rightarrow> if blocks_in m (b # bs) ci = [] then None else Some (blocks_in m (b # bs) ci))" for ci
    using pc(3) Cons.prems(2) by (auto simp: blocks_in_def bt_get_insert split: option.splits)
  then show ?case using pc(1,2) Cons.prems(1) by auto
qed

lemma partition_all:
  assumes addr: "\<forall>b\<in>set D. chunk_idx_for_block m (of_nat b) = Some (chunk_of m b)"
  shows "\<exists>pc. partition_chunks m D [] = Some pc \<and> distinct (map fst pc)
    \<and> (\<forall>(ci, bs)\<in>set pc. bs = blocks_in m D ci) \<and> fst ` set pc = chunk_of m ` set D"
proof -
  obtain pc where pc: "partition_chunks m D [] = Some pc" "bt_wf pc"
      "\<And>ci. bt_get pc ci = (if blocks_in m D ci = [] then None else Some (blocks_in m D ci))"
    using partition_chunks_ok [OF addr, of "[]"] by (auto simp: bt_wf_def bt_get_def)
  have dist: "distinct (map fst pc)" using pc(2) by (simp add: bt_wf_def strict_sorted_iff)
  have "bs = blocks_in m D ci" if "(ci, bs) \<in> set pc" for ci bs
    using pc(3) [of ci] that dist by (simp add: bt_get_def split: if_splits)
  moreover have "ci \<in> fst ` set pc \<longleftrightarrow> ci \<in> chunk_of m ` set D" for ci
  proof -
    have "ci \<in> fst ` set pc \<longleftrightarrow> bt_get pc ci \<noteq> None" by (simp add: bt_get_def map_of_eq_None_iff)
    also have "\<dots> \<longleftrightarrow> blocks_in m D ci \<noteq> []" using pc(3) [of ci] by simp
    finally show ?thesis by (auto simp: blocks_in_def filter_empty_conv)
  qed
  then have "fst ` set pc = chunk_of m ` set D" by (rule set_eqI)
  ultimately show ?thesis using pc(1) dist by (intro exI [of _ pc]) auto
qed

lemma flush_chunks_ok:
  assumes laws: "flush_laws env ce ix bx v V" and rot: "rotated env v plain m c ff crcs D ob"
    and pc: "\<forall>(ci, bs)\<in>set pc. bs = blocks_in m D ci" "distinct (map fst pc)"
  shows "\<lbrakk> chunk_inv env ix bx v V m c ff crcs D ob cs pr s; fst ` set pc \<inter> cs = {} \<rbrakk> \<Longrightarrow>
    \<exists>r s'. flush_chunks env ce (store v) warm crcs (the (blocks_per_chunk m)) pc pr s = Some (r, s')
      \<and> stopped ix bx v V m c s'
      \<and> (\<forall>pr'. r = Inr pr' \<longrightarrow> chunk_inv env ix bx v V m c ff crcs D ob (cs \<union> fst ` set pc) pr' s')"
  using pc
proof (induction pc arbitrary: cs pr s)
  case Nil
  then show ?case
    using tiers_ok_base by (auto simp: freturn_def chunk_inv_def stopped_def up_inv_def)
next
  case (Cons a pc)
  obtain ci bs where a: "a = (ci, bs)" "bs = blocks_in m D ci" using Cons.prems(3) by auto
  have ci: "ci \<notin> cs" using Cons.prems(2) a(1) by simp
  obtain x s1 where x: "flush_chunk env ce (store v) warm crcs (the (blocks_per_chunk m)) ci (blocks_in m D ci) pr s = Some (x, s1)"
      "stopped ix bx v V m c s1"
      "\<And>pr'. x = Inr pr' \<Longrightarrow> chunk_inv env ix bx v V m c ff crcs D ob (insert ci cs) pr' s1"
    using flush_chunk_ok [OF laws rot Cons.prems(1) ci] by blast
  show ?case
  proof (cases x)
    case (Inl e)
    then show ?thesis using x(1,2) a by (simp add: fbind_def)
  next
    case (Inr pr1)
    from Cons.IH [OF x(3) [OF Inr]] Cons.prems(2-4) a(1)
    show ?thesis using x(1) a Inr by (auto simp: fbind_def)
  qed
qed

lemma warm_indexes_ok:
  assumes laws: "cache_laws ce ix bx" "suffix_true (object_store (store v)) (objects v)"
    and ps: "\<forall>(ci, p)\<in>set ps. in_manifest (manifest v) ci p"
  shows "tiers_ok ix bx v t \<Longrightarrow> warm_indexes ce (store v) ps t = (r, t')
    \<Longrightarrow> r = Inr () \<and> tiers_ok ix bx v t' \<and> objects v (remote (tw t')) = objects v (remote (tw t))"
  using ps
proof (induction ps arbitrary: t)
  case (Cons q ps)
  obtain ci p where q: "q = (ci, p)" by force
  obtain e s where e: "index_get ce p (tc t) = (e, s)" by force
  have t1: "tiers_ok ix bx v (t\<lparr> tc := s \<rparr>)"
    using get_entries_keeps [OF laws(1), of v p] Cons.prems(1) e by (auto simp: rspec_def get_entries_def)
  show ?case
  proof (cases e)
    case (Some es)
    then show ?thesis
      using Cons.IH [OF t1] Cons.prems(2,3) q e by (auto simp: rbind_def get_entries_def)
  next
    case None
    obtain a w where a: "get_pack_index (store v) ci p (tw t) = (a, w)" by force
    have w: "objects v (remote w) = objects v (remote (tw t))" by (rule get_pack_index_keeps [OF laws(2) a])
    have inm: "in_manifest (manifest v) ci p" using Cons.prems(3) q by simp
    have "of_cs (get_pack_index (store v) ci p) (t\<lparr> tc := s \<rparr>)
      = (case a of Inl e \<Rightarrow> (Inl (CacheError.ContentStore e), t\<lparr> tc := s, tw := w \<rparr>) | Inr es \<Rightarrow> (Inr es, t\<lparr> tc := s, tw := w \<rparr>))"
      using a by (simp add: of_cs_def split: sum.splits)
    then have k: "tiers_ok ix bx v (t\<lparr> tc := s, tw := w \<rparr>) \<and> (\<forall>es. a = Inr es \<longrightarrow> es = idx v p)"
      using rvalid_of_cs_index [OF laws(2) inm, of ix bx] t1 by (cases a) (auto simp: rspec_def)
    show ?thesis
    proof (cases a)
      case (Inl e)
      then show ?thesis
        using Cons.IH [of "t\<lparr> tc := s, tw := w \<rparr>"] k w Cons.prems(2,3) q \<open>index_get ce p (tc t) = (_, s)\<close> None a
        by (auto simp: rbind_def get_entries_def try_cs_def)
    next
      case (Inr es)
      let ?t = "t\<lparr> tw := w, tc := index_insert ce p es s \<rparr>"
      have "tiers_ok ix bx v ?t"
        using rvalid_put_entries [OF laws(1), of v p, unfolded rspec_def, rule_format, of "t\<lparr> tc := s, tw := w \<rparr>"] k Inr
        by (simp add: put_entries_def)
      then show ?thesis
        using Cons.IH [of ?t] k w Cons.prems(2,3) q e None a Inr
        by (auto simp: rbind_def get_entries_def try_cs_def put_entries_def)
    qed
  qed
qed (simp add: rreturn_def)

lemma drain_all_ok:
  assumes laws: "flush_laws env ce ix bx v V" and ids: "ids_name_packs env v m c ff crcs D ob"
    and inv: "up_inv env ix bx v m c ff crcs D ob cs pr t"
    and run: "drain_all env ce (store v) (the (blocks_per_chunk m)) pr t = (r, t')"
  shows "tiers_ok ix bx (v\<lparr> manifest := m \<rparr>) t'"
    and "r = Inr pr' \<Longrightarrow> up_inv env ix bx v m c ff crcs D ob cs pr' t' \<and> flushed pr' = flushed pr \<and> pending pr' = []"
proof -
  let ?order = "upload_order env (map up_chunk (pending pr))"
  let ?us = "concat (map (\<lambda>ci. filter (\<lambda>u. up_chunk u = ci) (pending pr)) ?order)"
  have d: "distinct (map up_chunk (pending pr))" using inv by (simp add: up_inv_def)
  then have o: "distinct ?order" "set ?order = up_chunk ` set (pending pr)"
    using laws by (simp_all add: flush_laws_def)
  have one: "map up_chunk (filter (\<lambda>u. up_chunk u = ci) xs) = [ci]"
    if "distinct (map up_chunk xs)" "ci \<in> up_chunk ` set xs" for xs :: "upload list" and ci
    using that
  proof (induction xs)
    case (Cons x xs)
    show ?case
    proof (cases "up_chunk x = ci")
      case True
      then have "filter (\<lambda>u. up_chunk u = ci) xs = []"
        using Cons.prems(1) by (simp add: filter_empty_conv) (metis imageI)
      then show ?thesis using True by simp
    next
      case False
      then have "ci \<in> up_chunk ` set xs" using Cons.prems(2) by auto
      then show ?thesis using Cons.IH Cons.prems(1) False by simp
    qed
  qed simp
  have "map up_chunk ?us = concat (map (\<lambda>ci. map up_chunk (filter (\<lambda>u. up_chunk u = ci) (pending pr))) ?order)"
    by (simp add: map_concat comp_def)
  also have "\<dots> = concat (map (\<lambda>ci. [ci]) ?order)"
    using one [OF d] o(2) by (intro arg_cong [of _ _ concat] map_cong) simp_all
  also have "\<dots> = ?order" by (induction ?order) simp_all
  finally have us: "map up_chunk ?us = ?order" .
  have "set (pending pr) = set ?us \<union> set []" using o(2) by auto
  moreover have "distinct (map up_chunk (?us @ []))" using us o(1) by simp
  ultimately show "tiers_ok ix bx (v\<lparr> manifest := m \<rparr>) t'"
      "r = Inr pr' \<Longrightarrow> up_inv env ix bx v m c ff crcs D ob cs pr' t' \<and> flushed pr' = flushed pr \<and> pending pr' = []"
    using up_inv_finish [OF laws ids inv _ _ run [unfolded drain_all_def]] by blast+
qed

section \<open>What the new packs hold\<close>

lemma pack_find_index:
  assumes asm: "assemble_pack bl z = Inr (pk, es)" and short: "short_blocks bl" and dist: "distinct (map block_key bl)"
  shows "(h, co, d) \<in> set bl \<Longrightarrow> \<exists>e. pack_find es co = Some e \<and> hash e = h \<and> (comp_length e = 0 \<longleftrightarrow> d = [])"
    and "co \<notin> block_key ` set bl \<Longrightarrow> pack_find es co = None"
proof -
  let ?bl = "sort_key block_key bl"
  obtain count where ie: "index_entries (of_nat PACK_HEADER_SIZE) ?bl = Inr es" using assemble_pack_cases [OF asm] by metis
  have len: "length es = length ?bl" by (rule index_entries_length [OF ie])
  have sh: "short_blocks ?bl" using short by (simp add: short_blocks_def)
  note nth = index_entries_nth [OF ie sh]
  have keys: "map chunk_offset es = map block_key ?bl" using len nth by (auto intro!: nth_equalityI)
  show "co \<notin> block_key ` set bl \<Longrightarrow> pack_find es co = None"
  proof -
    assume "co \<notin> block_key ` set bl"
    then have "co \<notin> set (map chunk_offset es)" unfolding keys by simp
    then show "pack_find es co = None" by (force simp: pack_find_def find_None_iff)
  qed
  assume "(h, co, d) \<in> set bl"
  then obtain i where i: "i < length ?bl" "?bl ! i = (h, co, d)" by (metis in_set_conv_nth set_sort)
  have e: "hash (es ! i) = h" "chunk_offset (es ! i) = co" "unat (comp_length (es ! i)) = length d"
    using nth [OF i(1)] i(2) by (simp_all add: block_key_def block_data_def)
  have "distinct (map block_key ?bl)"
    using dist by (metis distinct_map distinct_sort set_sort)
  then have "distinct (map chunk_offset es)" using keys by simp
  then have "pack_find es co = Some (es ! i)"
    using e(2) i(1) len unfolding pack_find_def find_Some_iff
    by (intro exI [of _ i]) (auto simp: distinct_conv_nth)
  moreover have "comp_length (es ! i) = 0 \<longleftrightarrow> d = []"
    using e(3) by (metis length_0_conv unat_eq_0)
  ultimately show "\<exists>e. pack_find es co = Some e \<and> hash e = h \<and> (comp_length e = 0 \<longleftrightarrow> d = [])" using e(1) by blast
qed

lemma chunk_packs_appended:
  "chunk_packs (appended S m) ci = chunk_packs m ci @ map (fst \<circ> snd) (filter (\<lambda>x. fst x = ci) S)"
  by (induction S rule: rev_induct)
     (auto simp: appended_snoc chunk_packs_append, auto simp: appended_def)

lemma packs_after:
  assumes inv: "up_inv env ix bx v m c ff crcs D ob cs pr t" "pending pr = []"
  shows "chunk_packs (appended (staged pr) m) ci
    = chunk_packs m ci @ (if ci \<in> cs \<and> new_pack env v m c ff crcs D ci \<noteq> [] then [new_id env v m c ff crcs D ci] else [])"
proof -
  have one: "map (fst \<circ> snd) (filter (\<lambda>x. fst x = ci) S) = (if \<exists>p. (ci, p) \<in> P then [SOME p. (ci, p) \<in> P] else [])"
    if "distinct (map fst S)" "(\<lambda>(ci, p, _). (ci, p)) ` set S = P" for S :: "(u32 \<times> PackId \<times> u32 option) list" and P
    using that
  proof (induction S arbitrary: P)
    case (Cons x S)
    obtain a p l where x: "x = (a, p, l)" using prod_cases3 by blast
    let ?Q = "(\<lambda>(ci, p, _). (ci, p)) ` set S"
    have P: "P = insert (a, p) ?Q" using Cons.prems(2) x by auto
    have a: "(a, q) \<notin> ?Q" for q using Cons.prems(1) x by force
    show ?case
    proof (cases "a = ci")
      case True
      have "filter (\<lambda>x. fst x = ci) S = []" using Cons.prems(1) x True by (simp add: filter_empty_conv) (metis imageI)
      moreover have "(SOME q. (ci, q) \<in> P) = p" using a True unfolding P by (intro some_equality) auto
      ultimately show ?thesis using x True P by auto
    next
      case False
      then have "(ci, q) \<in> P \<longleftrightarrow> (ci, q) \<in> ?Q" for q using P by auto
      then show ?thesis using Cons.IH [OF _ refl] Cons.prems(1) x False by simp
    qed
  qed simp
  let ?P = "{(ci, new_id env v m c ff crcs D ci) | ci. ci \<in> cs \<and> new_pack env v m c ff crcs D ci \<noteq> []}"
  have "distinct (map fst (staged pr))" "(\<lambda>(ci, p, _). (ci, p)) ` set (staged pr) = ?P"
    using inv by (simp_all add: up_inv_def)
  from one [OF this] show ?thesis unfolding chunk_packs_appended by auto
qed

lemma content_nth:
  assumes wf: "ci_wf c" "flushing_file c = Some ff" and k: "k < dsize c"
  shows "content c ff (k div bsize c) ! (k mod bsize c) = ff ! k"
proof -
  have g: "geometry_ok c" and len: "length ff = dsize c" using wf by (simp_all add: ci_wf_def)
  have "k mod bsize c = k - k div bsize c * bsize c" by (simp add: modulo_nat_def)
  moreover have "k - k div bsize c * bsize c < length (blk c ff (k div bsize c))"
  proof -
    have "k div bsize c * bsize c \<le> k \<and> k < k div bsize c * bsize c + valid_bytes c (k div bsize c)"
      using in_block_iff [OF g k, of "k div bsize c"] by blast
    then show ?thesis unfolding length_blk [OF g block_of_byte [OF g k] len] by linarith
  qed
  ultimately show ?thesis using nth_blk [OF g k len] by (simp add: content_def pad_block_def nth_append)
qed

lemma remote_entry_newest:
  assumes "ci_wf c" "b < num_blocks c" "vm_geometry m c"
    and "chunk_idx_for_block m1 = chunk_idx_for_block m" "block_offset_in_chunk m1 = block_offset_in_chunk m"
  shows "remote_entry m1 (idx v) b = newest (idx v) (chunk_packs m1 (chunk_of m b)) (offset_of m b)"
  using block_addressed [OF assms(1-3)] assms(4,5) by (simp add: remote_entry_def chunk_packs_def)

text \<open>Which blocks of a chunk are in its new pack, and how.\<close>

lemma new_pack_find:
  assumes rot: "rotated env v plain m c ff crcs D ob" and b: "b < num_blocks c"
    and asm: "assemble_pack (new_pack env v m c ff crcs D (chunk_of m b)) z = Inr (pk, es)"
    and data: "\<forall>b\<in>set D. pages_ok env c ff crcs b \<longrightarrow> data_of env c ff b \<noteq> None"
  shows "\<lbrakk> b \<in> set D; pages_ok env c ff crcs b; \<not> held_already env v m c ff b \<rbrakk> \<Longrightarrow>
      \<exists>e. pack_find es (offset_of m b) = Some e \<and> hash e = hash_of env c ff b \<and> (comp_length e = 0 \<longleftrightarrow> all_zero (content c ff b))"
    and "\<not> (b \<in> set D \<and> pages_ok env c ff crcs b \<and> \<not> held_already env v m c ff b) \<Longrightarrow> pack_find es (offset_of m b) = None"
proof -
  let ?nb = "new_blocks env v m c ff crcs (blocks_in m D (chunk_of m b))"
  let ?bl = "map (pack_block_of env m c ff) ?nb"
  have wf: "ci_wf c" "vm_geometry m c" "unambiguous env plain c ff" "distinct D" using rot by (simp_all add: rotated_def)
  have np: "new_pack env v m c ff crcs D (chunk_of m b) = ?bl" by (simp add: new_pack_def pack_contents_def)
  have nb: "x < num_blocks c \<and> chunk_of m x = chunk_of m b \<and> x \<in> set D \<and> pages_ok env c ff crcs x" if "x \<in> set ?nb" for x
    using that blocks_in_ok [OF rot, of x "chunk_of m b"] by (auto simp: new_blocks_def)
  have in_nb: "b \<in> set ?nb \<longleftrightarrow> b \<in> set D \<and> pages_ok env c ff crcs b \<and> \<not> held_already env v m c ff b"
    by (auto simp: new_blocks_def blocks_in_def)
  have empty: "the (data_of env c ff x) = [] \<longleftrightarrow> all_zero (content c ff x)" and short: "length (the (data_of env c ff x)) < 2 ^ 32"
    if x: "x \<in> set ?nb" for x
  proof -
    obtain z where z: "data_of env c ff x = Some z" using data nb [OF x] by blast
    have "all_zero (content c ff x) \<Longrightarrow> z = []" using z by (simp add: data_of_def)
    moreover have "\<not> all_zero (content c ff x) \<Longrightarrow> z \<noteq> [] \<and> length z < 2 ^ 32"
      using wf(3) nb [OF x] z unfolding unambiguous_def by blast
    ultimately have "(z = [] \<longleftrightarrow> all_zero (content c ff x)) \<and> length z < 2 ^ 32"
      by (cases "all_zero (content c ff x)") simp_all
    then show "the (data_of env c ff x) = [] \<longleftrightarrow> all_zero (content c ff x)" "length (the (data_of env c ff x)) < 2 ^ 32"
      using z by simp_all
  qed
  have keys: "map block_key ?bl = map (offset_of m) ?nb" by (simp add: pack_block_of_def block_key_def)
  have inj: "inj_on (offset_of m) (insert b (set ?nb))"
    by (rule inj_onI) (rule address_inj [OF wf(1) _ _ wf(2)], use nb b in auto)
  have dist: "distinct (map block_key ?bl)"
    unfolding keys distinct_map using wf(4) inj by (simp add: new_blocks_def blocks_in_def inj_on_def)
  have sh: "short_blocks ?bl" using short by (auto simp: short_blocks_def pack_block_of_def block_data_def)
  note find = pack_find_index [OF asm [unfolded np] sh dist]
  show "pack_find es (offset_of m b) = None" if "\<not> (b \<in> set D \<and> pages_ok env c ff crcs b \<and> \<not> held_already env v m c ff b)"
  proof (rule find(2))
    have "b \<notin> set ?nb" using that in_nb by blast
    then have "offset_of m b \<notin> offset_of m ` set ?nb" using inj by (auto simp: inj_on_def)
    then show "offset_of m b \<notin> block_key ` set ?bl" using keys by (metis set_map)
  qed
  assume "b \<in> set D" "pages_ok env c ff crcs b" "\<not> held_already env v m c ff b"
  then have mem: "b \<in> set ?nb" using in_nb by blast
  then have "(hash_of env c ff b, offset_of m b, the (data_of env c ff b)) \<in> set ?bl"
    by (force simp: pack_block_of_def)
  from find(1) [OF this] empty [OF mem]
  show "\<exists>e. pack_find es (offset_of m b) = Some e \<and> hash e = hash_of env c ff b \<and> (comp_length e = 0 \<longleftrightarrow> all_zero (content c ff b))"
    by simp
qed

text \<open>The manifest after the flush, up to its fencing token.\<close>

definition same_packs :: "VolumeManifest \<Rightarrow> VolumeManifest \<Rightarrow> bool" where
  "same_packs m m' \<longleftrightarrow> chunk_idx_for_block m' = chunk_idx_for_block m \<and> block_offset_in_chunk m' = block_offset_in_chunk m
     \<and> chunk_packs m' = chunk_packs m"

lemma same_packs_token: "same_packs m (m\<lparr> generation := g, lease_revision := l \<rparr>)"
  by (simp add: same_packs_def chunk_idx_for_block_def block_offset_in_chunk_def blocks_per_chunk_def chunk_packs_def
      chunk_pack_ids_def fun_eq_iff Let_def)

lemma appended_Nil: "appended [] m = m"
  by (simp add: appended_def)

lemma appended_geometry:
  "chunk_idx_for_block (appended S m) = chunk_idx_for_block m" "block_offset_in_chunk (appended S m) = block_offset_in_chunk m"
proof -
  have "chunk_idx_for_block (append_pack ci p l m) = chunk_idx_for_block m
      \<and> block_offset_in_chunk (append_pack ci p l m) = block_offset_in_chunk m" for ci p l m
    by (simp add: append_pack_def chunk_idx_for_block_def block_offset_in_chunk_def blocks_per_chunk_def fun_eq_iff Let_def)
  then have "chunk_idx_for_block (appended S m) = chunk_idx_for_block m
      \<and> block_offset_in_chunk (appended S m) = block_offset_in_chunk m"
    unfolding appended_def by (induction S arbitrary: m) auto
  then show "chunk_idx_for_block (appended S m) = chunk_idx_for_block m"
    "block_offset_in_chunk (appended S m) = block_offset_in_chunk m" by blast+
qed

lemma image_after:
  assumes rot: "rotated env v plain m c ff crcs D ob"
    and inv: "up_inv env ix bx v m c ff crcs D ob (chunk_of m ` set D) pr t" "pending pr = []"
    and data: "\<forall>b\<in>set D. pages_ok env c ff crcs b \<longrightarrow> data_of env c ff b \<noteq> None"
    and m1: "same_packs (appended (staged pr) m) m1" and k: "k < dsize c"
  shows "k div bsize c \<in> set D \<Longrightarrow> pages_ok env c ff crcs (k div bsize c) \<Longrightarrow>
      remote_image (v\<lparr> manifest := m1 \<rparr>) plain (bsize c) k = ff ! k"
    and "\<not> (k div bsize c \<in> set D \<and> pages_ok env c ff crcs (k div bsize c)) \<Longrightarrow>
      remote_image (v\<lparr> manifest := m1 \<rparr>) plain (bsize c) k = remote_image (v\<lparr> manifest := m \<rparr>) plain (bsize c) k"
proof -
  let ?b = "k div bsize c" let ?ci = "chunk_of m ?b"
  have wf: "ci_wf c" "vm_geometry m c" "unambiguous env plain c ff" "flushing_file c = Some ff"
    "index_ok v m (zero_block_hash c)" using rot by (simp_all add: rotated_def)
  have g: "geometry_ok c" using wf(1) by (simp add: ci_wf_def)
  note b = block_of_byte [OF g k]
  have geo: "chunk_idx_for_block m1 = chunk_idx_for_block m" "block_offset_in_chunk m1 = block_offset_in_chunk m"
    using m1 appended_geometry by (simp_all add: same_packs_def)
  let ?e0 = "newest (idx v) (chunk_packs m ?ci) (offset_of m ?b)"
  have e0: "remote_entry m (idx v) ?b = ?e0" by (rule remote_entry_newest [OF wf(1) b wf(2) refl refl])
  have e1: "remote_entry m1 (idx v) ?b = newest (idx v) (chunk_packs m ?ci @ (if ?ci \<in> chunk_of m ` set D
        \<and> new_pack env v m c ff crcs D ?ci \<noteq> [] then [new_id env v m c ff crcs D ?ci] else [])) (offset_of m ?b)"
    using remote_entry_newest [OF wf(1) b wf(2) geo, where v = v] packs_after [OF inv, of ?ci] m1
    unfolding same_packs_def by metis
  have asm: "\<exists>pk. assemble_pack (new_pack env v m c ff crcs D ?ci) (the (blocks_per_chunk m)) = Inr (pk, idx v (new_id env v m c ff crcs D ?ci))"
    if ne: "?ci \<in> chunk_of m ` set D" "new_pack env v m c ff crcs D ?ci \<noteq> []"
  proof -
    have "(\<lambda>(ci, p, _). (ci, p)) ` set (staged pr)
        = {(ci, new_id env v m c ff crcs D ci) | ci. ci \<in> chunk_of m ` set D \<and> new_pack env v m c ff crcs D ci \<noteq> []}"
      using inv by (simp add: up_inv_def)
    then have "(?ci, new_id env v m c ff crcs D ?ci) \<in> (\<lambda>(ci, p, _). (ci, p)) ` set (staged pr)" using ne by blast
    then obtain l where "(?ci, new_id env v m c ff crcs D ?ci, l) \<in> set (staged pr)" by auto
    then show ?thesis using inv(1) by (fastforce simp: up_inv_def)
  qed
  have zero: "hash_of env c ff ?b = zero_block_hash c \<longleftrightarrow> all_zero (content c ff ?b)" by (rule hash_of_zero [OF wf(3) b])
  have val: "(if all_zero (content c ff ?b) then 0 else plain (hash_of env c ff ?b) ! (k mod bsize c)) = ff ! k"
  proof (cases "all_zero (content c ff ?b)")
    case True
    moreover have "k mod bsize c < bsize c" using g by (simp add: geometry_ok_def)
    then have "k mod bsize c < length (content c ff ?b)" by (simp add: content_def pad_block_def)
    ultimately show ?thesis using content_nth [OF wf(1,4) k] by (auto simp: all_zero_def list_all_length)
  next
    case False
    then have "plain (hash_of env c ff ?b) = content c ff ?b" using wf(3) b by (simp add: unambiguous_def hash_of_def)
    then show ?thesis using False content_nth [OF wf(1,4) k] by simp
  qed
  have unchanged: "remote_entry m1 (idx v) ?b = ?e0"
    if "\<not> (?b \<in> set D \<and> pages_ok env c ff crcs ?b \<and> \<not> held_already env v m c ff ?b)"
    using e1 asm new_pack_find(2) [OF rot b _ data that] by (auto simp: newest_snoc split: option.splits)
  have held: "remote_image (v\<lparr> manifest := m \<rparr>) plain (bsize c) k = ff ! k" if "held_already env v m c ff ?b"
  proof (cases ?e0)
    case None
    then show ?thesis using that e0 zero val by (simp add: held_already_def newest_at_def remote_image_def)
  next
    case (Some pe)
    obtain p e where pe: "pe = (p, e)" by force
    have "hash e = hash_of env c ff ?b" using that Some pe by (simp add: held_already_def newest_at_def)
    moreover have "comp_length e = 0 \<longleftrightarrow> hash e = zero_block_hash c"
      using remote_entry_mem [of m "idx v" ?b p e] e0 Some pe wf(5) by (auto simp: index_ok_def)
    ultimately show ?thesis using e0 Some pe zero val by (auto simp: remote_image_def split: if_splits)
  qed
  show "remote_image (v\<lparr> manifest := m1 \<rparr>) plain (bsize c) k = remote_image (v\<lparr> manifest := m \<rparr>) plain (bsize c) k"
    if "\<not> (?b \<in> set D \<and> pages_ok env c ff crcs ?b)"
  proof -
    have "remote_entry m1 (idx v) ?b = remote_entry m (idx v) ?b" using unchanged that e0 by metis
    then show ?thesis by (simp add: remote_image_def)
  qed
  assume fl: "?b \<in> set D" "pages_ok env c ff crcs ?b"
  show "remote_image (v\<lparr> manifest := m1 \<rparr>) plain (bsize c) k = ff ! k"
  proof (cases "held_already env v m c ff ?b")
    case True
    then show ?thesis using held unchanged e0 by (simp add: remote_image_def)
  next
    case False
    then have "?b \<in> set (new_blocks env v m c ff crcs (blocks_in m D ?ci))"
      using fl by (simp add: new_blocks_def blocks_in_def)
    then have ne: "?ci \<in> chunk_of m ` set D" "new_pack env v m c ff crcs D ?ci \<noteq> []"
      using fl by (auto simp: new_pack_def pack_contents_def)
    obtain pk where "assemble_pack (new_pack env v m c ff crcs D ?ci) (the (blocks_per_chunk m)) = Inr (pk, idx v (new_id env v m c ff crcs D ?ci))"
      using asm [OF ne] by blast
    from new_pack_find(1) [OF rot b this data fl False] obtain e where
      e: "pack_find (idx v (new_id env v m c ff crcs D ?ci)) (offset_of m ?b) = Some e" "hash e = hash_of env c ff ?b"
        "comp_length e = 0 \<longleftrightarrow> all_zero (content c ff ?b)" by blast
    then have "remote_entry m1 (idx v) ?b = Some (new_id env v m c ff crcs D ?ci, e)"
      using e1 ne by (simp add: newest_snoc)
    then show ?thesis using e val by (auto simp: remote_image_def split: if_splits)
  qed
qed

section \<open>From the uploads to the eviction\<close>

abbreviation stored_image :: "'s volume \<Rightarrow> (Blake3Hash \<Rightarrow> bytes) \<Rightarrow> CacheInner \<Rightarrow> VolumeManifest \<Rightarrow> nat \<Rightarrow> byte" where
  "stored_image v plain c m \<equiv> remote_image (v\<lparr> manifest := m \<rparr>) plain (bsize c)"

text \<open>
  Until the eviction the claimed blocks are in the cache, so a manifest that differs in them
  only shows the guest the same bytes.
\<close>

definition midway :: "('c \<Rightarrow> PackId \<Rightarrow> PackIndexEntry list option) \<Rightarrow> ('c \<Rightarrow> Blake3Hash \<Rightarrow> bytes option)
    \<Rightarrow> 's volume \<Rightarrow> (Blake3Hash \<Rightarrow> bytes) \<Rightarrow> (bytes \<Rightarrow> bytes \<Rightarrow> bool) \<Rightarrow> VolumeManifest \<Rightarrow> CacheInner \<Rightarrow> nat list
    \<Rightarrow> ('s, 'c) flush_state \<Rightarrow> bool" where
  "midway ix bx v plain V m c D s \<longleftrightarrow>
     ext V c (fc s) \<and> tiers_ok ix bx (v\<lparr> manifest := fm s \<rparr>) (ft s)
   \<and> (\<forall>k<dsize c. k div bsize c \<notin> set D \<longrightarrow> stored_image v plain c (fm s) k = stored_image v plain c m k)"

lemma stopped_midway: "stopped ix bx v V m c s \<Longrightarrow> midway ix bx v plain V m c D s"
  by (simp add: stopped_def midway_def)

lemma midway_image:
  assumes rot: "rotated env v plain m c ff crcs D ob" and mid: "midway ix bx v plain V m c D s"
  shows "gimg (stored_image v plain c (fm s)) (fc s) = gimg (stored_image v plain c m) (fc s)"
proof (rule gimg_cong)
  fix k assume k: "k < dsize (fc s)"
  have wf: "ci_wf c" using rot by (simp add: rotated_def)
  have r: "rely c (fc s)" using mid ext_rely [of V c "fc s"] by (simp add: midway_def)
  have cfg: "config (fc s) = config c" using r by (simp add: rely_def)
  have g: "geometry_ok c" using wf by (simp add: ci_wf_def)
  have b: "k div bsize c < num_blocks c" by (rule block_of_byte [OF g]) (use k cfg in simp)
  show "view (stored_image v plain c (fm s)) (fc s) k = view (stored_image v plain c m) (fc s) k"
  proof (cases "k div bsize c \<in> set D")
    case True
    then have "has_local (fc s) (k div bsize c)" using rot rely_keeps(4) [OF wf r] by (simp add: rotated_def)
    then show ?thesis using cfg by (auto simp: view_def)
  next
    case False
    then show ?thesis using mid k cfg by (simp add: view_def midway_def)
  qed
qed simp

lemma apply_staged_ok:
  assumes rot: "rotated env v plain m c ff crcs D ob" and e: "ext V c (fc s)" "fm s = m"
    and inv: "up_inv env ix bx v m c ff crcs D ob (chunk_of m ` set D) pr (ft s)" "pending pr = []"
    and data: "\<forall>b\<in>set D. pages_ok env c ff crcs b \<longrightarrow> data_of env c ff b \<noteq> None"
  shows "\<exists>pr' s'. apply_staged pr s = Some (Inr pr', s') \<and> fc s' = fc s \<and> ft s' = ft s
     \<and> staged pr' = staged pr \<and> flushed pr' = flushed pr \<and> midway ix bx v plain V m c D s'
     \<and> (\<forall>k<dsize c. k div bsize c \<in> set D \<and> pages_ok env c ff crcs (k div bsize c) \<longrightarrow> stored_image v plain c (fm s') k = ff ! k)"
proof -
  define m1 where "m1 = (if staged pr = [] then m else (appended (staged pr) m)
     \<lparr> generation := current_generation (fc s), lease_revision := current_lease_revision (fc s) \<rparr>)"
  have same: "same_packs (appended (staged pr) m) m1"
  proof (cases "staged pr = []")
    case True
    then have "m1 = appended (staged pr) m" by (simp add: m1_def appended_Nil)
    then show ?thesis by (simp add: same_packs_def)
  next
    case False
    then show ?thesis unfolding m1_def by (simp only: if_False same_packs_token)
  qed
  define pr1 where "pr1 = (if staged pr = [] then pr else pr\<lparr> tally := (tally pr)\<lparr> touched_chunks := remdups (map fst (staged pr)) \<rparr> \<rparr>)"
  have run: "apply_staged pr s = Some (Inr pr1, s\<lparr> fm := m1 \<rparr>)" "staged pr1 = staged pr" "flushed pr1 = flushed pr"
    using e(2) by (auto simp: apply_staged_def freturn_def m1_def pr1_def appended_def)
  have "in_manifest m1 = in_manifest (appended (staged pr) m)"
    using same by (simp add: same_packs_def in_manifest_packs fun_eq_iff)
  then have "tiers_ok ix bx (v\<lparr> manifest := m1 \<rparr>) (ft s)"
    using inv(1) by (simp add: up_inv_def tiers_ok_def packs_ok_def)
  then show ?thesis
    using run e image_after [OF rot inv data same]
    by (intro exI [of _ pr1] exI [of _ "s\<lparr> fm := m1 \<rparr>"]) (simp add: midway_def)
qed

lemma checked_remote:
  assumes "checked cs f h w = (r, w')"
  shows "remote w' = remote w \<or> remote w' = snd (f (remote w))"
proof -
  obtain a w1 where c: "check_circuit cs w = (a, w1)" by force
  have "remote w1 = remote w" by (rule check_circuit_remote [OF c])
  then show ?thesis using assms c by (cases a) (auto simp: checked_def cs_bind_def issue_def split: prod.splits)
qed

text \<open>The sync stores the manifest object and may set the fence; the packs stay as they are.\<close>

definition synced :: "'s volume \<Rightarrow> string \<Rightarrow> ('s, 'c) flush_state \<Rightarrow> ('s, 'c) flush_state \<Rightarrow> bool" where
  "synced v key s s' \<longleftrightarrow> fm s' = fm s \<and> tc (ft s') = tc (ft s)
     \<and> (\<forall>q. q \<noteq> key \<longrightarrow> objects v (remote (tw (ft s'))) q = objects v (remote (tw (ft s))) q)
     \<and> (\<exists>tag f. fc s' = (fc s)\<lparr> manifest_etag := tag, fenced := f \<rparr>)"

lemma synced_refl: "synced v key s s"
  unfolding synced_def by (simp, rule exI [of _ "manifest_etag (fc s)"], rule exI [of _ "fenced (fc s)"]) simp

lemma synced_trans: "\<lbrakk> synced v key a b; synced v key b c \<rbrakk> \<Longrightarrow> synced v key a c"
  unfolding synced_def by (elim conjE exE) (simp, rule exI, rule exI, simp)

lemma put_manifest_keeps:
  assumes "put_laws (object_store cs) obj" "put_manifest cs name data etag w = (r, w')" "q \<noteq> cs_key cs (manifest_s3_key name)"
  shows "obj (remote w') q = obj (remote w) q"
  using checked_remote [OF assms(2) [unfolded put_manifest_def Let_def]] assms(1,3) unfolding put_laws_def by metis

lemma get_manifest_keeps:
  assumes "suffix_true (object_store cs) obj" "get_manifest cs name w = (r, w')"
  shows "obj (remote w') = obj (remote w)"
  using checked_remote [OF assms(2) [unfolded get_manifest_def]] assms(1) unfolding suffix_true_def by metis

end
