(* ===== verification/FlushInvisible.thy ===== *)
theory FlushInvisible
  imports FlushImage
begin

text \<open>
  The end of a flush (sync, eviction, checkpoint, cleanup), the recovery of a failed one, and
  the theorem that a flush neither panics nor shows the guest anything.
\<close>

section \<open>The manifest sync\<close>

lemma fenced_by_newer_token_synced:
  assumes st: "suffix_true (object_store cs) (objects v)"
  shows "\<exists>r s'. fenced_by_newer_token env cs s = Some (Inr r, s') \<and> synced v key s s'"
proof (cases "compose_token (current_generation (fc s)) (current_lease_revision (fc s)) = 0")
  case True
  then show ?thesis using synced_refl by (simp add: fenced_by_newer_token_def freturn_def Let_def)
next
  case False
  obtain r w where g: "get_manifest cs (export_name env) (tw (ft s)) = (r, w)" by force
  note keep = get_manifest_keeps [OF st g]
  have a: "synced v key s (s\<lparr> ft := (ft s)\<lparr> tw := w \<rparr> \<rparr>)"
    unfolding synced_def using keep
    by (simp, intro exI [of _ "manifest_etag (fc s)"] exI [of _ "fenced (fc s)"]) simp
  have b: "synced v key s (s\<lparr> ft := (ft s)\<lparr> tw := w \<rparr>, fc := (fc s)\<lparr> fenced := True \<rparr> \<rparr>)"
    unfolding synced_def using keep
    by (simp, intro exI [of _ "manifest_etag (fc s)"] exI [of _ True]) simp
  show ?thesis
    using False g a b by (auto simp: fenced_by_newer_token_def freturn_def Let_def split: sum.splits option.splits)
qed

lemma put_attempts_synced:
  assumes laws: "suffix_true (object_store cs) (objects v)" "put_laws (object_store cs) (objects v)"
    and key: "key = cs_key cs (manifest_s3_key (export_name env))"
  shows "\<exists>r s'. put_attempts env cs data etag n le s = Some (r, s') \<and> synced v key s s'"
proof (induction n arbitrary: le s)
  case 0
  then show ?case using synced_refl [of v key s] by (simp add: ffail_def freturn_def split: option.splits)
next
  case (Suc n)
  obtain r w where p: "put_manifest cs (export_name env) data etag (tw (ft s)) = (r, w)" by force
  let ?s = "s\<lparr> ft := (ft s)\<lparr> tw := w \<rparr> \<rparr>"
  have keep: "\<forall>q. q \<noteq> key \<longrightarrow> objects v (remote w) q = objects v (remote (tw (ft s))) q"
    using put_manifest_keeps [OF laws(2) p] key by simp
  have a: "synced v key s ?s"
    unfolding synced_def using keep
    by (simp, intro exI [of _ "manifest_etag (fc s)"] exI [of _ "fenced (fc s)"]) simp
  show ?case
  proof (cases r)
    case (Inr tag)
    have "synced v key s (?s\<lparr> fc := (fc s)\<lparr> manifest_etag := tag \<rparr> \<rparr>)"
      unfolding synced_def using keep by (simp, intro exI [of _ tag] exI [of _ "fenced (fc s)"]) simp
    then show ?thesis using p Inr by (simp add: fbind_def put_manifest_now_def freturn_def)
  next
    case (Inl e)
    obtain f s' where f: "fenced_by_newer_token env cs ?s = Some (Inr f, s')" "synced v key ?s s'"
      using fenced_by_newer_token_synced [OF laws(1)] by blast
    show ?thesis
    proof (cases "e = PreconditionFailed")
      case True
      then show ?thesis using p Inl f synced_trans [OF a f(2)]
        by (simp add: fbind_def put_manifest_now_def fence_or_def ffail_def)
    next
      case False
      obtain r2 s2 where "put_attempts env cs data etag n (Some e) ?s = Some (r2, s2)" "synced v key ?s s2"
        using Suc.IH by blast
      then show ?thesis using p Inl False synced_trans [OF a]
        by (auto simp: fbind_def put_manifest_now_def)
    qed
  qed
qed

lemma etag_ext:
  assumes "tolerant env V" "ci_wf c"
  shows "ext V c (c\<lparr> manifest_etag := tag, fenced := f \<rparr>)"
proof (rule ext_same [OF assms(1)])
  show "rely c (c\<lparr> manifest_etag := tag, fenced := f \<rparr>)"
    using assms(2) by (simp add: rely_def ci_wf_def geometry_ok_def counters_ok_def states_def)
  show "gimg R (c\<lparr> manifest_etag := tag, fenced := f \<rparr>) = gimg R c" for R
    by (simp add: gimg_def view_def src_file_def promoted_def promotable_def states_def blk_def valid_bytes_def fun_eq_iff
        cong: option.case_cong)
qed

lemma sync_staged_ok:
  assumes laws: "flush_laws env ce ix bx v V" and wf: "ci_wf (fc s)"
    and t: "tiers_ok ix bx (v\<lparr> manifest := m1 \<rparr>) (ft s)"
  shows "\<exists>r s'. sync_staged env (store v) s = Some (r, s') \<and> ext V (fc s) (fc s') \<and> fm s' = fm s
     \<and> tiers_ok ix bx (v\<lparr> manifest := m1 \<rparr>) (ft s')"
proof -
  let ?key = "cs_key (store v) (manifest_s3_key (export_name env))"
  have l: "tolerant env V" "suffix_true (object_store (store v)) (objects v)" "put_laws (object_store (store v)) (objects v)"
    "\<And>ci p. pack_path (store v) ci p \<noteq> ?key"
    using laws by (simp_all add: flush_laws_def)
  have ok: "ext V (fc s) (fc s') \<and> fm s' = fm s \<and> tiers_ok ix bx (v\<lparr> manifest := m1 \<rparr>) (ft s')" if sy: "synced v ?key s s'" for s'
  proof -
    obtain tag f where "fc s' = (fc s)\<lparr> manifest_etag := tag, fenced := f \<rparr>" using sy by (auto simp: synced_def)
    then have "ext V (fc s) (fc s')" using etag_ext [OF l(1) wf] by simp
    moreover have "pack_stored (store v) (objects v (remote (tw (ft s')))) ci p es
        = pack_stored (store v) (objects v (remote (tw (ft s)))) ci p es" for ci p es
      using sy l(4) by (simp add: pack_stored_def synced_def)
    ultimately show ?thesis using sy t by (simp add: synced_def tiers_ok_def packs_ok_def)
  qed
  show ?thesis
  proof (cases "serialize (vm_crc env) (fm s)")
    case (Inl e)
    then show ?thesis using ok [OF synced_refl] by (simp add: sync_staged_def serialized_def fbind_def ffail_def)
  next
    case (Inr data)
    then show ?thesis
      using put_attempts_synced [OF l(2,3) refl, of env data "manifest_etag (fc s)" 3 None s] ok
      by (auto simp: sync_staged_def serialized_def fbind_def freturn_def)
  qed
qed

section \<open>Eviction and cleanup\<close>

definition settled :: "CacheInner \<Rightarrow> bool" where
  "settled c \<longleftrightarrow> ci_wf c \<and> (\<forall>i<num_blocks c. states c ! i \<noteq> SYNCING)"

text \<open>Between flushes no flushing file is open and no block is claimed.\<close>

definition idle :: "CacheInner \<Rightarrow> bool" where
  "idle c \<longleftrightarrow> settled c \<and> flushing_file c = None"

lemma evict_blocks_ok:
  "\<lbrakk> ci_wf c; \<forall>b\<in>set bs. b < num_blocks c \<rbrakk> \<Longrightarrow> \<exists>n c'. evict_blocks bs c = Some (n, c') \<and> ci_wf c' \<and> same_rest c c'
     \<and> (\<forall>i<num_blocks c. states c' ! i = (if i \<in> set bs \<and> states c ! i = SYNCING then NOT_PRESENT else states c ! i))"
proof (induction bs arbitrary: c)
  case (Cons b bs)
  obtain c1 where c1: "ci_transition_syncing_to_not_present c b = Some (states c ! b = SYNCING, c1)" "ci_wf c1"
      "states c1 = (if states c ! b = SYNCING then (states c)[b := NOT_PRESENT] else states c)" "same_rest c c1"
    using ci_transition_syncing_to_not_present_ok [OF Cons.prems(1), of b] Cons.prems(2) by auto
  have nb: "num_blocks c1 = num_blocks c" by (rule same_rest_simps(4) [OF c1(4)])
  obtain n c' where c': "evict_blocks bs c1 = Some (n, c')" "ci_wf c'" "same_rest c1 c'"
      "\<forall>i<num_blocks c. states c' ! i = (if i \<in> set bs \<and> states c1 ! i = SYNCING then NOT_PRESENT else states c1 ! i)"
    using Cons.IH [OF c1(2)] Cons.prems(2) nb by auto
  have "states c' ! i = (if i \<in> set (b # bs) \<and> states c ! i = SYNCING then NOT_PRESENT else states c ! i)"
    if "i < num_blocks c" for i
    using c'(4) c1(3) that length_states [OF Cons.prems(1)] by (cases "i = b") auto
  then show ?case using c1(1) c'(1,2) same_rest_trans [OF c1(4) c'(3)] by auto
qed simp

lemma evict_settled:
  assumes wf: "ci_wf c" and bs: "\<forall>b\<in>set bs. b < num_blocks c" and ff: "flushing_file c = Some ff"
    and img: "\<forall>k<dsize c. k div bsize c \<in> set bs \<longrightarrow> R k = ff ! k"
    and all: "\<forall>i<num_blocks c. states c ! i = SYNCING \<longrightarrow> i \<in> set bs"
  shows "\<exists>n c'. evict_blocks bs c = Some (n, c') \<and> settled c' \<and> same_rest c c' \<and> gimg R c' = gimg R c"
proof -
  obtain n c' where c': "evict_blocks bs c = Some (n, c')" "ci_wf c'" "same_rest c c'"
     "\<forall>i<num_blocks c. states c' ! i = (if i \<in> set bs \<and> states c ! i = SYNCING then NOT_PRESENT else states c ! i)"
    using evict_blocks_ok [OF wf bs] by blast
  note f = same_rest_simps [OF c'(3)]
  have "settled c'" unfolding settled_def using c'(2,4) f(4) all by auto
  moreover have "gimg R c' = gimg R c"
  proof (rule gimg_cong)
    fix k assume k: "k < dsize c"
    let ?b = "k div bsize c"
    have b: "?b < num_blocks c" by (rule block_of_byte [OF _ k]) (use wf in \<open>simp add: ci_wf_def\<close>)
    show "view R c' k = view R c k"
    proof (cases "states c ! ?b = SYNCING")
      case True
      then have "states c' ! ?b = NOT_PRESENT" using c'(4) all b by auto
      then show ?thesis using True img all b k ff f(1)
        by (simp add: view_def nth_src_file promoted_def promotable_def)
    next
      case False
      then have s: "states c' ! ?b = states c ! ?b" using c'(4) b by auto
      have "promoted c' ?b = promoted c ?b" by (rule promoted_cong [OF f(1,3) s])
      then show ?thesis using s k f(1-3) by (simp add: view_def nth_src_file)
    qed
  qed (simp add: f(1))
  ultimately show ?thesis using c'(1,3) by blast
qed

lemma quiet_fields:
  assumes "ci_wf c" "tolerant env V"
  shows "ext V c (c\<lparr> metadata_file := a \<rparr>)" "ext V c (c\<lparr> wal := w \<rparr>)" "ext V c (c\<lparr> wal := w, ckpt_skips := n \<rparr>)"
    "ext V c (c\<lparr> flushing_disk := d \<rparr>)" "ext V c (c\<lparr> page_crcs := p \<rparr>)"
  by (rule ext_same [OF assms(2)]; use assms(1) in \<open>simp add: rely_def ci_wf_def geometry_ok_def counters_ok_def states_def
      gimg_def view_def src_file_def promoted_def promotable_def blk_def valid_bytes_def fun_eq_iff cong: option.case_cong\<close>)+

lemma settled_ext: "\<lbrakk> settled c; ext V c c' \<rbrakk> \<Longrightarrow> settled c'"
  using rely_keeps [of c c'] ext_rely [of V c c'] by (auto simp: settled_def)

lemma checkpoint_ext:
  assumes tol: "tolerant env V" and wf: "ci_wf c"
  shows "\<exists>r c'. checkpoint mcrc fault tr (others env p) (others env q) c = Some (r, c') \<and> ext V c c'"
proof -
  obtain r c1 where c1: "save_block_states mcrc fault (others env p) c = (r, c1)" by force
  have o: "ext V c (others env p c)" by (rule ext_others [OF tol wf])
  have e1: "ext V c c1"
    using c1 o ext_trans [OF tol wf o quiet_fields(1) [OF ext_wf [OF o] tol]]
    by (auto simp: save_block_states_def Let_def split: option.splits)
  have w1: "ci_wf c1" by (rule ext_wf [OF e1])
  note l = ext_others [OF tol w1, of q]
  note k = ext_trans [OF tol wf e1] and k2 = ext_trans [OF tol wf ext_trans [OF tol wf e1 l]]
  show ?thesis
    using c1 e1 k [OF quiet_fields(2) [OF w1 tol]] k [OF quiet_fields(3) [OF w1 tol]]
      k2 [OF quiet_fields(2) [OF ext_wf [OF l] tol]] k2 [OF quiet_fields(3) [OF ext_wf [OF l] tol]]
    by (simp add: checkpoint_def Let_def split: sum.splits prod.splits)
qed

lemma end_rotation_idle:
  assumes "settled c"
  shows "idle (end_rotation c)" "gimg R (end_rotation c) = gimg R c"
proof -
  show "idle (end_rotation c)"
    using assms by (simp add: idle_def settled_def end_rotation_def ci_wf_def geometry_ok_def counters_ok_def states_def)
  show "gimg R (end_rotation c) = gimg R c"
  proof (rule gimg_cong)
    fix k assume k: "k < dsize c"
    let ?b = "k div bsize c"
    have g: "geometry_ok c" using assms by (simp add: settled_def ci_wf_def)
    have "states c ! ?b \<noteq> SYNCING" using block_of_byte [OF g k] assms by (simp add: settled_def)
    then show "view R (end_rotation c) k = view R c k"
      using k by (auto simp: view_def nth_src_file end_rotation_def states_def promoted_def promotable_def block_state_distinct
          split: option.splits)
  qed (simp add: end_rotation_def)
qed

lemma unlink_idle:
  assumes "idle c"
  shows "idle (unlink_flushing env c)" "gimg R (unlink_flushing env c) = gimg R c" "config (unlink_flushing env c) = config c"
  using assms
  by (simp_all add: unlink_flushing_def idle_def settled_def ci_wf_def geometry_ok_def counters_ok_def states_def
      gimg_def view_def src_file_def promoted_def)

lemma checkpoint_and_clean_ok:
  assumes tol: "tolerant env V" and c: "settled (fc s)"
  shows "\<exists>s'. checkpoint_and_clean env s = Some (Inr (), s') \<and> idle (fc s') \<and> config (fc s') = config (fc s)
     \<and> fm s' = fm s \<and> ft s' = ft s \<and> (\<forall>R. V (gimg R (fc s)) (gimg R (fc s')))"
proof -
  have wf: "ci_wf (fc s)" using c by (simp add: settled_def)
  obtain r c' where c': "checkpoint (meta_crc env) (ckpt_fault env) (ckpt_trunc_ok env) (others env CheckpointWriters)
             (others env CheckpointLate) (fc s) = Some (r, c')" "ext V (fc s) c'"
    using checkpoint_ext [OF tol wf] by blast
  have s': "settled c'" by (rule settled_ext [OF c c'(2)])
  have cfg: "config c' = config (fc s)" using ext_rely [OF c'(2)] by (simp add: rely_def)
  have V: "\<forall>R. V (gimg R (fc s)) (gimg R c')" using c'(2) by (simp add: ext_def)
  note i = end_rotation_idle [OF s']
  note u = unlink_idle [OF i(1), where env = env]
  show ?thesis
    using c'(1) i u cfg V
    by (cases r) (auto simp: checkpoint_and_clean_def freturn_def end_rotation_def [of c'])
qed

section \<open>The body of a flush\<close>

lemma start_inv:
  assumes "ext V c (fc s)" "fm s = m" "tiers_ok ix bx (v\<lparr> manifest := m \<rparr>) (ft s)"
    and "\<forall>q. objects v (remote (tw (ft s))) q = ob q"
  shows "chunk_inv env ix bx v V m c ff crcs D ob {} start_progress s"
  using assms by (simp add: chunk_inv_def up_inv_def start_progress_def appended_Nil)

text \<open>Everything up to the manifest sync.\<close>

lemma uploads_ok:
  assumes laws: "flush_laws env ce ix bx v V" and rot: "rotated env v plain m c ff crcs D ob"
    and s: "ext V c (fc s)" "fm s = m" "tiers_ok ix bx (v\<lparr> manifest := m \<rparr>) (ft s)" "objects v (remote (tw (ft s))) = ob"
    and pc: "partition_chunks m D [] = Some pc"
    and run: "fbind (on_tiers (warm_indexes ce (store v) (concat (map (\<lambda>(ci, _). map (Pair ci) (chunk_packs m ci)) pc)))) (\<lambda>_.
       fbind (flush_chunks env ce (store v) warm crcs (the (blocks_per_chunk m)) pc start_progress) (\<lambda>pr.
       fbind (on_tiers (drain_all env ce (store v) (the (blocks_per_chunk m)) pr)) (\<lambda>pr.
       fbind (apply_staged pr) K))) s = res"
  obtains (fail) e s' where "res = Some (Inl e, s')" "midway ix bx v plain V m c D s'"
    | (ok) pr s1 where "K pr s1 = res" "midway ix bx v plain V m c D s1"
        "set (flushed pr) = {b \<in> set D. pages_ok env c ff crcs b}"
        "\<forall>b\<in>set D. \<not> pages_ok env c ff crcs b \<longrightarrow> states (fc s1) ! b \<noteq> SYNCING"
        "\<forall>k<dsize c. k div bsize c \<in> set D \<and> pages_ok env c ff crcs (k div bsize c) \<longrightarrow> stored_image v plain c (fm s1) k = ff ! k"
proof -
  have wf: "ci_wf c" "vm_geometry m c" and ids: "ids_name_packs env v m c ff crcs D ob" using rot by (simp_all add: rotated_def)
  have l: "cache_laws ce ix bx" "suffix_true (object_store (store v)) (objects v)" using laws by (simp_all add: flush_laws_def)
  have addr: "\<forall>b\<in>set D. chunk_idx_for_block m (of_nat b) = Some (chunk_of m b)"
    using block_addressed(1) [OF wf(1) _ wf(2)] rot by (simp add: rotated_def)
  have pc': "distinct (map fst pc)" "\<forall>(ci, bs)\<in>set pc. bs = blocks_in m D ci" "fst ` set pc = chunk_of m ` set D"
    using partition_all [OF addr] pc by auto
  obtain w t1 where w: "warm_indexes ce (store v) (concat (map (\<lambda>(ci, _). map (Pair ci) (chunk_packs m ci)) pc)) (ft s) = (w, t1)"
    by force
  have warmed: "\<forall>(ci, p)\<in>set (concat (map (\<lambda>(ci, _). map (Pair ci) (chunk_packs m ci)) pc)). in_manifest (manifest (v\<lparr> manifest := m \<rparr>)) ci p"
    by (auto simp: in_manifest_packs)
  have w': "w = Inr ()" "tiers_ok ix bx (v\<lparr> manifest := m \<rparr>) t1" "objects v (remote (tw t1)) = ob"
    using warm_indexes_ok [of ce ix bx "v\<lparr> manifest := m \<rparr>", OF l(1) _ warmed s(3)] l(2) w s(4) by simp_all
  define s0 where "s0 = s\<lparr> ft := t1 \<rparr>"
  have inv0: "chunk_inv env ix bx v V m c ff crcs D ob {} start_progress s0"
    by (rule start_inv) (use s w' in \<open>simp_all add: s0_def\<close>)
  obtain x s1 where x: "flush_chunks env ce (store v) warm crcs (the (blocks_per_chunk m)) pc start_progress s0 = Some (x, s1)"
      "stopped ix bx v V m c s1"
      "\<And>pr. x = Inr pr \<Longrightarrow> chunk_inv env ix bx v V m c ff crcs D ob (chunk_of m ` set D) pr s1"
    using flush_chunks_ok [OF laws rot pc'(2,1) inv0, of warm] pc'(3) by (auto simp del: split_paired_Ex)
  have run1: "fbind (flush_chunks env ce (store v) warm crcs (the (blocks_per_chunk m)) pc start_progress) (\<lambda>pr.
       fbind (on_tiers (drain_all env ce (store v) (the (blocks_per_chunk m)) pr)) (\<lambda>pr.
       fbind (apply_staged pr) K)) s0 = res"
    using run w w'(1) by (simp add: fbind_def on_tiers_def s0_def)
  show ?thesis
  proof (cases x)
    case (Inl e)
    then have "res = Some (Inl e, s1)" using run1 x(1) by (simp add: fbind_def)
    then show ?thesis using fail stopped_midway [OF x(2)] by blast
  next
    case (Inr pr)
    note inv1 = x(3) [OF Inr]
    obtain y t2 where y: "drain_all env ce (store v) (the (blocks_per_chunk m)) pr (ft s1) = (y, t2)" by force
    have u1: "up_inv env ix bx v m c ff crcs D ob (chunk_of m ` set D) pr (ft s1)" "ext V c (fc s1)" "fm s1 = m"
      using inv1 by (simp_all add: chunk_inv_def)
    note d = drain_all_ok [OF laws ids u1(1) y]
    have run2: "fbind (on_tiers (drain_all env ce (store v) (the (blocks_per_chunk m)) pr)) (\<lambda>pr. fbind (apply_staged pr) K) s1 = res"
      using run1 x(1) Inr by (simp add: fbind_def)
    show ?thesis
    proof (cases y)
      case (Inl e)
      then have "res = Some (Inl e, s1\<lparr> ft := t2 \<rparr>)" using run2 y by (simp add: fbind_def on_tiers_def)
      moreover have "stopped ix bx v V m c (s1\<lparr> ft := t2 \<rparr>)" using u1(2,3) d(1) by (simp add: stopped_def)
      ultimately show ?thesis using fail stopped_midway by blast
    next
      case (Inr pr2)
      let ?s = "s1\<lparr> ft := t2 \<rparr>"
      have fl: "set (flushed pr2) = {b \<in> set D. pages_ok env c ff crcs b}"
        using inv1 d(2) [OF Inr] by (auto simp: chunk_inv_def)
      have data: "\<forall>b\<in>set D. pages_ok env c ff crcs b \<longrightarrow> data_of env c ff b \<noteq> None"
        using inv1 d(2) [OF Inr] fl by (auto simp: chunk_inv_def)
      obtain pr3 s3 where a: "apply_staged pr2 ?s = Some (Inr pr3, s3)" "fc s3 = fc s1" "flushed pr3 = flushed pr2"
          "midway ix bx v plain V m c D s3"
          "\<forall>k<dsize c. k div bsize c \<in> set D \<and> pages_ok env c ff crcs (k div bsize c) \<longrightarrow> stored_image v plain c (fm s3) k = ff ! k"
        using apply_staged_ok [OF rot, of V ?s ix bx pr2] u1(2,3) d(2) [OF Inr] data by auto
      have "K pr3 s3 = res" using run2 y Inr a(1) by (simp add: fbind_def on_tiers_def)
      moreover have "\<forall>b\<in>set D. \<not> pages_ok env c ff crcs b \<longrightarrow> states (fc s3) ! b \<noteq> SYNCING"
        using inv1 a(2) by (simp add: chunk_inv_def)
      ultimately show ?thesis using ok a(3-5) fl by simp
    qed
  qed
qed

lemma midway_ext:
  assumes "tolerant env V" "ci_wf c" "midway ix bx v plain V m c D s" "ext V (fc s) c'"
  shows "midway ix bx v plain V m c D (s\<lparr> fc := c' \<rparr>)"
  using assms ext_trans [OF assms(1,2) _ assms(4)] by (simp add: midway_def)

text \<open>What a flush that ends has done: the cache is idle and the guest saw what other tasks did.\<close>

definition unseen :: "('c \<Rightarrow> PackId \<Rightarrow> PackIndexEntry list option) \<Rightarrow> ('c \<Rightarrow> Blake3Hash \<Rightarrow> bytes option)
    \<Rightarrow> 's volume \<Rightarrow> (Blake3Hash \<Rightarrow> bytes) \<Rightarrow> (bytes \<Rightarrow> bytes \<Rightarrow> bool) \<Rightarrow> VolumeManifest \<Rightarrow> CacheInner
    \<Rightarrow> ('s, 'c) flush_state \<Rightarrow> bool" where
  "unseen ix bx v plain V m c s \<longleftrightarrow> idle (fc s) \<and> config (fc s) = config c
     \<and> tiers_ok ix bx (v\<lparr> manifest := fm s \<rparr>) (ft s)
     \<and> V (gimg (stored_image v plain c m) c) (gimg (stored_image v plain c (fm s)) (fc s))"

text \<open>From the eviction to the cleanup.\<close>

lemma evict_and_clean_ok:
  assumes tol: "tolerant env V" and rot: "rotated env v plain m c ff crcs D ob"
    and s: "midway ix bx v plain V m c D s" "set (flushed pr) = {b \<in> set D. pages_ok env c ff crcs b}"
      "\<forall>b\<in>set D. \<not> pages_ok env c ff crcs b \<longrightarrow> states (fc s) ! b \<noteq> SYNCING"
      "\<forall>k<dsize c. k div bsize c \<in> set D \<and> pages_ok env c ff crcs (k div bsize c) \<longrightarrow> stored_image v plain c (fm s) k = ff ! k"
  shows "\<exists>r s'. fbind (pause env BeforeEvict) (\<lambda>_.
      fbind (evict_flushed pr) (\<lambda>stats.
      fbind (pause env AfterEvict) (\<lambda>_.
      fbind (checkpoint_and_clean env) (\<lambda>_. freturn stats)))) s = Some (Inr r, s') \<and> unseen ix bx v plain V m c s'"
proof -
  have wf: "ci_wf c" "flushing_file c = Some ff" using rot by (simp_all add: rotated_def)
  have tr: "transp V" using tol by (simp add: tolerant_def)
  define cc where "cc = others env BeforeEvict (fc s)"
  have e1: "ext V c (fc s)" using s(1) by (simp add: midway_def)
  have e2: "ext V (fc s) cc" unfolding cc_def by (rule ext_others [OF tol ext_wf [OF e1]])
  have ec: "ext V c cc" by (rule ext_trans [OF tol wf(1) e1 e2])
  note k = rely_keeps [OF wf(1) ext_rely [OF ec]] and k0 = rely_keeps [OF ext_wf [OF e1] ext_rely [OF e2]]
  have cfg: "config cc = config c" using ext_rely [OF ec] by (simp add: rely_def)
  let ?R = "stored_image v plain c (fm s)"
  have all: "\<forall>i<num_blocks cc. states cc ! i = SYNCING \<longrightarrow> i \<in> set (flushed pr)"
  proof (intro allI impI)
    fix i assume i: "i < num_blocks cc" "states cc ! i = SYNCING"
    have n: "i < num_blocks c" "i < num_blocks (fc s)" using i(1) k(2) k0(2) by simp_all
    have "i \<in> set D" using k(5) [OF n(1)] i(2) rot n(1) by (auto simp: rotated_def)
    moreover have "pages_ok env c ff crcs i" using k0(5) [OF n(2)] s(3) i(2) calculation by blast
    ultimately show "i \<in> set (flushed pr)" using s(2) by simp
  qed
  have bs: "\<forall>b\<in>set (flushed pr). b < num_blocks cc" using s(2) rot k(2) by (auto simp: rotated_def)
  have ff: "flushing_file cc = Some ff" using k(1) wf(2) by simp
  have img: "\<forall>k<dsize cc. k div bsize cc \<in> set (flushed pr) \<longrightarrow> ?R k = ff ! k" using s(2,4) cfg by simp
  obtain n ce where ev: "evict_blocks (flushed pr) cc = Some (n, ce)" "settled ce" "same_rest cc ce" "gimg ?R ce = gimg ?R cc"
    using evict_settled [OF k(3) bs ff img all] by blast
  define cd where "cd = others env AfterEvict ce"
  have ed: "ext V ce cd" unfolding cd_def using ext_others [OF tol] ev(2) by (simp add: settled_def)
  define sd where "sd = s\<lparr> fc := cd \<rparr>"
  obtain s' where s': "checkpoint_and_clean env sd = Some (Inr (), s')" "idle (fc s')" "config (fc s') = config cd"
      "fm s' = fm s" "ft s' = ft s" "\<And>R. V (gimg R cd) (gimg R (fc s'))"
    using checkpoint_and_clean_ok [OF tol, of sd] settled_ext [OF ev(2) ed] by (auto simp: sd_def)
  have "config (fc s') = config c"
    using s'(3) ext_rely [OF ed] same_rest_simps(1) [OF ev(3)] cfg by (simp add: rely_def)
  moreover have "V (gimg (stored_image v plain c m) c) (gimg ?R (fc s'))"
  proof -
    have "gimg (stored_image v plain c m) cc = gimg ?R cc"
      using midway_image [OF rot midway_ext [OF tol wf(1) s(1) e2]] by simp
    then have "V (gimg (stored_image v plain c m) c) (gimg ?R ce)" using ec ev(4) unfolding ext_def by metis
    moreover have "V (gimg ?R ce) (gimg ?R cd)" using ed by (simp add: ext_def)
    ultimately show ?thesis using s'(6) [of ?R] tr by (meson transpD)
  qed
  ultimately have "unseen ix bx v plain V m c s'" using s(1) s'(2,4,5) by (simp add: unseen_def midway_def)
  then show ?thesis
    using ev(1) s'(1) by (simp add: fbind_def pause_def cc_def evict_flushed_def freturn_def cd_def sd_def)
qed

text \<open>The same with the sync in front.\<close>

lemma finish_ok:
  assumes laws: "flush_laws env ce ix bx v V" and rot: "rotated env v plain m c ff crcs D ob"
    and s: "midway ix bx v plain V m c D s" "set (flushed pr) = {b \<in> set D. pages_ok env c ff crcs b}"
      "\<forall>b\<in>set D. \<not> pages_ok env c ff crcs b \<longrightarrow> states (fc s) ! b \<noteq> SYNCING"
      "\<forall>k<dsize c. k div bsize c \<in> set D \<and> pages_ok env c ff crcs (k div bsize c) \<longrightarrow> stored_image v plain c (fm s) k = ff ! k"
  shows "\<exists>r s'. fbind (pause env AfterUploads) (\<lambda>_.
      fbind (if staged pr = [] then freturn () else sync_staged env (store v)) (\<lambda>_.
      fbind (pause env BeforeEvict) (\<lambda>_.
      fbind (evict_flushed pr) (\<lambda>stats.
      fbind (pause env AfterEvict) (\<lambda>_.
      fbind (checkpoint_and_clean env) (\<lambda>_. freturn stats)))))) s = Some (r, s')
    \<and> (if is_ok r then unseen ix bx v plain V m c s' else midway ix bx v plain V m c D s')"
proof -
  have tol: "tolerant env V" using laws by (simp add: flush_laws_def)
  have wf: "ci_wf c" using rot by (simp add: rotated_def)
  define sa where "sa = s\<lparr> fc := others env AfterUploads (fc s) \<rparr>"
  have e0: "ext V c (fc s)" using s(1) by (simp add: midway_def)
  have ea: "ext V (fc s) (fc sa)" unfolding sa_def using ext_others [OF tol ext_wf [OF e0]] by simp
  have a: "midway ix bx v plain V m c D sa"
    unfolding sa_def by (rule midway_ext [OF tol wf s(1) ext_others [OF tol ext_wf [OF e0]]])
  obtain x sb where x: "(if staged pr = [] then freturn () else sync_staged env (store v)) sa = Some (x, sb)"
      "ext V (fc sa) (fc sb)" "fm sb = fm sa" "tiers_ok ix bx (v\<lparr> manifest := fm sa \<rparr>) (ft sb)"
  proof (cases "staged pr = []")
    case True
    then show ?thesis using that a ext_refl [OF tol] ext_wf by (auto simp: freturn_def midway_def)
  next
    case False
    have "ci_wf (fc sa)" "tiers_ok ix bx (v\<lparr> manifest := fm sa \<rparr>) (ft sa)" using a ext_wf by (auto simp: midway_def)
    from sync_staged_ok [OF laws this] show ?thesis using that False by auto
  qed
  have b: "midway ix bx v plain V m c D sb"
    using a x(2-4) ext_trans [OF tol wf] by (auto simp: midway_def)
  show ?thesis
  proof (cases x)
    case (Inl e)
    then show ?thesis using x(1) b by (auto simp: fbind_def pause_def sa_def)
  next
    case (Inr u)
    have fm: "fm sb = fm s" using x(3) by (simp add: sa_def)
    note k = rely_keeps [OF ext_wf [OF e0] ext_rely [OF ext_trans [OF tol ext_wf [OF e0] ea x(2)]]]
    have nb: "num_blocks (fc s) = num_blocks c" by (rule rely_keeps(2) [OF wf ext_rely [OF e0]])
    have "\<forall>b\<in>set D. \<not> pages_ok env c ff crcs b \<longrightarrow> states (fc sb) ! b \<noteq> SYNCING"
      using s(3) k(5) rot nb by (simp add: rotated_def)
    from evict_and_clean_ok [OF tol rot b s(2) this] s(4) fm obtain r s' where
      "fbind (pause env BeforeEvict) (\<lambda>_.
        fbind (evict_flushed pr) (\<lambda>stats.
        fbind (pause env AfterEvict) (\<lambda>_.
        fbind (checkpoint_and_clean env) (\<lambda>_. freturn stats)))) sb = Some (Inr r, s')" "unseen ix bx v plain V m c s'"
      by auto
    then show ?thesis using x(1) Inr by (simp add: fbind_def [of "pause env AfterUploads"]
        fbind_def [of "if staged pr = [] then freturn () else sync_staged env (store v)"] pause_def [of env AfterUploads] sa_def)
  qed
qed

text \<open>The whole body: it never panics, and its failures leave the claimed blocks in the cache.\<close>

lemma flush_dirty_body_ok:
  assumes laws: "flush_laws env ce ix bx v V" and rot: "rotated env v plain m c ff crcs D ob"
    and s: "ext V c (fc s)" "fm s = m" "tiers_ok ix bx (v\<lparr> manifest := m \<rparr>) (ft s)" "objects v (remote (tw (ft s))) = ob"
  shows "\<exists>r s'. flush_dirty_body env ce (store v) warm crcs D s = Some (r, s')
    \<and> (if is_ok r then unseen ix bx v plain V m c s' else midway ix bx v plain V m c D s')"
proof -
  have wf: "ci_wf c" "vm_geometry m c" using rot by (simp_all add: rotated_def)
  have "\<forall>b\<in>set D. chunk_idx_for_block m (of_nat b) = Some (chunk_of m b)"
    using block_addressed(1) [OF wf(1) _ wf(2)] rot by (simp add: rotated_def)
  then obtain pc where pc: "partition_chunks m D [] = Some pc" using partition_all by blast
  have "block_size m \<noteq> 0" using wf by (auto simp: vm_geometry_def ci_wf_def geometry_ok_def)
  then obtain bpc where bpc: "blocks_per_chunk m = Some bpc" by (auto simp: blocks_per_chunk_def)
  define res where "res = flush_dirty_body env ce (store v) warm crcs D s"
  have run: "fbind (on_tiers (warm_indexes ce (store v) (concat (map (\<lambda>(ci, _). map (Pair ci) (chunk_packs m ci)) pc)))) (\<lambda>_.
       fbind (flush_chunks env ce (store v) warm crcs (the (blocks_per_chunk m)) pc start_progress) (\<lambda>pr.
       fbind (on_tiers (drain_all env ce (store v) (the (blocks_per_chunk m)) pr)) (\<lambda>pr.
       fbind (apply_staged pr) (\<lambda>pr.
       fbind (pause env AfterUploads) (\<lambda>_.
       fbind (if staged pr = [] then freturn () else sync_staged env (store v)) (\<lambda>_.
       fbind (pause env BeforeEvict) (\<lambda>_.
       fbind (evict_flushed pr) (\<lambda>stats.
       fbind (pause env AfterEvict) (\<lambda>_.
       fbind (checkpoint_and_clean env) (\<lambda>_. freturn stats)))))))))) s = res"
    using pc bpc s(2) by (simp add: res_def flush_dirty_body_def)
  show ?thesis
  proof (rule uploads_ok [OF laws rot s pc run])
    fix e s' assume "res = Some (Inl e, s')" "midway ix bx v plain V m c D s'"
    then show ?thesis by (simp add: res_def)
  next
    fix pr s1
    assume ok: "fbind (pause env AfterUploads) (\<lambda>_.
       fbind (if staged pr = [] then freturn () else sync_staged env (store v)) (\<lambda>_.
       fbind (pause env BeforeEvict) (\<lambda>_.
       fbind (evict_flushed pr) (\<lambda>stats.
       fbind (pause env AfterEvict) (\<lambda>_.
       fbind (checkpoint_and_clean env) (\<lambda>_. freturn stats)))))) s1 = res"
      "midway ix bx v plain V m c D s1" "set (flushed pr) = {b \<in> set D. pages_ok env c ff crcs b}"
      "\<forall>b\<in>set D. \<not> pages_ok env c ff crcs b \<longrightarrow> states (fc s1) ! b \<noteq> SYNCING"
      "\<forall>k<dsize c. k div bsize c \<in> set D \<and> pages_ok env c ff crcs (k div bsize c) \<longrightarrow> stored_image v plain c (fm s1) k = ff ! k"
    from finish_ok [OF laws rot ok(2-5)] show ?thesis unfolding ok(1) res_def .
  qed
qed

section \<open>The recovery of a failed flush\<close>

lemma recover_blocks_back_ok:
  assumes io: "io_works io"
  shows "\<lbrakk> ci_wf c; flushing_file c = Some ff; \<forall>b\<in>set bs. b < num_blocks c \<rbrakk> \<Longrightarrow>
    \<exists>f. recover_blocks_back io bs c = Some (bs, c\<lparr> data_file := f \<rparr>) \<and> length f = dsize c
      \<and> (\<forall>k<dsize c. f ! k = (if k div bsize c \<in> set bs \<and> states c ! (k div bsize c) = SYNCING then ff ! k else data_file c ! k))"
proof (induction bs arbitrary: c)
  case Nil
  then show ?case by (intro exI [of _ "data_file c"]) (simp add: ci_wf_def)
next
  case (Cons b bs)
  have b: "b < num_blocks c" using Cons.prems(3) by simp
  have g: "geometry_ok c" and len: "length (data_file c) = dsize c" "length ff = dsize c"
    using Cons.prems(1,2) by (simp_all add: ci_wf_def)
  show ?case
  proof (cases "states c ! b = SYNCING")
    case True
    let ?d = "c\<lparr> data_file := overwrite (data_file c) (b * bsize c) (blk c ff b) \<rparr>"
    have d: "ci_wf ?d" "states ?d = states c" using overwrite_wf [OF Cons.prems(1,2) b] by (simp_all add: states_def)
    obtain f where f: "recover_blocks_back io bs ?d = Some (bs, ?d\<lparr> data_file := f \<rparr>)" "length f = dsize c"
        "\<forall>k<dsize c. f ! k = (if k div bsize c \<in> set bs \<and> states c ! (k div bsize c) = SYNCING then ff ! k
            else overwrite (data_file c) (b * bsize c) (blk c ff b) ! k)"
      using Cons.IH [OF d(1)] Cons.prems(2,3) d(2) by auto
    have "overwrite (data_file c) (b * bsize c) (blk c ff b) ! k = (if k div bsize c = b then ff ! k else data_file c ! k)"
      if k: "k < dsize c" for k
      using nth_overwrite_blk [OF g k len(2,1) b] .
    then show ?thesis
      using f ci_get [OF Cons.prems(1) b] True copy_back_ok [OF io Cons.prems(1,2) b] Cons.prems(2)
      by (intro exI [of _ f]) auto
  next
    case False
    from Cons.IH [OF Cons.prems(1,2)] Cons.prems(3) obtain f where
      "recover_blocks_back io bs c = Some (bs, c\<lparr> data_file := f \<rparr>)" "length f = dsize c"
      "\<forall>k<dsize c. f ! k = (if k div bsize c \<in> set bs \<and> states c ! (k div bsize c) = SYNCING then ff ! k else data_file c ! k)"
      by auto
    then show ?thesis using ci_get [OF Cons.prems(1) b] False by (intro exI [of _ f]) auto
  qed
qed

lemma all_to_dirty_ok:
  "\<lbrakk> ci_wf c; \<forall>b\<in>set bs. b < num_blocks c \<rbrakk> \<Longrightarrow> \<exists>c'. all_to_dirty bs c = Some c' \<and> ci_wf c' \<and> same_rest c c'
     \<and> (\<forall>i<num_blocks c. states c' ! i = (if i \<in> set bs then DIRTY else states c ! i))"
proof (induction bs arbitrary: c)
  case (Cons b bs)
  obtain c1 where c1: "ci_transition_to_dirty c b = Some (states c ! b \<noteq> DIRTY, c1)" "ci_wf c1"
      "states c1 = (states c)[b := DIRTY]" "same_rest c c1"
    using ci_transition_to_dirty_ok [OF Cons.prems(1), of b] Cons.prems(2) by auto
  have nb: "num_blocks c1 = num_blocks c" by (rule same_rest_simps(4) [OF c1(4)])
  obtain c' where c': "all_to_dirty bs c1 = Some c'" "ci_wf c'" "same_rest c1 c'"
      "\<forall>i<num_blocks c. states c' ! i = (if i \<in> set bs then DIRTY else states c1 ! i)"
    using Cons.IH [OF c1(2)] Cons.prems(2) nb by auto
  have "states c' ! i = (if i \<in> set (b # bs) then DIRTY else states c ! i)" if "i < num_blocks c" for i
    using c'(4) c1(3) that length_states [OF Cons.prems(1)] by (cases "i = b") auto
  then show ?case using c1(1) c'(1,2) same_rest_trans [OF c1(4) c'(3)] by auto
qed simp

lemma recover_flush_ok:
  assumes io: "io_works (sync_io env)" and wf: "ci_wf c" and ff: "flushing_file c = Some ff"
    and D: "\<forall>b\<in>set D. b < num_blocks c \<and> has_local c b" "\<forall>i<num_blocks c. states c ! i = SYNCING \<longrightarrow> i \<in> set D"
  shows "\<exists>c'. recover_flush env D c = Some c' \<and> idle c' \<and> config c' = config c \<and> (\<forall>R. gimg R c' = gimg R c)"
proof -
  obtain f where f: "recover_blocks_back (sync_io env) D c = Some (D, c\<lparr> data_file := f \<rparr>)" "length f = dsize c"
      "\<forall>k<dsize c. f ! k = (if k div bsize c \<in> set D \<and> states c ! (k div bsize c) = SYNCING then ff ! k else data_file c ! k)"
    using recover_blocks_back_ok [OF io wf ff, of D] D(1) by blast
  define d where "d = unlink_flushing env (c\<lparr> data_file := f, flushing_active := False, rotation_seq := 0, flushing_file := None \<rparr>)"
  have d: "ci_wf d" "states d = states c" "config d = config c" "num_blocks d = num_blocks c" "data_file d = f" "flushing_file d = None"
    using wf f(2) by (simp_all add: d_def unlink_flushing_def ci_wf_def geometry_ok_def counters_ok_def states_def)
  obtain c' where c': "all_to_dirty D d = Some c'" "ci_wf c'" "same_rest d c'"
      "\<forall>i<num_blocks c. states c' ! i = (if i \<in> set D then DIRTY else states c ! i)"
    using all_to_dirty_ok [OF d(1), of D] D(1) d(2,4) by auto
  note r = same_rest_simps [OF c'(3)]
  have run: "recover_flush env D c = Some c'"
    using f(1) c'(1) by (simp add: recover_flush_def Let_def d_def filter_empty_conv)
  have "settled c'" unfolding settled_def using c'(2,4) r(4) d(4) D(2) by (auto simp: block_state_distinct)
  then have i: "idle c'" using r(3) d(6) by (simp add: idle_def)
  have "gimg R c' = gimg R c" for R
  proof (rule gimg_cong)
    fix k assume k: "k < dsize c"
    let ?b = "k div bsize c"
    have b: "?b < num_blocks c" by (rule block_of_byte [OF _ k]) (use wf in \<open>simp add: ci_wf_def\<close>)
    have st: "states c' ! ?b = (if ?b \<in> set D then DIRTY else states c ! ?b)" using c'(4) b by simp
    have fk: "data_file c' ! k = (if ?b \<in> set D \<and> states c ! ?b = SYNCING then ff ! k else data_file c ! k)"
      using f(3) k r(2) d(5) by simp
    show "view R c' k = view R c k"
      using st fk k D b ff r(1,3) d(3,6)
      by (auto simp: view_def nth_src_file promoted_def promotable_def block_state_distinct)
  qed (simp add: r(1) d(3))
  then show ?thesis using run i r(1) d(3) by simp
qed

section \<open>A flush is invisible\<close>

text \<open>The state in which the rotation starts.\<close>

definition rotation_start :: "flush_env \<Rightarrow> CacheInner \<Rightarrow> CacheInner" where
  "rotation_start env c =
     others env AfterCrcDrain ((snd (the (clear_stale env c)))\<lparr> page_crcs := snd (drain_page_crcs (page_crcs c)) \<rparr>)"

text \<open>
  What a flush needs of the state it rotates: the manifest fits the device, the indexes are
  well formed, and neither the hashes of the dirty blocks nor the identifiers of the packs
  they form collide.
\<close>

definition flushable :: "flush_env \<Rightarrow> 's volume \<Rightarrow> (Blake3Hash \<Rightarrow> bytes) \<Rightarrow> VolumeManifest \<Rightarrow> CacheInner
    \<Rightarrow> (string \<Rightarrow> bytes option) \<Rightarrow> bool" where
  "flushable env v plain m c ob \<longleftrightarrow>
     (let c0 = rotation_start env c; ff = data_file c0
      in vm_geometry m c0 \<and> index_ok v m (zero_block_hash c0) \<and> unambiguous env plain c0 ff
       \<and> ids_name_packs env v m c0 ff (fst (drain_page_crcs (page_crcs c))) (dirty_list c0) ob)"

lemma spec_same:
  assumes "config c' = config c" "zero_block_hash c' = zero_block_hash c" "compression_level c' = compression_level c"
    "num_blocks c' = num_blocks c"
  shows "vm_geometry m c' = vm_geometry m c" "unambiguous env plain c' = unambiguous env plain c"
    "ids_name_packs env v m c' = ids_name_packs env v m c"
proof -
  have c: "content c' = content c" using assms(1) by (auto simp: content_def blk_def valid_bytes_def fun_eq_iff)
  have h: "hash_of env c' = hash_of env c" "data_of env c' = data_of env c" "pages_ok env c' = pages_ok env c"
    using assms unfolding hash_of_def data_of_def pages_ok_def c by (simp_all add: fun_eq_iff)
  show "vm_geometry m c' = vm_geometry m c" using assms(1) by (simp add: vm_geometry_def)
  show "unambiguous env plain c' = unambiguous env plain c"
    unfolding unambiguous_def c h assms(2,4) by (rule refl)
  have "new_pack env v m c' = new_pack env v m c"
    unfolding new_pack_def pack_contents_def pack_block_of_def new_blocks_def held_already_def c h assms(2) by (rule refl)
  then show "ids_name_packs env v m c' = ids_name_packs env v m c"
    unfolding ids_name_packs_def new_id_def by simp
qed

lemma idle_ext: "\<lbrakk> idle c; ext V c c' \<rbrakk> \<Longrightarrow> idle c' \<and> config c' = config c"
  using settled_ext [of c V c'] ext_rely [of V c c'] by (simp add: idle_def rely_def)

lemma clear_stale_ok:
  assumes tol: "tolerant env V" and c: "idle c"
  shows "\<exists>go c'. clear_stale env c = Some (Inr go, c') \<and> ext V c c' \<and> page_crcs c' = page_crcs c"
proof -
  have wf: "ci_wf c" "flushing_file c = None" using c by (simp_all add: idle_def settled_def)
  have e: "ext V c (c\<lparr> flushing_active := a, rotation_seq := r, flushing_file := None, flushing_disk := d \<rparr>)" for a r d
    by (rule ext_same [OF tol]; use wf in \<open>simp add: rely_def ci_wf_def geometry_ok_def counters_ok_def states_def
      gimg_def view_def src_file_def promoted_def\<close>)
  have eq: "end_rotation c = c\<lparr> flushing_active := False, rotation_seq := 0, flushing_file := None, flushing_disk := flushing_disk c \<rparr>"
    by (simp add: end_rotation_def)
  have e1: "ext V c (end_rotation c)" unfolding eq by (rule e)
  have e2: "ext V c ((end_rotation c)\<lparr> flushing_disk := None \<rparr>)" using e [where a = False and r = 0 and d = None] by (simp add: end_rotation_def)
  show ?thesis
    using ext_refl [OF tol wf(1)] quiet_fields(4) [OF wf(1) tol] e1 e2
    by (auto simp: clear_stale_def Let_def end_rotation_def)
qed

lemma rotate_any:
  assumes c: "idle c"
  obtains (fail) e c' where "rotate_and_snapshot renv c = Some (Inl e, c')" "idle c'" "config c' = config c" "\<And>R. gimg R c' = gimg R c"
    | (ok) c' where "rotate_and_snapshot renv c = Some (Inr (dirty_list c), c')" "ci_wf c'" "flushing_file c' = Some (data_file c)"
        "states c' = map syncing_of (states c)" "config c' = config c" "num_blocks c' = num_blocks c"
        "zero_block_hash c' = zero_block_hash c" "compression_level c' = compression_level c" "\<And>R. gimg R c' = gimg R c"
proof (cases "rename_error renv = None \<and> create_error renv = None")
  case True
  have wf: "ci_wf c" "flushing_file c = None" using c by (simp_all add: idle_def settled_def)
  have eq: "rotate_and_snapshot renv c = rotate_and_snapshot rotate_works c"
    using True by (simp add: rotate_and_snapshot_def rotate_data_file_inner_def rotate_works_def)
  obtain c' where c': "rotate_and_snapshot rotate_works c = Some (Inr (dirty_list c), c')" "ci_wf c'"
      "flushing_file c' = Some (data_file c)" "states c' = map syncing_of (states c)" "config c' = config c"
      "num_blocks c' = num_blocks c" "zero_block_hash c' = zero_block_hash c" "compression_level c' = compression_level c"
    using rotate_ok [OF wf(1)] by blast
  have "gimg R c' = gimg R c" for R
  proof (rule gimg_cong)
    fix k assume k: "k < dsize c"
    have b: "k div bsize c < length (states c)"
      using block_of_byte [OF _ k] wf(1) length_states [OF wf(1)] by (simp add: ci_wf_def)
    show "view R c' k = view R c k"
      using c'(3-5) k b wf(2)
      by (auto simp: view_def nth_src_file promoted_def promotable_def syncing_of_def block_state_distinct)
  qed (simp add: c'(5))
  then show ?thesis using ok eq c' by simp
next
  case False
  have set: "idle (c\<lparr> rotation_seq := r, flushing_active := a, flushing_disk := d \<rparr>)"
    "gimg R (c\<lparr> rotation_seq := r, flushing_active := a, flushing_disk := d \<rparr>) = gimg R c" for R r a d
    using c by (simp_all add: idle_def settled_def ci_wf_def geometry_ok_def counters_ok_def states_def gimg_def view_def
        src_file_def promoted_def)
  define f where "f e r a d = Some (Inl e :: CacheError + nat list, c\<lparr> rotation_seq := r, flushing_active := a, flushing_disk := d \<rparr>)" for e r a d
  have "\<exists>e r a d. rotate_and_snapshot renv c = f e r a d"
  proof (cases "rename_error renv")
    case None
    then obtain e where e: "create_error renv = Some e" using False by auto
    show ?thesis
    proof (cases "undo_error renv")
      case None
      then have "rotate_and_snapshot renv c = f (Io e) 0 False (flushing_disk c)"
        using e \<open>rename_error renv = None\<close> by (simp add: rotate_and_snapshot_def rotate_data_file_inner_def f_def)
      then show ?thesis by blast
    next
      case (Some u)
      then have "rotate_and_snapshot renv c = f (Io u) 0 False (Some (data_file c))"
        using e \<open>rename_error renv = None\<close> by (simp add: rotate_and_snapshot_def rotate_data_file_inner_def f_def)
      then show ?thesis by blast
    qed
  next
    case (Some e)
    then have "rotate_and_snapshot renv c = f (Io e) (seq_current (sequence c)) True (flushing_disk c)"
      by (simp add: rotate_and_snapshot_def rotate_data_file_inner_def f_def)
    then show ?thesis by blast
  qed
  then show ?thesis using fail set unfolding f_def by auto
qed

lemma unseen_before:
  assumes "tolerant env V" "unseen ix bx v plain V m c' s" "config c' = config c"
    and "V (gimg (stored_image v plain c m) c) (gimg (stored_image v plain c m) c')"
  shows "unseen ix bx v plain V m c s"
  using assms by (auto simp: unseen_def tolerant_def transp_def)

lemma fbind_Inr: "m s = Some (Inr a, s1) \<Longrightarrow> fbind m f s = f a s1"
  by (simp add: fbind_def)

lemma rotation_rotated:
  assumes c: "idle c" and c': "ci_wf c'" "flushing_file c' = Some (data_file c)" "states c' = map syncing_of (states c)"
      "config c' = config c" "num_blocks c' = num_blocks c" "zero_block_hash c' = zero_block_hash c"
      "compression_level c' = compression_level c"
    and h: "vm_geometry m c" "index_ok v m (zero_block_hash c)" "unambiguous env plain c (data_file c)"
      "ids_name_packs env v m c (data_file c) crcs (dirty_list c) ob"
  shows "rotated env v plain m c' (data_file c) crcs (dirty_list c) ob"
proof -
  have ls: "length (states c) = num_blocks c" using c length_states by (simp add: idle_def settled_def)
  have "\<forall>b\<in>set (dirty_list c). b < num_blocks c' \<and> has_local c' b"
    using c'(3,5) ls by (auto simp: dirty_list_def syncing_of_def)
  moreover have "\<forall>b<num_blocks c'. states c' ! b = SYNCING \<longrightarrow> b \<in> set (dirty_list c)"
    using c'(3,5) ls c by (auto simp: dirty_list_def syncing_of_def idle_def settled_def split: if_splits)
  moreover have "distinct (dirty_list c)" by (simp add: dirty_list_def)
  ultimately show ?thesis
    using c'(1,2,6) h spec_same(1,2) [OF c'(4,6,7,5)] spec_same(3) [OF c'(4,6,7,5), where v = v] by (simp add: rotated_def)
qed

text \<open>From the rotated state to the end, the recovery of a failure included.\<close>

lemma rotated_flush_ok:
  assumes laws: "flush_laws env ce ix bx v V" and rot: "rotated env v plain m c ff crcs D ob"
    and s: "fc s = c" "fm s = m" "tiers_ok ix bx (v\<lparr> manifest := m \<rparr>) (ft s)" "objects v (remote (tw (ft s))) = ob"
  shows "\<exists>r s'. fbind (pause env AfterRotation) (\<lambda>_ s.
        if D = [] then freturn (no_stats, seq) (s\<lparr> fc := unlink_flushing env (end_rotation (fc s)) \<rparr>)
        else (case flush_dirty_body env ce (store v) warm crcs D s of
                None \<Rightarrow> None
              | Some (Inr stats, s) \<Rightarrow> Some (Inr (stats, seq), s)
              | Some (Inl e, s) \<Rightarrow>
                  map_option (\<lambda>c. (Inl e, s\<lparr> fc := c \<rparr>)) (recover_flush env D (others env BeforeRecovery (fc s))))) s
      = Some (r, s') \<and> unseen ix bx v plain V m c s'"
proof -
  have tol: "tolerant env V" and io: "io_works (sync_io env)" using laws by (simp_all add: flush_laws_def)
  have wf: "ci_wf c" "flushing_file c = Some ff" using rot by (simp_all add: rotated_def)
  define s1 where "s1 = s\<lparr> fc := others env AfterRotation c \<rparr>"
  have e1: "ext V c (fc s1)" unfolding s1_def using ext_others [OF tol wf(1)] by simp
  have t1: "fm s1 = m" "tiers_ok ix bx (v\<lparr> manifest := m \<rparr>) (ft s1)" "objects v (remote (tw (ft s1))) = ob"
    using s by (simp_all add: s1_def)
  show ?thesis
  proof (cases "D = []")
    case True
    have "settled c" using rot True by (auto simp: rotated_def settled_def)
    note i = end_rotation_idle [OF settled_ext [OF this e1]]
    note u = unlink_idle [OF i(1), where env = env]
    let ?s = "s1\<lparr> fc := unlink_flushing env (end_rotation (fc s1)) \<rparr>"
    have "config (fc ?s) = config c" using u(3) ext_rely [OF e1] by (simp add: end_rotation_def rely_def)
    then have "unseen ix bx v plain V m c ?s" using e1 u i(2) t1 by (simp add: unseen_def ext_def)
    then show ?thesis using True s(1) by (simp add: fbind_def pause_def freturn_def s1_def)
  next
    case False
    obtain x s2 where x: "flush_dirty_body env ce (store v) warm crcs D s1 = Some (x, s2)"
        "if is_ok x then unseen ix bx v plain V m c s2 else midway ix bx v plain V m c D s2"
      using flush_dirty_body_ok [OF laws rot e1 t1] by blast
    show ?thesis
    proof (cases x)
      case (Inr stats)
      then show ?thesis using x False s(1) by (simp add: fbind_def pause_def s1_def)
    next
      case (Inl e)
      define c2 where "c2 = others env BeforeRecovery (fc s2)"
      have m2: "midway ix bx v plain V m c D s2" using x(2) Inl by simp
      have e2: "ext V c (fc s2)" using m2 by (simp add: midway_def)
      have m3: "midway ix bx v plain V m c D (s2\<lparr> fc := c2 \<rparr>)"
        unfolding c2_def by (rule midway_ext [OF tol wf(1) m2 ext_others [OF tol ext_wf [OF e2]]])
      have e3: "ext V c c2" using m3 by (simp add: midway_def)
      note k = rely_keeps [OF wf(1) ext_rely [OF e3]]
      have "\<forall>b\<in>set D. b < num_blocks c2 \<and> has_local c2 b" using k(2,4) rot by (simp add: rotated_def)
      moreover have "\<forall>i<num_blocks c2. states c2 ! i = SYNCING \<longrightarrow> i \<in> set D" using k(2,5) rot by (auto simp: rotated_def)
      ultimately obtain c3 where c3: "recover_flush env D c2 = Some c3" "idle c3" "config c3 = config c2" "\<And>R. gimg R c3 = gimg R c2"
        using recover_flush_ok [OF io k(3), of ff D] k(1) wf(2) by auto
      have "gimg (stored_image v plain c (fm s2)) c2 = gimg (stored_image v plain c m) c2"
        using midway_image [OF rot m3] by simp
      then have "unseen ix bx v plain V m c (s2\<lparr> fc := c3 \<rparr>)"
        using c3 e3 m3 ext_rely [OF e3] by (simp add: unseen_def ext_def rely_def midway_def)
      then show ?thesis using x(1) Inl False s(1) c3(1) by (simp add: fbind_def pause_def s1_def c2_def)
    qed
  qed
qed

text \<open>
  C0: A flush is invisible to the guest.  Whatever the object store answers, wherever the
  flush fails and whatever order its uploads complete in, it does not panic, it leaves the
  cache idle and every pack of the manifest stored, and what the guest reads has changed only
  by what other tasks did meanwhile.  The hypotheses exclude a pack identifier that the chunk
  already lists.
\<close>

theorem flush_invisible:
  assumes laws: "flush_laws env ce ix bx v V" and c: "idle (fc s)"
    and fl: "flushable env v plain (fm s) (fc s) (objects v (remote (tw (ft s))))"
    and t: "tiers_ok ix bx (v\<lparr> manifest := fm s \<rparr>) (ft s)"
  shows "\<exists>r s'. flush_dirty_inner env ce (store v) warm s = Some (r, s') \<and> unseen ix bx v plain V (fm s) (fc s) s'"
proof -
  have tol: "tolerant env V" using laws by (simp add: flush_laws_def)
  obtain go c1 where c1: "clear_stale env (fc s) = Some (Inr go, c1)" "ext V (fc s) c1" "page_crcs c1 = page_crcs (fc s)"
    using clear_stale_ok [OF tol c] by blast
  let ?R = "stored_image v plain (fc s) (fm s)"
  have stop: "unseen ix bx v plain V (fm s) (fc s) (s\<lparr> fc := c' \<rparr>)"
    if "idle c'" "config c' = config (fc s)" "V (gimg ?R (fc s)) (gimg ?R c')" for c'
    using that t by (simp add: unseen_def)
  show ?thesis
  proof (cases go)
    case False
    have "unseen ix bx v plain V (fm s) (fc s) (s\<lparr> fc := c1 \<rparr>)"
      using stop [of c1] idle_ext [OF c c1(2)] c1(2) by (simp add: ext_def)
    then show ?thesis using c1(1) False by (simp add: flush_dirty_inner_def fbind_def on_cache_def freturn_def Let_def)
  next
    case True
    define c0 where "c0 = rotation_start env (fc s)"
    let ?crcs = "fst (drain_page_crcs (page_crcs (fc s)))"
    have wf: "ci_wf (fc s)" using c by (simp add: idle_def settled_def)
    have d: "ext V c1 (c1\<lparr> page_crcs := snd (drain_page_crcs (page_crcs (fc s))) \<rparr>)" (is "ext V c1 ?c")
      by (rule quiet_fields(5) [OF ext_wf [OF c1(2)] tol])
    have c0_eq: "c0 = others env AfterCrcDrain ?c" by (simp add: c0_def rotation_start_def c1(1))
    have e0: "ext V (fc s) c0"
      using ext_trans [OF tol wf ext_trans [OF tol wf c1(2) d] ext_others [OF tol ext_wf [OF d], of AfterCrcDrain]] c0_eq by simp
    note i0 = idle_ext [OF c e0]
    define s0 where "s0 = s\<lparr> fc := c0 \<rparr>"
    have h: "on_cache (clear_stale env) s = Some (Inr True, s\<lparr> fc := c1 \<rparr>)"
      "on_cache drain_crcs (s\<lparr> fc := c1 \<rparr>) = Some (Inr ?crcs, s\<lparr> fc := ?c \<rparr>)"
      "pause env AfterCrcDrain (s\<lparr> fc := ?c \<rparr>) = Some (Inr (), s0)"
      using c1(1,3) True by (simp_all add: on_cache_def drain_crcs_def pause_def s0_def c0_eq split_beta)
    let ?seq = "seq_current (sequence (fc s))"
    let ?rest = "\<lambda>snapshot. fbind (pause env AfterRotation) (\<lambda>_ s.
        if snapshot = [] then freturn (no_stats, ?seq) (s\<lparr> fc := unlink_flushing env (end_rotation (fc s)) \<rparr>)
        else (case flush_dirty_body env ce (store v) warm ?crcs snapshot s of
                None \<Rightarrow> None
              | Some (Inr stats, s) \<Rightarrow> Some (Inr (stats, ?seq), s)
              | Some (Inl e, s) \<Rightarrow>
                  map_option (\<lambda>c. (Inl e, s\<lparr> fc := c \<rparr>)) (recover_flush env snapshot (others env BeforeRecovery (fc s)))))"
    have run: "flush_dirty_inner env ce (store v) warm s = fbind (on_cache (rotate_and_snapshot (rotating env))) ?rest s0"
      unfolding flush_dirty_inner_def Let_def fbind_Inr [of "on_cache (clear_stale env)" s, OF h(1)] not_True_eq_False if_False
        fbind_Inr [of "on_cache drain_crcs" "s\<lparr> fc := c1 \<rparr>", OF h(2)] fbind_Inr [of "pause env AfterCrcDrain" "s\<lparr> fc := ?c \<rparr>", OF h(3)]
      by (rule refl)
    show ?thesis
    proof (rule rotate_any [OF i0 [THEN conjunct1], of "rotating env"])
      fix e c' assume r: "rotate_and_snapshot (rotating env) c0 = Some (Inl e, c')" "idle c'" "config c' = config c0" "\<And>R. gimg R c' = gimg R c0"
      then have "flush_dirty_inner env ce (store v) warm s = Some (Inl e, s\<lparr> fc := c' \<rparr>)"
        unfolding run by (simp add: fbind_def on_cache_def s0_def)
      then show ?thesis using stop [of c'] r(2-4) i0 e0 by (simp add: ext_def)
    next
      fix c' assume r: "rotate_and_snapshot (rotating env) c0 = Some (Inr (dirty_list c0), c')" "ci_wf c'"
        "flushing_file c' = Some (data_file c0)" "states c' = map syncing_of (states c0)" "config c' = config c0"
        "num_blocks c' = num_blocks c0" "zero_block_hash c' = zero_block_hash c0" "compression_level c' = compression_level c0"
        "\<And>R. gimg R c' = gimg R c0"
      have rot: "rotated env v plain (fm s) c' (data_file c0) ?crcs (dirty_list c0) (objects v (remote (tw (ft s))))"
        by (rule rotation_rotated [OF i0 [THEN conjunct1] r(2-8)]) (use fl in \<open>simp_all add: flushable_def Let_def c0_def\<close>)
      have h4: "on_cache (rotate_and_snapshot (rotating env)) s0 = Some (Inr (dirty_list c0), s0\<lparr> fc := c' \<rparr>)"
        using r(1) by (simp add: on_cache_def s0_def)
      have f: "fc (s0\<lparr> fc := c' \<rparr>) = c'" "fm (s0\<lparr> fc := c' \<rparr>) = fm s" "tiers_ok ix bx (v\<lparr> manifest := fm s \<rparr>) (ft (s0\<lparr> fc := c' \<rparr>))"
        "objects v (remote (tw (ft (s0\<lparr> fc := c' \<rparr>)))) = objects v (remote (tw (ft s)))"
        using t by (simp_all add: s0_def)
      from rotated_flush_ok [OF laws rot f, where seq = ?seq and warm = warm]
      obtain x s' where x: "?rest (dirty_list c0) (s0\<lparr> fc := c' \<rparr>) = Some (x, s')" "unseen ix bx v plain V (fm s) c' s'"
        by blast
      have "unseen ix bx v plain V (fm s) (fc s) s'"
        by (rule unseen_before [OF tol x(2)]) (use r(5,9) i0 e0 in \<open>simp_all add: ext_def\<close>)
      then show ?thesis unfolding run fbind_Inr [of "on_cache (rotate_and_snapshot (rotating env))" s0, OF h4] x(1) by blast
    qed
  qed
qed

end
