(* ===== verification/Spec2Isabelle.thy ===== *)
theory Spec2Isabelle
  imports BlockMap Wal VolumeManifest Fence CircuitBreaker PackIndexCache CheckpointProtocol GcCollect FlushInvisible
begin

text \<open>
  A verification library for glidefs (header completed below as components are added).
\<close>

end
